(* ===== verification/CDT_Prelude.thy ===== *)
theory CDT_Prelude
  imports Main "HOL-Library.Word"
begin

text \<open>
  Shared vocabulary of the development: bytes and linear memory, the result type that makes
  every \<open>platon_throw\<close> of the library an explicit value, slices of memory, and big-endian
  numerals. Nothing here models a line of the repository by itself; the component theories
  do, over these types.
\<close>

section \<open>Collections of rewrite rules\<close>

named_theorems res_simps \<open>evaluation of the fault monad\<close>
named_theorems view_simps \<open>views of linear memory that are known to be well formed\<close>
named_theorems be_simps \<open>big-endian numerals\<close>

section \<open>Bytes, pointers and linear memory\<close>

text \<open>
  The contracts are compiled for wasm32: \<open>size_t\<close> and pointers have 32 bits, linear memory
  is one array of bytes, and the null pointer is address 0.
\<close>

type_synonym byte = "8 word"
type_synonym bytes = "byte list"
type_synonym memory = "byte list"
type_synonym ptr = nat

abbreviation size_max :: nat where
  "size_max \<equiv> 2 ^ 32 - 1"

definition seg :: "'a list \<Rightarrow> nat \<Rightarrow> nat \<Rightarrow> 'a list" where
  "seg xs p n = take n (drop p xs)"

lemma length_seg: "p + n \<le> length xs \<Longrightarrow> length (seg xs p n) = n"
  by (simp add: seg_def)

lemma nth_seg: "p + n \<le> length xs \<Longrightarrow> i < n \<Longrightarrow> seg xs p n ! i = xs ! (p + i)"
  by (simp add: seg_def)

lemma seg_0 [simp]: "seg xs p 0 = []"
  by (simp add: seg_def)

lemma seg_seg: "q + m \<le> n \<Longrightarrow> seg (seg xs p n) q m = seg xs (p + q) m"
  by (simp add: seg_def drop_take add.commute min_def)

lemma seg_all [simp]: "seg xs 0 (length xs) = xs"
  by (simp add: seg_def)

lemma seg_append: "seg xs p (m + n) = seg xs p m @ seg xs (p + m) n"
  by (simp add: seg_def take_add add.commute)

lemma seg_middle:
  "length xs = p \<Longrightarrow> length ys = n \<Longrightarrow> seg (xs @ ys @ zs) p n = ys"
  by (simp add: seg_def)

section \<open>Results: faults as values\<close>

text \<open>
  \<open>Throw msg\<close> is a call of \<open>internal::platon_throw(msg)\<close>, which ends in \<open>platon_panic\<close>
  and never returns. \<open>Revert msg\<close> is a failed \<open>platon_assert\<close>, which prints a message and calls
  \<open>platon_revert\<close>. \<open>Oob\<close> is an access outside the referenced range, for which the C++
  code has undefined behaviour (or a failed \<open>assert\<close> in a debug build). \<open>OutOfFuel\<close> is a
  loop that was not seen to end within the fuel of its model.
\<close>

datatype fault = Throw string | Revert string | Oob | OutOfFuel

type_synonym 'a res = "fault + 'a"

definition bind_res :: "'a res \<Rightarrow> ('a \<Rightarrow> 'b res) \<Rightarrow> 'b res" where
  "bind_res m f = (case m of Inl e \<Rightarrow> Inl e | Inr x \<Rightarrow> f x)"

lemma bind_res_Inl [simp, res_simps]: "bind_res (Inl e) f = Inl e"
  by (simp add: bind_res_def)

lemma bind_res_Inr [simp, res_simps]: "bind_res (Inr x) f = f x"
  by (simp add: bind_res_def)

lemma bind_res_assoc: "bind_res (bind_res m f) g = bind_res m (\<lambda>x. bind_res (f x) g)"
  by (cases m) simp_all

lemma bind_res_Inr_right [simp]: "bind_res m Inr = m"
  by (cases m) simp_all

lemma bind_res_eq_Inr:
  "bind_res m f = Inr y \<longleftrightarrow> (\<exists>x. m = Inr x \<and> f x = Inr y)"
  by (cases m) simp_all

lemma bind_res_eq_Inl:
  "bind_res m f = Inl e \<longleftrightarrow> m = Inl e \<or> (\<exists>x. m = Inr x \<and> f x = Inl e)"
  by (cases m) simp_all

lemma bind_res_cong [fundef_cong]:
  "m = m' \<Longrightarrow> (\<And>x. m' = Inr x \<Longrightarrow> f x = f' x) \<Longrightarrow> bind_res m f = bind_res m' f'"
  by (cases m') simp_all

fun map_res :: "('a \<Rightarrow> 'b res) \<Rightarrow> 'a list \<Rightarrow> 'b list res" where
  "map_res f [] = Inr []"
| "map_res f (x # xs) = bind_res (f x) (\<lambda>y. bind_res (map_res f xs) (\<lambda>ys. Inr (y # ys)))"

lemma map_res_cong [fundef_cong]:
  "xs = ys \<Longrightarrow> (\<And>x. x \<in> set ys \<Longrightarrow> f x = g x) \<Longrightarrow> map_res f xs = map_res g ys"
  by (induction ys arbitrary: xs) (auto intro!: bind_res_cong)

lemma map_res_map: "map_res f (map g xs) = map_res (\<lambda>x. f (g x)) xs"
  by (induction xs) simp_all

lemma map_res_Inr: "(\<And>x. x \<in> set xs \<Longrightarrow> f x = Inr (g x)) \<Longrightarrow> map_res f xs = Inr (map g xs)"
  by (induction xs) simp_all

text \<open>A computation that ends normally or in a thrown panic: no memory error, no divergence.\<close>

definition safe :: "'a res \<Rightarrow> bool" where
  "safe m \<longleftrightarrow> m \<noteq> Inl Oob \<and> m \<noteq> Inl OutOfFuel"

lemma safe_Inr [simp, intro]: "safe (Inr x)"
  by (simp add: safe_def)

lemma safe_Throw [simp, intro]: "safe (Inl (Throw s))"
  by (simp add: safe_def)

lemma safe_Revert [simp, intro]: "safe (Inl (Revert s))"
  by (simp add: safe_def)

lemma not_safe [simp]: "\<not> safe (Inl Oob)" "\<not> safe (Inl OutOfFuel)"
  by (simp_all add: safe_def)

lemma safe_bind [intro]:
  "safe m \<Longrightarrow> (\<And>x. m = Inr x \<Longrightarrow> safe (f x)) \<Longrightarrow> safe (bind_res m f)"
  by (cases m) (auto simp: safe_def)

lemma safe_if [intro]: "(c \<Longrightarrow> safe a) \<Longrightarrow> (\<not> c \<Longrightarrow> safe b) \<Longrightarrow> safe (if c then a else b)"
  by simp

section \<open>Words\<close>

lemma unat_bound: "unat (x :: 'a::len word) < 2 ^ LENGTH('a)"
  by (rule unsigned_less)

lemma unat_ucast_up:
  assumes "LENGTH('a::len) \<le> LENGTH('b::len)"
  shows "unat (ucast (x :: 'a word) :: 'b word) = unat x"
proof -
  have "unat x < 2 ^ LENGTH('a)" by (rule unsigned_less)
  also have "(2::nat) ^ LENGTH('a) \<le> 2 ^ LENGTH('b)" using assms by simp
  finally show ?thesis by (simp add: unsigned_ucast_eq take_bit_nat_eq_self)
qed

section \<open>Big-endian numerals\<close>

text \<open>
  \<open>be_val\<close> is the number a byte string denotes in big-endian order, \<open>be_bytes\<close> the shortest
  byte string that denotes a number (the empty string for 0): the scalar values of the RLP
  format.
\<close>

definition be_val :: "bytes \<Rightarrow> nat" where
  "be_val bs = foldl (\<lambda>a b. a * 256 + unat b) 0 bs"

fun be_bytes :: "nat \<Rightarrow> bytes" where
  "be_bytes n = (if n = 0 then [] else be_bytes (n div 256) @ [word_of_nat (n mod 256)])"

declare be_bytes.simps [simp del]

lemma be_val_Nil [simp, be_simps]: "be_val [] = 0"
  by (simp add: be_val_def)

lemma be_val_snoc [simp, be_simps]: "be_val (bs @ [b]) = be_val bs * 256 + unat b"
  by (simp add: be_val_def)

lemma be_val_single [simp]: "be_val [b] = unat b"
  by (simp add: be_val_def)

lemma byte_less [simp]: "unat (b :: byte) < 256"
  using unsigned_less [of b] by simp

lemma byte_le [simp]: "unat (b :: byte) \<le> 255"
  using byte_less [of b] by linarith

lemma be_bytes_0 [simp, be_simps]: "be_bytes 0 = []"
  by (simp add: be_bytes.simps)

lemma be_bytes_pos: "0 < n \<Longrightarrow> be_bytes n = be_bytes (n div 256) @ [word_of_nat (n mod 256)]"
  by (subst be_bytes.simps) simp

lemma be_bytes_eq_Nil [simp]: "be_bytes n = [] \<longleftrightarrow> n = 0"
  by (cases "n = 0") (auto simp: be_bytes_pos)

lemma unat_byte_of_nat: "n < 256 \<Longrightarrow> unat (word_of_nat n :: byte) = n"
  by (simp add: unat_of_nat)

lemma be_val_be_bytes [simp, be_simps]: "be_val (be_bytes n) = n"
proof (induction n rule: be_bytes.induct)
  case (1 n)
  show ?case
  proof (cases "n = 0")
    case False
    with 1 have "be_val (be_bytes (n div 256)) = n div 256" by simp
    with False show ?thesis by (simp add: be_bytes_pos unat_byte_of_nat)
  qed simp
qed

lemma be_val_less: "be_val bs < 256 ^ length bs"
proof (induction bs rule: rev_induct)
  case (snoc b bs)
  have "unat b \<le> 255" by simp
  with snoc have "be_val bs * 256 + unat b < 256 ^ length bs * 256" by linarith
  then show ?case by simp
qed simp

lemma length_be_bytes_le: "length (be_bytes n) \<le> k \<longleftrightarrow> n < 256 ^ k"
proof (induction k arbitrary: n)
  case (Suc k)
  show ?case
  proof (cases "n = 0")
    case False
    have "length (be_bytes n) \<le> Suc k \<longleftrightarrow> length (be_bytes (n div 256)) \<le> k"
      using False by (simp add: be_bytes_pos)
    also have "\<dots> \<longleftrightarrow> n div 256 < 256 ^ k" by (rule Suc.IH)
    also have "\<dots> \<longleftrightarrow> n < 256 ^ Suc k"
      by (simp add: div_less_iff_less_mult mult.commute)
    finally show ?thesis .
  qed simp
qed simp

lemma hd_be_bytes: "0 < n \<Longrightarrow> hd (be_bytes n) \<noteq> 0"
proof (induction n rule: be_bytes.induct)
  case (1 n)
  show ?case
  proof (cases "n < 256")
    case True
    then have "n div 256 = 0" by simp
    moreover have "(word_of_nat n :: byte) \<noteq> 0"
      using True 1(2) unat_byte_of_nat [of n] by (metis less_numeral_extra(3) unat_0)
    ultimately show ?thesis using True 1(2) by (simp add: be_bytes_pos)
  next
    case False
    then have "0 < n div 256" by simp
    moreover from this have "hd (be_bytes (n div 256)) \<noteq> 0" using 1 by simp
    ultimately show ?thesis using False 1(2) by (simp add: be_bytes_pos [of n])
  qed
qed

text \<open>A byte string without leading zero is the shortest one that denotes its number.\<close>

lemma be_bytes_be_val:
  "bs = [] \<or> hd bs \<noteq> 0 \<Longrightarrow> be_bytes (be_val bs) = bs"
proof (induction bs rule: rev_induct)
  case (snoc b bs)
  show ?case
  proof (cases "bs = []")
    case True
    with snoc.prems have "0 < unat b" by (simp add: unat_gt_0)
    moreover have "unat b div 256 = 0" by simp
    ultimately show ?thesis using True by (simp add: be_bytes_pos)
  next
    case False
    with snoc have IH: "be_bytes (be_val bs) = bs" by simp
    with False have "0 < be_val bs" by (metis be_bytes_0 gr0I)
    then have "0 < be_val bs * 256 + unat b" by simp
    moreover have "(be_val bs * 256 + unat b) div 256 = be_val bs"
      using byte_less [of b] by linarith
    moreover have "(be_val bs * 256 + unat b) mod 256 = unat b"
      using byte_less [of b] by simp
    ultimately show ?thesis by (simp add: be_bytes_pos IH)
  qed
qed simp

lemma be_val_foldl: "foldl (\<lambda>a b. a * 256 + unat b) r bs = r * 256 ^ length bs + be_val bs"
proof (induction bs arbitrary: r rule: rev_induct)
  case (snoc b bs)
  then show ?case by (simp add: algebra_simps)
qed simp

lemma be_val_Cons: "be_val (b # bs) = unat b * 256 ^ length bs + be_val bs"
  using be_val_foldl [of "unat b" bs] by (simp add: be_val_def)

lemma seg_Suc: "p < length xs \<Longrightarrow> seg xs p (Suc n) = xs ! p # seg xs (Suc p) n"
  by (simp add: seg_def Cons_nth_drop_Suc [symmetric])

end
