(* ===== verification/Common.thy ===== *)
theory Common
  imports CDT_Prelude
begin

unbundle bit_operations_syntax

text \<open>
  Model of \<open>platonlib/include/platon/common.h\<close>: hexadecimal conversion, the width of an
  unsigned integer in bytes, big-endian encoding and decoding, and the \<open>_u128\<close> literal.
  Unsigned integers of a template parameter \<open>T\<close> are words of arbitrary length.
\<close>

section \<open>Hexadecimal text\<close>

definition char_val :: "char \<Rightarrow> int" where
  "char_val c = of_char c"

definition fromHexChar :: "char \<Rightarrow> int" where
  "fromHexChar i =
     (if char_val i \<ge> 48 \<and> char_val i \<le> 57 then char_val i - 48
      else if char_val i \<ge> 97 \<and> char_val i \<le> 102 then char_val i - 97 + 10
      else if char_val i \<ge> 65 \<and> char_val i \<le> 70 then char_val i - 65 + 10
      else - 1)"

definition hex_prefix :: "string \<Rightarrow> nat" where
  "hex_prefix s = (if length s \<ge> 2 \<and> s ! 0 = CHR ''0'' \<and> s ! 1 = CHR ''x'' then 2 else 0)"

text \<open>The loop over pairs of digits; \<open>None\<close> is the early \<open>return bytes()\<close>.\<close>

fun fromHex_loop :: "string \<Rightarrow> bytes option" where
  "fromHex_loop (a # b # cs) =
     (let h = fromHexChar a; l = fromHexChar b in
      if h \<noteq> - 1 \<and> l \<noteq> - 1
      then map_option ((#) (word_of_int (h * 16 + l))) (fromHex_loop cs)
      else None)"
| "fromHex_loop _ = Some []"

definition fromHex :: "string \<Rightarrow> bytes" where
  "fromHex s =
     (let t = drop (hex_prefix s) s in
      if odd (length s) then
        (let h = fromHexChar (hd t) in
         if h \<noteq> - 1
         then (case fromHex_loop (tl t) of None \<Rightarrow> [] | Some bs \<Rightarrow> word_of_int h # bs)
         else [])
      else (case fromHex_loop t of None \<Rightarrow> [] | Some bs \<Rightarrow> bs))"

text \<open>
  The overload that fills a \<open>std::array\<close>: a pair with an invalid digit is skipped, and
  a write beyond the array is \<open>Oob\<close>.
\<close>

definition arr_set :: "bytes \<Rightarrow> nat \<Rightarrow> byte \<Rightarrow> bytes res" where
  "arr_set ret i b = (if i < length ret then Inr (ret[i := b]) else Inl Oob)"

fun fromHexArr_loop :: "string \<Rightarrow> bytes \<Rightarrow> nat \<Rightarrow> bytes res" where
  "fromHexArr_loop (a # b # cs) ret index =
     (let h = fromHexChar a; l = fromHexChar b in
      if h \<noteq> - 1 \<and> l \<noteq> - 1
      then bind_res (arr_set ret index (word_of_int (h * 16 + l)))
             (\<lambda>ret'. fromHexArr_loop cs ret' (Suc index))
      else fromHexArr_loop cs ret index)"
| "fromHexArr_loop _ ret index = Inr ret"

definition fromHexArr :: "string \<Rightarrow> bytes \<Rightarrow> bool \<Rightarrow> bytes res" where
  "fromHexArr s ret left_align =
     (let o2 = hex_prefix s;
          len = (length s - o2 + 1) div 2;
          index = (if left_align then 0 else (length ret + (2 ^ 32 - len)) mod 2 ^ 32);
          t = drop o2 s in
      if odd (length s) then
        (let h = fromHexChar (hd t) in
         if h \<noteq> - 1
         then bind_res (arr_set ret index (word_of_int h))
                (\<lambda>ret'. fromHexArr_loop (tl t) ret' (Suc index))
         else fromHexArr_loop (tl t) ret index)
      else fromHexArr_loop t ret index)"

definition asBytes :: "string \<Rightarrow> bytes" where
  "asBytes s = map (\<lambda>c. of_char c) s"

definition hexdigits :: string where
  "hexdigits = ''0123456789abcdef''"

definition toHex :: "bytes \<Rightarrow> string \<Rightarrow> string" where
  "toHex bs prefix =
     prefix @ concat (map (\<lambda>b. [hexdigits ! unat ((drop_bit 4 b) AND 15),
                                hexdigits ! unat (b AND 15)]) bs)"

section \<open>Integers as bytes\<close>

lemma unat_drop_byte: "unat (drop_bit 8 i) = unat i div 256"
  unfolding unat_drop_bit_eq by (simp add: drop_bit_eq_div)

function bytesRequired :: "'a::len word \<Rightarrow> nat" where
  "bytesRequired i = (if i \<noteq> 0 then Suc (bytesRequired (drop_bit 8 i)) else 0)"
  by pat_completeness auto
termination
proof (relation "measure unat")
  fix i :: "'a::len word"
  assume "i \<noteq> 0"
  then have "0 < unat i" by (simp add: unat_gt_0)
  then show "(drop_bit 8 i, i) \<in> measure unat"
    by (simp add: unat_drop_byte)
qed simp

declare bytesRequired.simps [simp del]

text \<open>\<open>toBigEndian\<close> fills an output of \<open>n\<close> bytes from its last byte backwards.\<close>

fun toBigEndian :: "'a::len word \<Rightarrow> nat \<Rightarrow> bytes" where
  "toBigEndian val 0 = []"
| "toBigEndian val (Suc n) = toBigEndian (drop_bit 8 val) n @ [ucast (val AND 255)]"

definition fromBigEndian :: "bytes \<Rightarrow> 'a::len word" where
  "fromBigEndian bs = foldl (\<lambda>ret i. (push_bit 8 ret) OR ucast i) 0 bs"

section \<open>The \<open>_u128\<close> literal\<close>

fun u128_is_hex :: "string \<Rightarrow> bool option" where
  "u128_is_hex [] = Some False"
| "u128_is_hex (c # cs) =
     (let temp = fromHexChar c in
      if temp = - 1 then None else if temp > 9 then Some True else u128_is_hex cs)"

definition u128_accum :: "128 word \<Rightarrow> string \<Rightarrow> 128 word" where
  "u128_accum base cs = foldl (\<lambda>result c. result * base + word_of_int (fromHexChar c)) 0 cs"

definition u128_literal :: "string \<Rightarrow> 128 word" where
  "u128_literal s =
     (if length s > 2 \<and> s ! 0 = CHR ''0'' \<and> s ! 1 = CHR ''x'' then u128_accum 16 (drop 2 s)
      else (case u128_is_hex s of
              None \<Rightarrow> 0
            | Some True \<Rightarrow> u128_accum 16 s
            | Some False \<Rightarrow> u128_accum 10 s))"

section \<open>Big-endian conversions compute the numeral they should\<close>

lemma bytesRequired_be_bytes: "bytesRequired i = length (be_bytes (unat i))"
proof (induction i rule: bytesRequired.induct)
  case (1 i)
  show ?case
  proof (cases "i = 0")
    case True
    then show ?thesis by (simp add: bytesRequired.simps)
  next
    case False
    then have "0 < unat i" by (simp add: unat_gt_0)
    then show ?thesis
      using False 1 by (subst bytesRequired.simps) (simp add: be_bytes_pos unat_drop_byte)
  qed
qed

lemma length_toBigEndian [simp]: "length (toBigEndian v n) = n"
  by (induction n arbitrary: v) simp_all

lemma unat_ucast_low_byte: "unat (ucast (v AND 255) :: byte) = unat (v :: 'a::len word) mod 256"
proof -
  have "v AND 255 = take_bit 8 v"
    using take_bit_eq_mask [of 8 v] by (simp add: mask_eq_exp_minus_1)
  then have "(ucast (v AND 255) :: byte) = ucast (take_bit 8 v)" by simp
  then have "unat (ucast (v AND 255) :: byte) = take_bit 8 (take_bit 8 (unat v))"
    by (simp add: unsigned_ucast_eq unsigned_take_bit_eq)
  then show ?thesis by (simp add: take_bit_eq_mod)
qed

lemma be_val_toBigEndian: "be_val (toBigEndian v n) = unat v mod 256 ^ n"
proof (induction n arbitrary: v)
  case (Suc n)
  have "be_val (toBigEndian v (Suc n)) = (unat v div 256 mod 256 ^ n) * 256 + unat v mod 256"
    using Suc by (simp add: unat_ucast_low_byte unat_drop_byte)
  also have "\<dots> = unat v mod (256 * 256 ^ n)"
    by (simp add: mod_mult2_eq)
  finally show ?case by simp
qed simp

lemma fromBigEndian_be_val: "(fromBigEndian bs :: 'a::len word) = word_of_nat (be_val bs)"
proof (induction bs rule: rev_induct)
  case (snoc b bs)
  let ?r = "fromBigEndian bs :: 'a word"
  have "fromBigEndian (bs @ [b]) = push_bit 8 ?r OR ucast b"
    by (simp add: fromBigEndian_def)
  also have "\<dots> = push_bit 8 ?r + ucast b"
  proof (rule disjunctive_add [symmetric])
    fix n
    have "bit (ucast b :: 'a word) n \<Longrightarrow> n < 8"
      by (auto simp: bit_simps dest: bit_imp_le_length)
    then show "\<not> bit (push_bit 8 ?r) n \<or> \<not> bit (ucast b :: 'a word) n"
      by (auto simp: bit_simps)
  qed
  also have "\<dots> = word_of_nat (be_val (bs @ [b]))"
    using snoc by (simp add: push_bit_eq_mult mult.commute)
  finally show ?case .
qed (simp add: fromBigEndian_def)

lemma unat_fromBigEndian:
  "be_val bs < 2 ^ LENGTH('a) \<Longrightarrow> unat (fromBigEndian bs :: 'a::len word) = be_val bs"
  by (simp add: fromBigEndian_be_val unat_of_nat)

end
