(* ===== verification/Vector_Ref.thy ===== *)
theory Vector_Ref
  imports CDT_Prelude
begin

unbundle bit_operations_syntax

text \<open>
  Model of \<open>platonlib/include/platon/vector_ref.h\<close> for byte elements: a pointer and a count
  into linear memory. Reads through a view are checked: a read that the C++ code would make
  outside the view (its \<open>assert\<close>, or undefined behaviour without it) is the fault \<open>Oob\<close>.
\<close>

section \<open>The view and its operations\<close>

record vector_ref =
  m_data :: ptr
  m_count :: nat

definition vr_empty :: vector_ref where
  "vr_empty = \<lparr>m_data = 0, m_count = 0\<rparr>"

definition vr_mk :: "ptr \<Rightarrow> nat \<Rightarrow> vector_ref" where
  "vr_mk p n = \<lparr>m_data = p, m_count = n\<rparr>"

definition vr_bool :: "vector_ref \<Rightarrow> bool" where
  "vr_bool v \<longleftrightarrow> m_data v \<noteq> 0 \<and> m_count v \<noteq> 0"

text \<open>The bytes a range of memory holds, or \<open>Oob\<close> when the range leaves the memory.\<close>

definition mem_range :: "memory \<Rightarrow> ptr \<Rightarrow> nat \<Rightarrow> bytes res" where
  "mem_range mem p n =
     (if n = 0 then Inr [] else if p \<noteq> 0 \<and> p + n \<le> length mem then Inr (seg mem p n) else Inl Oob)"

definition vr_toBytes :: "memory \<Rightarrow> vector_ref \<Rightarrow> bytes res" where
  "vr_toBytes mem v = mem_range mem (m_data v) (m_count v)"

definition vr_contentsEqual :: "memory \<Rightarrow> vector_ref \<Rightarrow> bytes \<Rightarrow> bool res" where
  "vr_contentsEqual mem v c =
     (if m_data v = 0 \<or> m_count v = 0 then Inr (c = [])
      else if length c \<noteq> m_count v then Inr False
      else bind_res (vr_toBytes mem v) (\<lambda>bs. Inr (bs = c)))"

definition vr_next :: "vector_ref \<Rightarrow> vector_ref" where
  "vr_next v = (if m_data v = 0 then v else vr_mk (m_data v + m_count v) (m_count v))"

definition vr_cropped2 :: "vector_ref \<Rightarrow> nat \<Rightarrow> nat \<Rightarrow> vector_ref" where
  "vr_cropped2 v begin count =
     (if m_data v \<noteq> 0 \<and> begin \<le> m_count v \<and> count \<le> m_count v \<and>
         (begin + count) mod 2 ^ 32 \<le> m_count v
      then vr_mk (m_data v + begin) (if count = size_max then m_count v - begin else count)
      else vr_empty)"

definition vr_cropped :: "vector_ref \<Rightarrow> nat \<Rightarrow> vector_ref" where
  "vr_cropped v begin =
     (if m_data v \<noteq> 0 \<and> begin \<le> m_count v
      then vr_mk (m_data v + begin) (m_count v - begin)
      else vr_empty)"

definition vr_retarget :: "vector_ref \<Rightarrow> ptr \<Rightarrow> nat \<Rightarrow> vector_ref" where
  "vr_retarget v d s = v\<lparr>m_data := d, m_count := s\<rparr>"

definition vr_overlapsWith :: "vector_ref \<Rightarrow> vector_ref \<Rightarrow> bool" where
  "vr_overlapsWith v t \<longleftrightarrow>
     m_data v < m_data t + m_count t \<and> m_data v + m_count v > m_data t"

definition mem_write :: "memory \<Rightarrow> ptr \<Rightarrow> bytes \<Rightarrow> memory res" where
  "mem_write mem p bs =
     (if bs = [] then Inr mem
      else if p \<noteq> 0 \<and> p + length bs \<le> length mem
      then Inr (take p mem @ bs @ drop (p + length bs) mem)
      else Inl Oob)"

text \<open>
  \<open>copyTo\<close> takes \<open>memmove\<close> for overlapping views and \<open>memcpy\<close> otherwise; on disjoint ranges
  the two agree, so both branches are a read of the source followed by a write.
\<close>

definition vr_copyTo :: "memory \<Rightarrow> vector_ref \<Rightarrow> vector_ref \<Rightarrow> memory res" where
  "vr_copyTo mem v t =
     bind_res (mem_range mem (m_data v) (min (m_count t) (m_count v)))
       (\<lambda>bs. mem_write mem (m_data t) bs)"

definition vr_populate :: "memory \<Rightarrow> vector_ref \<Rightarrow> vector_ref \<Rightarrow> memory res" where
  "vr_populate mem v t =
     bind_res (vr_copyTo mem v t)
       (\<lambda>mem'. mem_write mem' (m_data t + m_count v)
                 (replicate (max (m_count t) (m_count v) - m_count v) 0))"

definition vr_at :: "memory \<Rightarrow> vector_ref \<Rightarrow> nat \<Rightarrow> byte res" where
  "vr_at mem v i =
     (if m_data v \<noteq> 0 \<and> i < m_count v \<and> m_data v + i < length mem
      then Inr (mem ! (m_data v + i)) else Inl Oob)"

definition vr_eq :: "vector_ref \<Rightarrow> vector_ref \<Rightarrow> bool" where
  "vr_eq a b \<longleftrightarrow> m_data a = m_data b \<and> m_count a = m_count b"

definition vr_reset :: "vector_ref \<Rightarrow> vector_ref" where
  "vr_reset v = v\<lparr>m_data := 0, m_count := 0\<rparr>"

text \<open>
  \<open>cleanse\<close>: the memory is overwritten with a running count, which the addresses and the position of
  the last count in it stir up, and then with zeros. The count starts from a static byte that is
  kept for the next call. The address of a byte is that after \<open>p++\<close>.
\<close>

fun cleanse_loop :: "memory \<Rightarrow> ptr \<Rightarrow> nat \<Rightarrow> 32 word \<Rightarrow> (memory \<times> 32 word) res" where
  "cleanse_loop mem p 0 count = Inr (mem, count)"
| "cleanse_loop mem p (Suc loop) count =
     bind_res (mem_write mem p [ucast count]) (\<lambda>mem1.
       cleanse_loop mem1 (p + 1) loop (count + (17 + (word_of_nat (p + 1) AND 0xf))))"

fun memchr :: "bytes \<Rightarrow> byte \<Rightarrow> nat \<Rightarrow> nat option" where
  "memchr [] c i = None"
| "memchr (b # bs) c i = (if b = c then Some i else memchr bs c (Suc i))"

definition vr_cleanse :: "memory \<Rightarrow> byte \<Rightarrow> vector_ref \<Rightarrow> (memory \<times> byte) res" where
  "vr_cleanse mem s_cleanseCounter v =
     bind_res (cleanse_loop mem (m_data v) (m_count v) (ucast s_cleanseCounter)) (\<lambda>(mem1, count).
     bind_res (mem_range mem1 (m_data v) (m_count v)) (\<lambda>bs.
       let count1 = (case memchr bs (ucast count) 0 of None \<Rightarrow> count | Some i \<Rightarrow> count + (63 + word_of_nat (m_data v + i))) in
       bind_res (mem_write mem1 (m_data v) (replicate (m_count v) 0)) (\<lambda>mem2. Inr (mem2, ucast count1))))"

section \<open>Well-formed views\<close>

definition wf_view :: "memory \<Rightarrow> vector_ref \<Rightarrow> bool" where
  "wf_view mem v \<longleftrightarrow>
     (m_data v = 0 \<longrightarrow> m_count v = 0) \<and> m_data v + m_count v \<le> length mem \<and> length mem < 2 ^ 31"

definition contents :: "memory \<Rightarrow> vector_ref \<Rightarrow> bytes" where
  "contents mem v = seg mem (m_data v) (m_count v)"

lemmas vr_defs = vr_mk_def vr_empty_def vr_cropped_def vr_cropped2_def vr_next_def
  vr_retarget_def vr_reset_def vr_eq_def

lemma vr_mk_sel [simp]: "m_data (vr_mk p n) = p" "m_count (vr_mk p n) = n"
  by (simp_all add: vr_mk_def)

lemma vr_mk_eta [simp]: "vr_mk (m_data v) (m_count v) = v"
  by (cases v) (simp add: vr_mk_def)

lemma vr_retarget_mk [simp]: "vr_retarget v d s = vr_mk d s"
  by (cases v) (simp add: vr_mk_def vr_retarget_def)

lemma vr_empty_sel [simp]: "m_data vr_empty = 0" "m_count vr_empty = 0"
  by (simp_all add: vr_empty_def)

lemma vr_eq_iff [simp]: "vr_eq a b \<longleftrightarrow> a = b"
  by (cases a, cases b) (simp add: vr_eq_def)

lemma wf_count: "wf_view mem v \<Longrightarrow> m_count v < 2 ^ 31"
  by (simp add: wf_view_def)

lemma wf_data: "wf_view mem v \<Longrightarrow> 0 < m_count v \<Longrightarrow> 0 < m_data v"
  by (auto simp: wf_view_def)

lemma length_contents: "wf_view mem v \<Longrightarrow> length (contents mem v) = m_count v"
  by (simp add: contents_def wf_view_def length_seg)

lemma contents_empty [simp]: "m_count v = 0 \<Longrightarrow> contents mem v = []"
  by (simp add: contents_def)

lemma vr_at_wf [view_simps]:
  "wf_view mem v \<Longrightarrow> i < m_count v \<Longrightarrow> vr_at mem v i = Inr (contents mem v ! i)"
  by (auto simp: vr_at_def contents_def wf_view_def nth_seg)

lemma vr_toBytes_wf [view_simps]: "wf_view mem v \<Longrightarrow> vr_toBytes mem v = Inr (contents mem v)"
  by (auto simp: vr_toBytes_def mem_range_def contents_def wf_view_def)

lemma wf_empty: "length mem < 2 ^ 31 \<Longrightarrow> wf_view mem vr_empty"
  by (simp add: wf_view_def)

lemma wf_null: "wf_view mem v \<Longrightarrow> wf_view mem vr_empty"
  by (simp add: wf_view_def)

lemma wf_mem: "wf_view mem v \<Longrightarrow> length mem < 2 ^ 31"
  by (simp add: wf_view_def)

lemma wf_cropped: "wf_view mem v \<Longrightarrow> wf_view mem (vr_cropped v b)"
  by (auto simp: wf_view_def vr_cropped_def)

lemma wf_cropped2: "wf_view mem v \<Longrightarrow> wf_view mem (vr_cropped2 v b c)"
  by (auto simp: wf_view_def vr_cropped2_def)

text \<open>Within memory that fits in 31 bits the wrap-around in the guard of \<open>cropped\<close> cannot occur.\<close>

lemma vr_cropped2_wf [view_simps]:
  assumes "wf_view mem v" "m_data v \<noteq> 0" "b + c \<le> m_count v"
  shows "vr_cropped2 v b c = vr_mk (m_data v + b) c"
  using assms by (auto simp: vr_cropped2_def wf_view_def)

lemma vr_cropped2_out:
  assumes "wf_view mem v" "b + c > m_count v"
  shows "vr_cropped2 v b c = vr_empty"
  using assms by (auto simp: vr_cropped2_def wf_view_def)

lemma vr_cropped_wf [view_simps]:
  "m_data v \<noteq> 0 \<Longrightarrow> b \<le> m_count v \<Longrightarrow> vr_cropped v b = vr_mk (m_data v + b) (m_count v - b)"
  by (simp add: vr_cropped_def)

lemma contents_sub:
  assumes "wf_view mem v" "b + c \<le> m_count v"
  shows "contents mem (vr_mk (m_data v + b) c) = seg (contents mem v) b c"
  using assms by (simp add: contents_def seg_seg)

lemma wf_sub:
  "wf_view mem v \<Longrightarrow> m_data v \<noteq> 0 \<Longrightarrow> b + c \<le> m_count v \<Longrightarrow> wf_view mem (vr_mk (m_data v + b) c)"
  by (auto simp: wf_view_def)

section \<open>What the operations promise\<close>

text \<open>
  The comment on \<open>cropped\<close> says that a count of \<open>~size_t(0)\<close> extends the view to the end of the
  data. The guard \<open>_count <= m_count\<close> rejects that count first.
\<close>

lemma vr_cropped2_npos: "m_count v < size_max \<Longrightarrow> vr_cropped2 v b size_max = vr_empty"
  by (simp add: vr_cropped2_def)

lemma vr_contentsEqual_wf:
  assumes "wf_view mem v"
  shows "vr_contentsEqual mem v c = Inr (contents mem v = c)"
proof (cases "m_count v = 0")
  case False
  with assms have "0 < m_data v" by (simp add: wf_data)
  with False assms show ?thesis
    using length_contents [OF assms] by (auto simp: vr_contentsEqual_def vr_toBytes_wf)
qed (auto simp: vr_contentsEqual_def)

lemma mem_write_ok:
  "p \<noteq> 0 \<Longrightarrow> p + length bs \<le> length mem \<Longrightarrow>
   mem_write mem p bs = Inr (take p mem @ bs @ drop (p + length bs) mem)"
  by (simp add: mem_write_def)

lemma vr_copyTo_wf:
  assumes "wf_view mem v" "wf_view mem t" and n: "n = min (m_count t) (m_count v)"
  shows "\<exists>mem'. vr_copyTo mem v t = Inr mem' \<and> length mem' = length mem \<and>
           seg mem' (m_data t) n = take n (contents mem v) \<and>
           (\<forall>i < length mem. i < m_data t \<or> m_data t + n \<le> i \<longrightarrow> mem' ! i = mem ! i)"
proof (cases "n = 0")
  case True
  then show ?thesis using n by (simp add: vr_copyTo_def mem_range_def mem_write_def)
next
  case False
  let ?bs = "seg mem (m_data v) n"
  have d: "m_data v \<noteq> 0" "m_data t \<noteq> 0" "m_data v + n \<le> length mem" "m_data t + n \<le> length mem"
    using assms False by (auto simp: wf_view_def)
  have l: "length ?bs = n" using d by (simp add: length_seg)
  let ?mem' = "take (m_data t) mem @ ?bs @ drop (m_data t + n) mem"
  have "vr_copyTo mem v t = Inr ?mem'"
    using d l False n by (auto simp: vr_copyTo_def mem_range_def mem_write_def)
  moreover have "length ?mem' = length mem" using d l by simp
  moreover have "seg ?mem' (m_data t) n = ?bs" using d l by (simp add: seg_middle)
  moreover have "?bs = take n (contents mem v)"
    using n by (simp add: contents_def seg_def)
  moreover have "?mem' ! i = mem ! i"
    if "i < length mem" "i < m_data t \<or> m_data t + n \<le> i" for i
    using that d l by (auto simp: nth_append)
  ultimately show ?thesis by (intro exI [of _ ?mem']) simp
qed

text \<open>\<open>cleanse\<close> leaves zeros in the view and every other byte as it was.\<close>

lemma cleanse_loop_frame:
  assumes "p \<noteq> 0" "p + n \<le> length mem"
  shows "\<exists>mem' count'. cleanse_loop mem p n count = Inr (mem', count') \<and> length mem' = length mem \<and>
           take p mem' = take p mem \<and> drop (p + n) mem' = drop (p + n) mem"
  using assms
proof (induction n arbitrary: mem p count)
  case (Suc n)
  let ?mem = "take p mem @ [ucast count] @ drop (p + 1) mem"
  have w: "mem_write mem p [ucast count] = Inr ?mem" using Suc.prems by (simp add: mem_write_def)
  have len: "length ?mem = length mem" using Suc.prems by simp
  obtain mem' count' where r: "cleanse_loop ?mem (p + 1) n (count + (17 + (word_of_nat (p + 1) AND 0xf))) = Inr (mem', count')"
    "length mem' = length mem" "take (p + 1) mem' = take (p + 1) ?mem" "drop (p + 1 + n) mem' = drop (p + 1 + n) ?mem"
    using Suc.IH [of "p + 1" ?mem "count + (17 + (word_of_nat (p + 1) AND 0xf))"] Suc.prems len by auto
  have "take p mem' = take p (take (p + 1) mem')" by (simp add: min_def)
  also have "\<dots> = take p mem" unfolding r(3) using Suc.prems by simp
  finally have "take p mem' = take p mem" .
  moreover have "drop (p + Suc n) mem' = drop (p + Suc n) mem" using r(4) Suc.prems by (simp add: add.commute)
  ultimately show ?case using w r(1,2) by simp
qed simp

lemma vr_cleanse_zeros:
  assumes "wf_view mem v"
  shows "\<exists>c. vr_cleanse mem s v = Inr (take (m_data v) mem @ replicate (m_count v) 0 @ drop (m_data v + m_count v) mem, c)"
proof (cases "m_count v = 0")
  case True
  then show ?thesis by (simp add: vr_cleanse_def mem_range_def mem_write_def)
next
  case False
  then have d: "m_data v \<noteq> 0" "m_data v + m_count v \<le> length mem" using assms by (auto simp: wf_view_def)
  obtain mem1 count where r: "cleanse_loop mem (m_data v) (m_count v) (ucast s) = Inr (mem1, count)" "length mem1 = length mem"
    "take (m_data v) mem1 = take (m_data v) mem" "drop (m_data v + m_count v) mem1 = drop (m_data v + m_count v) mem"
    using cleanse_loop_frame [OF d] by blast
  have "mem_range mem1 (m_data v) (m_count v) = Inr (seg mem1 (m_data v) (m_count v))" using d r(2) by (simp add: mem_range_def)
  moreover have "mem_write mem1 (m_data v) (replicate (m_count v) 0) =
      Inr (take (m_data v) mem @ replicate (m_count v) 0 @ drop (m_data v + m_count v) mem)"
    using d r mem_write_ok [of "m_data v" "replicate (m_count v) 0" mem1] by simp
  ultimately show ?thesis unfolding vr_cleanse_def r(1) by (simp add: Let_def)
qed

end
