(* ===== verification/RLP_Header.thy ===== *)
theory RLP_Header
  imports Common Vector_Ref
begin

unbundle bit_operations_syntax

text \<open>
  Model of the header part of the class \<open>RLP\<close> (\<open>platonlib/include/platon/RLP.h\<close>,
  \<open>platonlib/src/RLP.cpp\<close>): the interpretation of a view of linear memory as Recursive Length
  Prefix data, up to the constructor and the size of an item. Every method that only uses
  \<open>m_data\<close> takes the memory and that view. The lemmas show that no header access leaves the
  view and that sizes do not wrap around.
\<close>

section \<open>Constants\<close>

definition c_rlpMaxLengthBytes :: nat where
  "c_rlpMaxLengthBytes = 8"

definition c_rlpDataImmLenStart :: nat where
  "c_rlpDataImmLenStart = 128"

definition c_rlpListStart :: nat where
  "c_rlpListStart = 192"

definition c_rlpDataImmLenCount :: nat where
  "c_rlpDataImmLenCount = c_rlpListStart - c_rlpDataImmLenStart - c_rlpMaxLengthBytes"

definition c_rlpDataIndLenZero :: nat where
  "c_rlpDataIndLenZero = c_rlpDataImmLenStart + c_rlpDataImmLenCount - 1"

definition c_rlpListImmLenCount :: nat where
  "c_rlpListImmLenCount = 256 - c_rlpListStart - c_rlpMaxLengthBytes"

definition c_rlpListIndLenZero :: nat where
  "c_rlpListIndLenZero = c_rlpListStart + c_rlpListImmLenCount - 1"

lemmas rlp_consts = c_rlpMaxLengthBytes_def c_rlpDataImmLenStart_def c_rlpListStart_def
  c_rlpDataImmLenCount_def c_rlpDataIndLenZero_def c_rlpListImmLenCount_def c_rlpListIndLenZero_def

text \<open>The flags of the enum; \<open>_flags & F\<close> is \<open>has_flag flags F\<close>.\<close>

definition AllowNonCanon :: nat where
  "AllowNonCanon = 1"

definition ThrowOnFail :: nat where
  "ThrowOnFail = 4"

definition FailIfTooBig :: nat where
  "FailIfTooBig = 8"

definition FailIfTooSmall :: nat where
  "FailIfTooSmall = 16"

definition Strict :: nat where
  "Strict = (ThrowOnFail OR FailIfTooBig)"

definition VeryStrict :: nat where
  "VeryStrict = (ThrowOnFail OR FailIfTooBig OR FailIfTooSmall)"

definition LaissezFaire :: nat where
  "LaissezFaire = AllowNonCanon"

definition has_flag :: "nat \<Rightarrow> nat \<Rightarrow> bool" where
  "has_flag flags f \<longleftrightarrow> flags AND f \<noteq> 0"

lemmas flag_defs = AllowNonCanon_def ThrowOnFail_def FailIfTooBig_def FailIfTooSmall_def
  Strict_def VeryStrict_def LaissezFaire_def has_flag_def

section \<open>Headers\<close>

definition isNull :: "vector_ref \<Rightarrow> bool" where
  "isNull d \<longleftrightarrow> m_count d = 0"

definition isEmpty :: "memory \<Rightarrow> vector_ref \<Rightarrow> bool res" where
  "isEmpty mem d =
     (if isNull d then Inr False
      else bind_res (vr_at mem d 0)
             (\<lambda>b. Inr (unat b = c_rlpDataImmLenStart \<or> unat b = c_rlpListStart)))"

definition isData :: "memory \<Rightarrow> vector_ref \<Rightarrow> bool res" where
  "isData mem d =
     (if isNull d then Inr False
      else bind_res (vr_at mem d 0) (\<lambda>b. Inr (unat b < c_rlpListStart)))"

definition isList :: "memory \<Rightarrow> vector_ref \<Rightarrow> bool res" where
  "isList mem d =
     (if isNull d then Inr False
      else bind_res (vr_at mem d 0) (\<lambda>b. Inr (unat b \<ge> c_rlpListStart)))"

definition isSingleByte :: "memory \<Rightarrow> vector_ref \<Rightarrow> bool res" where
  "isSingleByte mem d =
     (if isNull d then Inr False
      else bind_res (vr_at mem d 0) (\<lambda>b. Inr (unat b < c_rlpDataImmLenStart)))"

definition requireGood :: "memory \<Rightarrow> vector_ref \<Rightarrow> unit res" where
  "requireGood mem d =
     (if isNull d then Inl (Throw ''bad rlp'')
      else bind_res (vr_at mem d 0) (\<lambda>n.
        if unat n \<noteq> c_rlpDataImmLenStart + 1 then Inr ()
        else if m_count d < 2 then Inl (Throw ''bad rlp'')
        else bind_res (vr_at mem d 1) (\<lambda>b.
          if unat b < c_rlpDataImmLenStart then Inl (Throw ''bad rlp'') else Inr ())))"

definition isInt :: "memory \<Rightarrow> vector_ref \<Rightarrow> bool res" where
  "isInt mem d =
     (if isNull d then Inr False
      else bind_res (requireGood mem d) (\<lambda>_. bind_res (vr_at mem d 0) (\<lambda>b.
        let n = unat b in
        if n < c_rlpDataImmLenStart then Inr (n \<noteq> 0)
        else if n = c_rlpDataImmLenStart then Inr True
        else if n \<le> c_rlpDataIndLenZero then
          (if m_count d \<le> 1 then Inl (Throw ''bad rlp'')
           else bind_res (vr_at mem d 1) (\<lambda>x. Inr (x \<noteq> 0)))
        else if n < c_rlpListStart then
          (if m_count d \<le> 1 + n - c_rlpDataIndLenZero then Inl (Throw ''bad rlp'')
           else bind_res (vr_at mem d (1 + n - c_rlpDataIndLenZero)) (\<lambda>x. Inr (x \<noteq> 0)))
        else Inr False)))"

definition lengthSize :: "memory \<Rightarrow> vector_ref \<Rightarrow> nat res" where
  "lengthSize mem d =
     (if isNull d then Inr 0
      else bind_res (vr_at mem d 0) (\<lambda>b.
        let n = unat b in
        if n < c_rlpListStart \<and> n > c_rlpDataIndLenZero then Inr (n - c_rlpDataIndLenZero)
        else if n \<ge> c_rlpListStart \<and> n > c_rlpListIndLenZero then Inr (n - c_rlpListIndLenZero)
        else Inr 0))"

text \<open>
  The loop \<open>ret = (ret << 8) | m_data[i + 1]\<close> over the length bytes, with the 32-bit
  wrap-around of \<open>size_t\<close>.
\<close>

fun length_loop :: "memory \<Rightarrow> vector_ref \<Rightarrow> nat \<Rightarrow> nat \<Rightarrow> nat \<Rightarrow> nat res" where
  "length_loop mem d i 0 ret = Inr ret"
| "length_loop mem d i (Suc k) ret =
     bind_res (vr_at mem d (i + 1))
       (\<lambda>b. length_loop mem d (Suc i) k ((ret * 256 + unat b) mod 2 ^ 32))"

text \<open>The long form shared by data and lists: \<open>lsize\<close> length bytes, at least \<open>lim\<close> bytes of payload.\<close>

definition length_long :: "memory \<Rightarrow> vector_ref \<Rightarrow> nat \<Rightarrow> nat \<Rightarrow> nat res" where
  "length_long mem d lsize lim =
     (if m_count d \<le> lsize then Inl (Throw ''bad rlp'')
      else bind_res (if m_count d > 1 then vr_at mem d 1 else Inr 1) (\<lambda>b1.
        if b1 = 0 then Inl (Throw ''bad rlp'')
        else if lsize > 4 then Inl (Throw ''under size rlp'')
        else bind_res (vr_at mem d 1) (\<lambda>b2.
          if b2 = 0 then Inl (Throw ''bad rlp'')
          else bind_res (length_loop mem d 0 lsize 0) (\<lambda>ret.
            if ret < lim then Inl (Throw ''bad rlp'')
            else if ret \<ge> size_max - 256 then Inl (Throw ''under size rlp'')
            else Inr ret))))"

definition rlp_length :: "memory \<Rightarrow> vector_ref \<Rightarrow> nat res" where
  "rlp_length mem d =
     (if isNull d then Inr 0
      else bind_res (requireGood mem d) (\<lambda>_. bind_res (vr_at mem d 0) (\<lambda>b.
        let n = unat b in
        if n < c_rlpDataImmLenStart then Inr 1
        else if n \<le> c_rlpDataIndLenZero then Inr (n - c_rlpDataImmLenStart)
        else if n < c_rlpListStart then
          length_long mem d (n - c_rlpDataIndLenZero)
            (c_rlpListStart - c_rlpDataImmLenStart - c_rlpMaxLengthBytes)
        else if n \<le> c_rlpListIndLenZero then Inr (n - c_rlpListStart)
        else length_long mem d (n - c_rlpListIndLenZero)
               (256 - c_rlpListStart - c_rlpMaxLengthBytes))))"

definition payloadOffset :: "memory \<Rightarrow> vector_ref \<Rightarrow> nat res" where
  "payloadOffset mem d =
     bind_res (isSingleByte mem d) (\<lambda>s.
       if s then Inr 0 else bind_res (lengthSize mem d) (\<lambda>l. Inr (1 + l)))"

definition actualSize :: "memory \<Rightarrow> vector_ref \<Rightarrow> nat res" where
  "actualSize mem d =
     (if isNull d then Inr 0
      else bind_res (isSingleByte mem d) (\<lambda>s.
        if s then Inr 1
        else bind_res (isData mem d) (\<lambda>dt. bind_res (isList mem d) (\<lambda>ls.
          if dt \<or> ls
          then bind_res (payloadOffset mem d) (\<lambda>po. bind_res (rlp_length mem d) (\<lambda>l.
                 Inr ((po + l) mod 2 ^ 32)))
          else Inr 0))))"

definition payload :: "memory \<Rightarrow> vector_ref \<Rightarrow> vector_ref res" where
  "payload mem d =
     bind_res (rlp_length mem d) (\<lambda>l.
       if l > m_count d then Inl (Throw ''bad cast'')
       else bind_res (payloadOffset mem d) (\<lambda>po. Inr (vr_cropped2 d po l)))"

section \<open>Objects\<close>

record RLP =
  rlp_data :: vector_ref
  m_lastIndex :: nat
  m_lastEnd :: nat
  m_lastItem :: vector_ref

definition rlp_fresh :: "vector_ref \<Rightarrow> RLP" where
  "rlp_fresh d = \<lparr>rlp_data = d, m_lastIndex = size_max, m_lastEnd = 0, m_lastItem = vr_empty\<rparr>"

definition rlp_ctor :: "memory \<Rightarrow> vector_ref \<Rightarrow> nat \<Rightarrow> RLP res" where
  "rlp_ctor mem d s =
     bind_res (if has_flag s FailIfTooBig
               then bind_res (actualSize mem d) (\<lambda>n. Inr (n < m_count d)) else Inr False)
       (\<lambda>tooBig.
         if tooBig \<and> has_flag s ThrowOnFail then Inl (Throw ''over size rlp'')
         else let d1 = (if tooBig then vr_reset d else d) in
           bind_res (if has_flag s FailIfTooSmall
                     then bind_res (actualSize mem d1) (\<lambda>n. Inr (n > m_count d)) else Inr False)
             (\<lambda>tooSmall.
               if tooSmall \<and> has_flag s ThrowOnFail then Inl (Throw ''under size rlp'')
               else Inr (rlp_fresh (if tooSmall then vr_reset d1 else d1))))"

definition sizeAsEncoded :: "memory \<Rightarrow> vector_ref \<Rightarrow> nat res" where
  "sizeAsEncoded mem d =
     bind_res (rlp_ctor mem d (ThrowOnFail OR FailIfTooSmall))
       (\<lambda>r. actualSize mem (rlp_data r))"

section \<open>Header lemmas\<close>

text \<open>On a well-formed view every header read is in range.\<close>

lemma vr_at_0 [view_simps]:
  "wf_view mem d \<Longrightarrow> \<not> isNull d \<Longrightarrow> vr_at mem d 0 = Inr (contents mem d ! 0)"
  by (simp add: vr_at_wf isNull_def)

lemma isNull_contents: "wf_view mem d \<Longrightarrow> isNull d \<longleftrightarrow> contents mem d = []"
  using length_contents [of mem d] by (auto simp: isNull_def)

lemma safe_vr_at: "wf_view mem d \<Longrightarrow> i < m_count d \<Longrightarrow> safe (vr_at mem d i)"
  by (simp add: vr_at_wf)

lemma isData_wf [view_simps]:
  "wf_view mem d \<Longrightarrow> isData mem d = Inr (\<not> isNull d \<and> unat (contents mem d ! 0) < 192)"
  by (simp add: isData_def vr_at_0 rlp_consts)

lemma isList_wf [view_simps]:
  "wf_view mem d \<Longrightarrow> isList mem d = Inr (\<not> isNull d \<and> 192 \<le> unat (contents mem d ! 0))"
  by (simp add: isList_def vr_at_0 rlp_consts)

lemma isSingleByte_wf [view_simps]:
  "wf_view mem d \<Longrightarrow> isSingleByte mem d = Inr (\<not> isNull d \<and> unat (contents mem d ! 0) < 128)"
  by (simp add: isSingleByte_def vr_at_0 rlp_consts)

lemma lengthSize_wf [view_simps]:
  "wf_view mem d \<Longrightarrow> \<not> isNull d \<Longrightarrow> lengthSize mem d =
     Inr (let n = unat (contents mem d ! 0) in
          if 183 < n \<and> n < 192 then n - 183 else if 247 < n then n - 247 else 0)"
  by (auto simp: lengthSize_def vr_at_0 rlp_consts Let_def)

lemma payloadOffset_wf:
  assumes "wf_view mem d" "\<not> isNull d"
  obtains po where "payloadOffset mem d = Inr po" "po \<le> 9"
    "unat (contents mem d ! 0) < 128 \<longleftrightarrow> po = 0"
proof
  let ?n = "unat (contents mem d ! 0)"
  let ?po = "if ?n < 128 then 0 else
    1 + (if 183 < ?n \<and> ?n < 192 then ?n - 183 else if 247 < ?n then ?n - 247 else 0)"
  show "payloadOffset mem d = Inr ?po"
    using assms by (simp add: payloadOffset_def isSingleByte_wf lengthSize_wf Let_def)
  have "?n < 256" by simp
  then show "?po \<le> 9" by (auto simp del: byte_less byte_le)
qed simp

lemma requireGood_safe: "wf_view mem d \<Longrightarrow> safe (requireGood mem d)"
  by (auto simp: requireGood_def vr_at_0 vr_at_wf)

lemma length_loop_safe:
  "wf_view mem d \<Longrightarrow> i + k < m_count d \<Longrightarrow> safe (length_loop mem d i k ret)"
  by (induction k arbitrary: i ret) (auto simp: vr_at_wf)

lemma length_long_safe:
  "wf_view mem d \<Longrightarrow> 0 < lsize \<Longrightarrow> safe (length_long mem d lsize lim)"
  by (auto simp: length_long_def vr_at_wf intro!: safe_bind safe_if length_loop_safe)

lemma rlp_length_safe: "wf_view mem d \<Longrightarrow> safe (rlp_length mem d)"
  by (auto simp: rlp_length_def Let_def vr_at_0 rlp_consts
      intro!: safe_bind requireGood_safe length_long_safe)

lemma isInt_safe: "wf_view mem d \<Longrightarrow> safe (isInt mem d)"
  by (auto simp: isInt_def Let_def vr_at_0 vr_at_wf rlp_consts intro!: safe_bind requireGood_safe)

lemma length_long_bound: "length_long mem d lsize lim = Inr l \<Longrightarrow> l < size_max - 256"
  by (auto simp: length_long_def bind_res_eq_Inr split: if_splits)

lemma rlp_length_bound: "rlp_length mem d = Inr l \<Longrightarrow> l < size_max - 256"
  using byte_less by (auto simp: rlp_length_def bind_res_eq_Inr rlp_consts Let_def split: if_splits
      dest!: length_long_bound intro: le_less_trans [of _ 255])

text \<open>The size of an item is its header plus its payload, without wrap-around.\<close>

lemma actualSize_hdr:
  assumes "wf_view mem d" "\<not> isNull d"
  shows "actualSize mem d =
     bind_res (payloadOffset mem d) (\<lambda>po. bind_res (rlp_length mem d) (\<lambda>l. Inr (po + l)))"
proof (cases "unat (contents mem d ! 0) < 128")
  case True
  then have "rlp_length mem d = Inr 1" "payloadOffset mem d = Inr 0" "actualSize mem d = Inr 1"
    using assms by (simp_all add: rlp_length_def requireGood_def payloadOffset_def actualSize_def
        vr_at_0 rlp_consts isSingleByte_wf)
  then show ?thesis by simp
next
  case False
  from assms obtain po where po: "payloadOffset mem d = Inr po" "po \<le> 9"
    by (rule payloadOffset_wf)
  have "actualSize mem d = bind_res (rlp_length mem d) (\<lambda>l. Inr ((po + l) mod 2 ^ 32))"
    using assms False po(1) by (auto simp: actualSize_def isSingleByte_wf isData_wf isList_wf)
  also have "\<dots> = bind_res (rlp_length mem d) (\<lambda>l. Inr (po + l))"
    using po(2) by (intro bind_res_cong) (auto dest!: rlp_length_bound)
  finally show ?thesis using po(1) by simp
qed

lemma actualSize_null: "isNull d \<Longrightarrow> actualSize mem d = Inr 0"
  by (simp add: actualSize_def)

lemma actualSize_safe: "wf_view mem d \<Longrightarrow> safe (actualSize mem d)"
proof (cases "isNull d")
  case False
  assume wf: "wf_view mem d"
  from wf False obtain po where "payloadOffset mem d = Inr po" by (rule payloadOffset_wf)
  with wf False show ?thesis by (auto simp: actualSize_hdr intro!: safe_bind rlp_length_safe)
qed (simp add: actualSize_null)

lemma actualSize_pos:
  assumes "wf_view mem d" "\<not> isNull d" "actualSize mem d = Inr n"
  shows "0 < n"
proof (cases "unat (contents mem d ! 0) < 128")
  case True
  with assms show ?thesis by (simp add: actualSize_def isSingleByte_wf)
next
  case False
  with assms show ?thesis
    by (auto simp: actualSize_hdr bind_res_eq_Inr payloadOffset_def isSingleByte_wf)
qed

section \<open>Construction\<close>

text \<open>A view that holds exactly one item, and one that starts with a complete item.\<close>

definition exact_view :: "memory \<Rightarrow> vector_ref \<Rightarrow> bool" where
  "exact_view mem d \<longleftrightarrow> wf_view mem d \<and> actualSize mem d = Inr (m_count d)"

definition prefix_view :: "memory \<Rightarrow> vector_ref \<Rightarrow> nat \<Rightarrow> bool" where
  "prefix_view mem d n \<longleftrightarrow> wf_view mem d \<and> actualSize mem d = Inr n \<and> n \<le> m_count d"

lemma exact_prefix: "exact_view mem d \<longleftrightarrow> prefix_view mem d (m_count d)"
  by (simp add: exact_view_def prefix_view_def)

lemma rlp_fresh_sel [simp]:
  "rlp_data (rlp_fresh d) = d" "m_lastIndex (rlp_fresh d) = size_max"
  "m_lastEnd (rlp_fresh d) = 0" "m_lastItem (rlp_fresh d) = vr_empty"
  by (simp_all add: rlp_fresh_def)

lemma flags_VeryStrict [simp]:
  "has_flag VeryStrict FailIfTooBig" "has_flag VeryStrict FailIfTooSmall"
  "has_flag VeryStrict ThrowOnFail"
  by (simp_all add: flag_defs)

lemma flags_prefix [simp]:
  "\<not> has_flag (ThrowOnFail OR FailIfTooSmall) FailIfTooBig"
  "has_flag (ThrowOnFail OR FailIfTooSmall) FailIfTooSmall"
  "has_flag (ThrowOnFail OR FailIfTooSmall) ThrowOnFail"
  by (simp_all add: flag_defs)

lemma flags_Strict [simp]:
  "\<not> has_flag Strict AllowNonCanon" "has_flag Strict FailIfTooBig" "has_flag Strict ThrowOnFail"
  "\<not> has_flag Strict FailIfTooSmall"
  by (simp_all add: flag_defs)

lemma flags_LaissezFaire [simp]: "\<not> has_flag LaissezFaire ThrowOnFail"
  by (simp add: flag_defs)

lemma rlp_ctor_VeryStrict:
  "rlp_ctor mem d VeryStrict = bind_res (actualSize mem d) (\<lambda>n.
     if n < m_count d then Inl (Throw ''over size rlp'')
     else if n > m_count d then Inl (Throw ''under size rlp'') else Inr (rlp_fresh d))"
  by (cases "actualSize mem d") (simp_all add: rlp_ctor_def)

lemma rlp_ctor_prefix:
  "rlp_ctor mem d (ThrowOnFail OR FailIfTooSmall) = bind_res (actualSize mem d) (\<lambda>n.
     if n > m_count d then Inl (Throw ''under size rlp'') else Inr (rlp_fresh d))"
  by (cases "actualSize mem d") (simp_all add: rlp_ctor_def)

lemma rlp_ctor_VeryStrict_Inr:
  "wf_view mem d \<Longrightarrow> rlp_ctor mem d VeryStrict = Inr r \<longleftrightarrow> exact_view mem d \<and> r = rlp_fresh d"
  by (cases "actualSize mem d") (auto simp: rlp_ctor_VeryStrict exact_view_def)

lemma rlp_ctor_VeryStrict_safe: "wf_view mem d \<Longrightarrow> safe (rlp_ctor mem d VeryStrict)"
  by (auto simp: rlp_ctor_VeryStrict intro!: safe_bind actualSize_safe)

lemma rlp_ctor_prefix_safe: "wf_view mem d \<Longrightarrow> safe (rlp_ctor mem d (ThrowOnFail OR FailIfTooSmall))"
  by (auto simp: rlp_ctor_prefix intro!: safe_bind actualSize_safe)

lemma sizeAsEncoded_eq:
  "sizeAsEncoded mem d = bind_res (actualSize mem d) (\<lambda>n.
     if n > m_count d then Inl (Throw ''under size rlp'') else Inr n)"
  by (cases "actualSize mem d") (auto simp: sizeAsEncoded_def rlp_ctor_prefix)

lemma sizeAsEncoded_Inr:
  "wf_view mem d \<Longrightarrow> sizeAsEncoded mem d = Inr n \<longleftrightarrow> prefix_view mem d n"
  by (cases "actualSize mem d") (auto simp: sizeAsEncoded_eq prefix_view_def)

lemma sizeAsEncoded_safe: "wf_view mem d \<Longrightarrow> safe (sizeAsEncoded mem d)"
  by (auto simp: sizeAsEncoded_eq intro!: safe_bind actualSize_safe)

text \<open>The payload of an item that is completely inside its view.\<close>

lemma payload_prefix:
  assumes "prefix_view mem d n" "\<not> isNull d"
  obtains po l where "payloadOffset mem d = Inr po" "rlp_length mem d = Inr l" "po + l = n"
    "payload mem d = Inr (vr_mk (m_data d + po) l)" "wf_view mem (vr_mk (m_data d + po) l)"
proof -
  have wf: "wf_view mem d" and n: "n \<le> m_count d" and sz: "actualSize mem d = Inr n"
    using assms by (auto simp: prefix_view_def)
  obtain po l where h: "payloadOffset mem d = Inr po" "rlp_length mem d = Inr l" "po + l = n"
    using sz wf assms(2) by (auto simp: actualSize_hdr bind_res_eq_Inr)
  have d: "m_data d \<noteq> 0" using wf assms(2) by (auto simp: wf_view_def isNull_def)
  have "payload mem d = Inr (vr_mk (m_data d + po) l)"
    using h n wf d by (simp add: payload_def vr_cropped2_wf)
  moreover have "wf_view mem (vr_mk (m_data d + po) l)"
    using wf d h(3) n by (intro wf_sub) auto
  ultimately show thesis using h that by blast
qed

lemma payload_null: "isNull d \<Longrightarrow> payload mem d = Inr (vr_cropped2 d 1 0)"
  by (simp add: payload_def rlp_length_def payloadOffset_def isSingleByte_def lengthSize_def)

lemma vr_cropped2_null: "isNull d \<Longrightarrow> vr_cropped2 d 1 0 = vr_empty"
  by (simp add: vr_cropped2_def isNull_def)

lemma payload_safe: "wf_view mem d \<Longrightarrow> safe (payload mem d)"
proof (cases "isNull d")
  case False
  assume wf: "wf_view mem d"
  from wf False obtain po where "payloadOffset mem d = Inr po" by (rule payloadOffset_wf)
  with wf False show ?thesis by (auto simp: payload_def intro!: safe_bind rlp_length_safe)
qed (simp add: payload_null)

lemma payload_wf:
  assumes "wf_view mem d" "payload mem d = Inr p"
  shows "wf_view mem p" "m_count p \<le> m_count d"
proof -
  show "wf_view mem p"
    using assms wf_cropped2 by (auto simp: payload_def bind_res_eq_Inr split: if_splits)
  show "m_count p \<le> m_count d"
    using assms by (auto simp: payload_def bind_res_eq_Inr vr_cropped2_def split: if_splits)
qed

end
