(* ===== verification/RLP_Reader.thy ===== *)
theory RLP_Reader
  imports RLP_Header
begin

unbundle bit_operations_syntax

text \<open>
  Model of the list access and the conversions of the class \<open>RLP\<close>
  (\<open>platonlib/include/platon/RLP.h\<close>, \<open>platonlib/src/RLP.cpp\<close>): counting items, \<open>operator[]\<close>
  with its mutable cache, the iterator and the range-for over it, and \<open>toBytes\<close>, \<open>toString\<close>,
  \<open>toInt\<close>, \<open>toSignedInt\<close>, \<open>toHash\<close> and their kin. The lemmas relate the three ways to walk a
  list to one reference split of its payload, and show that no access to untrusted data leaves
  its view.
\<close>

section \<open>Counting items\<close>

lemma payloadOffset_bounds:
  "payloadOffset mem d = Inr po \<Longrightarrow> po \<le> 9"
proof -
  assume "payloadOffset mem d = Inr po"
  then show ?thesis
    using byte_le
    by (auto simp: payloadOffset_def bind_res_eq_Inr lengthSize_def Let_def rlp_consts
        split: if_splits intro: order_trans [of _ 8] intro!: diff_le_mono [of _ 255 247, simplified])
qed

lemma sizeAsEncoded_pos:
  assumes "sizeAsEncoded mem d = Inr n" "m_count d \<noteq> 0"
  shows "0 < n"
proof -
  obtain s where s: "isSingleByte mem d = Inr s" and a: "actualSize mem d = Inr n"
    using assms by (auto simp: sizeAsEncoded_eq actualSize_def isNull_def bind_res_eq_Inr
        split: if_splits)
  show ?thesis
  proof (cases s)
    case True
    with s a assms(2) show ?thesis by (simp add: actualSize_def isNull_def)
  next
    case False
    then have s: "isSingleByte mem d = Inr False" using s by simp
    then obtain b where "vr_at mem d 0 = Inr b" "isNull d \<longleftrightarrow> False"
      using assms(2) by (auto simp: isSingleByte_def isNull_def bind_res_eq_Inr)
    with s a obtain po l where po: "payloadOffset mem d = Inr po" and l: "rlp_length mem d = Inr l"
      and n: "n = (po + l) mod 2 ^ 32"
      by (cases "unat b < c_rlpListStart")
        (auto simp: actualSize_def isData_def isList_def bind_res_eq_Inr)
    have "po + l < 2 ^ 32"
      using payloadOffset_bounds [OF po] rlp_length_bound [OF l] by simp
    moreover have "0 < po" using po s by (auto simp: payloadOffset_def bind_res_eq_Inr)
    ultimately show ?thesis using n by simp
  qed
qed

lemma m_count_cropped: "0 < n \<Longrightarrow> m_count d \<noteq> 0 \<Longrightarrow> m_count (vr_cropped d n) < m_count d"
  by (simp add: vr_cropped_def)

function items_loop :: "memory \<Rightarrow> vector_ref \<Rightarrow> nat \<Rightarrow> nat res" where
  "items_loop mem d i =
     (if m_count d = 0 then Inr i
      else bind_res (sizeAsEncoded mem d) (\<lambda>n. items_loop mem (vr_cropped d n) (Suc i)))"
  by pat_completeness auto
termination
proof (relation "measure (\<lambda>(mem, d, i). m_count d)")
  fix mem d i n
  assume "m_count d \<noteq> 0" "sizeAsEncoded mem d = Inr n"
  then show "((mem, vr_cropped d n, Suc i), (mem, d, i)) \<in> measure (\<lambda>(mem, d, i). m_count d)"
    using m_count_cropped [of n d] sizeAsEncoded_pos [of mem d n] by simp
qed simp

declare items_loop.simps [simp del]

definition items :: "memory \<Rightarrow> vector_ref \<Rightarrow> nat res" where
  "items mem d =
     bind_res (isList mem d) (\<lambda>l.
       if l then bind_res (payload mem d) (\<lambda>p. items_loop mem p 0) else Inr 0)"

definition itemCount :: "memory \<Rightarrow> vector_ref \<Rightarrow> nat res" where
  "itemCount mem d = bind_res (isList mem d) (\<lambda>l. if l then items mem d else Inr 0)"

definition itemCountStrict :: "memory \<Rightarrow> vector_ref \<Rightarrow> nat res" where
  "itemCountStrict mem d =
     bind_res (isList mem d) (\<lambda>l. if \<not> l then Inl (Throw ''bad cast'') else items mem d)"

section \<open>The subscript operator and its cache\<close>

type_synonym index_cache = "nat \<times> nat \<times> vector_ref"

function index_loop :: "memory \<Rightarrow> vector_ref \<Rightarrow> nat \<Rightarrow> nat \<Rightarrow> nat \<Rightarrow> vector_ref \<Rightarrow> index_cache res" where
  "index_loop mem d i li le item =
     (if li < i \<and> m_count item \<noteq> 0
      then bind_res (payload mem d) (\<lambda>p.
             let it1 = vr_cropped p le in
             bind_res (sizeAsEncoded mem it1) (\<lambda>n.
               let it2 = vr_cropped2 it1 0 n in
               index_loop mem d i (Suc li) ((le + m_count it2) mod 2 ^ 32) it2))
      else Inr (li, le, item))"
  by pat_completeness auto
termination
  by (relation "measure (\<lambda>(mem, d, i, li, le, item). i - li)") auto

declare index_loop.simps [simp del]

definition rlp_index :: "memory \<Rightarrow> RLP \<Rightarrow> nat \<Rightarrow> (RLP \<times> RLP) res" where
  "rlp_index mem r i =
     bind_res (if i < m_lastIndex r
               then bind_res (payload mem (rlp_data r)) (\<lambda>p.
                      bind_res (sizeAsEncoded mem p) (\<lambda>e. Inr (0, e, vr_cropped2 p 0 e)))
               else Inr (m_lastIndex r, m_lastEnd r, m_lastItem r))
       (\<lambda>(li, le, item).
         bind_res (index_loop mem (rlp_data r) i li le item) (\<lambda>(li', le', item').
           bind_res (rlp_ctor mem item' (ThrowOnFail OR FailIfTooSmall)) (\<lambda>x.
             Inr (x, r\<lparr>m_lastIndex := li', m_lastEnd := le', m_lastItem := item'\<rparr>))))"

section \<open>Iteration\<close>

record rlp_iter =
  m_remaining :: nat
  m_currentItem :: vector_ref

definition iter_ctor :: "memory \<Rightarrow> vector_ref \<Rightarrow> bool \<Rightarrow> rlp_iter res" where
  "iter_ctor mem d begin =
     bind_res (if begin then isList mem d else Inr False) (\<lambda>b.
       if b then bind_res (payload mem d) (\<lambda>pl. bind_res (sizeAsEncoded mem pl) (\<lambda>n.
              let cur = vr_cropped2 pl 0 n in
              Inr \<lparr>m_remaining = m_count pl - m_count cur, m_currentItem = cur\<rparr>))
       else Inr \<lparr>m_remaining = 0, m_currentItem = vr_cropped d (m_count d)\<rparr>)"

definition iter_inc :: "memory \<Rightarrow> rlp_iter \<Rightarrow> rlp_iter res" where
  "iter_inc mem it =
     (if m_remaining it \<noteq> 0
      then let c = vr_retarget (m_currentItem it) (m_data (vr_next (m_currentItem it))) (m_remaining it) in
        bind_res (sizeAsEncoded mem c) (\<lambda>n.
          let c' = vr_cropped2 c 0 n in
          Inr \<lparr>m_remaining = m_remaining it - min (m_remaining it) (m_count c'), m_currentItem = c'\<rparr>)
      else Inr (it\<lparr>m_currentItem := vr_retarget (m_currentItem it)
                                      (m_data (vr_next (m_currentItem it))) 0\<rparr>))"

text \<open>
  \<open>for (auto const& i : rlp) body(i)\<close>, collecting the results of the body. The fuel is one more
  than the number of bytes of the view, since every increment that does not reach the end
  consumes a byte; running out of it is \<open>OutOfFuel\<close>.
\<close>

fun range_for_loop ::
  "memory \<Rightarrow> (RLP \<Rightarrow> 'a res) \<Rightarrow> vector_ref \<Rightarrow> nat \<Rightarrow> rlp_iter \<Rightarrow> 'a list res" where
  "range_for_loop mem body en 0 it = Inl OutOfFuel"
| "range_for_loop mem body en (Suc fuel) it =
     (if vr_eq (m_currentItem it) en then Inr []
      else bind_res (rlp_ctor mem (m_currentItem it) VeryStrict) (\<lambda>r.
        bind_res (body r) (\<lambda>x.
        bind_res (iter_inc mem it) (\<lambda>it'.
        bind_res (range_for_loop mem body en fuel it') (\<lambda>xs. Inr (x # xs))))))"

definition range_for :: "memory \<Rightarrow> vector_ref \<Rightarrow> (RLP \<Rightarrow> 'a res) \<Rightarrow> 'a list res" where
  "range_for mem d body =
     bind_res (iter_ctor mem d True) (\<lambda>it.
     bind_res (iter_ctor mem d False) (\<lambda>en.
       range_for_loop mem body (m_currentItem en) (Suc (m_count d)) it))"

section \<open>Conversions\<close>

definition toBytes :: "memory \<Rightarrow> vector_ref \<Rightarrow> nat \<Rightarrow> bytes res" where
  "toBytes mem d flags =
     bind_res (isData mem d) (\<lambda>dt.
       if \<not> dt then (if has_flag flags ThrowOnFail then Inl (Throw ''bad cast'') else Inr [])
       else bind_res (payload mem d) (\<lambda>p. bind_res (rlp_length mem d) (\<lambda>l.
              mem_range mem (m_data p) l)))"

definition toBytesConstRef :: "memory \<Rightarrow> vector_ref \<Rightarrow> nat \<Rightarrow> vector_ref res" where
  "toBytesConstRef mem d flags =
     bind_res (isData mem d) (\<lambda>dt.
       if \<not> dt then (if has_flag flags ThrowOnFail then Inl (Throw ''bad cast'') else Inr vr_empty)
       else bind_res (payload mem d) (\<lambda>p. bind_res (rlp_length mem d) (\<lambda>l.
              Inr (vr_cropped2 p 0 l))))"

definition toString :: "memory \<Rightarrow> vector_ref \<Rightarrow> nat \<Rightarrow> bytes res" where
  "toString mem d flags =
     bind_res (isData mem d) (\<lambda>dt.
       if \<not> dt then (if has_flag flags ThrowOnFail then Inl (Throw ''bad cast'') else Inr [])
       else bind_res (payload mem d) (\<lambda>p. bind_res (rlp_length mem d) (\<lambda>l.
              vr_toBytes mem (vr_cropped2 p 0 l))))"

definition toInt :: "memory \<Rightarrow> vector_ref \<Rightarrow> nat \<Rightarrow> 'a::len word res" where
  "toInt mem d flags =
     bind_res (requireGood mem d) (\<lambda>_.
     bind_res (isInt mem d) (\<lambda>int.
     bind_res (isList mem d) (\<lambda>ls.
       if (\<not> int \<and> \<not> has_flag flags AllowNonCanon) \<or> ls \<or> isNull d
       then (if has_flag flags ThrowOnFail then Inl (Throw ''bad cast'') else Inr 0)
       else bind_res (payload mem d) (\<lambda>p.
         if m_count p > LENGTH('a) div 8 \<and> has_flag flags FailIfTooBig
         then (if has_flag flags ThrowOnFail then Inl (Throw ''bad cast'') else Inr 0)
         else bind_res (vr_toBytes mem p) (\<lambda>bs. Inr (fromBigEndian bs))))))"

definition toSignedInt :: "memory \<Rightarrow> vector_ref \<Rightarrow> nat \<Rightarrow> 'a::len word res" where
  "toSignedInt mem d flags =
     bind_res (toInt mem d flags) (\<lambda>u :: 128 word.
       Inr (ucast ((drop_bit 1 u) XOR (- (u AND 1)))))"

definition toBool :: "memory \<Rightarrow> vector_ref \<Rightarrow> nat \<Rightarrow> bool res" where
  "toBool mem d flags = bind_res (toInt mem d flags) (\<lambda>i :: 8 word. Inr (i \<noteq> 0))"

definition toFloat :: "memory \<Rightarrow> vector_ref \<Rightarrow> nat \<Rightarrow> 32 word res" where
  "toFloat mem d flags = toInt mem d flags"

definition toDouble :: "memory \<Rightarrow> vector_ref \<Rightarrow> nat \<Rightarrow> 64 word res" where
  "toDouble mem d flags = toInt mem d Strict"

definition toPositiveInt64 :: "memory \<Rightarrow> vector_ref \<Rightarrow> nat \<Rightarrow> 64 word res" where
  "toPositiveInt64 mem d flags =
     bind_res (toInt mem d flags) (\<lambda>i.
       if has_flag flags ThrowOnFail \<and> sint i < 0 then Inl (Throw ''bad cast'') else Inr i)"

text \<open>\<open>toHash\<close> right-aligns the payload in \<open>N\<close> bytes.\<close>

definition toHash :: "nat \<Rightarrow> memory \<Rightarrow> vector_ref \<Rightarrow> nat \<Rightarrow> bytes res" where
  "toHash N mem d flags =
     bind_res (requireGood mem d) (\<lambda>_.
     bind_res (payload mem d) (\<lambda>p.
     bind_res (isData mem d) (\<lambda>dt.
       let l = m_count p in
       if \<not> dt \<or> (l > N \<and> has_flag flags FailIfTooBig) \<or> (l < N \<and> has_flag flags FailIfTooSmall)
       then (if has_flag flags ThrowOnFail then Inl (Throw ''bad cast'') else Inr (replicate N 0))
       else let s = min N l in
         bind_res (mem_range mem (m_data p) s) (\<lambda>bs. Inr (replicate (N - s) 0 @ bs)))))"

end
