(* ===== verification/RLP_Walk.thy ===== *)
theory RLP_Walk
  imports RLP_Reader
begin

unbundle bit_operations_syntax

text \<open>
  The three ways in which the library walks the items of a list (\<open>items\<close>, \<open>operator[]\<close> with
  its cache, the iterator) against one reference: \<open>split_items\<close>, the sequence of complete items
  a payload is made of.
\<close>

section \<open>An item does not depend on the bytes after it\<close>

lemma vr_at_shrink:
  "m_data d' = m_data d \<Longrightarrow> i < m_count d' \<Longrightarrow> m_count d' \<le> m_count d \<Longrightarrow> vr_at mem d' i = vr_at mem d i"
  by (simp add: vr_at_def)

lemma length_loop_shrink:
  assumes "m_data d' = m_data d" "m_count d' \<le> m_count d"
  shows "i + k < m_count d' \<Longrightarrow> length_loop mem d' i k ret = length_loop mem d i k ret"
  by (induction k arbitrary: i ret) (simp_all add: vr_at_shrink [OF assms(1) _ assms(2)])

lemma length_long_shrink:
  assumes "m_data d' = m_data d" "m_count d' \<le> m_count d" "0 < lsize" "lsize < m_count d'"
  shows "length_long mem d' lsize lim = length_long mem d lsize lim"
proof -
  have "vr_at mem d' 1 = vr_at mem d 1" "length_loop mem d' 0 lsize 0 = length_loop mem d 0 lsize 0"
    using assms(3,4) vr_at_shrink [OF assms(1) _ assms(2)] length_loop_shrink [OF assms(1,2)]
    by auto
  with assms show ?thesis by (simp add: length_long_def cong: if_cong)
qed

lemma requireGood_shrink:
  assumes "m_data d' = m_data d" "m_count d' \<le> m_count d" "0 < m_count d'"
    and "\<And>b. vr_at mem d 0 = Inr b \<Longrightarrow> unat b = 129 \<Longrightarrow> 2 \<le> m_count d'"
  shows "requireGood mem d' = requireGood mem d"
proof -
  have a0: "vr_at mem d' 0 = vr_at mem d 0" using assms(3) by (rule vr_at_shrink [OF assms(1) _ assms(2)])
  have a1: "2 \<le> m_count d' \<Longrightarrow> vr_at mem d' 1 = vr_at mem d 1"
    by (rule vr_at_shrink [OF assms(1) _ assms(2)]) simp
  show ?thesis
  proof (cases "vr_at mem d 0")
    case (Inr b)
    show ?thesis
    proof (cases "unat b = 129")
      case True
      with Inr assms(4) have "2 \<le> m_count d'" by simp
      with True Inr a0 a1 assms show ?thesis by (simp add: requireGood_def isNull_def rlp_consts)
    next
      case False
      with Inr a0 assms show ?thesis by (simp add: requireGood_def isNull_def rlp_consts)
    qed
  qed (use a0 assms in \<open>simp add: requireGood_def isNull_def\<close>)
qed

lemma payloadOffset_shrink:
  assumes "m_data d' = m_data d" "m_count d' \<le> m_count d" "0 < m_count d'"
  shows "payloadOffset mem d' = payloadOffset mem d"
proof -
  have "vr_at mem d' 0 = vr_at mem d 0" using assms(3) by (rule vr_at_shrink [OF assms(1) _ assms(2)])
  with assms show ?thesis
    by (simp add: payloadOffset_def isSingleByte_def lengthSize_def isNull_def cong: if_cong)
qed

lemma rlp_length_shrink:
  assumes "m_data d' = m_data d" "m_count d' \<le> m_count d" "0 < m_count d'"
    and h: "payloadOffset mem d = Inr po" "rlp_length mem d = Inr l" "m_count d' = po + l"
  shows "rlp_length mem d' = Inr l"
proof -
  have a0: "vr_at mem d' 0 = vr_at mem d 0" using assms(3) by (rule vr_at_shrink [OF assms(1) _ assms(2)])
  have nn: "\<not> isNull d" "\<not> isNull d'" using assms by (auto simp: isNull_def)
  from h(2) nn obtain b where b: "vr_at mem d 0 = Inr b"
    by (auto simp: rlp_length_def bind_res_eq_Inr)
  have rg: "requireGood mem d' = requireGood mem d"
  proof (rule requireGood_shrink)
    fix c assume c: "vr_at mem d 0 = Inr c" "unat c = 129"
    with b h(1,2) nn have "po = 1" "l = 1"
      by (auto simp: rlp_length_def payloadOffset_def isSingleByte_def lengthSize_def
          bind_res_eq_Inr rlp_consts)
    with h(3) show "2 \<le> m_count d'" by simp
  qed (use assms in auto)
  have po: "po = 1 + (unat b - 183)" if "183 < unat b" "unat b < 192"
    using h(1) b that nn by (simp add: payloadOffset_def isSingleByte_def lengthSize_def rlp_consts)
  have po': "po = 1 + (unat b - 247)" if "247 < unat b"
    using h(1) b that nn by (simp add: payloadOffset_def isSingleByte_def lengthSize_def rlp_consts)
  have "length_long mem d' (unat b - 183) 56 = length_long mem d (unat b - 183) 56"
    if "183 < unat b" "unat b < 192"
    using that po h(3) assms by (intro length_long_shrink) auto
  moreover have "length_long mem d' (unat b - 247) 56 = length_long mem d (unat b - 247) 56"
    if "247 < unat b"
    using that po' h(3) assms by (intro length_long_shrink) auto
  ultimately have "rlp_length mem d' = rlp_length mem d"
    using nn rg b by (simp add: rlp_length_def a0 rlp_consts Let_def)
  with h(2) show ?thesis by simp
qed

text \<open>The first item of a view, cropped to its size, is a view of exactly that item.\<close>

lemma prefix_exact:
  assumes "prefix_view mem d n" "0 < n"
  shows "vr_cropped2 d 0 n = vr_mk (m_data d) n" "exact_view mem (vr_mk (m_data d) n)"
proof -
  have wf: "wf_view mem d" and n: "n \<le> m_count d" using assms by (auto simp: prefix_view_def)
  have nn: "\<not> isNull d" and d: "m_data d \<noteq> 0" using wf n assms(2) by (auto simp: isNull_def wf_view_def)
  show "vr_cropped2 d 0 n = vr_mk (m_data d) n" using wf d n by (simp add: vr_cropped2_wf)
  obtain po l where h: "payloadOffset mem d = Inr po" "rlp_length mem d = Inr l" "po + l = n"
    using payload_prefix [OF assms(1) nn] by blast
  let ?d = "vr_mk (m_data d) n"
  have "payloadOffset mem ?d = Inr po" "rlp_length mem ?d = Inr l"
    using payloadOffset_shrink [of ?d d] rlp_length_shrink [of ?d d mem po l] h n assms(2) by simp_all
  moreover have "wf_view mem ?d" using wf_sub [OF wf d, of 0 n] n by simp
  ultimately show "exact_view mem ?d"
    using h(3) assms(2) by (simp add: exact_view_def actualSize_hdr isNull_def)
qed

section \<open>The reference split of a payload\<close>

function split_items :: "memory \<Rightarrow> vector_ref \<Rightarrow> vector_ref list res" where
  "split_items mem p =
     (if m_count p = 0 then Inr []
      else bind_res (sizeAsEncoded mem p) (\<lambda>n.
        bind_res (split_items mem (vr_cropped p n)) (\<lambda>vs. Inr (vr_cropped2 p 0 n # vs))))"
  by pat_completeness auto
termination
proof (relation "measure (\<lambda>(mem, p). m_count p)")
  fix mem p n
  assume "m_count p \<noteq> 0" "sizeAsEncoded mem p = Inr n"
  then show "((mem, vr_cropped p n), (mem, p)) \<in> measure (\<lambda>(mem, p). m_count p)"
    using m_count_cropped [of n p] sizeAsEncoded_pos [of mem p n] by simp
qed simp

declare split_items.simps [simp del]

definition item_off :: "vector_ref list \<Rightarrow> nat \<Rightarrow> nat" where
  "item_off vs k = sum_list (map m_count (take k vs))"

lemma item_off_0 [simp]: "item_off vs 0 = 0"
  by (simp add: item_off_def)

lemma item_off_Suc: "k < length vs \<Longrightarrow> item_off vs (Suc k) = item_off vs k + m_count (vs ! k)"
  by (simp add: item_off_def take_Suc_conv_app_nth)

lemma item_off_Cons [simp]: "item_off (v # vs) (Suc k) = m_count v + item_off vs k"
  by (simp add: item_off_def)

lemma item_off_ge: "length vs \<le> k \<Longrightarrow> item_off vs k = item_off vs (length vs)"
  by (simp add: item_off_def)

lemma split_items_empty: "m_count p = 0 \<Longrightarrow> split_items mem p = Inr []"
  by (simp add: split_items.simps)

lemma split_items_Cons:
  assumes "wf_view mem p" "m_count p \<noteq> 0" "split_items mem p = Inr vs"
  obtains n vs' where "vs = vr_mk (m_data p) n # vs'" "0 < n" "n \<le> m_count p" "prefix_view mem p n"
    "exact_view mem (vr_mk (m_data p) n)"
    "split_items mem (vr_mk (m_data p + n) (m_count p - n)) = Inr vs'"
    "wf_view mem (vr_mk (m_data p + n) (m_count p - n))"
proof -
  from assms(2,3) obtain n vs' where n: "sizeAsEncoded mem p = Inr n"
    and vs': "split_items mem (vr_cropped p n) = Inr vs'" and vs: "vs = vr_cropped2 p 0 n # vs'"
    by (auto simp: split_items.simps [of mem p] bind_res_eq_Inr)
  have pos: "0 < n" using sizeAsEncoded_pos n assms(2) by blast
  have pv: "prefix_view mem p n" using n assms(1) by (simp add: sizeAsEncoded_Inr)
  then have le: "n \<le> m_count p" by (simp add: prefix_view_def)
  have d: "m_data p \<noteq> 0" using assms(1,2) by (auto simp: wf_view_def)
  have cr: "vr_cropped p n = vr_mk (m_data p + n) (m_count p - n)"
    using d le by (simp add: vr_cropped_wf)
  moreover have "wf_view mem (vr_mk (m_data p + n) (m_count p - n))"
    using wf_sub [OF assms(1) d, of n "m_count p - n"] le by simp
  ultimately show thesis
    using that [of n vs'] prefix_exact [OF pv pos] vs vs' pos le pv by simp
qed

text \<open>What a successful split says about every position of the payload.\<close>

lemma split_items_props:
  assumes "wf_view mem p" "m_data p \<noteq> 0" "split_items mem p = Inr vs"
  shows "item_off vs (length vs) = m_count p" (is ?total)
    and "\<forall>k < length vs. vs ! k = vr_mk (m_data p + item_off vs k) (m_count (vs ! k)) \<and>
           0 < m_count (vs ! k) \<and> exact_view mem (vs ! k) \<and>
           prefix_view mem (vr_mk (m_data p + item_off vs k) (m_count p - item_off vs k))
             (m_count (vs ! k))" (is ?each)
proof -
  have "?total \<and> ?each"
    using assms
  proof (induction vs arbitrary: p)
    case Nil
    then have "m_count p = 0"
      by (auto simp: split_items.simps [of mem p] bind_res_eq_Inr split: if_splits)
    then show ?case by simp
  next
    case (Cons v vs)
    have "m_count p \<noteq> 0" using Cons.prems(3) split_items_empty [of p mem] by auto
    from split_items_Cons [OF Cons.prems(1) this Cons.prems(3)]
    obtain n vs' where h: "v # vs = vr_mk (m_data p) n # vs'" "0 < n" "n \<le> m_count p"
      "prefix_view mem p n" "exact_view mem (vr_mk (m_data p) n)"
      "split_items mem (vr_mk (m_data p + n) (m_count p - n)) = Inr vs'"
      "wf_view mem (vr_mk (m_data p + n) (m_count p - n))"
      by blast
    let ?q = "vr_mk (m_data p + n) (m_count p - n)"
    have IH: "item_off vs (length vs) = m_count ?q \<and> (\<forall>k < length vs.
        vs ! k = vr_mk (m_data ?q + item_off vs k) (m_count (vs ! k)) \<and>
        0 < m_count (vs ! k) \<and> exact_view mem (vs ! k) \<and>
        prefix_view mem (vr_mk (m_data ?q + item_off vs k) (m_count ?q - item_off vs k))
          (m_count (vs ! k)))"
      by (rule Cons.IH) (use h Cons.prems in auto)
    have v: "v = vr_mk (m_data p) n" "m_count v = n" using h by auto
    show ?case
    proof (intro conjI allI impI)
      show "item_off (v # vs) (length (v # vs)) = m_count p" using IH v h(3) by simp
    next
      fix k assume "k < length (v # vs)"
      then show "(v # vs) ! k = vr_mk (m_data p + item_off (v # vs) k) (m_count ((v # vs) ! k))"
        "0 < m_count ((v # vs) ! k)" "exact_view mem ((v # vs) ! k)"
        "prefix_view mem (vr_mk (m_data p + item_off (v # vs) k) (m_count p - item_off (v # vs) k))
             (m_count ((v # vs) ! k))"
        using IH h v by (auto simp: nth_Cons add.assoc split: nat.split)
    qed
  qed
  then show ?total ?each by auto
qed

lemma split_items_length_le:
  assumes "wf_view mem p" "m_data p \<noteq> 0" "split_items mem p = Inr vs"
  shows "length vs \<le> m_count p"
proof -
  have "k \<le> length vs \<Longrightarrow> k \<le> item_off vs k" for k
  proof (induction k)
    case (Suc k)
    then have "0 < m_count (vs ! k)" using split_items_props(2) [OF assms] by simp
    with Suc show ?case by (simp add: item_off_Suc)
  qed simp
  from this [of "length vs"] show ?thesis using split_items_props(1) [OF assms] by simp
qed

section \<open>Counting\<close>

lemma items_loop_split:
  assumes "split_items mem p = Inr vs"
  shows "items_loop mem p i = Inr (i + length vs)"
  using assms
proof (induction mem p arbitrary: vs i rule: split_items.induct)
  case (1 mem p)
  show ?case
  proof (cases "m_count p = 0")
    case True
    with "1.prems" show ?thesis by (simp add: items_loop.simps split_items_empty)
  next
    case False
    with "1.prems" obtain n vs' where n: "sizeAsEncoded mem p = Inr n"
      and vs': "split_items mem (vr_cropped p n) = Inr vs'" and vs: "vs = vr_cropped2 p 0 n # vs'"
      by (auto simp: split_items.simps [of mem p] bind_res_eq_Inr)
    have "items_loop mem (vr_cropped p n) (Suc i) = Inr (Suc i + length vs')"
      by (rule "1.IH" [OF False n vs'])
    with n vs False show ?thesis by (simp add: items_loop.simps [of mem p])
  qed
qed

text \<open>A list view together with the split of its payload: the precondition of every walk.\<close>

definition list_view :: "memory \<Rightarrow> vector_ref \<Rightarrow> vector_ref \<Rightarrow> vector_ref list \<Rightarrow> bool" where
  "list_view mem d p vs \<longleftrightarrow> exact_view mem d \<and> isList mem d = Inr True \<and>
     payload mem d = Inr p \<and> split_items mem p = Inr vs"

lemma list_viewD:
  assumes "list_view mem d p vs"
  shows "wf_view mem d" "\<not> isNull d" "isList mem d = Inr True" "payload mem d = Inr p"
    "wf_view mem p" "m_data p \<noteq> 0" "split_items mem p = Inr vs"
    "m_data p + m_count p = m_data d + m_count d" "m_count p < m_count d"
proof -
  show wf: "wf_view mem d" and ls: "isList mem d = Inr True" and pl: "payload mem d = Inr p"
    and "split_items mem p = Inr vs"
    using assms by (auto simp: list_view_def exact_view_def)
  show nn: "\<not> isNull d" using ls wf by (auto simp: isList_wf)
  have "192 \<le> unat (contents mem d ! 0)" using ls wf by (simp add: isList_wf)
  with wf nn have ne: "payloadOffset mem d \<noteq> Inr 0" by (auto elim: payloadOffset_wf)
  have "prefix_view mem d (m_count d)" using assms by (simp add: list_view_def exact_prefix)
  then obtain po l where h: "payloadOffset mem d = Inr po" "po + l = m_count d"
    "payload mem d = Inr (vr_mk (m_data d + po) l)" "wf_view mem (vr_mk (m_data d + po) l)"
    using nn by (rule payload_prefix)
  with ne have "0 < po" by auto
  with h pl show "wf_view mem p" "m_data p \<noteq> 0" "m_data p + m_count p = m_data d + m_count d"
    "m_count p < m_count d" by auto
qed

lemma itemCount_list_view:
  assumes "list_view mem d p vs"
  shows "itemCount mem d = Inr (length vs)" "itemCountStrict mem d = Inr (length vs)"
  using list_viewD [OF assms] items_loop_split [of mem p vs 0]
  by (simp_all add: itemCount_def itemCountStrict_def items_def)

section \<open>The cached subscript\<close>

definition item_at :: "vector_ref \<Rightarrow> vector_ref list \<Rightarrow> nat \<Rightarrow> vector_ref" where
  "item_at p vs i = (if i < length vs then vs ! i else vr_mk (m_data p + m_count p) 0)"

definition cache_ok :: "vector_ref \<Rightarrow> vector_ref list \<Rightarrow> RLP \<Rightarrow> bool" where
  "cache_ok p vs r \<longleftrightarrow> m_lastIndex r = size_max \<or>
     (m_lastIndex r \<le> length vs \<and> m_lastItem r = item_at p vs (m_lastIndex r) \<and>
      m_lastEnd r = item_off vs (Suc (m_lastIndex r)))"

lemma cache_ok_fresh [simp]: "cache_ok p vs (rlp_fresh d)"
  by (simp add: cache_ok_def)

text \<open>The item at position \<open>k\<close> read from the payload the way the loop of \<open>operator[]\<close> reads it.\<close>

lemma item_read:
  assumes "wf_view mem p" "m_data p \<noteq> 0" "split_items mem p = Inr vs" "k \<le> length vs"
  shows "\<exists>n. sizeAsEncoded mem (vr_cropped p (item_off vs k)) = Inr n \<and>
           vr_cropped2 (vr_cropped p (item_off vs k)) 0 n = item_at p vs k \<and>
           item_off vs k + n = item_off vs (Suc k) \<and> item_off vs (Suc k) \<le> m_count p \<and>
           m_count (item_at p vs k) = n"
proof (cases "k < length vs")
  case True
  let ?o = "item_off vs k"
  let ?q = "vr_mk (m_data p + ?o) (m_count p - ?o)"
  have e: "vs ! k = vr_mk (m_data p + ?o) (m_count (vs ! k))" "0 < m_count (vs ! k)"
    "prefix_view mem ?q (m_count (vs ! k))"
    using split_items_props(2) [OF assms(1-3)] True by auto
  have n: "m_count (vs ! k) \<le> m_count p - ?o" and wfq: "wf_view mem ?q"
    using e(3) by (auto simp: prefix_view_def)
  then have "vr_cropped p ?o = ?q" using assms(2) e(2) by (simp add: vr_cropped_wf)
  then show ?thesis
    using e n wfq prefix_exact [OF e(3,2)] True
    by (auto simp: sizeAsEncoded_Inr item_at_def item_off_Suc)
next
  case False
  with assms(4) have k: "k = length vs" by simp
  have o: "item_off vs k = m_count p" "item_off vs (Suc k) = m_count p"
    using split_items_props(1) [OF assms(1-3)] k item_off_ge [of vs "Suc k"] by simp_all
  have c: "vr_cropped p (m_count p) = vr_mk (m_data p + m_count p) 0"
    using assms(2) by (simp add: vr_cropped_wf)
  have "sizeAsEncoded mem (vr_mk (m_data p + m_count p) 0) = Inr 0"
    by (simp add: sizeAsEncoded_eq actualSize_def isNull_def)
  then show ?thesis using o c k assms(2) by (simp add: item_at_def vr_cropped2_def)
qed

lemma index_loop_split:
  assumes "wf_view mem p" "m_data p \<noteq> 0" "split_items mem p = Inr vs" "payload mem d = Inr p"
    and "li \<le> length vs" "le = item_off vs (Suc li)" "item = item_at p vs li" "li \<le> i"
  shows "index_loop mem d i li le item =
     (let k = min i (length vs) in Inr (k, item_off vs (Suc k), item_at p vs k))"
  using assms(5-)
proof (induction "i - li" arbitrary: li le item)
  case 0
  then show ?case by (simp add: index_loop.simps Let_def)
next
  case (Suc m)
  then have lt: "li < i" by simp
  show ?case
  proof (cases "li < length vs")
    case True
    then have ne: "m_count item \<noteq> 0"
      using Suc.prems(3) split_items_props(2) [OF assms(1-3)] by (simp add: item_at_def)
    from True obtain n where n: "sizeAsEncoded mem (vr_cropped p (item_off vs (Suc li))) = Inr n"
      "vr_cropped2 (vr_cropped p (item_off vs (Suc li))) 0 n = item_at p vs (Suc li)"
      "item_off vs (Suc li) + n = item_off vs (Suc (Suc li))"
      "item_off vs (Suc (Suc li)) \<le> m_count p" "m_count (item_at p vs (Suc li)) = n"
      using item_read [OF assms(1-3), of "Suc li"] by auto
    have "item_off vs (Suc (Suc li)) < 2 ^ 32" using n(4) wf_count [OF assms(1)] by simp
    then have "index_loop mem d i li le item =
        index_loop mem d i (Suc li) (item_off vs (Suc (Suc li))) (item_at p vs (Suc li))"
      using lt ne n Suc.prems(2) assms(4) by (subst index_loop.simps) (simp add: Let_def)
    also have "\<dots> = (let k = min i (length vs) in Inr (k, item_off vs (Suc k), item_at p vs k))"
      using True lt Suc.hyps(2) by (intro Suc.hyps(1)) auto
    finally show ?thesis .
  next
    case False
    then have "li = length vs" "m_count item = 0" using Suc.prems(1,3) by (auto simp: item_at_def)
    then show ?thesis using lt Suc.prems by (simp add: index_loop.simps Let_def min_def)
  qed
qed

text \<open>
  \<open>operator[]\<close> on a list returns the item at the index, or a null item behind the end, whatever
  the cache holds, and leaves a correct cache.
\<close>

lemma rlp_index_split:
  assumes lv: "list_view mem (rlp_data r) p vs" and c: "cache_ok p vs r" and i: "i < size_max"
  shows "\<exists>r'. rlp_index mem r i = Inr (rlp_fresh (item_at p vs i), r') \<and>
           rlp_data r' = rlp_data r \<and> cache_ok p vs r'"
proof -
  note lvD = list_viewD [OF lv]
  let ?k = "min i (length vs)"
  let ?st = "(?k, item_off vs (Suc ?k), item_at p vs ?k)"
  let ?r = "r\<lparr>m_lastIndex := ?k, m_lastEnd := item_off vs (Suc ?k), m_lastItem := item_at p vs ?k\<rparr>"
  obtain n where n: "sizeAsEncoded mem p = Inr n" "vr_cropped2 p 0 n = item_at p vs 0"
    "n = item_off vs (Suc 0)"
    using item_read [OF lvD(5-7), of 0] lvD(6) by (auto simp: vr_cropped_def)
  have loop: "index_loop mem (rlp_data r) i li le item = Inr ?st"
    if "li \<le> length vs" "le = item_off vs (Suc li)" "item = item_at p vs li" "li \<le> i" for li le item
    using index_loop_split [OF lvD(5-7,4) that] by (simp add: Let_def)
  have at: "item_at p vs ?k = item_at p vs i" by (simp add: item_at_def min_def)
  have "rlp_ctor mem (item_at p vs i) (ThrowOnFail OR FailIfTooSmall) = Inr (rlp_fresh (item_at p vs i))"
  proof (cases "i < length vs")
    case True
    then have "exact_view mem (vs ! i)" using split_items_props(2) [OF lvD(5-7)] by simp
    with True show ?thesis by (simp add: item_at_def rlp_ctor_prefix exact_view_def)
  next
    case False
    then show ?thesis by (simp add: item_at_def rlp_ctor_prefix actualSize_def isNull_def)
  qed
  then have "rlp_index mem r i = Inr (rlp_fresh (item_at p vs i), ?r)"
  proof (cases "i < m_lastIndex r")
    case True
    with n lvD(4) loop [of 0 n "item_at p vs 0"] at \<open>rlp_ctor mem _ _ = _\<close> show ?thesis
      by (simp add: rlp_index_def)
  next
    case False
    with c i have "m_lastIndex r \<le> length vs" "m_lastItem r = item_at p vs (m_lastIndex r)"
      "m_lastEnd r = item_off vs (Suc (m_lastIndex r))" "m_lastIndex r \<le> i"
      by (auto simp: cache_ok_def)
    with False loop [of "m_lastIndex r"] at \<open>rlp_ctor mem _ _ = _\<close> show ?thesis
      by (simp add: rlp_index_def)
  qed
  moreover have "cache_ok p vs ?r" by (simp add: cache_ok_def)
  ultimately show ?thesis by (intro exI [of _ ?r]) simp
qed

section \<open>Iteration\<close>

definition iter_at :: "vector_ref \<Rightarrow> vector_ref list \<Rightarrow> nat \<Rightarrow> rlp_iter" where
  "iter_at p vs k =
     \<lparr>m_remaining = m_count p - item_off vs (Suc k), m_currentItem = item_at p vs k\<rparr>"

lemma iter_inc_split:
  assumes "wf_view mem p" "m_data p \<noteq> 0" "split_items mem p = Inr vs" "k < length vs"
  shows "iter_inc mem (iter_at p vs k) = Inr (iter_at p vs (Suc k))"
proof -
  note props = split_items_props [OF assms(1-3)]
  obtain n where n: "sizeAsEncoded mem (vr_cropped p (item_off vs (Suc k))) = Inr n"
    "vr_cropped2 (vr_cropped p (item_off vs (Suc k))) 0 n = item_at p vs (Suc k)"
    "item_off vs (Suc k) + n = item_off vs (Suc (Suc k))"
    "item_off vs (Suc (Suc k)) \<le> m_count p" "m_count (item_at p vs (Suc k)) = n"
    using item_read [OF assms(1-3), of "Suc k"] assms(4) by auto
  have cur: "item_at p vs k = vr_mk (m_data p + item_off vs k) (m_count (vs ! k))"
    using props(2) assms(4) by (simp add: item_at_def)
  have nx: "m_data (vr_next (item_at p vs k)) = m_data p + item_off vs (Suc k)"
    using assms(2,4) by (simp add: cur vr_next_def item_off_Suc)
  have cr: "vr_cropped p (item_off vs (Suc k)) =
      vr_mk (m_data p + item_off vs (Suc k)) (m_count p - item_off vs (Suc k))"
    using assms(2) n(3,4) by (simp add: vr_cropped_wf)
  show ?thesis
  proof (cases "m_count p - item_off vs (Suc k) = 0")
    case True
    have "\<not> Suc k < length vs"
    proof
      assume "Suc k < length vs"
      then have "0 < m_count (vs ! Suc k)" using props(2) by simp
      with \<open>Suc k < length vs\<close> n(3-5) True show False by (simp add: item_at_def)
    qed
    with assms(4) have k: "Suc k = length vs" by simp
    then have "item_off vs (Suc k) = m_count p" using props(1) by simp
    moreover have "item_off vs (Suc (Suc k)) = m_count p"
      using k props(1) item_off_ge [of vs "Suc (Suc k)"] by simp
    moreover have "item_at p vs (Suc k) = vr_mk (m_data p + m_count p) 0"
      using k by (simp add: item_at_def)
    ultimately show ?thesis
      using nx by (simp add: iter_inc_def iter_at_def)
  next
    case False
    with n cr nx show ?thesis
      by (simp add: iter_inc_def iter_at_def Let_def min_def)
  qed
qed

lemma range_for_loop_split:
  assumes "wf_view mem p" "m_data p \<noteq> 0" "split_items mem p = Inr vs"
    and "k \<le> length vs" "length vs - k < fuel" "en = item_at p vs (length vs)"
  shows "range_for_loop mem body en fuel (iter_at p vs k) =
           map_res (\<lambda>v. body (rlp_fresh v)) (drop k vs)"
  using assms(4,5)
proof (induction fuel arbitrary: k)
  case (Suc fuel)
  note props = split_items_props [OF assms(1-3)]
  show ?case
  proof (cases "k < length vs")
    case True
    then have ex: "exact_view mem (vs ! k)" and ne: "0 < m_count (vs ! k)" using props(2) by auto
    have at: "m_currentItem (iter_at p vs k) = vs ! k" using True by (simp add: iter_at_def item_at_def)
    have "vs ! k \<noteq> en" using ne assms(6) by (auto simp: item_at_def)
    moreover have "rlp_ctor mem (vs ! k) VeryStrict = Inr (rlp_fresh (vs ! k))"
      using ex by (simp add: rlp_ctor_VeryStrict exact_view_def)
    moreover have "iter_inc mem (iter_at p vs k) = Inr (iter_at p vs (Suc k))"
      by (rule iter_inc_split [OF assms(1-3) True])
    moreover have "range_for_loop mem body en fuel (iter_at p vs (Suc k)) =
        map_res (\<lambda>v. body (rlp_fresh v)) (drop (Suc k) vs)"
      using Suc True by (intro Suc.IH) auto
    ultimately show ?thesis using True at by (simp add: Cons_nth_drop_Suc [symmetric])
  next
    case False
    with Suc.prems assms(6) show ?thesis by (simp add: iter_at_def)
  qed
qed simp

text \<open>The range-for visits exactly the items of the list, in order, and ends.\<close>

lemma range_for_split:
  assumes "list_view mem d p vs"
  shows "range_for mem d body = map_res (\<lambda>v. body (rlp_fresh v)) vs"
proof -
  note lvD = list_viewD [OF assms]
  obtain n where n: "sizeAsEncoded mem p = Inr n" "vr_cropped2 p 0 n = item_at p vs 0"
    "n = item_off vs (Suc 0)" "m_count (item_at p vs 0) = n"
    using item_read [OF lvD(5-7), of 0] lvD(6) by (auto simp: vr_cropped_def)
  have b: "iter_ctor mem d True = Inr (iter_at p vs 0)"
    using lvD(3,4) n by (simp add: iter_ctor_def iter_at_def Let_def)
  have d: "m_data d \<noteq> 0" using lvD(1,2) by (auto simp: wf_view_def isNull_def)
  have e: "iter_ctor mem d False = Inr \<lparr>m_remaining = 0, m_currentItem = item_at p vs (length vs)\<rparr>"
    using d lvD(8) by (simp add: iter_ctor_def item_at_def vr_cropped_wf)
  have "range_for_loop mem body (item_at p vs (length vs)) (Suc (m_count d)) (iter_at p vs 0) =
      map_res (\<lambda>v. body (rlp_fresh v)) (drop 0 vs)"
    using split_items_length_le [OF lvD(5-7)] lvD(9)
    by (intro range_for_loop_split [OF lvD(5-7)]) auto
  with b e show ?thesis by (simp add: range_for_def del: range_for_loop.simps)
qed

end
