(* ===== verification/RLP_Safety.thy ===== *)
theory RLP_Safety
  imports RLP_Walk
begin

unbundle bit_operations_syntax

text \<open>
  Reading arbitrary, untrusted bytes: on a view that lies in memory, every accessor of \<open>RLP\<close>
  either returns or throws; it never reads outside the view and the range-for over an object
  that was constructed with the default flags ends.
\<close>

section \<open>Walking untrusted lists\<close>

lemma items_loop_safe: "wf_view mem d \<Longrightarrow> safe (items_loop mem d i)"
proof (induction mem d i rule: items_loop.induct)
  case (1 mem d i)
  then show ?case
    by (subst items_loop.simps) (auto intro!: safe_bind sizeAsEncoded_safe wf_cropped)
qed

lemma items_safe: "wf_view mem d \<Longrightarrow> safe (items mem d)"
  using payload_wf(1) [of mem d]
  by (auto simp: items_def isList_wf intro!: safe_bind payload_safe items_loop_safe)

lemma itemCount_safe:
  "wf_view mem d \<Longrightarrow> safe (itemCount mem d)" "wf_view mem d \<Longrightarrow> safe (itemCountStrict mem d)"
  by (auto simp: itemCount_def itemCountStrict_def isList_wf intro!: items_safe)

text \<open>The invariant of an object that is indexed: its cached item is complete.\<close>

definition rlp_inv :: "memory \<Rightarrow> RLP \<Rightarrow> bool" where
  "rlp_inv mem r \<longleftrightarrow> wf_view mem (rlp_data r) \<and> exact_view mem (m_lastItem r)"

lemma exact_null: "wf_view mem d \<Longrightarrow> m_count d = 0 \<Longrightarrow> exact_view mem d"
  by (simp add: exact_view_def actualSize_def isNull_def)

lemma rlp_inv_fresh: "wf_view mem d \<Longrightarrow> rlp_inv mem (rlp_fresh d)"
  using exact_null [OF wf_null] by (simp add: rlp_inv_def)

lemma sizeAsEncoded_exact:
  assumes "wf_view mem d" "sizeAsEncoded mem d = Inr n"
  shows "exact_view mem (vr_cropped2 d 0 n)"
proof (cases "n = 0")
  case True
  then have "m_count (vr_cropped2 d 0 n) = 0" by (simp add: vr_cropped2_def)
  then show ?thesis by (rule exact_null [OF wf_cropped2 [OF assms(1)]])
next
  case False
  with assms have "prefix_view mem d n" by (simp add: sizeAsEncoded_Inr)
  from prefix_exact [OF this] False show ?thesis by simp
qed

lemma index_loop_inv:
  assumes "wf_view mem d" "exact_view mem item"
  shows "safe (index_loop mem d i li le item) \<and>
    (\<forall>li' le' item'. index_loop mem d i li le item = Inr (li', le', item') \<longrightarrow> exact_view mem item')"
  using assms
proof (induction mem d i li le item rule: index_loop.induct)
  case (1 mem d i li le item)
  show ?case
  proof (cases "li < i \<and> m_count item \<noteq> 0")
    case True
    have step: "safe (index_loop mem d i (Suc li) le2 (vr_cropped2 (vr_cropped p le) 0 n)) \<and>
        (\<forall>li' le' item'. index_loop mem d i (Suc li) le2 (vr_cropped2 (vr_cropped p le) 0 n) =
           Inr (li', le', item') \<longrightarrow> exact_view mem item')"
      if p: "payload mem d = Inr p" and n: "sizeAsEncoded mem (vr_cropped p le) = Inr n"
        and le2: "le2 = (le + m_count (vr_cropped2 (vr_cropped p le) 0 n)) mod 2 ^ 32" for p n le2
      using "1.IH" [OF True p refl n refl] "1.prems"(1) payload_wf(1) [OF "1.prems"(1) p]
        sizeAsEncoded_exact [OF wf_cropped n] le2
      by simp
    have safe_sz: "safe (sizeAsEncoded mem (vr_cropped p le))" if "payload mem d = Inr p" for p
      using payload_wf(1) [OF "1.prems"(1) that] by (intro sizeAsEncoded_safe wf_cropped)
    show ?thesis
      using True step safe_sz payload_safe [OF "1.prems"(1)]
      by (subst (1 2) index_loop.simps) (auto simp: Let_def bind_res_eq_Inr intro!: safe_bind)
  next
    case False
    with "1.prems" show ?thesis by (auto simp: index_loop.simps [of mem d i li le item])
  qed
qed

lemma rlp_index_safe:
  assumes "rlp_inv mem r"
  shows "safe (rlp_index mem r i)"
    and "rlp_index mem r i = Inr (x, r') \<Longrightarrow>
           (\<exists>d. x = rlp_fresh d \<and> exact_view mem d) \<and> rlp_inv mem r' \<and> rlp_data r' = rlp_data r"
proof -
  have wf: "wf_view mem (rlp_data r)" and ex: "exact_view mem (m_lastItem r)"
    using assms by (auto simp: rlp_inv_def)
  let ?start = "if i < m_lastIndex r
     then bind_res (payload mem (rlp_data r)) (\<lambda>p.
            bind_res (sizeAsEncoded mem p) (\<lambda>e. Inr (0, e, vr_cropped2 p 0 e)))
     else Inr (m_lastIndex r, m_lastEnd r, m_lastItem r)"
  have s1: "safe ?start"
    using payload_safe [OF wf] payload_wf(1) [OF wf] by (auto intro!: safe_bind sizeAsEncoded_safe)
  have s2: "exact_view mem item" if "?start = Inr (li, le, item)" for li le item
    using that ex payload_wf(1) [OF wf] sizeAsEncoded_exact
    by (auto simp: bind_res_eq_Inr split: if_splits)
  have s3: "safe (rlp_ctor mem item (ThrowOnFail OR FailIfTooSmall))" if "exact_view mem item" for item
    using that by (auto simp: exact_view_def intro!: rlp_ctor_prefix_safe)
  show "safe (rlp_index mem r i)"
    unfolding rlp_index_def
    using s1 s2 s3 index_loop_inv [OF wf]
    by (intro safe_bind) (auto split: prod.splits intro!: safe_bind)
  show "(\<exists>d. x = rlp_fresh d \<and> exact_view mem d) \<and> rlp_inv mem r' \<and> rlp_data r' = rlp_data r"
    if eq: "rlp_index mem r i = Inr (x, r')"
  proof -
    from eq obtain li le item li' le' item' where
      a: "?start = Inr (li, le, item)"
      and b: "index_loop mem (rlp_data r) i li le item = Inr (li', le', item')"
      and c: "rlp_ctor mem item' (ThrowOnFail OR FailIfTooSmall) = Inr x"
      and d: "r' = r\<lparr>m_lastIndex := li', m_lastEnd := le', m_lastItem := item'\<rparr>"
      unfolding rlp_index_def bind_res_eq_Inr by (auto simp: bind_res_eq_Inr split: prod.splits)
    have "exact_view mem item'" using index_loop_inv [OF wf s2 [OF a]] b by blast
    moreover from this have "x = rlp_fresh item'"
      using c by (auto simp: rlp_ctor_prefix exact_view_def)
    ultimately show ?thesis using d wf by (auto simp: rlp_inv_def)
  qed
qed

section \<open>The range-for ends on every strictly constructed object\<close>

lemma range_for_loop_safe:
  assumes "wf_view mem (m_currentItem it)" "m_data (m_currentItem it) \<noteq> 0"
    and "m_data (m_currentItem it) + m_count (m_currentItem it) + m_remaining it = m_data en"
    and "m_count en = 0" "m_data en \<le> length mem" "m_remaining it + 1 < fuel"
    and "\<And>d. exact_view mem d \<Longrightarrow> safe (body (rlp_fresh d))"
    and "m_remaining it = 0 \<longrightarrow> 0 < m_count (m_currentItem it) \<or> m_currentItem it = en"
  shows "safe (range_for_loop mem body en fuel it)"
  using assms
proof (induction fuel arbitrary: it)
  case (Suc fuel)
  let ?c = "m_currentItem it"
  show ?case
  proof (cases "?c = en")
    case False
    have a: "safe (rlp_ctor mem ?c VeryStrict)" using Suc.prems(1) by (rule rlp_ctor_VeryStrict_safe)
    have b: "safe (body r)" if "rlp_ctor mem ?c VeryStrict = Inr r" for r
      using that Suc.prems(1,7) by (auto simp: rlp_ctor_VeryStrict_Inr)
    have c: "safe (bind_res (iter_inc mem it) (\<lambda>it'.
        bind_res (range_for_loop mem body en fuel it') (\<lambda>xs. Inr (x # xs))))" for x
    proof (cases "m_remaining it = 0")
      case True
      then have "iter_inc mem it = Inr (it\<lparr>m_currentItem := en\<rparr>)"
        using Suc.prems(2-4) by (cases en) (simp add: iter_inc_def vr_next_def vr_mk_def)
      moreover obtain f' where "fuel = Suc f'" using Suc.prems(6) by (cases fuel) auto
      ultimately show ?thesis by simp
    next
      case False
      let ?q = "vr_mk (m_data ?c + m_count ?c) (m_remaining it)"
      have q: "wf_view mem ?q" using Suc.prems(1,2,3,5) by (auto simp: wf_view_def)
      have inc: "iter_inc mem it = bind_res (sizeAsEncoded mem ?q) (\<lambda>n.
          Inr \<lparr>m_remaining = m_remaining it - min (m_remaining it) (m_count (vr_cropped2 ?q 0 n)),
               m_currentItem = vr_cropped2 ?q 0 n\<rparr>)"
        using False Suc.prems(2) by (simp add: iter_inc_def vr_next_def Let_def)
      show ?thesis
      proof (cases "sizeAsEncoded mem ?q")
        case (Inl e)
        then show ?thesis using inc sizeAsEncoded_safe [OF q] by (auto simp: safe_def)
      next
        case (Inr n)
        then have n: "0 < n" "n \<le> m_remaining it"
          using sizeAsEncoded_pos [OF Inr] False q
          by (auto simp: sizeAsEncoded_Inr prefix_view_def)
        have cr: "vr_cropped2 ?q 0 n = vr_mk (m_data ?c + m_count ?c) n"
          using q n Suc.prems(2) vr_cropped2_wf [of mem ?q 0 n] by simp
        let ?it = "\<lparr>m_remaining = m_remaining it - n, m_currentItem = vr_mk (m_data ?c + m_count ?c) n\<rparr>"
        have "wf_view mem (vr_mk (m_data ?c + m_count ?c) n)"
          using wf_sub [OF q, of 0 n] n Suc.prems(2) by simp
        then have "safe (range_for_loop mem body en fuel ?it)"
          using Suc.prems n by (intro Suc.IH) auto
        moreover have "iter_inc mem it = Inr ?it" using inc Inr cr n by (simp add: min_def)
        ultimately show ?thesis by auto
      qed
    qed
    show ?thesis
      unfolding range_for_loop.simps vr_eq_iff if_not_P [OF False]
      by (rule safe_bind [OF a], rule safe_bind [OF b], assumption, rule c)
  qed simp
qed simp

lemma range_for_safe:
  assumes ex: "exact_view mem d" and body: "\<And>v. exact_view mem v \<Longrightarrow> safe (body (rlp_fresh v))"
  shows "safe (range_for mem d body)"
proof -
  have wf: "wf_view mem d" using ex by (simp add: exact_view_def)
  show ?thesis
  proof (cases "isList mem d = Inr True")
    case False
    then have "isList mem d = Inr False" using wf by (auto simp: isList_wf)
    then show ?thesis by (simp add: range_for_def iter_ctor_def)
  next
    case True
    then have nn: "\<not> isNull d" using wf by (auto simp: isList_wf)
    have d: "m_data d \<noteq> 0" using wf nn by (auto simp: wf_view_def isNull_def)
    obtain po l where pl: "po + l = m_count d" "payload mem d = Inr (vr_mk (m_data d + po) l)"
      "wf_view mem (vr_mk (m_data d + po) l)"
      using ex nn unfolding exact_prefix by (rule payload_prefix)
    let ?p = "vr_mk (m_data d + po) l"
    let ?en = "vr_mk (m_data d + m_count d) 0"
    have en: "iter_ctor mem d False = Inr \<lparr>m_remaining = 0, m_currentItem = ?en\<rparr>"
      using d by (simp add: iter_ctor_def vr_cropped_wf)
    have loop: "safe (range_for_loop mem body ?en (Suc (m_count d)) it)"
      if it: "it = \<lparr>m_remaining = l - m_count (vr_cropped2 ?p 0 n), m_currentItem = vr_cropped2 ?p 0 n\<rparr>"
        and n: "sizeAsEncoded mem ?p = Inr n" for it n
    proof -
      have le: "n \<le> l" using n pl(3) by (auto simp: sizeAsEncoded_Inr prefix_view_def)
      have cr: "vr_cropped2 ?p 0 n = vr_mk (m_data d + po) n"
        using vr_cropped2_wf [OF pl(3), of 0 n] d le by simp
      have pos: "l = 0 \<or> 0 < n" using sizeAsEncoded_pos [OF n] by auto
      have sub: "wf_view mem (vr_mk (m_data d + po) n)"
        using wf_sub [OF pl(3), of 0 n] d le by simp
      show ?thesis
      proof (cases "l = 0")
        case True
        with le pl(1) cr it show ?thesis by simp
      next
        case False
        with pos le pl(1) have "l - n + 1 < Suc (m_count d)" by linarith
        with False sub pos le pl(1) d wf cr show ?thesis
          by (intro range_for_loop_safe) (auto simp: it wf_view_def intro: body)
      qed
    qed
    have beg: "iter_ctor mem d True = bind_res (sizeAsEncoded mem ?p) (\<lambda>n.
        Inr \<lparr>m_remaining = l - m_count (vr_cropped2 ?p 0 n), m_currentItem = vr_cropped2 ?p 0 n\<rparr>)"
      using True pl(2) by (simp add: iter_ctor_def Let_def)
    show ?thesis
      using sizeAsEncoded_safe [OF pl(3)] loop
      unfolding range_for_def beg en bind_res_assoc bind_res_Inr
      by (auto intro!: safe_bind simp del: range_for_loop.simps)
  qed
qed

section \<open>Conversions of untrusted items\<close>

lemma toBytes_safe:
  assumes "prefix_view mem d n"
  shows "safe (toBytes mem d flags)"
proof (cases "isNull d")
  case True
  then show ?thesis by (simp add: toBytes_def isData_def)
next
  case False
  then obtain po l where "rlp_length mem d = Inr l" "payload mem d = Inr (vr_mk (m_data d + po) l)"
    "wf_view mem (vr_mk (m_data d + po) l)"
    using payload_prefix [OF assms] by blast
  moreover from this have "safe (mem_range mem (m_data d + po) l)"
    by (auto simp: mem_range_def wf_view_def)
  ultimately show ?thesis
    using assms by (simp add: toBytes_def isData_wf prefix_view_def)
qed

lemma toString_safe: "wf_view mem d \<Longrightarrow> safe (toString mem d flags)"
  using payload_wf(1) [of mem d] wf_cropped2 vr_toBytes_wf
  by (auto simp: toString_def isData_wf intro!: safe_bind payload_safe rlp_length_safe)

lemma toInt_safe: "wf_view mem d \<Longrightarrow> safe (toInt mem d flags)"
  using payload_wf(1) [of mem d]
  by (auto simp: toInt_def isList_wf vr_toBytes_wf
      intro!: safe_bind safe_if requireGood_safe isInt_safe payload_safe)

lemma toSignedInt_safe: "wf_view mem d \<Longrightarrow> safe (toSignedInt mem d flags)"
  by (auto simp: toSignedInt_def intro!: safe_bind toInt_safe)

lemma toBool_safe: "wf_view mem d \<Longrightarrow> safe (toBool mem d flags)"
  by (auto simp: toBool_def intro!: safe_bind toInt_safe)

lemma toHash_safe:
  assumes "wf_view mem d"
  shows "safe (toHash N mem d flags)"
proof -
  have "safe (mem_range mem (m_data p) (min N (m_count p)))" if "payload mem d = Inr p" for p
    using payload_wf(1) [OF assms that] by (auto simp: mem_range_def wf_view_def)
  then show ?thesis
    using assms
    by (auto simp: toHash_def isData_wf Let_def
        intro!: safe_bind safe_if requireGood_safe payload_safe)
qed

end
