(* ===== verification/RLP_Format.thy ===== *)
theory RLP_Format
  imports RLP_Safety
begin

unbundle bit_operations_syntax

text \<open>
  The RLP format itself, as a reference encoder over trees of byte strings, and the proof that
  the reader finds in an encoding exactly what was encoded.
\<close>

section \<open>The reference encoder\<close>

datatype rlp_item = Str bytes | Lst "rlp_item list"

definition rlp_head :: "nat \<Rightarrow> nat \<Rightarrow> bytes" where
  "rlp_head base n =
     (if n < 56 then [word_of_nat (base + n)]
      else word_of_nat (base + 55 + length (be_bytes n)) # be_bytes n)"

definition enc_str :: "bytes \<Rightarrow> bytes" where
  "enc_str bs = (if length bs = 1 \<and> unat (hd bs) < 128 then bs else rlp_head 128 (length bs) @ bs)"

definition enc_list :: "bytes \<Rightarrow> bytes" where
  "enc_list p = rlp_head 192 (length p) @ p"

fun enc :: "rlp_item \<Rightarrow> bytes" where
  "enc (Str bs) = enc_str bs"
| "enc (Lst xs) = enc_list (concat (map enc xs))"

lemma rlp_head_ne [simp]: "rlp_head base n \<noteq> []"
  by (simp add: rlp_head_def)

lemma enc_ne [simp]: "enc x \<noteq> []"
  by (cases x) (auto simp: enc_str_def enc_list_def)

lemma enc_str_ne [simp]: "enc_str bs \<noteq> []"
  using enc_ne [of "Str bs"] by simp

section \<open>Reading the length bytes\<close>

lemma length_loop_be_val:
  assumes "wf_view mem d" "i + k < m_count d"
    and "ret * 256 ^ k + be_val (seg (contents mem d) (Suc i) k) < 2 ^ 32"
  shows "length_loop mem d i k ret = Inr (ret * 256 ^ k + be_val (seg (contents mem d) (Suc i) k))"
  using assms(2,3)
proof (induction k arbitrary: i ret)
  case (Suc k)
  let ?b = "contents mem d ! Suc i"
  have s: "seg (contents mem d) (Suc i) (Suc k) = ?b # seg (contents mem d) (Suc (Suc i)) k"
    using Suc.prems(1) length_contents [OF assms(1)] by (simp add: seg_Suc)
  have l: "length (seg (contents mem d) (Suc (Suc i)) k) = k"
    using Suc.prems(1) length_contents [OF assms(1)] by (simp add: length_seg)
  let ?r = "ret * 256 + unat ?b"
  have e: "ret * 256 ^ Suc k + be_val (seg (contents mem d) (Suc i) (Suc k)) =
      ?r * 256 ^ k + be_val (seg (contents mem d) (Suc (Suc i)) k)"
    by (simp add: s be_val_Cons l algebra_simps)
  have "?r \<le> ?r * 256 ^ k" by simp
  with e Suc.prems(2) have "?r < 2 ^ 32" by linarith
  moreover have "vr_at mem d (i + 1) = Inr ?b" using assms(1) Suc.prems(1) by (simp add: vr_at_wf)
  moreover have "length_loop mem d (Suc i) k ?r =
      Inr (?r * 256 ^ k + be_val (seg (contents mem d) (Suc (Suc i)) k))"
    using Suc.prems e by (intro Suc.IH) auto
  ultimately show ?case using e by simp
qed simp

lemma length_be_bytes_4: "n < 2 ^ 31 \<Longrightarrow> length (be_bytes n) \<le> 4"
  by (simp add: length_be_bytes_le)

text \<open>The long form of a header, for data and lists alike.\<close>

lemma length_long_head:
  assumes wf: "wf_view mem d" and c: "contents mem d = h # be_bytes n @ rest"
    and n: "56 \<le> n" "n < 2 ^ 31"
  shows "length_long mem d (length (be_bytes n)) 56 = Inr n"
proof -
  let ?k = "length (be_bytes n)"
  have mc: "m_count d = Suc (?k + length rest)" using length_contents [OF wf] c by simp
  have k: "0 < ?k" using n(1) by simp
  have "hd (be_bytes n) \<noteq> 0" using hd_be_bytes n(1) by simp
  then have b1: "contents mem d ! 1 \<noteq> 0" using c k by (cases "be_bytes n") auto
  have seg: "seg (contents mem d) (Suc 0) ?k = be_bytes n" using c by (simp add: seg_def)
  have "length_loop mem d 0 ?k 0 = Inr (0 * 256 ^ ?k + be_val (seg (contents mem d) (Suc 0) ?k))"
    using mc n(2) by (intro length_loop_be_val [OF wf]) (simp_all add: seg)
  then have ll: "length_loop mem d 0 ?k 0 = Inr n" by (simp add: seg)
  have v1: "vr_at mem d 1 = Inr (contents mem d ! 1)" using mc k by (simp add: vr_at_wf [OF wf])
  have "\<not> 4 < ?k" using length_be_bytes_4 [OF n(2)] by simp
  moreover have "n < size_max - 256" using n(2) by simp
  moreover have "1 < m_count d" "?k < m_count d" using mc k by auto
  ultimately show ?thesis
    using b1 v1 ll n(1) by (simp add: length_long_def del: One_nat_def)
qed

lemma unat_head: "n < 256 \<Longrightarrow> unat (word_of_nat n :: byte) = n"
  by (rule unat_byte_of_nat)

section \<open>Headers of encodings\<close>

lemma wf_rest_bound: "wf_view mem d \<Longrightarrow> length (contents mem d) < 2 ^ 31"
  using length_contents [of mem d] wf_count [of mem d] by simp

lemma hdr_str_single:
  assumes wf: "wf_view mem d" and c: "contents mem d = b # rest" and b: "unat b < 128"
  shows "isData mem d = Inr True" "isList mem d = Inr False"
    "payloadOffset mem d = Inr 0" "rlp_length mem d = Inr 1"
proof -
  have nn: "\<not> isNull d" using c by (simp add: isNull_contents [OF wf] enc_list_def)
  show "isData mem d = Inr True" "isList mem d = Inr False"
    using wf nn c b by (simp_all add: isData_wf isList_wf)
  show "payloadOffset mem d = Inr 0" "rlp_length mem d = Inr 1"
    using wf nn c b
    by (simp_all add: payloadOffset_def isSingleByte_wf rlp_length_def requireGood_def vr_at_0
        rlp_consts)
qed

lemma hdr_str_head:
  assumes wf: "wf_view mem d" and c: "contents mem d = rlp_head 128 (length bs) @ bs @ rest"
    and s: "\<not> (length bs = 1 \<and> unat (hd bs) < 128)"
  shows "isData mem d = Inr True" "isList mem d = Inr False"
    "payloadOffset mem d = Inr (length (rlp_head 128 (length bs)))" "rlp_length mem d = Inr (length bs)"
proof -
  let ?n = "length bs"
  have nn: "\<not> isNull d" using c by (simp add: isNull_contents [OF wf] enc_list_def)
  have n: "?n < 2 ^ 31" using wf_rest_bound [OF wf] c by simp
  then have k: "length (be_bytes ?n) \<le> 4" by (rule length_be_bytes_4)
  let ?h = "contents mem d ! 0"
  have h: "unat ?h = (if ?n < 56 then 128 + ?n else 183 + length (be_bytes ?n))"
    using c k by (auto simp: rlp_head_def unat_head simp del: of_nat_add)
  have kp: "56 \<le> ?n \<Longrightarrow> 0 < length (be_bytes ?n)" by auto
  have lt: "128 \<le> unat ?h" "unat ?h < 192" using h k by auto
  show "isData mem d = Inr True" "isList mem d = Inr False"
    using wf nn lt by (simp_all add: isData_wf isList_wf)
  show "payloadOffset mem d = Inr (length (rlp_head 128 ?n))"
    using wf nn lt h k kp
    by (auto simp: payloadOffset_def isSingleByte_wf lengthSize_wf rlp_head_def Let_def)
  have good: "requireGood mem d = Inr ()"
  proof (cases "?n = 1")
    case True
    then obtain b where b: "bs = [b]" by (cases bs) auto
    with s have "128 \<le> unat b" by simp
    moreover have "contents mem d ! 1 = b" "2 \<le> m_count d"
      using c b length_contents [OF wf] by (simp_all add: rlp_head_def)
    ultimately show ?thesis
      using nn by (simp add: requireGood_def vr_at_0 [OF wf] vr_at_wf [OF wf] rlp_consts)
  next
    case False
    then have "unat ?h \<noteq> 129" using h by auto
    then show ?thesis using nn by (simp add: requireGood_def vr_at_0 [OF wf] rlp_consts)
  qed
  show "rlp_length mem d = Inr ?n"
  proof (cases "?n < 56")
    case True
    then show ?thesis
      using nn good h by (simp add: rlp_length_def vr_at_0 [OF wf] rlp_consts)
  next
    case False
    have "length_long mem d (length (be_bytes ?n)) 56 = Inr ?n"
      using False n c by (intro length_long_head [OF wf]) (auto simp: rlp_head_def)
    then show ?thesis
      using nn good h False lt kp by (simp add: rlp_length_def vr_at_0 [OF wf] rlp_consts)
  qed
qed

lemma hdr_list:
  assumes wf: "wf_view mem d" and c: "contents mem d = enc_list p @ rest"
  shows "isData mem d = Inr False" "isList mem d = Inr True"
    "payloadOffset mem d = Inr (length (rlp_head 192 (length p)))" "rlp_length mem d = Inr (length p)"
proof -
  let ?n = "length p"
  have nn: "\<not> isNull d" using c by (simp add: isNull_contents [OF wf] enc_list_def)
  have n: "?n < 2 ^ 31" using wf_rest_bound [OF wf] c by (simp add: enc_list_def)
  then have k: "length (be_bytes ?n) \<le> 4" by (rule length_be_bytes_4)
  let ?h = "contents mem d ! 0"
  have h: "unat ?h = (if ?n < 56 then 192 + ?n else 247 + length (be_bytes ?n))"
    using c k by (auto simp: enc_list_def rlp_head_def unat_head simp del: of_nat_add)
  have kp: "56 \<le> ?n \<Longrightarrow> 0 < length (be_bytes ?n)" by auto
  have lt: "192 \<le> unat ?h" using h by auto
  show "isData mem d = Inr False" "isList mem d = Inr True"
    using wf nn lt by (simp_all add: isData_wf isList_wf)
  show "payloadOffset mem d = Inr (length (rlp_head 192 ?n))"
    using wf nn lt h k kp
    by (auto simp: payloadOffset_def isSingleByte_wf lengthSize_wf rlp_head_def Let_def)
  have good: "requireGood mem d = Inr ()"
    using nn lt by (auto simp: requireGood_def vr_at_0 [OF wf] rlp_consts)
  show "rlp_length mem d = Inr ?n"
  proof (cases "?n < 56")
    case True
    then show ?thesis
      using nn good h by (simp add: rlp_length_def vr_at_0 [OF wf] rlp_consts)
  next
    case False
    have "length_long mem d (length (be_bytes ?n)) 56 = Inr ?n"
      using False n c by (intro length_long_head [OF wf]) (auto simp: rlp_head_def enc_list_def)
    then show ?thesis
      using nn good h False lt kp by (simp add: rlp_length_def vr_at_0 [OF wf] rlp_consts)
  qed
qed

section \<open>Items inside a longer view\<close>

lemma hdr_enc_str:
  assumes wf: "wf_view mem d" and c: "contents mem d = enc_str bs @ rest"
  shows "isData mem d = Inr True" "isList mem d = Inr False" "rlp_length mem d = Inr (length bs)"
    "payloadOffset mem d = Inr (length (enc_str bs) - length bs)"
proof -
  have "isData mem d = Inr True \<and> isList mem d = Inr False \<and> rlp_length mem d = Inr (length bs) \<and>
      payloadOffset mem d = Inr (length (enc_str bs) - length bs)"
  proof (cases "length bs = 1 \<and> unat (hd bs) < 128")
    case True
    then obtain b where "bs = [b]" "unat b < 128" by (cases bs) auto
    with c hdr_str_single [OF wf, of b rest] show ?thesis by (simp add: enc_str_def)
  next
    case False
    then have e: "enc_str bs = rlp_head 128 (length bs) @ bs" by (auto simp: enc_str_def)
    with c hdr_str_head [OF wf _ False, of rest] show ?thesis by simp
  qed
  then show "isData mem d = Inr True" "isList mem d = Inr False" "rlp_length mem d = Inr (length bs)"
    "payloadOffset mem d = Inr (length (enc_str bs) - length bs)" by auto
qed

lemma length_enc_str_ge: "length bs \<le> length (enc_str bs)"
  by (simp add: enc_str_def)

lemma drop_enc_str: "drop (length (enc_str bs) - length bs) (enc_str bs) = bs"
  by (simp add: enc_str_def)

lemma actualSize_enc:
  assumes wf: "wf_view mem d" and c: "contents mem d = enc x @ rest"
  shows "actualSize mem d = Inr (length (enc x))"
proof -
  have nn: "\<not> isNull d" using c by (simp add: isNull_contents [OF wf])
  show ?thesis
  proof (cases x)
    case (Str bs)
    with c hdr_enc_str [OF wf, of bs rest] length_enc_str_ge [of bs] show ?thesis
      by (simp add: actualSize_hdr [OF wf nn])
  next
    case (Lst xs)
    with c hdr_list [OF wf, of "concat (map enc xs)" rest] show ?thesis
      by (simp add: actualSize_hdr [OF wf nn] enc_list_def)
  qed
qed

text \<open>A view that holds exactly the encoding of an item.\<close>

definition enc_view :: "memory \<Rightarrow> vector_ref \<Rightarrow> rlp_item \<Rightarrow> bool" where
  "enc_view mem d x \<longleftrightarrow> wf_view mem d \<and> contents mem d = enc x"

lemma enc_view_exact:
  assumes "enc_view mem d x"
  shows "exact_view mem d" "\<not> isNull d" "m_data d \<noteq> 0" "m_count d = length (enc x)"
proof -
  have wf: "wf_view mem d" and c: "contents mem d = enc x" using assms by (auto simp: enc_view_def)
  then show m: "m_count d = length (enc x)" using length_contents [OF wf] by simp
  then show "exact_view mem d"
    using actualSize_enc [OF wf, of x "[]"] wf c by (simp add: exact_view_def)
  show "\<not> isNull d" using c by (simp add: isNull_contents [OF wf])
  then show "m_data d \<noteq> 0" using wf by (auto simp: wf_view_def isNull_def)
qed

lemma enc_view_payload:
  assumes "enc_view mem d x"
  obtains p where "payload mem d = Inr p" "wf_view mem p" "m_data p \<noteq> 0"
    "contents mem p = (case x of Str bs \<Rightarrow> bs | Lst xs \<Rightarrow> concat (map enc xs))"
    "rlp_length mem d = Inr (m_count p)"
proof -
  have wf: "wf_view mem d" and c: "contents mem d = enc x" using assms by (auto simp: enc_view_def)
  note ev = enc_view_exact [OF assms]
  obtain po l where h: "payloadOffset mem d = Inr po" "rlp_length mem d = Inr l" "po + l = m_count d"
    "payload mem d = Inr (vr_mk (m_data d + po) l)" "wf_view mem (vr_mk (m_data d + po) l)"
    using ev(1) ev(2) unfolding exact_prefix by (rule payload_prefix)
  have "contents mem (vr_mk (m_data d + po) l) = seg (enc x) po l"
    using h(3) by (simp add: contents_sub [OF wf] c)
  also have "\<dots> = drop po (enc x)" using h(3) ev(4) by (simp add: seg_def)
  also have "\<dots> = (case x of Str bs \<Rightarrow> bs | Lst xs \<Rightarrow> concat (map enc xs))"
  proof (cases x)
    case (Str bs)
    then have "po = length (enc_str bs) - length bs"
      using h(1) hdr_enc_str(4) [OF wf, of bs "[]"] c by simp
    with Str show ?thesis by (simp add: drop_enc_str)
  next
    case (Lst xs)
    then have "po = length (rlp_head 192 (length (concat (map enc xs))))"
      using h(1) hdr_list(3) [OF wf, of "concat (map enc xs)" "[]"] c by simp
    with Lst show ?thesis by (simp add: enc_list_def)
  qed
  finally show thesis using that [of "vr_mk (m_data d + po) l"] h ev(3) by simp
qed

lemma enc_view_kind:
  "enc_view mem d (Str bs) \<Longrightarrow> isData mem d = Inr True" "enc_view mem d (Str bs) \<Longrightarrow> isList mem d = Inr False"
  "enc_view mem d (Lst xs) \<Longrightarrow> isData mem d = Inr False" "enc_view mem d (Lst xs) \<Longrightarrow> isList mem d = Inr True"
  using hdr_enc_str [of mem d bs "[]"] hdr_list [of mem d "concat (map enc xs)" "[]"]
  by (auto simp: enc_view_def)

text \<open>The payload of an encoded list splits into views of its elements.\<close>

lemma split_items_enc:
  assumes "wf_view mem p" "m_data p \<noteq> 0" "contents mem p = concat (map enc xs)"
  shows "\<exists>vs. split_items mem p = Inr vs \<and> list_all2 (enc_view mem) vs xs"
  using assms
proof (induction xs arbitrary: p)
  case Nil
  then have "m_count p = 0" using length_contents [OF Nil.prems(1)] by simp
  then show ?case by (simp add: split_items_empty)
next
  case (Cons x xs)
  note wf = Cons.prems(1)
  let ?n = "length (enc x)"
  let ?q = "vr_mk (m_data p + ?n) (m_count p - ?n)"
  have c: "contents mem p = enc x @ concat (map enc xs)" using Cons.prems(3) by simp
  have mc: "m_count p = ?n + length (concat (map enc xs))" using length_contents [OF wf] c by simp
  have n: "0 < ?n" "?n \<le> m_count p" using mc by simp_all
  then have "m_count p \<noteq> 0" by linarith
  have pv: "prefix_view mem p ?n" using actualSize_enc [OF wf c] wf n by (simp add: prefix_view_def)
  have sz: "sizeAsEncoded mem p = Inr ?n" using pv wf by (simp add: sizeAsEncoded_Inr)
  have cr: "vr_cropped p ?n = ?q" using Cons.prems(2) n by (simp add: vr_cropped_wf)
  have wq: "wf_view mem ?q" using wf_sub [OF wf Cons.prems(2), of ?n "m_count p - ?n"] n by simp
  have "contents mem ?q = concat (map enc xs)"
    using mc c by (simp add: contents_sub [OF wf] seg_def)
  then obtain vs where vs: "split_items mem ?q = Inr vs" "list_all2 (enc_view mem) vs xs"
    using Cons.IH [OF wq] Cons.prems(2) by auto
  have "contents mem (vr_mk (m_data p) ?n) = enc x"
    using contents_sub [OF wf, of 0 ?n] mc c by (simp add: seg_def)
  moreover have "wf_view mem (vr_mk (m_data p) ?n)"
    using wf_sub [OF wf Cons.prems(2), of 0 ?n] n by simp
  ultimately have "enc_view mem (vr_mk (m_data p) ?n) x" by (simp add: enc_view_def)
  moreover have "split_items mem p = Inr (vr_mk (m_data p) ?n # vs)"
    using \<open>m_count p \<noteq> 0\<close> sz cr vs(1) prefix_exact(1) [OF pv n(1)]
    by (simp add: split_items.simps [of mem p])
  ultimately show ?case using vs(2) by auto
qed

lemma enc_list_view:
  assumes "enc_view mem d (Lst xs)"
  obtains p vs where "list_view mem d p vs" "list_all2 (enc_view mem) vs xs"
proof -
  obtain p where p: "payload mem d = Inr p" "wf_view mem p" "m_data p \<noteq> 0"
    "contents mem p = concat (map enc xs)"
    using enc_view_payload [OF assms] by auto
  from split_items_enc [OF p(2-4)] obtain vs where
    "split_items mem p = Inr vs" "list_all2 (enc_view mem) vs xs" by blast
  with p that show thesis
    using enc_view_exact(1) [OF assms] enc_view_kind(4) [OF assms] by (auto simp: list_view_def)
qed

end
