(* ===== verification/RLP_Convert.thy ===== *)
theory RLP_Convert
  imports RLP_Format
begin

unbundle bit_operations_syntax

text \<open>
  The conversions of \<open>RLP\<close> on encodings of scalars and strings: each returns the value that was
  encoded. These are the per-type facts on which the round trip of typed values rests.
\<close>

section \<open>Strings\<close>

lemma toBytes_enc:
  assumes "enc_view mem d (Str bs)"
  shows "toBytes mem d flags = Inr bs"
proof -
  obtain p where p: "payload mem d = Inr p" "wf_view mem p" "m_data p \<noteq> 0" "contents mem p = bs"
    "rlp_length mem d = Inr (m_count p)"
    using enc_view_payload [OF assms] by auto
  have "mem_range mem (m_data p) (m_count p) = Inr bs"
    using vr_toBytes_wf [OF p(2)] p(4) by (simp add: vr_toBytes_def)
  with p show ?thesis by (simp add: toBytes_def enc_view_kind(1) [OF assms])
qed

lemma toString_enc:
  assumes "enc_view mem d (Str bs)"
  shows "toString mem d flags = Inr bs"
proof -
  obtain p where p: "payload mem d = Inr p" "wf_view mem p" "m_data p \<noteq> 0" "contents mem p = bs"
    "rlp_length mem d = Inr (m_count p)"
    using enc_view_payload [OF assms] by auto
  have "vr_cropped2 p 0 (m_count p) = p" using vr_cropped2_wf [OF p(2,3), of 0 "m_count p"] by simp
  with p show ?thesis
    by (simp add: toString_def enc_view_kind(1) [OF assms] vr_toBytes_wf)
qed

lemma requireGood_enc:
  assumes "enc_view mem d x"
  shows "requireGood mem d = Inr ()"
proof -
  have "\<exists>l. rlp_length mem d = Inr l" by (rule enc_view_payload [OF assms]) blast
  with enc_view_exact(2) [OF assms] show ?thesis
    by (auto simp: rlp_length_def bind_res_eq_Inr)
qed

section \<open>Integers\<close>

lemma isInt_enc:
  assumes ev: "enc_view mem d (Str (be_bytes n))" and n: "length (be_bytes n) < 56"
  shows "isInt mem d = Inr True"
proof -
  have wf: "wf_view mem d" and c: "contents mem d = enc_str (be_bytes n)"
    using ev by (simp_all add: enc_view_def)
  note nn = enc_view_exact(2) [OF ev]
  note good = requireGood_enc [OF ev]
  show ?thesis
  proof (cases "length (be_bytes n) = 1 \<and> unat (hd (be_bytes n)) < 128")
    case True
    then have "0 < n" by (cases "n = 0") auto
    then have "hd (be_bytes n) \<noteq> 0" by (rule hd_be_bytes)
    then have "0 < unat (hd (be_bytes n))" by (simp add: unat_gt_0)
    moreover have "contents mem d ! 0 = hd (be_bytes n)"
      using True c \<open>0 < n\<close> by (simp add: enc_str_def hd_conv_nth)
    ultimately show ?thesis
      using True nn good by (simp add: isInt_def vr_at_0 [OF wf] rlp_consts)
  next
    case False
    then have c2: "contents mem d = word_of_nat (128 + length (be_bytes n)) # be_bytes n"
      using c n by (simp add: enc_str_def rlp_head_def)
    then have h: "unat (contents mem d ! 0) = 128 + length (be_bytes n)"
      using n by (simp add: unat_head del: of_nat_add)
    show ?thesis
    proof (cases "n = 0")
      case True
      with h nn good show ?thesis by (simp add: isInt_def vr_at_0 [OF wf] rlp_consts)
    next
      case False
      then have "hd (be_bytes n) \<noteq> 0" by (simp add: hd_be_bytes)
      then have "contents mem d ! 1 \<noteq> 0" using False c2 by (simp add: hd_conv_nth)
      moreover have "length (be_bytes n) \<noteq> 0" using False by simp
      then have "1 < m_count d" using c2 length_contents [OF wf] by (metis One_nat_def Suc_less_eq length_Cons neq0_conv)
      ultimately show ?thesis
        using h n False nn good
        by (simp add: isInt_def vr_at_0 [OF wf] vr_at_wf [OF wf] rlp_consts)
    qed
  qed
qed

lemma toInt_enc:
  assumes ev: "enc_view mem d (Str (be_bytes n))" and n: "n < 256 ^ (LENGTH('a::len) div 8)"
    and len: "LENGTH('a) div 8 < 56"
  shows "toInt mem d Strict = Inr (word_of_nat n :: 'a word)"
proof -
  obtain p where p: "payload mem d = Inr p" "wf_view mem p" "contents mem p = be_bytes n"
    using enc_view_payload [OF ev] by auto
  have k: "length (be_bytes n) \<le> LENGTH('a) div 8" using n by (simp add: length_be_bytes_le)
  have m: "m_count p = length (be_bytes n)" using length_contents [OF p(2)] p(3) by simp
  have int: "isInt mem d = Inr True" using k len by (intro isInt_enc [OF ev]) simp
  show ?thesis
    using p k m int
    by (simp add: toInt_def requireGood_enc [OF ev] enc_view_kind(2) [OF ev] enc_view_exact(2) [OF ev]
        vr_toBytes_wf fromBigEndian_be_val)
qed

text \<open>Signed values travel zigzag-encoded in 128 bits: \<open>(x << 1) ^ (x >> 127)\<close> and back.\<close>

definition zigzag :: "128 word \<Rightarrow> 128 word" where
  "zigzag l = (push_bit 1 l) XOR (signed_drop_bit 127 l)"

definition unzigzag :: "128 word \<Rightarrow> 128 word" where
  "unzigzag u = (drop_bit 1 u) XOR (- (u AND 1))"

lemma unzigzag_zigzag: "unzigzag (zigzag l) = l"
proof (rule bit_word_eqI)
  fix n
  assume n: "n < LENGTH(128)"
  have low: "bit (zigzag l) 0 = bit l 127"
    unfolding zigzag_def bit_xor_iff
    by (simp add: bit_signed_drop_bit_iff bit_push_bit_iff del: bit_0 push_bit_Suc push_bit_of_1)
  have neg: "bit (- (zigzag l AND 1)) n = bit l 127"
  proof (cases "bit l 127")
    case True
    then have "zigzag l AND 1 = 1" using low by (simp add: and_one_eq bit_0 odd_iff_mod_2_eq_one)
    then show ?thesis using n True by (simp add: bit_minus_1_iff)
  next
    case False
    then have "zigzag l AND 1 = 0" using low by (simp add: and_one_eq bit_0 even_iff_mod_2_eq_zero)
    then show ?thesis using False by simp
  qed
  have sh: "bit (drop_bit 1 (zigzag l)) n = (bit l n \<noteq> bit l 127)"
  proof (cases "n = 127")
    case True
    then show ?thesis by (auto simp: bit_drop_bit_eq dest: bit_imp_le_length)
  next
    case False
    with n have "Suc n < 128" by simp
    then have "bit (push_bit 1 l) (Suc n) = bit l n" by (simp only: bit_push_bit_iff) simp
    with \<open>Suc n < 128\<close> show ?thesis
      by (simp add: zigzag_def bit_drop_bit_eq bit_xor_iff bit_signed_drop_bit_iff)
  qed
  show "bit (unzigzag (zigzag l)) n = bit l n"
    using neg sh by (auto simp: unzigzag_def bit_xor_iff)
qed

lemma toSignedInt_unzigzag:
  "toSignedInt mem d flags = bind_res (toInt mem d flags) (\<lambda>u. Inr (ucast (unzigzag u)))"
  by (simp add: toSignedInt_def unzigzag_def)

lemma toSignedInt_enc:
  assumes "enc_view mem d (Str (be_bytes (unat (zigzag (scast (x :: 'a::len word))))))"
    and "LENGTH('a) \<le> 128"
  shows "toSignedInt mem d Strict = Inr x"
proof -
  let ?z = "zigzag (scast x)"
  have "unat ?z < 2 ^ 128" using unsigned_less [of ?z] by simp
  then have "toInt mem d Strict = Inr (word_of_nat (unat ?z) :: 128 word)"
    by (intro toInt_enc [OF assms(1)]) simp_all
  then have "toSignedInt mem d Strict = Inr (ucast (scast x :: 128 word) :: 'a word)"
    by (simp add: toSignedInt_unzigzag unzigzag_zigzag)
  moreover have "(ucast (scast x :: 128 word) :: 'a word) = x"
  proof (rule bit_word_eqI)
    fix n assume "n < LENGTH('a)"
    moreover from this have "LENGTH('a) - Suc 0 \<le> n \<Longrightarrow> n = LENGTH('a) - Suc 0" by simp
    ultimately show "bit (ucast (scast x :: 128 word) :: 'a word) n = bit x n"
      using assms(2) by (auto simp: bit_simps min_def)
  qed
  ultimately show ?thesis by simp
qed

section \<open>Fixed-size hashes\<close>

lemma toHash_enc:
  assumes ev: "enc_view mem d (Str bs)"
  shows "length bs = N \<Longrightarrow> toHash N mem d Strict = Inr bs"
proof -
  assume N: "length bs = N"
  obtain p where p: "payload mem d = Inr p" "wf_view mem p" "contents mem p = bs"
    using enc_view_payload [OF ev] by auto
  have m: "m_count p = N" using length_contents [OF p(2)] p(3) N by simp
  have "mem_range mem (m_data p) N = Inr bs"
    using vr_toBytes_wf [OF p(2)] p(3) m by (simp add: vr_toBytes_def)
  then show ?thesis
    using p m by (simp add: toHash_def requireGood_enc [OF ev] enc_view_kind(1) [OF ev])
qed

end
