(* ===== verification/RLP_Types.thy ===== *)
theory RLP_Types
  imports RLP_Convert
begin

text \<open>
  The C++ types for which the library serialises values, as a universe of codes, and their
  values. Each constructor of \<open>cval\<close> stands for one group of overloads of \<open>operator<<\<close>: all
  sequence containers (vector, list, set, array, map) have the same overload body and share
  \<open>VSeq\<close>, whose list is the container in iteration order. Integers travel in the 128-bit type
  to which every overload converts first; floating-point numbers are their bit patterns.
\<close>

section \<open>Types and values\<close>

datatype width = W8 | W16 | W32 | W64 | W128

fun width_bits :: "width \<Rightarrow> nat" where
  "width_bits W8 = 8"
| "width_bits W16 = 16"
| "width_bits W32 = 32"
| "width_bits W64 = 64"
| "width_bits W128 = 128"

datatype cty =
  TBool | TU width | TI width | TFloat | TDouble | TBytes | TString | THash nat
| TVector cty | TList cty | TSet cty | TArray nat cty | TPair cty cty | TMap cty cty
| TTuple "cty list" | TStruct "cty list"

datatype cval =
  VBool bool | VUInt "128 word" | VInt "128 word" | VFloat "32 word" | VDouble "64 word"
| VBytes bytes | VString bytes | VHash bytes
| VSeq "cval list" | VPair cval cval | VTuple "cval list" | VStruct "cval list"

section \<open>The order of keys\<close>

text \<open>
  \<open>operator<\<close> on the types that can be keys of \<open>std::set\<close> and \<open>std::map\<close> here: numbers by value,
  strings and hashes by unsigned bytes, pairs and sequences lexicographically.
\<close>

fun less_bytes :: "bytes \<Rightarrow> bytes \<Rightarrow> bool" where
  "less_bytes [] [] = False"
| "less_bytes [] (b # bs) = True"
| "less_bytes (a # as) [] = False"
| "less_bytes (a # as) (b # bs) = (a < b \<or> (\<not> b < a \<and> less_bytes as bs))"

function less_cval :: "cval \<Rightarrow> cval \<Rightarrow> bool" and less_cvals :: "cval list \<Rightarrow> cval list \<Rightarrow> bool" where
  "less_cval (VBool a) v = (case v of VBool b \<Rightarrow> \<not> a \<and> b | _ \<Rightarrow> False)"
| "less_cval (VUInt a) v = (case v of VUInt b \<Rightarrow> a < b | _ \<Rightarrow> False)"
| "less_cval (VInt a) v = (case v of VInt b \<Rightarrow> sint a < sint b | _ \<Rightarrow> False)"
| "less_cval (VBytes a) v = (case v of VBytes b \<Rightarrow> less_bytes a b | _ \<Rightarrow> False)"
| "less_cval (VString a) v = (case v of VString b \<Rightarrow> less_bytes a b | _ \<Rightarrow> False)"
| "less_cval (VHash a) v = (case v of VHash b \<Rightarrow> less_bytes a b | _ \<Rightarrow> False)"
| "less_cval (VSeq a) v = (case v of VSeq b \<Rightarrow> less_cvals a b | _ \<Rightarrow> False)"
| "less_cval (VPair a1 a2) v = (case v of
     VPair b1 b2 \<Rightarrow> less_cval a1 b1 \<or> (\<not> less_cval b1 a1 \<and> less_cval a2 b2) | _ \<Rightarrow> False)"
| "less_cval (VFloat a) v = False"
| "less_cval (VDouble a) v = False"
| "less_cval (VTuple a) v = False"
| "less_cval (VStruct a) v = False"
| "less_cvals [] v = (v \<noteq> [])"
| "less_cvals (a # as) v = (case v of
     [] \<Rightarrow> False | b # bs \<Rightarrow> less_cval a b \<or> (\<not> less_cval b a \<and> less_cvals as bs))"
  by pat_completeness auto
termination
  by (relation "measure (case_sum (\<lambda>(a, b). size a + size b)
      (\<lambda>(as, bs). size_list size as + size_list size bs))") auto

fun key_type :: "cty \<Rightarrow> bool" where
  "key_type TBool = True"
| "key_type (TU w) = True"
| "key_type (TI w) = True"
| "key_type TBytes = True"
| "key_type TString = True"
| "key_type (THash n) = True"
| "key_type (TVector t) = key_type t"
| "key_type (TPair t u) = (key_type t \<and> key_type u)"
| "key_type _ = False"

lemma less_bytes_asym: "less_bytes a b \<Longrightarrow> \<not> less_bytes b a"
  by (induction a b rule: less_bytes.induct) auto

lemma less_cvals_Nil [simp]: "\<not> less_cvals vs []"
  by (cases vs) simp_all

lemma less_cval_asym:
  "less_cval a b \<Longrightarrow> \<not> less_cval b a"
  "less_cvals as bs \<Longrightarrow> \<not> less_cvals bs as"
  by (induction a b and as bs rule: less_cval_less_cvals.induct)
    (auto simp: less_bytes_asym split: cval.splits list.splits)

text \<open>
  \<open>std::set::insert\<close> and \<open>std::map::insert\<close>: an element with an equivalent key is kept, the new one
  dropped. Entries of a map are pairs, compared by their first component.
\<close>

fun set_insert :: "cval \<Rightarrow> cval list \<Rightarrow> cval list" where
  "set_insert x [] = [x]"
| "set_insert x (y # ys) =
     (if less_cval x y then x # y # ys else if less_cval y x then y # set_insert x ys else y # ys)"

fun entry_key :: "cval \<Rightarrow> cval" where
  "entry_key (VPair k v) = k"
| "entry_key v = v"

fun map_insert :: "cval \<Rightarrow> cval list \<Rightarrow> cval list" where
  "map_insert x [] = [x]"
| "map_insert x (y # ys) =
     (if less_cval (entry_key x) (entry_key y) then x # y # ys
      else if less_cval (entry_key y) (entry_key x) then y # map_insert x ys else y # ys)"

definition seq_elems :: "cval \<Rightarrow> cval list" where
  "seq_elems v = (case v of VSeq vs \<Rightarrow> vs | VTuple vs \<Rightarrow> vs | VStruct vs \<Rightarrow> vs | _ \<Rightarrow> [])"

lemma set_insert_snoc:
  "sorted_wrt less_cval (xs @ [x]) \<Longrightarrow> set_insert x xs = xs @ [x]"
  by (induction xs) (auto dest: less_cval_asym(1))

lemma map_insert_snoc:
  "sorted_wrt (\<lambda>a b. less_cval (entry_key a) (entry_key b)) (xs @ [x]) \<Longrightarrow>
   map_insert x xs = xs @ [x]"
  by (induction xs) (auto dest: less_cval_asym(1))

lemma fold_insert_sorted:
  assumes ins: "\<And>x xs. sorted_wrt R (xs @ [x]) \<Longrightarrow> ins x xs = xs @ [x]"
    and "sorted_wrt R (xs @ ys)"
  shows "fold ins ys xs = xs @ ys"
  using assms(2)
proof (induction ys arbitrary: xs)
  case (Cons y ys)
  then have "sorted_wrt R (xs @ [y])" by (auto simp: sorted_wrt_append)
  then have "ins y xs = xs @ [y]" by (rule ins)
  with Cons show ?case by simp
qed simp

section \<open>Typing\<close>

definition fits_signed :: "width \<Rightarrow> 128 word \<Rightarrow> bool" where
  "fits_signed w x = (case w of
     W8 \<Rightarrow> scast (ucast x :: 8 word) = x | W16 \<Rightarrow> scast (ucast x :: 16 word) = x
   | W32 \<Rightarrow> scast (ucast x :: 32 word) = x | W64 \<Rightarrow> scast (ucast x :: 64 word) = x | W128 \<Rightarrow> True)"

fun has_type :: "cty \<Rightarrow> cval \<Rightarrow> bool" and has_types :: "cty list \<Rightarrow> cval list \<Rightarrow> bool" where
  "has_type TBool v = (case v of VBool b \<Rightarrow> True | _ \<Rightarrow> False)"
| "has_type (TU w) v = (case v of VUInt x \<Rightarrow> unat x < 2 ^ width_bits w | _ \<Rightarrow> False)"
| "has_type (TI w) v = (case v of VInt x \<Rightarrow> fits_signed w x | _ \<Rightarrow> False)"
| "has_type TFloat v = (case v of VFloat x \<Rightarrow> True | _ \<Rightarrow> False)"
| "has_type TDouble v = (case v of VDouble x \<Rightarrow> True | _ \<Rightarrow> False)"
| "has_type TBytes v = (case v of VBytes bs \<Rightarrow> True | _ \<Rightarrow> False)"
| "has_type TString v = (case v of VString bs \<Rightarrow> True | _ \<Rightarrow> False)"
| "has_type (THash n) v = (case v of VHash bs \<Rightarrow> length bs = n | _ \<Rightarrow> False)"
| "has_type (TVector t) v = (case v of VSeq vs \<Rightarrow> list_all (has_type t) vs | _ \<Rightarrow> False)"
| "has_type (TList t) v = (case v of VSeq vs \<Rightarrow> list_all (has_type t) vs | _ \<Rightarrow> False)"
| "has_type (TSet t) v = (case v of
     VSeq vs \<Rightarrow> key_type t \<and> list_all (has_type t) vs \<and> sorted_wrt less_cval vs | _ \<Rightarrow> False)"
| "has_type (TArray n t) v = (case v of
     VSeq vs \<Rightarrow> length vs = n \<and> list_all (has_type t) vs | _ \<Rightarrow> False)"
| "has_type (TPair t u) v = (case v of VPair a b \<Rightarrow> has_type t a \<and> has_type u b | _ \<Rightarrow> False)"
| "has_type (TMap t u) v = (case v of
     VSeq vs \<Rightarrow> key_type t \<and>
       list_all (\<lambda>e. case e of VPair a b \<Rightarrow> has_type t a \<and> has_type u b | _ \<Rightarrow> False) vs \<and>
       sorted_wrt (\<lambda>a b. less_cval (entry_key a) (entry_key b)) vs
   | _ \<Rightarrow> False)"
| "has_type (TTuple ts) v = (case v of VTuple vs \<Rightarrow> has_types ts vs | _ \<Rightarrow> False)"
| "has_type (TStruct ts) v = (case v of VStruct vs \<Rightarrow> has_types ts vs | _ \<Rightarrow> False)"
| "has_types [] vs = (vs = [])"
| "has_types (t # ts) vs = (case vs of [] \<Rightarrow> False | v # vs' \<Rightarrow> has_type t v \<and> has_types ts vs')"

text \<open>On keys of one type \<open>operator<\<close> is total, so equivalent keys are equal.\<close>

lemma less_bytes_total: "less_bytes a b \<or> less_bytes b a \<or> a = b"
  by (induction a b rule: less_bytes.induct) auto

lemma less_cvals_total:
  assumes "\<And>a b. a \<in> set as \<Longrightarrow> b \<in> set bs \<Longrightarrow> less_cval a b \<or> less_cval b a \<or> a = b"
  shows "less_cvals as bs \<or> less_cvals bs as \<or> as = bs"
  using assms
proof (induction as arbitrary: bs)
  case (Cons a as)
  show ?case
  proof (cases bs)
    case (Cons b bs')
    then have "less_cval a b \<or> less_cval b a \<or> a = b" using Cons.prems by simp
    moreover have "less_cvals as bs' \<or> less_cvals bs' as \<or> as = bs'"
      using Cons.IH [of bs'] Cons.prems Cons by simp
    ultimately show ?thesis using Cons less_cval_asym(1) by auto
  qed simp
qed (cases bs, simp_all)

lemma less_cval_total:
  "key_type t \<Longrightarrow> has_type t a \<Longrightarrow> has_type t b \<Longrightarrow> less_cval a b \<or> less_cval b a \<or> a = b"
proof (induction t arbitrary: a b)
  case (TVector t)
  then obtain as bs where ab: "a = VSeq as" "b = VSeq bs" "list_all (has_type t) as" "list_all (has_type t) bs"
    by (auto split: cval.splits)
  then have "less_cvals as bs \<or> less_cvals bs as \<or> as = bs"
    using TVector.IH TVector.prems(1) by (intro less_cvals_total) (simp add: list_all_iff)
  then show ?case using ab by simp
next
  case (TPair t u)
  then obtain a1 a2 b1 b2 where ab: "a = VPair a1 a2" "b = VPair b1 b2"
    "has_type t a1" "has_type u a2" "has_type t b1" "has_type u b2" by (auto split: cval.splits)
  then have "less_cval a1 b1 \<or> less_cval b1 a1 \<or> a1 = b1" "less_cval a2 b2 \<or> less_cval b2 a2 \<or> a2 = b2"
    using TPair by auto
  then show ?case using ab less_cval_asym(1) by auto
next
  case (TI w)
  then obtain x y where "a = VInt x" "b = VInt y" by (auto split: cval.splits)
  moreover have "sint x < sint y \<or> sint y < sint x \<or> x = y"
    using signed_word_eqI [of x y, where 'a = int] by fastforce
  ultimately show ?case by simp
qed (auto simp: less_bytes_total split: cval.splits)

lemma set_set_insert:
  assumes "\<And>y. y \<in> set ys \<Longrightarrow> less_cval x y \<or> less_cval y x \<or> x = y"
  shows "set (set_insert x ys) = insert x (set ys)"
  using assms by (induction ys) auto

text \<open>The value of a default-constructed object, into which a field is read.\<close>

fun default_val :: "cty \<Rightarrow> cval" where
  "default_val TBool = VBool False"
| "default_val (TU w) = VUInt 0"
| "default_val (TI w) = VInt 0"
| "default_val TFloat = VFloat 0"
| "default_val TDouble = VDouble 0"
| "default_val TBytes = VBytes []"
| "default_val TString = VString []"
| "default_val (THash n) = VHash (replicate n 0)"
| "default_val (TVector t) = VSeq []"
| "default_val (TList t) = VSeq []"
| "default_val (TSet t) = VSeq []"
| "default_val (TArray n t) = VSeq (replicate n (default_val t))"
| "default_val (TPair t u) = VPair (default_val t) (default_val u)"
| "default_val (TMap t u) = VSeq []"
| "default_val (TTuple ts) = VTuple (map default_val ts)"
| "default_val (TStruct ts) = VStruct (map default_val ts)"

section \<open>The item a value is encoded as\<close>

fun item_of :: "cval \<Rightarrow> rlp_item" where
  "item_of (VBool b) = Str (be_bytes (if b then 1 else 0))"
| "item_of (VUInt x) = Str (be_bytes (unat x))"
| "item_of (VInt x) = Str (be_bytes (unat (zigzag x)))"
| "item_of (VFloat x) = Str (be_bytes (unat x))"
| "item_of (VDouble x) = Str (be_bytes (unat x))"
| "item_of (VBytes bs) = Str bs"
| "item_of (VString bs) = Str bs"
| "item_of (VHash bs) = Str bs"
| "item_of (VSeq vs) = Lst (map item_of vs)"
| "item_of (VPair a b) = Lst [item_of a, item_of b]"
| "item_of (VTuple vs) = Lst (map item_of vs)"
| "item_of (VStruct vs) = Lst (map item_of vs)"

end
