(* ===== verification/Bytes_Buffer.thy ===== *)
theory Bytes_Buffer
  imports CDT_Prelude
begin

text \<open>
  Model of \<open>platonlib/include/platon/bytes_buffer.hpp\<close>: the growable output buffer of the
  encoder. The block that \<open>buffer_\<close> points to is its list of bytes; writes are checked against
  that block, so a write the C++ code would make outside it is \<open>Oob\<close>. A block from \<open>malloc\<close> is
  zero, as the allocator of the library never reuses memory. The lemmas show that the
  buffer behaves as a byte string to which bytes are appended.
\<close>

section \<open>The buffer and its operations\<close>

record BytesBuffer =
  bb_buffer :: bytes
  bb_size :: nat
  bb_capacity :: nat

definition bb_reserve :: "BytesBuffer \<Rightarrow> nat \<Rightarrow> BytesBuffer res" where
  "bb_reserve b n =
     (if bb_capacity b < n
      then if bb_size b \<le> length (bb_buffer b) \<and> bb_size b \<le> n
           then Inr (b\<lparr>bb_buffer := take (bb_size b) (bb_buffer b) @ replicate (n - bb_size b) 0,
                       bb_capacity := n\<rparr>)
           else Inl Oob
      else Inr b)"

definition bb_ctor :: "nat \<Rightarrow> BytesBuffer res" where
  "bb_ctor capacity = bb_reserve \<lparr>bb_buffer = [], bb_size = 0, bb_capacity = 0\<rparr> capacity"

definition bb_expand :: "BytesBuffer \<Rightarrow> nat \<Rightarrow> BytesBuffer res" where
  "bb_expand b num =
     (if (bb_size b + num) mod 2 ^ 32 > bb_capacity b
      then bb_reserve b ((bb_size b + num) mod 2 ^ 32) else Inr b)"

definition bb_write :: "BytesBuffer \<Rightarrow> nat \<Rightarrow> bytes \<Rightarrow> BytesBuffer res" where
  "bb_write b pos bs =
     (if bs = [] then Inr b
      else if pos + length bs \<le> length (bb_buffer b)
      then Inr (b\<lparr>bb_buffer := take pos (bb_buffer b) @ bs @ drop (pos + length bs) (bb_buffer b)\<rparr>)
      else Inl Oob)"

definition bb_read :: "BytesBuffer \<Rightarrow> nat \<Rightarrow> nat \<Rightarrow> bytes res" where
  "bb_read b pos n =
     (if pos + n \<le> length (bb_buffer b) then Inr (seg (bb_buffer b) pos n) else Inl Oob)"

definition bb_push_back :: "BytesBuffer \<Rightarrow> byte \<Rightarrow> BytesBuffer res" where
  "bb_push_back b x =
     bind_res (bb_expand b 1) (\<lambda>b1.
     bind_res (bb_write b1 (bb_size b1) [x]) (\<lambda>b2. Inr (b2\<lparr>bb_size := (bb_size b2 + 1) mod 2 ^ 32\<rparr>)))"

definition bb_relocate :: "BytesBuffer \<Rightarrow> nat \<Rightarrow> BytesBuffer" where
  "bb_relocate b pos = (if pos \<le> bb_capacity b then b\<lparr>bb_size := pos\<rparr> else b)"

definition bb_clear :: "BytesBuffer \<Rightarrow> BytesBuffer" where
  "bb_clear b = b\<lparr>bb_size := 0\<rparr>"

definition bb_resize :: "BytesBuffer \<Rightarrow> nat \<Rightarrow> BytesBuffer res" where
  "bb_resize b num = bind_res (bb_reserve b num) (\<lambda>b1. Inr (b1\<lparr>bb_size := num\<rparr>))"

definition bb_append :: "BytesBuffer \<Rightarrow> bytes \<Rightarrow> BytesBuffer res" where
  "bb_append b bs =
     bind_res (bb_expand b (length bs)) (\<lambda>b1.
     bind_res (bb_write b1 (bb_size b1) bs) (\<lambda>b2.
       Inr (b2\<lparr>bb_size := (bb_size b2 + length bs) mod 2 ^ 32\<rparr>)))"

definition bb_out :: "BytesBuffer \<Rightarrow> bytes res" where
  "bb_out b = bb_read b 0 (bb_size b)"

section \<open>Invariant and contents\<close>

definition bb_inv :: "BytesBuffer \<Rightarrow> bool" where
  "bb_inv b \<longleftrightarrow> length (bb_buffer b) = bb_capacity b \<and> bb_size b \<le> bb_capacity b \<and> bb_capacity b < 2 ^ 32"

definition bb_bytes :: "BytesBuffer \<Rightarrow> bytes" where
  "bb_bytes b = take (bb_size b) (bb_buffer b)"

lemma length_bb_bytes: "bb_inv b \<Longrightarrow> length (bb_bytes b) = bb_size b"
  by (simp add: bb_inv_def bb_bytes_def)

lemma bb_out_bytes: "bb_inv b \<Longrightarrow> bb_out b = Inr (bb_bytes b)"
  by (simp add: bb_out_def bb_read_def bb_inv_def bb_bytes_def seg_def)

lemma bb_reserve_ok:
  assumes "bb_inv b" "n < 2 ^ 32"
  shows "\<exists>b'. bb_reserve b n = Inr b' \<and> bb_inv b' \<and> bb_bytes b' = bb_bytes b \<and>
           bb_size b' = bb_size b \<and> n \<le> bb_capacity b' \<and> bb_capacity b \<le> bb_capacity b'"
  using assms by (auto simp: bb_reserve_def bb_inv_def bb_bytes_def)

lemma bb_ctor_ok: "n < 2 ^ 32 \<Longrightarrow> \<exists>b. bb_ctor n = Inr b \<and> bb_inv b \<and> bb_bytes b = []"
  using bb_reserve_ok [of "\<lparr>bb_buffer = [], bb_size = 0, bb_capacity = 0\<rparr>" n]
  by (auto simp: bb_ctor_def bb_inv_def bb_bytes_def)

text \<open>Growing the logical size and overwriting the new tail appends the written bytes.\<close>

lemma bb_resize_write:
  assumes inv: "bb_inv b" and p: "p \<le> bb_size b" and n: "p + length bs < 2 ^ 32"
    "bb_size b \<le> p + length bs"
  obtains b1 b2 where "bb_resize b (p + length bs) = Inr b1" "bb_inv b1"
    "take (bb_size b) (bb_buffer b1) = bb_bytes b" "bb_size b1 = p + length bs"
    "bb_write b1 p bs = Inr b2" "bb_inv b2" "bb_bytes b2 = take p (bb_bytes b) @ bs"
proof -
  obtain r where r: "bb_reserve b (p + length bs) = Inr r" "bb_inv r" "bb_bytes r = bb_bytes b"
    "bb_size r = bb_size b" "p + length bs \<le> bb_capacity r"
    using bb_reserve_ok [OF inv n(1)] by blast
  let ?b1 = "r\<lparr>bb_size := p + length bs\<rparr>"
  let ?buf = "take p (bb_buffer r) @ bs @ drop (p + length bs) (bb_buffer r)"
  have l: "length (bb_buffer r) = bb_capacity r" using r(2) by (simp add: bb_inv_def)
  have w: "bb_write ?b1 p bs = Inr (?b1\<lparr>bb_buffer := ?buf\<rparr>)"
    using l r(5) by (auto simp: bb_write_def)
  have "take p (bb_buffer r) = take p (bb_bytes b)"
    using arg_cong [OF r(3), of "take p"] r(4) p by (simp add: bb_bytes_def min_def)
  then have "take (p + length bs) ?buf = take p (bb_bytes b) @ bs"
    using l r(5) p length_bb_bytes [OF inv] by simp
  moreover have "length ?buf = bb_capacity r" using l r(5) by simp
  moreover have "take (bb_size b) (bb_buffer r) = bb_bytes b"
    using r(3,4) by (simp add: bb_bytes_def)
  ultimately show thesis
    using r(1,2,5) l w that [of ?b1 "?b1\<lparr>bb_buffer := ?buf\<rparr>"]
    unfolding bb_resize_def bb_inv_def bb_bytes_def [of "?b1\<lparr>bb_buffer := ?buf\<rparr>"] by simp
qed

lemma bb_append_ok:
  assumes inv: "bb_inv b" and n: "bb_size b + length bs < 2 ^ 32"
  shows "\<exists>b'. bb_append b bs = Inr b' \<and> bb_inv b' \<and> bb_bytes b' = bb_bytes b @ bs"
proof -
  obtain r where r: "bb_expand b (length bs) = Inr r" "bb_inv r" "bb_bytes r = bb_bytes b"
    "bb_size r = bb_size b" "bb_size b + length bs \<le> bb_capacity r"
  proof -
    have "bb_expand b (length bs) = bb_reserve b (bb_size b + length bs)"
      using n by (simp add: bb_expand_def bb_reserve_def)
    then show thesis using bb_reserve_ok [OF inv n] that by auto
  qed
  let ?buf = "take (bb_size b) (bb_buffer r) @ bs @ drop (bb_size b + length bs) (bb_buffer r)"
  have l: "length (bb_buffer r) = bb_capacity r" using r(2) by (simp add: bb_inv_def)
  have w: "bb_write r (bb_size b) bs = Inr (r\<lparr>bb_buffer := ?buf\<rparr>)"
    using l r(5) by (auto simp: bb_write_def)
  have "take (bb_size b + length bs) ?buf = bb_bytes b @ bs"
    using l r(3,4,5) inv by (simp add: bb_bytes_def bb_inv_def)
  moreover have "length ?buf = bb_capacity r" using l r(5) by simp
  ultimately show ?thesis
    using r(1,2,4,5) w n inv by (simp add: bb_append_def bb_inv_def bb_bytes_def)
qed

lemma bb_push_back_ok:
  assumes "bb_inv b" "bb_size b + 1 < 2 ^ 32"
  shows "\<exists>b'. bb_push_back b x = Inr b' \<and> bb_inv b' \<and> bb_bytes b' = bb_bytes b @ [x]"
proof -
  have "bb_push_back b x = bb_append b [x]" by (simp add: bb_push_back_def bb_append_def)
  then show ?thesis using bb_append_ok [OF assms(1), of "[x]"] assms(2) by simp
qed

lemma bb_clear_ok: "bb_inv b \<Longrightarrow> bb_inv (bb_clear b) \<and> bb_bytes (bb_clear b) = []"
  by (simp add: bb_clear_def bb_inv_def bb_bytes_def)

end
