(* ===== verification/RLP_Stream.thy ===== *)
theory RLP_Stream
  imports Bytes_Buffer RLP_Format
begin

unbundle bit_operations_syntax

text \<open>
  Model of the class \<open>RLPStream\<close> (\<open>platonlib/include/platon/RLP.h\<close>, \<open>platonlib/src/RLP.cpp\<close>):
  the output buffer, the stack of lists that are still open, and the operations that append.
  The encoders for one string, one number and one list header are host functions of the chain;
  they are the record \<open>rlp_host\<close>, and \<open>rlp_host_ok\<close> states what the library relies on. The
  lemmas show that the stream refines a machine that builds trees: lists are announced by
  their number of items, filled, and closed when the last item arrives.
\<close>

section \<open>Host functions\<close>

record rlp_host =
  rlp_u128_size :: "64 word \<Rightarrow> 64 word \<Rightarrow> nat"
  platon_rlp_u128 :: "64 word \<Rightarrow> 64 word \<Rightarrow> bytes"
  rlp_bytes_size :: "bytes \<Rightarrow> nat"
  platon_rlp_bytes :: "bytes \<Rightarrow> bytes"
  rlp_list_size :: "nat \<Rightarrow> nat"
  platon_rlp_list :: "bytes \<Rightarrow> bytes"

text \<open>
  The host writes the RLP encoding and announces its size. The number is given as two halves;
  strings and payloads are shorter than the address space.
\<close>

definition rlp_host_ok :: "rlp_host \<Rightarrow> bool" where
  "rlp_host_ok h \<longleftrightarrow>
     (\<forall>hi lo. platon_rlp_u128 h hi lo = enc_str (be_bytes (unat hi * 2 ^ 64 + unat lo)) \<and>
              rlp_u128_size h hi lo = length (platon_rlp_u128 h hi lo)) \<and>
     (\<forall>bs. length bs < 2 ^ 32 \<longrightarrow>
              platon_rlp_bytes h bs = enc_str bs \<and> rlp_bytes_size h bs = length (enc_str bs)) \<and>
     (\<forall>p. length p < 2 ^ 32 \<longrightarrow>
              platon_rlp_list h p = enc_list p \<and> rlp_list_size h (length p) = length (enc_list p))"

section \<open>The stream\<close>

text \<open>\<open>m_listStack\<close> is a list with its \<open>back()\<close> first: remaining items and start of the payload.\<close>

record RLPStream =
  m_out :: BytesBuffer
  m_listStack :: "(nat \<times> nat) list"

definition stream_empty :: RLPStream where
  "stream_empty = \<lparr>m_out = \<lparr>bb_buffer = [], bb_size = 0, bb_capacity = 0\<rparr>, m_listStack = []\<rparr>"

text \<open>
  Closing a list: the payload is re-encoded in place, behind its own header. The host reads the
  \<open>s\<close> bytes at \<open>data\<close> before it writes there.
\<close>

definition close_list :: "rlp_host \<Rightarrow> BytesBuffer \<Rightarrow> nat \<Rightarrow> BytesBuffer res" where
  "close_list h out p =
     (let s = (bb_size out + (2 ^ 32 - p)) mod 2 ^ 32;
          appned_length = rlp_list_size h s in
      bind_res (bb_resize out ((p + appned_length) mod 2 ^ 32)) (\<lambda>out1.
      bind_res (bb_read out1 p s) (\<lambda>data. bb_write out1 p (platon_rlp_list h data))))"

fun note_loop ::
  "rlp_host \<Rightarrow> BytesBuffer \<Rightarrow> (nat \<times> nat) list \<Rightarrow> nat \<Rightarrow> (BytesBuffer \<times> (nat \<times> nat) list) res" where
  "note_loop h out [] cnt = Inr (out, [])"
| "note_loop h out ((remaining, p) # st) cnt =
     (if remaining < cnt then Inl (Throw ''itemCount too large'')
      else if remaining - cnt \<noteq> 0 then Inr (out, (remaining - cnt, p) # st)
      else bind_res (close_list h out p) (\<lambda>out'. note_loop h out' st 1))"

definition noteAppended :: "rlp_host \<Rightarrow> RLPStream \<Rightarrow> nat \<Rightarrow> RLPStream res" where
  "noteAppended h rs cnt =
     (if cnt = 0 then Inr rs
      else bind_res (note_loop h (m_out rs) (m_listStack rs) cnt)
             (\<lambda>(out, st). Inr \<lparr>m_out = out, m_listStack = st\<rparr>))"

definition appendRaw :: "rlp_host \<Rightarrow> RLPStream \<Rightarrow> bytes \<Rightarrow> nat \<Rightarrow> RLPStream res" where
  "appendRaw h rs bs cnt =
     bind_res (bb_append (m_out rs) bs) (\<lambda>out. noteAppended h (rs\<lparr>m_out := out\<rparr>) cnt)"

text \<open>
  The common shape of the three appenders: make room for what the host announces, let it write
  there, note one item.
\<close>

definition append_host :: "rlp_host \<Rightarrow> RLPStream \<Rightarrow> nat \<Rightarrow> bytes \<Rightarrow> RLPStream res" where
  "append_host h rs appned_length written =
     (let old_size = bb_size (m_out rs) in
      bind_res (bb_resize (m_out rs) ((old_size + appned_length) mod 2 ^ 32)) (\<lambda>out1.
      bind_res (bb_write out1 old_size written) (\<lambda>out2.
        noteAppended h (rs\<lparr>m_out := out2\<rparr>) 1)))"

definition append_bytes :: "rlp_host \<Rightarrow> RLPStream \<Rightarrow> bytes \<Rightarrow> RLPStream res" where
  "append_bytes h rs bs = append_host h rs (rlp_bytes_size h bs) (platon_rlp_bytes h bs)"

definition append_bigint :: "rlp_host \<Rightarrow> RLPStream \<Rightarrow> 128 word \<Rightarrow> RLPStream res" where
  "append_bigint h rs i =
     (let low = ucast i; heigh = ucast (drop_bit 64 i) in
      append_host h rs (rlp_u128_size h heigh low) (platon_rlp_u128 h heigh low))"

definition append_int128 :: "rlp_host \<Rightarrow> RLPStream \<Rightarrow> 128 word \<Rightarrow> RLPStream res" where
  "append_int128 h rs l = append_bigint h rs ((push_bit 1 l) XOR (signed_drop_bit 127 l))"

definition append_bool :: "rlp_host \<Rightarrow> RLPStream \<Rightarrow> bool \<Rightarrow> RLPStream res" where
  "append_bool h rs b = append_bigint h rs (if b then 1 else 0)"

definition append_hash :: "rlp_host \<Rightarrow> RLPStream \<Rightarrow> bytes \<Rightarrow> bool \<Rightarrow> RLPStream res" where
  "append_hash h rs s allOrNothing =
     (if allOrNothing \<and> list_all (\<lambda>b. b = 0) s then append_bytes h rs [] else append_bytes h rs s)"

definition appendList_bytes :: "rlp_host \<Rightarrow> RLPStream \<Rightarrow> bytes \<Rightarrow> RLPStream res" where
  "appendList_bytes h rs rlp = append_host h rs (rlp_list_size h (length rlp)) (platon_rlp_list h rlp)"

definition appendList :: "rlp_host \<Rightarrow> RLPStream \<Rightarrow> nat \<Rightarrow> RLPStream res" where
  "appendList h rs n =
     (if n \<noteq> 0 then Inr (rs\<lparr>m_listStack := (n, bb_size (m_out rs)) # m_listStack rs\<rparr>)
      else appendList_bytes h rs [])"

definition stream_clear :: "RLPStream \<Rightarrow> RLPStream" where
  "stream_clear rs = rs\<lparr>m_out := bb_clear (m_out rs), m_listStack := []\<rparr>"

definition stream_out :: "RLPStream \<Rightarrow> bytes res" where
  "stream_out rs =
     (if m_listStack rs \<noteq> [] then Inl (Throw ''listStack is not empty'') else bb_out (m_out rs))"

definition appendPrefix :: "RLPStream \<Rightarrow> bytes \<Rightarrow> RLPStream res" where
  "appendPrefix rs dest =
     (if m_listStack rs \<noteq> [] then Inl (Throw ''listStack is not empty'')
      else bind_res (bb_append (m_out rs) dest) (\<lambda>out. Inr (rs\<lparr>m_out := out\<rparr>)))"

definition stream_reserve :: "RLPStream \<Rightarrow> nat \<Rightarrow> RLPStream res" where
  "stream_reserve rs n =
     (if bb_capacity (m_out rs) < n
      then bind_res (bb_reserve (m_out rs) n) (\<lambda>out. Inr (rs\<lparr>m_out := out\<rparr>)) else Inr rs)"

section \<open>The machine of trees\<close>

text \<open>
  An abstract stream holds raw bytes that were put in front, the items that are complete, and
  the lists that are open, innermost first, each with the number of items it still expects.
\<close>

record tree_stream =
  ts_prefix :: bytes
  ts_done :: "rlp_item list"
  ts_open :: "(nat \<times> rlp_item list) list"

fun add_items :: "rlp_item list \<Rightarrow> (nat \<times> rlp_item list) list \<Rightarrow> rlp_item list \<Rightarrow>
    (rlp_item list \<times> (nat \<times> rlp_item list) list) option" where
  "add_items dn [] ys = Some (dn @ ys, [])"
| "add_items dn ((c, xs) # fs) ys =
     (if c < length ys then None
      else if c - length ys \<noteq> 0 then Some (dn, (c - length ys, xs @ ys) # fs)
      else add_items dn fs [Lst (xs @ ys)])"

definition enc_all :: "rlp_item list \<Rightarrow> bytes" where
  "enc_all xs = concat (map enc xs)"

fun render :: "bytes \<Rightarrow> rlp_item list \<Rightarrow> (nat \<times> rlp_item list) list \<Rightarrow> bytes" where
  "render pre dn [] = pre @ enc_all dn"
| "render pre dn ((c, xs) # fs) = render pre dn fs @ enc_all xs"

fun stack_of :: "bytes \<Rightarrow> rlp_item list \<Rightarrow> (nat \<times> rlp_item list) list \<Rightarrow> (nat \<times> nat) list" where
  "stack_of pre dn [] = []"
| "stack_of pre dn ((c, xs) # fs) = (c, length (render pre dn fs)) # stack_of pre dn fs"

definition stream_rel :: "RLPStream \<Rightarrow> tree_stream \<Rightarrow> bool" where
  "stream_rel rs ts \<longleftrightarrow> bb_inv (m_out rs) \<and>
     bb_bytes (m_out rs) = render (ts_prefix ts) (ts_done ts) (ts_open ts) \<and>
     m_listStack rs = stack_of (ts_prefix ts) (ts_done ts) (ts_open ts)"

definition ts_add :: "tree_stream \<Rightarrow> rlp_item list \<Rightarrow> tree_stream option" where
  "ts_add ts ys =
     map_option (\<lambda>(dn, fs). ts\<lparr>ts_done := dn, ts_open := fs\<rparr>) (add_items (ts_done ts) (ts_open ts) ys)"

definition ts_size :: "tree_stream \<Rightarrow> nat" where
  "ts_size ts = length (render (ts_prefix ts) (ts_done ts) (ts_open ts))"

section \<open>Lengths\<close>

lemma enc_all_append [simp]: "enc_all (xs @ ys) = enc_all xs @ enc_all ys"
  by (simp add: enc_all_def)

lemma enc_all_single [simp]: "enc_all [x] = enc x" "enc_all [] = []"
  by (simp_all add: enc_all_def)

lemma enc_Lst_all: "enc (Lst xs) = enc_list (enc_all xs)"
  by (simp add: enc_all_def)

lemma length_enc_list_ge: "length p < length (enc_list p)"
  by (simp add: enc_list_def rlp_head_def)

lemma add_items_grows:
  "add_items dn fs ys = Some (dn', fs') \<Longrightarrow>
   length (render pre dn fs) + length (enc_all ys) \<le> length (render pre dn' fs')"
proof (induction dn fs ys rule: add_items.induct)
  case (2 dn c xs fs ys)
  show ?case
  proof (cases "c - length ys = 0 \<and> \<not> c < length ys")
    case True
    then have "length (render pre dn fs) + length (enc (Lst (xs @ ys))) \<le> length (render pre dn' fs')"
      using 2 by simp
    then show ?thesis
      using length_enc_list_ge [of "enc_all (xs @ ys)"] by (simp add: enc_Lst_all del: enc.simps)
  next
    case False
    then show ?thesis using 2(2) by (auto split: if_splits)
  qed
qed auto

section \<open>Closing lists\<close>

lemma close_list_ok:
  assumes h: "rlp_host_ok h" and inv: "bb_inv out" and out: "bb_bytes out = base @ p"
    and n: "length base + length (enc_list p) < 2 ^ 32"
  obtains out' where "close_list h out (length base) = Inr out'" "bb_inv out'"
    "bb_bytes out' = base @ enc_list p"
proof -
  have lt: "length p < length (enc_list p)" by (rule length_enc_list_ge)
  have sz: "bb_size out = length base + length p" using length_bb_bytes [OF inv] out by simp
  have p32: "length p < 2 ^ 32" using lt n by simp
  have hp: "platon_rlp_list h p = enc_list p" "rlp_list_size h (length p) = length (enc_list p)"
    using h p32 by (simp_all add: rlp_host_ok_def)
  have s: "(bb_size out + (2 ^ 32 - length base)) mod 2 ^ 32 = length p"
  proof -
    have "bb_size out + (2 ^ 32 - length base) = length p + 2 ^ 32" using sz n by simp
    then show ?thesis using p32 by simp
  qed
  obtain b1 b2 where b: "bb_resize out (length base + length (enc_list p)) = Inr b1" "bb_inv b1"
    "take (bb_size out) (bb_buffer b1) = bb_bytes out" "bb_size b1 = length base + length (enc_list p)"
    "bb_write b1 (length base) (enc_list p) = Inr b2" "bb_inv b2"
    "bb_bytes b2 = take (length base) (bb_bytes out) @ enc_list p"
    using bb_resize_write [OF inv, of "length base" "enc_list p"] sz n lt by auto
  have le: "length base + length p \<le> length (bb_buffer b1)"
    using b(2,4) lt by (simp add: bb_inv_def)
  have "seg (bb_buffer b1) (length base) (length p) = drop (length base) (take (bb_size out) (bb_buffer b1))"
    using sz by (simp add: seg_def drop_take)
  then have "bb_read b1 (length base) (length p) = Inr p"
    using le b(3) out by (simp add: bb_read_def)
  then have "close_list h out (length base) = Inr b2"
    using s hp b n by (simp add: close_list_def Let_def)
  then show thesis using that b out by simp
qed

lemma note_loop_ok:
  assumes h: "rlp_host_ok h"
  shows "bb_inv out \<Longrightarrow> bb_bytes out = render pre dn fs @ enc_all ys \<Longrightarrow>
    add_items dn fs ys = Some (dn', fs') \<Longrightarrow> length (render pre dn' fs') < 2 ^ 32 \<Longrightarrow>
    \<exists>out'. note_loop h out (stack_of pre dn fs) (length ys) = Inr (out', stack_of pre dn' fs') \<and>
           bb_inv out' \<and> bb_bytes out' = render pre dn' fs'"
proof (induction dn fs ys arbitrary: out rule: add_items.induct)
  case (1 dn ys)
  then show ?case by auto
next
  case (2 dn c xs fs ys)
  show ?case
  proof (cases "c - length ys = 0 \<and> \<not> c < length ys")
    case False
    then show ?thesis using 2 by (auto split: if_splits)
  next
    case True
    then have add: "add_items dn fs [Lst (xs @ ys)] = Some (dn', fs')" using 2 by simp
    have "length (render pre dn fs) + length (enc_list (enc_all (xs @ ys))) < 2 ^ 32"
      using add_items_grows [OF add, of pre] 2(5) by (simp add: enc_Lst_all del: enc.simps)
    with 2(2,3) obtain out' where o: "close_list h out (length (render pre dn fs)) = Inr out'"
      "bb_inv out'" "bb_bytes out' = render pre dn fs @ enc_list (enc_all (xs @ ys))"
      using close_list_ok [OF h 2(2), of "render pre dn fs" "enc_all (xs @ ys)"] by auto
    then show ?thesis
      using True 2(1) [OF _ _ o(2) _ add 2(5)] by (simp add: enc_Lst_all del: enc.simps)
  qed
qed

text \<open>An item count beyond what the innermost list expects is refused.\<close>

lemma note_loop_too_many:
  "rlp_host_ok h \<Longrightarrow> c < n \<Longrightarrow>
   note_loop h out ((c, p) # st) n = Inl (Throw ''itemCount too large'')"
  by simp

section \<open>Refinement of the operations\<close>

lemma stream_rel_size: "stream_rel rs ts \<Longrightarrow> bb_size (m_out rs) = ts_size ts"
  by (metis length_bb_bytes stream_rel_def ts_size_def)

lemma noteAppended_ok:
  assumes h: "rlp_host_ok h" and inv: "bb_inv out"
    and out: "bb_bytes out = render (ts_prefix ts) (ts_done ts) (ts_open ts) @ enc_all ys"
    and st: "m_listStack rs = stack_of (ts_prefix ts) (ts_done ts) (ts_open ts)"
    and add: "ts_add ts ys = Some ts'" "ts_size ts' < 2 ^ 32" and ys: "ys \<noteq> []"
  shows "\<exists>rs'. noteAppended h (rs\<lparr>m_out := out\<rparr>) (length ys) = Inr rs' \<and> stream_rel rs' ts'"
proof -
  obtain dn' fs' where a: "add_items (ts_done ts) (ts_open ts) ys = Some (dn', fs')"
    and ts': "ts' = ts\<lparr>ts_done := dn', ts_open := fs'\<rparr>"
    using add(1) by (auto simp: ts_add_def)
  obtain out' where "note_loop h out (m_listStack rs) (length ys) =
      Inr (out', stack_of (ts_prefix ts) dn' fs')"
    "bb_inv out'" "bb_bytes out' = render (ts_prefix ts) dn' fs'"
    using note_loop_ok [OF h inv out a] add(2) st ts' by (auto simp: ts_size_def)
  then show ?thesis using ys ts' by (simp add: noteAppended_def stream_rel_def)
qed

lemma ts_add_grows:
  "ts_add ts ys = Some ts' \<Longrightarrow> ts_size ts + length (enc_all ys) \<le> ts_size ts'"
  using add_items_grows by (fastforce simp: ts_add_def ts_size_def)

lemma append_host_ok:
  assumes h: "rlp_host_ok h" and rel: "stream_rel rs ts"
    and add: "ts_add ts [y] = Some ts'" "ts_size ts' < 2 ^ 32"
  shows "\<exists>rs'. append_host h rs (length (enc y)) (enc y) = Inr rs' \<and> stream_rel rs' ts'"
proof -
  let ?s = "bb_size (m_out rs)"
  have inv: "bb_inv (m_out rs)"
    and bytes: "bb_bytes (m_out rs) = render (ts_prefix ts) (ts_done ts) (ts_open ts)"
    and st: "m_listStack rs = stack_of (ts_prefix ts) (ts_done ts) (ts_open ts)"
    using rel by (auto simp: stream_rel_def)
  have n: "?s + length (enc y) < 2 ^ 32"
    using ts_add_grows [OF add(1)] add(2) stream_rel_size [OF rel] by simp
  obtain b1 b2 where b: "bb_resize (m_out rs) (?s + length (enc y)) = Inr b1"
    "bb_write b1 ?s (enc y) = Inr b2" "bb_inv b2" "bb_bytes b2 = take ?s (bb_bytes (m_out rs)) @ enc y"
    by (rule bb_resize_write [OF inv, of ?s "enc y"]) (use n in simp_all)
  have "bb_bytes b2 = render (ts_prefix ts) (ts_done ts) (ts_open ts) @ enc_all [y]"
    using b(4) bytes length_bb_bytes [OF inv] by simp
  from noteAppended_ok [OF h b(3) this st add] b n show ?thesis
    by (simp add: append_host_def Let_def)
qed

lemma append_bytes_ok:
  assumes "rlp_host_ok h" "stream_rel rs ts" "ts_add ts [Str bs] = Some ts'" "ts_size ts' < 2 ^ 32"
  shows "\<exists>rs'. append_bytes h rs bs = Inr rs' \<and> stream_rel rs' ts'"
proof -
  have "length bs \<le> ts_size ts'"
    using ts_add_grows [OF assms(3)] length_enc_str_ge [of bs] by simp
  then have "length bs < 2 ^ 32" using assms(4) by simp
  then have "append_bytes h rs bs = append_host h rs (length (enc (Str bs))) (enc (Str bs))"
    using assms(1) by (simp add: append_bytes_def rlp_host_ok_def)
  then show ?thesis using append_host_ok [OF assms] by simp
qed

lemma unat_halves:
  "unat (ucast (drop_bit 64 i) :: 64 word) * 2 ^ 64 + unat (ucast i :: 64 word) = unat (i :: 128 word)"
proof -
  have "unat i < 2 ^ 128" using unsigned_less [of i] by simp
  then have "unat i div 2 ^ 64 < 2 ^ 64" by (simp add: div_less_iff_less_mult)
  moreover have "unat (drop_bit 64 i) = unat i div 2 ^ 64"
    unfolding unat_drop_bit_eq by (simp add: drop_bit_eq_div)
  ultimately have "unat (ucast (drop_bit 64 i) :: 64 word) = unat i div 2 ^ 64"
    unfolding unsigned_ucast_eq by (simp add: take_bit_nat_eq_self)
  moreover have "unat (ucast i :: 64 word) = unat i mod 2 ^ 64"
    by (simp add: unsigned_ucast_eq take_bit_eq_mod)
  ultimately show ?thesis by simp
qed

lemma append_bigint_ok:
  assumes "rlp_host_ok h" "stream_rel rs ts" "ts_add ts [Str (be_bytes (unat i))] = Some ts'"
    "ts_size ts' < 2 ^ 32"
  shows "\<exists>rs'. append_bigint h rs i = Inr rs' \<and> stream_rel rs' ts'"
proof -
  let ?y = "Str (be_bytes (unat i))"
  have "append_bigint h rs i = append_host h rs (length (enc ?y)) (enc ?y)"
    using assms(1) unat_halves [of i] by (simp add: append_bigint_def Let_def rlp_host_ok_def)
  then show ?thesis using append_host_ok [OF assms] by simp
qed

lemma appendList_bytes_ok:
  assumes "rlp_host_ok h" "stream_rel rs ts" "ts_add ts [Lst xs] = Some ts'" "ts_size ts' < 2 ^ 32"
  shows "\<exists>rs'. appendList_bytes h rs (enc_all xs) = Inr rs' \<and> stream_rel rs' ts'"
proof -
  have "length (enc_all xs) \<le> ts_size ts'"
    using ts_add_grows [OF assms(3)] length_enc_list_ge [of "enc_all xs"]
    by (simp add: enc_Lst_all del: enc.simps)
  then have "length (enc_all xs) < 2 ^ 32" using assms(4) by simp
  then have "appendList_bytes h rs (enc_all xs) = append_host h rs (length (enc (Lst xs))) (enc (Lst xs))"
    using assms(1) by (simp add: appendList_bytes_def rlp_host_ok_def enc_Lst_all del: enc.simps)
  then show ?thesis using append_host_ok [OF assms] by simp
qed

text \<open>Announcing a list of \<open>n\<close> items; the empty list is complete at once.\<close>

definition ts_list :: "tree_stream \<Rightarrow> nat \<Rightarrow> tree_stream option" where
  "ts_list ts n = (if n = 0 then ts_add ts [Lst []] else Some (ts\<lparr>ts_open := (n, []) # ts_open ts\<rparr>))"

lemma appendList_ok:
  assumes "rlp_host_ok h" "stream_rel rs ts" "ts_list ts n = Some ts'" "ts_size ts' < 2 ^ 32"
  shows "\<exists>rs'. appendList h rs n = Inr rs' \<and> stream_rel rs' ts'"
proof (cases "n = 0")
  case True
  then show ?thesis
    using appendList_bytes_ok [OF assms(1,2), of "[]"] assms(3,4) by (simp add: appendList_def ts_list_def)
next
  case False
  then have "ts' = ts\<lparr>ts_open := (n, []) # ts_open ts\<rparr>" using assms(3) by (simp add: ts_list_def)
  then show ?thesis
    using False assms(2) stream_rel_size [OF assms(2)]
    by (simp add: appendList_def stream_rel_def ts_size_def)
qed

lemma appendRaw_ok:
  assumes h: "rlp_host_ok h" and rel: "stream_rel rs ts"
    and add: "ts_add ts ys = Some ts'" "ts_size ts' < 2 ^ 32" and ys: "ys \<noteq> []"
  shows "\<exists>rs'. appendRaw h rs (enc_all ys) (length ys) = Inr rs' \<and> stream_rel rs' ts'"
proof -
  have "bb_size (m_out rs) + length (enc_all ys) < 2 ^ 32"
    using ts_add_grows [OF add(1)] add(2) stream_rel_size [OF rel] by simp
  then obtain b where b: "bb_append (m_out rs) (enc_all ys) = Inr b" "bb_inv b"
    "bb_bytes b = bb_bytes (m_out rs) @ enc_all ys"
    using bb_append_ok rel unfolding stream_rel_def by blast
  then have "bb_bytes b = render (ts_prefix ts) (ts_done ts) (ts_open ts) @ enc_all ys"
    using rel by (simp add: stream_rel_def)
  moreover have "m_listStack rs = stack_of (ts_prefix ts) (ts_done ts) (ts_open ts)"
    using rel by (simp add: stream_rel_def)
  ultimately show ?thesis
    using noteAppended_ok [OF h b(2) _ _ add ys] b(1) by (simp add: appendRaw_def)
qed

lemma stream_out_ok:
  "stream_rel rs ts \<Longrightarrow> ts_open ts = [] \<Longrightarrow>
   stream_out rs = Inr (ts_prefix ts @ enc_all (ts_done ts))"
  by (simp add: stream_out_def stream_rel_def bb_out_bytes)

lemma stream_out_open:
  "stream_rel rs ts \<Longrightarrow> ts_open ts \<noteq> [] \<Longrightarrow> stream_out rs = Inl (Throw ''listStack is not empty'')"
  by (cases "ts_open ts") (auto simp: stream_out_def stream_rel_def)

lemma appendPrefix_ok:
  assumes rel: "stream_rel rs ts" and ts: "ts_open ts = []" "ts_done ts = []"
    and n: "ts_size ts + length bs < 2 ^ 32"
  shows "\<exists>rs'. appendPrefix rs bs = Inr rs' \<and> stream_rel rs' (ts\<lparr>ts_prefix := ts_prefix ts @ bs\<rparr>)"
proof -
  have "bb_size (m_out rs) + length bs < 2 ^ 32" using n stream_rel_size [OF rel] by simp
  then obtain b where "bb_append (m_out rs) bs = Inr b" "bb_inv b"
    "bb_bytes b = bb_bytes (m_out rs) @ bs"
    using bb_append_ok rel unfolding stream_rel_def by blast
  with rel ts show ?thesis by (simp add: appendPrefix_def stream_rel_def)
qed

lemma stream_reserve_ok:
  assumes "stream_rel rs ts" "n < 2 ^ 32"
  shows "\<exists>rs'. stream_reserve rs n = Inr rs' \<and> stream_rel rs' ts"
  using bb_reserve_ok [of "m_out rs" n] assms by (auto simp: stream_reserve_def stream_rel_def)

definition ts_empty :: tree_stream where
  "ts_empty = \<lparr>ts_prefix = [], ts_done = [], ts_open = []\<rparr>"

lemma stream_rel_empty: "stream_rel stream_empty ts_empty"
  by (simp add: stream_rel_def stream_empty_def ts_empty_def bb_inv_def bb_bytes_def)

lemma stream_clear_ok: "stream_rel rs ts \<Longrightarrow> stream_rel (stream_clear rs) ts_empty"
  using bb_clear_ok [of "m_out rs"] by (simp add: stream_rel_def stream_clear_def ts_empty_def)

section \<open>A host that keeps its promise\<close>

definition model_host :: rlp_host where
  "model_host =
     \<lparr>rlp_u128_size = (\<lambda>hi lo. length (enc_str (be_bytes (unat hi * 2 ^ 64 + unat lo)))),
      platon_rlp_u128 = (\<lambda>hi lo. enc_str (be_bytes (unat hi * 2 ^ 64 + unat lo))),
      rlp_bytes_size = (\<lambda>bs. length (enc_str bs)), platon_rlp_bytes = enc_str,
      rlp_list_size = (\<lambda>n. n + length (rlp_head 192 n)), platon_rlp_list = enc_list\<rparr>"

lemma model_host_ok: "rlp_host_ok model_host"
  by (simp add: rlp_host_ok_def model_host_def enc_list_def)

end
