(* ===== verification/RLP_Size.thy ===== *)
theory RLP_Size
  imports RLP_Types RLP_Stream
begin

text \<open>
  Model of \<open>platonlib/include/platon/rlp_size.hpp\<close>: the class \<open>RLPSize\<close> that computes the length
  of an encoding without building it, with its stack of pending lists, and \<open>pack_size\<close>. The
  lemmas show that it counts exactly the bytes of the encoding as long as no zero hash
  occurs, and what it counts for a zero hash.
\<close>

section \<open>The counter\<close>

record RLPSize =
  rs_size :: nat
  rs_pending :: "nat list"

datatype ListFlag = Start | End

definition size_empty :: RLPSize where
  "size_empty = \<lparr>rs_size = 0, rs_pending = []\<rparr>"

definition size_add :: "RLPSize \<Rightarrow> nat \<Rightarrow> RLPSize" where
  "size_add st n = (case rs_pending st of
     t # ts \<Rightarrow> st\<lparr>rs_pending := (t + n) mod 2 ^ 32 # ts\<rparr>
   | [] \<Rightarrow> st\<lparr>rs_size := (rs_size st + n) mod 2 ^ 32\<rparr>)"

definition size_flag :: "RLPSize \<Rightarrow> ListFlag \<Rightarrow> RLPSize res" where
  "size_flag st flag = (case flag of
     End \<Rightarrow> (case rs_pending st of
       [] \<Rightarrow> Inl Oob
     | list_size # ts \<Rightarrow>
         let list_size' = (if list_size < c_rlpListImmLenCount then (list_size + 1) mod 2 ^ 32
                else (list_size + bytesRequired (word_of_nat list_size :: 32 word) + 1) mod 2 ^ 32)
         in Inr (size_add (st\<lparr>rs_pending := ts\<rparr>) list_size'))
   | Start \<Rightarrow> Inr (st\<lparr>rs_pending := 0 # rs_pending st\<rparr>))"

definition size_bigint :: "RLPSize \<Rightarrow> 128 word \<Rightarrow> RLPSize" where
  "size_bigint st s =
     size_add st
       (if s = 0 \<or> unat s < c_rlpDataImmLenStart then 1
        else let br = bytesRequired s in
          if br < c_rlpDataImmLenCount then br + 1
          else br + bytesRequired (word_of_nat br :: 32 word) + 1)"

definition size_bool :: "RLPSize \<Rightarrow> bool \<Rightarrow> RLPSize" where
  "size_bool st b = size_bigint st (if b then 1 else 0)"

definition size_int128 :: "RLPSize \<Rightarrow> 128 word \<Rightarrow> RLPSize" where
  "size_int128 st c = size_bigint st (zigzag c)"

text \<open>The overloads for \<open>bytes\<close> and \<open>std::string\<close> have the same body.\<close>

definition size_bytes :: "RLPSize \<Rightarrow> bytes \<Rightarrow> RLPSize" where
  "size_bytes st s =
     size_add st
       (if s = [] then 1
        else let size = length s in
          if size = 1 \<and> unat (hd s) < c_rlpDataImmLenStart then 1
          else if size < c_rlpDataImmLenCount then size + 1
          else (size + bytesRequired (word_of_nat size :: 32 word) + 1) mod 2 ^ 32)"

definition size_hash :: "RLPSize \<Rightarrow> bytes \<Rightarrow> RLPSize" where
  "size_hash st s =
     size_add st
       (let N = length s in
        if list_all (\<lambda>b. b = 0) s then 1
        else if N < c_rlpDataImmLenCount then N + 1
        else (N + bytesRequired (word_of_nat N :: 32 word) + 1) mod 2 ^ 32)"

definition AppendEmptyList :: "RLPSize \<Rightarrow> RLPSize" where
  "AppendEmptyList st = size_add st 1"

text \<open>\<open>operator<<\<close> by type: containers test for emptiness first, pairs, tuples and classes do not.\<close>

fun size_put :: "RLPSize \<Rightarrow> cval \<Rightarrow> RLPSize res"
  and size_puts :: "RLPSize \<Rightarrow> cval list \<Rightarrow> RLPSize res" where
  "size_put st (VBool b) = Inr (size_bool st b)"
| "size_put st (VUInt x) = Inr (size_bigint st x)"
| "size_put st (VInt x) = Inr (size_int128 st x)"
| "size_put st (VFloat x) = Inr (size_bigint st (ucast x))"
| "size_put st (VDouble x) = Inr (size_bigint st (ucast x))"
| "size_put st (VBytes bs) = Inr (size_bytes st bs)"
| "size_put st (VString bs) = Inr (size_bytes st bs)"
| "size_put st (VHash bs) = Inr (size_hash st bs)"
| "size_put st (VSeq vs) =
     (if vs = [] then Inr (AppendEmptyList st)
      else bind_res (size_flag st Start) (\<lambda>s1. bind_res (size_puts s1 vs) (\<lambda>s2. size_flag s2 End)))"
| "size_put st (VPair a b) =
     bind_res (size_flag st Start) (\<lambda>s1. bind_res (size_put s1 a) (\<lambda>s2.
       bind_res (size_put s2 b) (\<lambda>s3. size_flag s3 End)))"
| "size_put st (VTuple vs) =
     bind_res (size_flag st Start) (\<lambda>s1. bind_res (size_puts s1 vs) (\<lambda>s2. size_flag s2 End))"
| "size_put st (VStruct vs) =
     bind_res (size_flag st Start) (\<lambda>s1. bind_res (size_puts s1 vs) (\<lambda>s2. size_flag s2 End))"
| "size_puts st [] = Inr st"
| "size_puts st (v # vs) = bind_res (size_put st v) (\<lambda>s1. size_puts s1 vs)"

definition pack_size :: "cval \<Rightarrow> nat res" where
  "pack_size v = bind_res (size_put size_empty v) (\<lambda>st. Inr (rs_size st))"

section \<open>The counter counts the encoding\<close>

text \<open>
  The overload for \<open>FixedHash\<close> counts one byte for a zero hash and a length prefix for every other,
  while the encoder writes the bytes as a string, a single byte below \<open>0x80\<close> without prefix. The
  two agree on a hash of two bytes or more exactly when it is not zero, and on a hash of one byte
  exactly when it is zero or not below \<open>0x80\<close>.
\<close>

fun hash_exact :: "cval \<Rightarrow> bool" where
  "hash_exact (VHash bs) =
     (if list_all (\<lambda>b. b = 0) bs then length bs \<le> 1 else length bs = 1 \<longrightarrow> 128 \<le> unat (hd bs))"
| "hash_exact (VSeq vs) = list_all hash_exact vs"
| "hash_exact (VPair a b) = (hash_exact a \<and> hash_exact b)"
| "hash_exact (VTuple vs) = list_all hash_exact vs"
| "hash_exact (VStruct vs) = list_all hash_exact vs"
| "hash_exact _ = True"

definition items_len :: "cval list \<Rightarrow> nat" where
  "items_len vs = length (enc_all (map item_of vs))"

definition item_len :: "cval \<Rightarrow> nat" where
  "item_len v = length (enc (item_of v))"

lemma items_len_simps [simp]:
  "items_len [] = 0" "items_len (v # vs) = item_len v + items_len vs"
  by (simp_all add: items_len_def item_len_def enc_all_def)

lemma size_add_add [simp]: "size_add (size_add st a) b = size_add st (a + b)"
  by (auto simp: size_add_def mod_simps add.assoc split: list.splits)

definition size_wf :: "RLPSize \<Rightarrow> bool" where
  "size_wf st \<longleftrightarrow> rs_size st < 2 ^ 32 \<and> list_all (\<lambda>t. t < 2 ^ 32) (rs_pending st)"

lemma size_wf_add [simp]: "size_wf st \<Longrightarrow> size_wf (size_add st n)"
  by (auto simp: size_wf_def size_add_def split: list.splits)

lemma size_add_0 [simp]: "size_wf st \<Longrightarrow> size_add st 0 = st"
  by (cases st) (auto simp: size_wf_def size_add_def split: list.splits)

lemma bytesRequired_length:
  "n < 2 ^ 32 \<Longrightarrow> bytesRequired (word_of_nat n :: 32 word) = length (be_bytes n)"
  by (simp add: bytesRequired_be_bytes unat_of_nat)

lemma length_rlp_head: "length (rlp_head base n) = (if n < 56 then 1 else Suc (length (be_bytes n)))"
  by (simp add: rlp_head_def)

lemma length_enc_str:
  "length (enc_str bs) = (if length bs = 1 \<and> unat (hd bs) < 128 then 1
     else length (rlp_head 128 (length bs)) + length bs)"
  by (simp add: enc_str_def)

lemma size_bytes_ok:
  assumes "length (enc_str s) < 2 ^ 32"
  shows "size_bytes st s = size_add st (length (enc_str s))"
proof -
  have "length s < 2 ^ 32" using assms length_enc_str_ge [of s] by simp
  with assms show ?thesis
    by (auto simp: size_bytes_def length_enc_str length_rlp_head bytesRequired_length Let_def
        rlp_consts add.commute)
qed

lemma size_hash_ok:
  assumes "length (enc_str s) < 2 ^ 32" "hash_exact (VHash s)"
  shows "size_hash st s = size_add st (length (enc_str s))"
proof (cases "list_all (\<lambda>b. b = 0) s")
  case True
  then have "s = [] \<or> s = [0]" using assms(2) by (cases s) auto
  then have "length (enc_str s) = 1" by (auto simp: enc_str_def rlp_head_def)
  then show ?thesis using True by (simp add: size_hash_def)
next
  case False
  have "length s < 2 ^ 32" using assms length_enc_str_ge [of s] by simp
  with assms False show ?thesis
    by (auto simp: size_hash_def length_enc_str length_rlp_head bytesRequired_length Let_def
        rlp_consts add.commute)
qed

lemma size_bigint_ok: "size_bigint st s = size_add st (length (enc_str (be_bytes (unat s))))"
proof (cases "s = 0")
  case True
  then show ?thesis by (simp add: size_bigint_def length_enc_str length_rlp_head)
next
  case False
  then have pos: "0 < unat s" by (simp add: unat_gt_0)
  show ?thesis
  proof (cases "unat s < 128")
    case True
    then have "unat s div 256 = 0" "unat s mod 256 = unat s" by simp_all
    then have "be_bytes (unat s) = [word_of_nat (unat s)]"
      using pos by (simp add: be_bytes_pos)
    then have "length (enc_str (be_bytes (unat s))) = 1"
      using True unat_byte_of_nat [of "unat s"] by (simp add: enc_str_def)
    then show ?thesis using True by (simp add: size_bigint_def rlp_consts)
  next
    case F: False
    have big: "\<not> (length (be_bytes (unat s)) = 1 \<and> unat (hd (be_bytes (unat s))) < 128)"
    proof
      assume a: "length (be_bytes (unat s)) = 1 \<and> unat (hd (be_bytes (unat s))) < 128"
      then obtain b where "be_bytes (unat s) = [b]" by (auto simp: length_Suc_conv)
      with a F be_val_be_bytes [of "unat s"] show False by simp
    qed
    have "unat s < 256 ^ 16" using unsigned_less [of s] by simp
    then have "length (be_bytes (unat s)) \<le> 16" by (simp only: length_be_bytes_le)
    then show ?thesis
      using big F False
      by (auto simp: size_bigint_def length_enc_str length_rlp_head Let_def rlp_consts
          bytesRequired_be_bytes)
  qed
qed

definition size_push :: "RLPSize \<Rightarrow> RLPSize" where
  "size_push st = st\<lparr>rs_pending := 0 # rs_pending st\<rparr>"

lemma size_flag_Start [simp]: "size_flag st Start = Inr (size_push st)"
  by (simp add: size_flag_def size_push_def)

lemma size_wf_push [simp]: "size_wf st \<Longrightarrow> size_wf (size_push st)"
  by (simp add: size_wf_def size_push_def)

text \<open>Closing a list adds its header to what was counted inside.\<close>

lemma size_flag_End:
  assumes "length (rlp_head 192 n) + n < 2 ^ 32" "size_wf st"
  shows "size_flag (size_add (size_push st) n) End =
           Inr (size_add st (length (rlp_head 192 n) + n))"
proof -
  have n: "n < 2 ^ 32" using assms by simp
  have "size_add (size_push st) n = st\<lparr>rs_pending := n # rs_pending st\<rparr>"
    using n by (simp add: size_add_def size_push_def)
  then show ?thesis
    using assms n
    by (auto simp: size_flag_def length_rlp_head bytesRequired_length rlp_consts add.commute)
qed

lemma length_enc_Lst: "length (enc (Lst xs)) = length (rlp_head 192 (length (enc_all xs))) + length (enc_all xs)"
  by (simp add: enc_list_def enc_all_def)

lemma item_len_list:
  "item_len (VSeq vs) = length (rlp_head 192 (items_len vs)) + items_len vs"
  "item_len (VTuple vs) = length (rlp_head 192 (items_len vs)) + items_len vs"
  "item_len (VStruct vs) = length (rlp_head 192 (items_len vs)) + items_len vs"
  "item_len (VPair a b) = length (rlp_head 192 (item_len a + item_len b)) + (item_len a + item_len b)"
  by (simp_all add: item_len_def items_len_def length_enc_Lst enc_all_def enc_list_def)

lemma size_list_ok:
  assumes "length (rlp_head 192 n) + n < 2 ^ 32" "size_wf st"
    and "f (size_push st) = Inr (size_add (size_push st) n)"
  shows "bind_res (size_flag st Start) (\<lambda>s1. bind_res (f s1) (\<lambda>s2. size_flag s2 End)) =
           Inr (size_add st (length (rlp_head 192 n) + n))"
  using size_flag_End [OF assms(1,2)] assms(3) by simp

lemma size_put_ok:
  "hash_exact v \<Longrightarrow> item_len v < 2 ^ 32 \<Longrightarrow> size_wf st \<Longrightarrow>
     size_put st v = Inr (size_add st (item_len v))"
  "list_all hash_exact vs \<Longrightarrow> items_len vs < 2 ^ 32 \<Longrightarrow> size_wf st \<Longrightarrow>
     size_puts st vs = Inr (size_add st (items_len vs))"
proof (induction st v and st vs rule: size_put_size_puts.induct)
  case (9 st vs)
  show ?case
  proof (cases "vs = []")
    case True
    then show ?thesis
      by (simp add: AppendEmptyList_def item_len_list length_rlp_head)
  next
    case False
    have n: "length (rlp_head 192 (items_len vs)) + items_len vs < 2 ^ 32"
      using 9(3) by (simp add: item_len_list)
    then have "size_puts (size_push st) vs = Inr (size_add (size_push st) (items_len vs))"
      using 9 False by simp
    from size_list_ok [OF n 9(4), of "\<lambda>s. size_puts s vs", OF this] show ?thesis
      using False by (simp add: item_len_list)
  qed
next
  case (10 st a b)
  have n: "length (rlp_head 192 (item_len a + item_len b)) + (item_len a + item_len b) < 2 ^ 32"
    using 10 by (simp add: item_len_list)
  have "bind_res (size_put (size_push st) a) (\<lambda>s2. size_put s2 b) =
      Inr (size_add (size_push st) (item_len a + item_len b))"
    using 10 n by simp
  from size_list_ok [OF n 10(5), of "\<lambda>s1. bind_res (size_put s1 a) (\<lambda>s2. size_put s2 b)", OF this]
  show ?case by (simp add: item_len_list bind_res_assoc)
next
  case (11 st vs)
  have n: "length (rlp_head 192 (items_len vs)) + items_len vs < 2 ^ 32"
    using 11 by (simp add: item_len_list)
  then show ?case
    using size_list_ok [OF n 11(4), of "\<lambda>s. size_puts s vs"] 11 by (simp add: item_len_list)
next
  case (12 st vs)
  have n: "length (rlp_head 192 (items_len vs)) + items_len vs < 2 ^ 32"
    using 12 by (simp add: item_len_list)
  then show ?case
    using size_list_ok [OF n 12(4), of "\<lambda>s. size_puts s vs"] 12 by (simp add: item_len_list)
qed (simp_all add: item_len_def size_bool_def size_int128_def size_bigint_ok size_bytes_ok
    size_hash_ok unat_ucast_up)

end
