(* ===== verification/RLP_Untrusted.thy ===== *)
theory RLP_Untrusted
  imports RLP_Safety RLP_Convert
begin

unbundle bit_operations_syntax

text \<open>
  What a client of the class \<open>RLP\<close> may rely on, stated over whole access patterns: any sequence
  of subscripts on one object (which all share its mutable cache), the range-for, and the
  conversions, on well-formed encodings and on arbitrary bytes.
\<close>

section \<open>Sequences of subscripts\<close>

text \<open>A client that evaluates \<open>rlp[i]\<close> for the indices of a list in turn, on the same object.\<close>

fun rlp_index_run :: "memory \<Rightarrow> RLP \<Rightarrow> nat list \<Rightarrow> vector_ref list res" where
  "rlp_index_run mem r [] = Inr []"
| "rlp_index_run mem r (i # ixs) =
     bind_res (rlp_index mem r i) (\<lambda>(x, r').
       bind_res (rlp_index_run mem r' ixs) (\<lambda>vs. Inr (rlp_data x # vs)))"

lemma rlp_index_run_split:
  assumes "list_view mem (rlp_data r) p vs" "cache_ok p vs r" "list_all (\<lambda>i. i < size_max) ixs"
  shows "rlp_index_run mem r ixs = Inr (map (item_at p vs) ixs)"
  using assms
proof (induction ixs arbitrary: r)
  case (Cons i ixs)
  obtain r' where r': "rlp_index mem r i = Inr (rlp_fresh (item_at p vs i), r')"
    "rlp_data r' = rlp_data r" "cache_ok p vs r'"
    using rlp_index_split [OF Cons.prems(1,2), of i] Cons.prems(3) by auto
  then have "rlp_index_run mem r' ixs = Inr (map (item_at p vs) ixs)"
    using Cons.prems by (intro Cons.IH) auto
  with r' show ?case by simp
qed simp

lemma rlp_index_run_safe: "rlp_inv mem r \<Longrightarrow> safe (rlp_index_run mem r ixs)"
proof (induction ixs arbitrary: r)
  case (Cons i ixs)
  then show ?case
    using rlp_index_safe [OF Cons.prems, of i]
    by (auto intro!: safe_bind Cons.IH split: prod.splits)
qed simp

definition item_bytes :: "rlp_item list \<Rightarrow> nat \<Rightarrow> bytes" where
  "item_bytes xs i = (if i < length xs then enc (xs ! i) else [])"

lemma item_at_enc:
  assumes "list_all2 (enc_view mem) vs xs"
  shows "contents mem (item_at p vs i) = item_bytes xs i"
  using assms
  by (auto simp: item_at_def item_bytes_def enc_view_def list_all2_conv_all_nth)

section \<open>Decoding a string through every accessor\<close>

lemma range_for_enc:
  assumes "enc_view mem d (Lst xs)" "list_all2 (\<lambda>x y. \<forall>v. enc_view mem v x \<longrightarrow> body (rlp_fresh v) = Inr y) xs ys"
  shows "range_for mem d body = Inr ys"
proof -
  obtain p vs where lv: "list_view mem d p vs" and vs: "list_all2 (enc_view mem) vs xs"
    using enc_list_view [OF assms(1)] .
  have "map_res (\<lambda>v. body (rlp_fresh v)) vs = Inr ys"
    using vs assms(2)
  proof (induction vs xs arbitrary: ys rule: list_all2_induct)
    case (Cons v vs x xs)
    then show ?case by (auto simp: list_all2_Cons1)
  qed simp
  with range_for_split [OF lv, of body] show ?thesis by simp
qed

text \<open>
  C4. On a view that holds the encoding of a list, the subscript operator returns the encoding of
  the requested element, and an empty view beyond the end, whatever indices were asked for
  before on the same object: the cache of \<open>m_lastIndex\<close>, \<open>m_lastEnd\<close> and \<open>m_lastItem\<close> is
  transparent for every order of accesses.
\<close>

theorem subscript_any_order:
  assumes "enc_view mem d (Lst xs)" "list_all (\<lambda>i. i < size_max) ixs"
  shows "\<exists>vs. rlp_index_run mem (rlp_fresh d) ixs = Inr vs \<and>
           map (contents mem) vs = map (item_bytes xs) ixs"
proof -
  obtain p vs where lv: "list_view mem d p vs" and vs: "list_all2 (enc_view mem) vs xs"
    using enc_list_view [OF assms(1)] .
  then have "rlp_index_run mem (rlp_fresh d) ixs = Inr (map (item_at p vs) ixs)"
    using rlp_index_run_split [of mem "rlp_fresh d" p vs ixs] assms(2) by simp
  then show ?thesis by (simp add: item_at_enc [OF vs])
qed

text \<open>The classic example: the list of the strings \<open>cat\<close> and \<open>dog\<close>, behind the null address.\<close>

definition cat_dog :: memory where
  "cat_dog = [0, 200, 131, 99, 97, 116, 131, 100, 111, 103]"

definition cat_dog_item :: rlp_item where
  "cat_dog_item = Lst [Str [99, 97, 116], Str [100, 111, 103]]"

lemma cat_dog_view: "enc_view cat_dog (vr_mk 1 9) cat_dog_item"
  by (simp add: cat_dog_def cat_dog_item_def enc_view_def wf_view_def contents_def seg_def
      enc_str_def enc_list_def rlp_head_def)

theorem subscript_any_order_witness:
  "\<exists>vs. rlp_index_run cat_dog (rlp_fresh (vr_mk 1 9)) [1, 0, 7, 1] = Inr vs \<and>
     map (contents cat_dog) vs =
       [[131, 100, 111, 103], [131, 99, 97, 116], [], [131, 100, 111, 103]]"
  using subscript_any_order [OF cat_dog_view [unfolded cat_dog_item_def], of "[1, 0, 7, 1]"]
  by (simp add: item_bytes_def enc_str_def rlp_head_def)

text \<open>
  C14. The range-for over a view that holds the encoding of a list visits the encodings of exactly
  its elements, in order, and ends.
\<close>

theorem range_for_visits_items:
  assumes "enc_view mem d (Lst xs)"
  shows "range_for mem d (\<lambda>r. vr_toBytes mem (rlp_data r)) = Inr (map enc xs) \<and>
         itemCount mem d = Inr (length xs)"
proof
  show "range_for mem d (\<lambda>r. vr_toBytes mem (rlp_data r)) = Inr (map enc xs)"
    by (rule range_for_enc [OF assms]) (auto simp: list_all2_conv_all_nth enc_view_def vr_toBytes_wf)
  obtain p vs where lv: "list_view mem d p vs" and "list_all2 (enc_view mem) vs xs"
    using enc_list_view [OF assms] .
  then have "length vs = length xs" by (simp add: list_all2_lengthD)
  with itemCount_list_view(1) [OF lv] show "itemCount mem d = Inr (length xs)" by simp
qed

theorem range_for_visits_items_witness:
  "range_for cat_dog (vr_mk 1 9) (\<lambda>r. vr_toBytes cat_dog (rlp_data r)) =
     Inr [[131, 99, 97, 116], [131, 100, 111, 103]] \<and> itemCount cat_dog (vr_mk 1 9) = Inr 2"
  using range_for_visits_items [OF cat_dog_view [unfolded cat_dog_item_def]]
  by (simp add: enc_str_def rlp_head_def)

section \<open>Arbitrary bytes\<close>

text \<open>
  C6. Reading untrusted input is memory safe and ends: on any bytes that lie in memory, after the
  default construction of an \<open>RLP\<close>, every sequence of subscripts, the count of items, every
  range-for that converts the elements, and every conversion either return a value or throw;
  none reads outside the view and none runs on for ever.
\<close>

theorem untrusted_reads_safe:
  assumes "wf_view mem d" "rlp_ctor mem d VeryStrict = Inr r"
  shows "safe (rlp_index_run mem r ixs) \<and> safe (itemCountStrict mem (rlp_data r)) \<and>
         safe (range_for mem (rlp_data r) (\<lambda>e. toBytes mem (rlp_data e) Strict)) \<and>
         safe (range_for mem (rlp_data r) (\<lambda>e. toSignedInt mem (rlp_data e) Strict :: 64 word res)) \<and>
         safe (toBytes mem (rlp_data r) flags) \<and> safe (toString mem (rlp_data r) flags) \<and>
         safe (toInt mem (rlp_data r) flags :: 64 word res) \<and> safe (toHash N mem (rlp_data r) flags)"
proof -
  have r: "r = rlp_fresh d" and ex: "exact_view mem d"
    using assms by (simp_all add: rlp_ctor_VeryStrict_Inr)
  have "safe (range_for mem d (\<lambda>e. toBytes mem (rlp_data e) Strict))"
    by (rule range_for_safe [OF ex]) (simp add: exact_prefix toBytes_safe)
  moreover have "safe (range_for mem d (\<lambda>e. toSignedInt mem (rlp_data e) Strict :: 64 word res))"
    by (rule range_for_safe [OF ex]) (simp add: exact_view_def toSignedInt_safe)
  ultimately show ?thesis
    using assms(1) ex r rlp_inv_fresh [OF assms(1)]
    by (simp add: rlp_index_run_safe itemCount_safe toBytes_safe [OF ex [unfolded exact_prefix]]
        toString_safe toInt_safe toHash_safe)
qed

theorem untrusted_reads_safe_witness:
  "safe (rlp_index_run cat_dog (rlp_fresh (vr_mk 1 9)) [5, 0]) \<and>
   safe (toBytes cat_dog (vr_mk 1 9) Strict)"
proof -
  have wf: "wf_view cat_dog (vr_mk 1 9)" using cat_dog_view by (simp add: enc_view_def)
  have "rlp_ctor cat_dog (vr_mk 1 9) VeryStrict = Inr (rlp_fresh (vr_mk 1 9))"
    using enc_view_exact(1) [OF cat_dog_view] wf by (simp add: rlp_ctor_VeryStrict_Inr)
  from untrusted_reads_safe [OF wf this, of "[5, 0]" Strict 0] show ?thesis by simp
qed

end
