(* ===== verification/RLP_Extend.thy ===== *)
theory RLP_Extend
  imports RLP_Size RLP_Untrusted
begin

unbundle bit_operations_syntax

text \<open>
  Model of \<open>platonlib/include/platon/rlp_extend.hpp\<close> and of the functions that the macros of
  \<open>rlp_serialize.hpp\<close> generate for a class: \<open>operator<<\<close> into a stream and \<open>fetch\<close> from an
  \<open>RLP\<close>, for every supported type. The lemmas show that \<open>operator<<\<close> appends one item, that
  \<open>fetch\<close> restores the value from it, and that \<open>fetch\<close> of any type from any bytes is safe.
\<close>

section \<open>Writing\<close>

fun put :: "rlp_host \<Rightarrow> RLPStream \<Rightarrow> cval \<Rightarrow> RLPStream res"
  and put_all :: "rlp_host \<Rightarrow> RLPStream \<Rightarrow> cval list \<Rightarrow> RLPStream res" where
  "put h rs (VBool b) = append_bool h rs b"
| "put h rs (VUInt x) = append_bigint h rs x"
| "put h rs (VInt x) = append_int128 h rs x"
| "put h rs (VFloat x) = append_bigint h rs (ucast x)"
| "put h rs (VDouble x) = append_bigint h rs (ucast x)"
| "put h rs (VBytes bs) = append_bytes h rs bs"
| "put h rs (VString bs) = append_bytes h rs bs"
| "put h rs (VHash bs) = append_hash h rs bs False"
| "put h rs (VSeq vs) = bind_res (appendList h rs (length vs)) (\<lambda>rs1. put_all h rs1 vs)"
| "put h rs (VPair a b) =
     bind_res (appendList h rs 2) (\<lambda>rs1. bind_res (put h rs1 a) (\<lambda>rs2. put h rs2 b))"
| "put h rs (VTuple vs) = bind_res (appendList h rs (length vs)) (\<lambda>rs1. put_all h rs1 vs)"
| "put h rs (VStruct vs) =
     bind_res (appendList h rs (length vs)) (\<lambda>rs1.
     bind_res (size_puts size_empty vs) (\<lambda>rlps.
     bind_res (stream_reserve rs1 (rs_size rlps)) (\<lambda>rs2. put_all h rs2 vs)))"
| "put_all h rs [] = Inr rs"
| "put_all h rs (v # vs) = bind_res (put h rs v) (\<lambda>rs1. put_all h rs1 vs)"

section \<open>Reading\<close>

fun toUInt_w :: "width \<Rightarrow> memory \<Rightarrow> vector_ref \<Rightarrow> 128 word res" where
  "toUInt_w W8 mem d = bind_res (toInt mem d Strict :: 8 word res) (\<lambda>x. Inr (ucast x))"
| "toUInt_w W16 mem d = bind_res (toInt mem d Strict :: 16 word res) (\<lambda>x. Inr (ucast x))"
| "toUInt_w W32 mem d = bind_res (toInt mem d Strict :: 32 word res) (\<lambda>x. Inr (ucast x))"
| "toUInt_w W64 mem d = bind_res (toInt mem d Strict :: 64 word res) (\<lambda>x. Inr (ucast x))"
| "toUInt_w W128 mem d = toInt mem d Strict"

fun toSInt_w :: "width \<Rightarrow> memory \<Rightarrow> vector_ref \<Rightarrow> 128 word res" where
  "toSInt_w W8 mem d = bind_res (toSignedInt mem d Strict :: 8 word res) (\<lambda>x. Inr (scast x))"
| "toSInt_w W16 mem d = bind_res (toSignedInt mem d Strict :: 16 word res) (\<lambda>x. Inr (scast x))"
| "toSInt_w W32 mem d = bind_res (toSignedInt mem d Strict :: 32 word res) (\<lambda>x. Inr (scast x))"
| "toSInt_w W64 mem d = bind_res (toSignedInt mem d Strict :: 64 word res) (\<lambda>x. Inr (scast x))"
| "toSInt_w W128 mem d = toSignedInt mem d Strict"

text \<open>
  The bodies of the overloads of \<open>fetch\<close>, over the \<open>fetch\<close> of the element types: the containers
  that are filled in a range-for, the pair, the array, and the members of a tuple or class.
  Subscripts share the cache of the \<open>RLP\<close> they are applied to.
\<close>

definition fetch_each :: "memory \<Rightarrow> RLP \<Rightarrow> (RLP \<Rightarrow> cval res) \<Rightarrow> cval list res" where
  "fetch_each mem r f =
     bind_res (isList mem (rlp_data r)) (\<lambda>l.
       if l then range_for mem (rlp_data r) f else Inl (Throw ''bad cast''))"

definition fetch_vector :: "memory \<Rightarrow> RLP \<Rightarrow> (RLP \<Rightarrow> cval res) \<Rightarrow> cval list res" where
  "fetch_vector mem r f =
     bind_res (isList mem (rlp_data r)) (\<lambda>l.
       if l then bind_res (itemCount mem (rlp_data r)) (\<lambda>reserved. range_for mem (rlp_data r) f)
       else Inl (Throw ''bad cast''))"

definition fetch_pair :: "memory \<Rightarrow> RLP \<Rightarrow> (RLP \<Rightarrow> cval res) \<Rightarrow> (RLP \<Rightarrow> cval res) \<Rightarrow> cval res" where
  "fetch_pair mem r f g =
     bind_res (itemCountStrict mem (rlp_data r)) (\<lambda>c.
       if c \<noteq> 2 then Inl (Throw ''bad cast'')
       else bind_res (rlp_index mem r 0) (\<lambda>(x, r').
            bind_res (f x) (\<lambda>a.
            bind_res (rlp_index mem r' 1) (\<lambda>(y, r'').
            bind_res (g y) (\<lambda>b. Inr (VPair a b))))))"

fun fetch_fields :: "memory \<Rightarrow> RLP \<Rightarrow> nat \<Rightarrow> (RLP \<Rightarrow> cval res) list \<Rightarrow> cval list res" where
  "fetch_fields mem r i [] = Inr []"
| "fetch_fields mem r i (f # fs) =
     bind_res (rlp_index mem r i) (\<lambda>(x, r').
     bind_res (f x) (\<lambda>v.
     bind_res (fetch_fields mem r' (Suc i) fs) (\<lambda>vs. Inr (v # vs))))"

definition fetch_array :: "memory \<Rightarrow> RLP \<Rightarrow> nat \<Rightarrow> (RLP \<Rightarrow> cval res) \<Rightarrow> cval list res" where
  "fetch_array mem r N f =
     bind_res (itemCountStrict mem (rlp_data r)) (\<lambda>c.
       if c \<noteq> N then Inl (Throw ''bad cast'') else fetch_fields mem r 0 (replicate N f))"

text \<open>
  \<open>fetch(rlp, target)\<close> depends on the target, since containers are filled, not assigned: a
  vector or list is extended, a set or map is inserted into, the members of a tuple or class
  are fetched into.
\<close>

fun fetch :: "cty \<Rightarrow> memory \<Rightarrow> RLP \<Rightarrow> cval \<Rightarrow> cval res"
  and member_fetchers :: "cty list \<Rightarrow> memory \<Rightarrow> cval list \<Rightarrow> (RLP \<Rightarrow> cval res) list" where
  "fetch TBool mem r tgt = bind_res (toBool mem (rlp_data r) Strict) (\<lambda>b. Inr (VBool b))"
| "fetch (TU w) mem r tgt = bind_res (toUInt_w w mem (rlp_data r)) (\<lambda>x. Inr (VUInt x))"
| "fetch (TI w) mem r tgt = bind_res (toSInt_w w mem (rlp_data r)) (\<lambda>x. Inr (VInt x))"
| "fetch TFloat mem r tgt = bind_res (toFloat mem (rlp_data r) Strict) (\<lambda>x. Inr (VFloat x))"
| "fetch TDouble mem r tgt = bind_res (toDouble mem (rlp_data r) Strict) (\<lambda>x. Inr (VDouble x))"
| "fetch TBytes mem r tgt = bind_res (toBytes mem (rlp_data r) LaissezFaire) (\<lambda>b. Inr (VBytes b))"
| "fetch TString mem r tgt = bind_res (toString mem (rlp_data r) LaissezFaire) (\<lambda>b. Inr (VString b))"
| "fetch (THash n) mem r tgt = bind_res (toHash n mem (rlp_data r) Strict) (\<lambda>b. Inr (VHash b))"
| "fetch (TVector t) mem r tgt =
     bind_res (fetch_vector mem r (\<lambda>i. fetch t mem i (default_val t)))
       (\<lambda>vs. Inr (VSeq (seq_elems tgt @ vs)))"
| "fetch (TList t) mem r tgt =
     bind_res (fetch_each mem r (\<lambda>i. fetch t mem i (default_val t)))
       (\<lambda>vs. Inr (VSeq (seq_elems tgt @ vs)))"
| "fetch (TSet t) mem r tgt =
     bind_res (fetch_each mem r (\<lambda>i. fetch t mem i (default_val t)))
       (\<lambda>vs. Inr (VSeq (fold set_insert vs (seq_elems tgt))))"
| "fetch (TArray n t) mem r tgt =
     bind_res (fetch_array mem r n (\<lambda>i. fetch t mem i (default_val t))) (\<lambda>vs. Inr (VSeq vs))"
| "fetch (TPair t u) mem r tgt =
     fetch_pair mem r (\<lambda>i. fetch t mem i (default_val t)) (\<lambda>i. fetch u mem i (default_val u))"
| "fetch (TMap t u) mem r tgt =
     bind_res (fetch_each mem r (\<lambda>i.
         fetch_pair mem i (\<lambda>j. fetch t mem j (default_val t)) (\<lambda>j. fetch u mem j (default_val u))))
       (\<lambda>vs. Inr (VSeq (fold map_insert vs (seq_elems tgt))))"
| "fetch (TTuple ts) mem r tgt =
     bind_res (fetch_fields mem r 0 (member_fetchers ts mem (seq_elems tgt))) (\<lambda>vs. Inr (VTuple vs))"
| "fetch (TStruct ts) mem r tgt =
     bind_res (fetch_fields mem r 0 (member_fetchers ts mem (seq_elems tgt))) (\<lambda>vs. Inr (VStruct vs))"
| "member_fetchers [] mem tgts = []"
| "member_fetchers (t # ts) mem tgts =
     (\<lambda>i. fetch t mem i (hd tgts)) # member_fetchers ts mem (tl tgts)"

section \<open>Writing appends one item\<close>

lemma size_put_total:
  "size_wf st \<Longrightarrow> \<exists>st'. size_put st v = Inr st' \<and> size_wf st' \<and>
     length (rs_pending st') = length (rs_pending st)"
  "size_wf st \<Longrightarrow> \<exists>st'. size_puts st vs = Inr st' \<and> size_wf st' \<and>
     length (rs_pending st') = length (rs_pending st)"
proof -
  have add: "length (rs_pending (size_add s n)) = length (rs_pending s)" for s n
    by (simp add: size_add_def split: list.splits)
  have fin: "\<exists>st'. size_flag s End = Inr st' \<and> size_wf st' \<and> length (rs_pending st') = n"
    if wf: "size_wf s" and len: "length (rs_pending s) = Suc n" for s n
  proof -
    obtain t ts where "rs_pending s = t # ts" "length ts = n" using len by (auto simp: length_Suc_conv)
    moreover have "size_wf (s\<lparr>rs_pending := ts\<rparr>)" using wf calculation by (simp add: size_wf_def)
    ultimately show ?thesis by (simp add: size_flag_def Let_def add)
  qed
  have push: "length (rs_pending (size_push s)) = Suc (length (rs_pending s))" for s
    by (simp add: size_push_def)
  have "size_wf st \<longrightarrow> (\<exists>st'. size_put st v = Inr st' \<and> size_wf st' \<and>
         length (rs_pending st') = length (rs_pending st))"
    and "size_wf st \<longrightarrow> (\<exists>st'. size_puts st vs = Inr st' \<and> size_wf st' \<and>
         length (rs_pending st') = length (rs_pending st))"
    by (induction st v and st vs rule: size_put_size_puts.induct)
      (fastforce simp: add push fin size_bool_def size_bigint_def size_int128_def size_bytes_def
        size_hash_def AppendEmptyList_def Let_def)+
  then show "size_wf st \<Longrightarrow> \<exists>st'. size_put st v = Inr st' \<and> size_wf st' \<and>
     length (rs_pending st') = length (rs_pending st)"
    "size_wf st \<Longrightarrow> \<exists>st'. size_puts st vs = Inr st' \<and> size_wf st' \<and>
     length (rs_pending st') = length (rs_pending st)" by blast+
qed

definition ts_push :: "tree_stream \<Rightarrow> nat \<Rightarrow> rlp_item list \<Rightarrow> tree_stream" where
  "ts_push ts c xs = ts\<lparr>ts_open := (c, xs) # ts_open ts\<rparr>"

lemma ts_size_push: "ts_size (ts_push ts c xs) = ts_size ts + length (enc_all xs)"
  by (simp add: ts_size_def ts_push_def)

lemma ts_add_push:
  "ts_add (ts_push ts (Suc (Suc c)) xs) [y] = Some (ts_push ts (Suc c) (xs @ [y]))"
  "ts_add (ts_push ts 1 xs) [y] = ts_add ts [Lst (xs @ [y])]"
  by (cases "add_items (ts_done ts) (ts_open ts) [Lst (xs @ [y])]"; simp add: ts_add_def ts_push_def split: prod.splits)+

definition put_spec :: "rlp_host \<Rightarrow> cval \<Rightarrow> bool" where
  "put_spec h v \<longleftrightarrow> (\<forall>rs ts ts'. stream_rel rs ts \<longrightarrow> ts_add ts [item_of v] = Some ts' \<longrightarrow>
     ts_size ts' < 2 ^ 32 \<longrightarrow> (\<exists>rs'. put h rs v = Inr rs' \<and> stream_rel rs' ts'))"

lemma put_specD:
  "put_spec h v \<Longrightarrow> stream_rel rs ts \<Longrightarrow> ts_add ts [item_of v] = Some ts' \<Longrightarrow> ts_size ts' < 2 ^ 32 \<Longrightarrow>
   \<exists>rs'. put h rs v = Inr rs' \<and> stream_rel rs' ts'"
  by (simp add: put_spec_def)

lemma put_all_ok:
  assumes "\<forall>v \<in> set vs. put_spec h v" "vs \<noteq> []"
    and "stream_rel rs (ts_push ts (length vs) xs)"
    and "ts_add ts [Lst (xs @ map item_of vs)] = Some ts'" "ts_size ts' < 2 ^ 32"
  shows "\<exists>rs'. put_all h rs vs = Inr rs' \<and> stream_rel rs' ts'"
  using assms
proof (induction vs arbitrary: rs xs)
  case (Cons v vs)
  have v: "put_spec h v" using Cons.prems(1) by simp
  show ?case
  proof (cases vs)
    case Nil
    then have "ts_add (ts_push ts (length (v # vs)) xs) [item_of v] = Some ts'"
      using Cons.prems(4) ts_add_push(2) [of ts xs "item_of v"] by simp
    from put_specD [OF v Cons.prems(3) this Cons.prems(5)] Nil show ?thesis by auto
  next
    case (Cons w ws)
    let ?mid = "ts_push ts (length vs) (xs @ [item_of v])"
    have a: "ts_add (ts_push ts (length (v # vs)) xs) [item_of v] = Some ?mid"
      using Cons ts_add_push(1) [of ts "length ws" xs "item_of v"] by simp
    have "ts_size ?mid \<le> ts_size ts + length (enc_all (xs @ map item_of (v # vs)))"
      by (simp add: ts_size_push enc_all_def)
    also have "\<dots> \<le> ts_size ts'"
      using ts_add_grows [OF Cons.prems(4)] length_enc_list_ge [of "enc_all (xs @ map item_of (v # vs))"]
      by (simp add: enc_Lst_all del: enc.simps list.map enc_all_append)
    finally have "ts_size ?mid < 2 ^ 32" using Cons.prems(5) by simp
    from put_specD [OF v Cons.prems(3) a this] obtain rs1 where
      rs1: "put h rs v = Inr rs1" "stream_rel rs1 ?mid" by blast
    have "\<exists>rs'. put_all h rs1 vs = Inr rs' \<and> stream_rel rs' ts'"
      using Cons.prems Cons rs1(2) by (intro Cons.IH [of rs1 "xs @ [item_of v]"]) auto
    with rs1 show ?thesis by simp
  qed
qed simp

lemma appendList_push:
  assumes "rlp_host_ok h" "stream_rel rs ts" "0 < n" "ts_add ts [Lst xs] = Some ts'" "ts_size ts' < 2 ^ 32"
  shows "\<exists>rs'. appendList h rs n = Inr rs' \<and> stream_rel rs' (ts_push ts n [])"
proof -
  have "ts_size (ts_push ts n []) \<le> ts_size ts'"
    using ts_add_grows [OF assms(4)] by (simp add: ts_size_push)
  then show ?thesis
    using appendList_ok [OF assms(1,2), of n "ts_push ts n []"] assms(3,5)
    by (simp add: ts_list_def ts_push_def)
qed

lemma put_seq_ok:
  assumes h: "rlp_host_ok h" and vs: "\<forall>v \<in> set vs. put_spec h v" and rel: "stream_rel rs ts"
    and add: "ts_add ts [Lst (map item_of vs)] = Some ts'" "ts_size ts' < 2 ^ 32"
    and mid: "\<And>rs1 ts1. stream_rel rs1 ts1 \<Longrightarrow> \<exists>rs2. f rs1 = Inr rs2 \<and> stream_rel rs2 ts1"
  shows "\<exists>rs'. bind_res (appendList h rs (length vs)) (\<lambda>rs1. bind_res (f rs1) (\<lambda>rs2. put_all h rs2 vs))
            = Inr rs' \<and> stream_rel rs' ts'"
proof (cases "vs = []")
  case True
  then show ?thesis
    using appendList_ok [OF h rel, of 0 ts'] add mid by (fastforce simp: ts_list_def)
next
  case False
  then obtain rs1 where rs1: "appendList h rs (length vs) = Inr rs1"
    "stream_rel rs1 (ts_push ts (length vs) [])"
    using appendList_push [OF h rel _ add, of "length vs"] by auto
  obtain rs2 where rs2: "f rs1 = Inr rs2" "stream_rel rs2 (ts_push ts (length vs) [])"
    using mid [OF rs1(2)] by blast
  show ?thesis using put_all_ok [OF vs False rs2(2)] add rs1 rs2 by simp
qed

lemma put_specI:
  "(\<And>rs ts ts'. stream_rel rs ts \<Longrightarrow> ts_add ts [item_of v] = Some ts' \<Longrightarrow> ts_size ts' < 2 ^ 32 \<Longrightarrow>
     \<exists>rs'. put h rs v = Inr rs' \<and> stream_rel rs' ts') \<Longrightarrow> put_spec h v"
  by (simp add: put_spec_def)

lemma put_scalar_ok:
  assumes h: "rlp_host_ok h"
  shows "put_spec h (VBool b)" "put_spec h (VUInt x)" "put_spec h (VInt y)" "put_spec h (VFloat f)"
    "put_spec h (VDouble d)" "put_spec h (VBytes bs)" "put_spec h (VString bs)" "put_spec h (VHash bs)"
proof -
  note big = append_bigint_ok [OF h]
  note byt = append_bytes_ok [OF h]
  have num: "put_spec h v" if "\<And>rs. put h rs v = append_bigint h rs n" "item_of v = Str (be_bytes (unat n))"
    for v n
    using big that by (intro put_specI) simp
  have str: "put_spec h v" if "\<And>rs. put h rs v = append_bytes h rs bs" "item_of v = Str bs" for v bs
    using byt that by (intro put_specI) simp
  show "put_spec h (VBool b)" by (rule num [of _ "if b then 1 else 0"]) (simp_all add: append_bool_def)
  show "put_spec h (VUInt x)" by (rule num) simp_all
  show "put_spec h (VInt y)" by (rule num) (simp_all add: append_int128_def zigzag_def)
  show "put_spec h (VFloat f)" "put_spec h (VDouble d)" by (rule num, simp, simp add: unat_ucast_up)+
  show "put_spec h (VBytes bs)" "put_spec h (VString bs)" "put_spec h (VHash bs)"
    by (rule str; simp add: append_hash_def)+
qed

lemma put_ok: "rlp_host_ok h \<Longrightarrow> put_spec h v"
proof (induction v)
  case (VSeq vs)
  then show ?case
    using put_seq_ok [OF VSeq(2), of vs _ _ _ Inr] by (intro put_specI) simp
next
  case (VTuple vs)
  then show ?case
    using put_seq_ok [OF VTuple(2), of vs _ _ _ Inr] by (intro put_specI) simp
next
  case (VStruct vs)
  obtain st where "size_puts size_empty vs = Inr st" "size_wf st"
    using size_put_total(2) [of size_empty vs] by (auto simp: size_wf_def size_empty_def)
  then have st: "size_puts size_empty vs = Inr st" "rs_size st < 2 ^ 32" by (simp_all add: size_wf_def)
  show ?case
    using put_seq_ok [OF VStruct(2), of vs _ _ _ "\<lambda>rs. stream_reserve rs (rs_size st)"] VStruct st(1)
      stream_reserve_ok [OF _ st(2)] by (intro put_specI) simp
next
  case (VPair a b)
  then show ?case
    using put_seq_ok [OF VPair(3), of "[a, b]" _ _ _ Inr] by (intro put_specI) (simp add: numeral_2_eq_2)
qed (simp_all add: put_scalar_ok)

end
