(* ===== verification/RLP_Typing.thy ===== *)
theory RLP_Typing
  imports RLP_Extend
begin

unbundle bit_operations_syntax

text \<open>
  Reading keeps to the types: whatever bytes \<open>fetch\<close> of a type is applied to, a value it returns
  is a value of that type. For sets and maps this needs that \<open>operator<\<close> on keys is a strict
  linear order, so that insertion keeps the elements sorted.
\<close>

section \<open>Keys are linearly ordered\<close>

lemma less_bytes_trans: "less_bytes a b \<Longrightarrow> less_bytes b c \<Longrightarrow> less_bytes a c"
proof (induction a b arbitrary: c rule: less_bytes.induct)
  case (2 b bs)
  then show ?case by (cases c) simp_all
next
  case (4 a as b bs)
  then show ?case by (cases c) (auto simp: not_less)
qed simp_all

lemma less_cvals_trans:
  assumes "\<And>a b c. a \<in> set as \<Longrightarrow> b \<in> set bs \<Longrightarrow> c \<in> set cs \<Longrightarrow>
      less_cval a b \<Longrightarrow> less_cval b c \<Longrightarrow> less_cval a c"
    and "\<And>a b. a \<in> set as \<union> set bs \<union> set cs \<Longrightarrow> b \<in> set as \<union> set bs \<union> set cs \<Longrightarrow>
      less_cval a b \<or> less_cval b a \<or> a = b"
    and "less_cvals as bs" "less_cvals bs cs"
  shows "less_cvals as cs"
  using assms
proof (induction as arbitrary: bs cs)
  case Nil
  then show ?case by (cases cs) auto
next
  case (Cons a as)
  then obtain b bs' where b: "bs = b # bs'" by (cases bs) auto
  with Cons.prems(4) obtain c cs' where c: "cs = c # cs'" by (cases cs) auto
  have t: "less_cval a b \<or> a = b" "less_cval b c \<or> b = c"
    using Cons.prems(2) [of a b] Cons.prems(2) [of b c] Cons.prems(3,4) b c by auto
  have IH: "less_cvals as bs' \<Longrightarrow> less_cvals bs' cs' \<Longrightarrow> less_cvals as cs'"
    using Cons.prems(1,2) b c by (intro Cons.IH [of bs' cs']) auto
  have tr: "less_cval a b \<Longrightarrow> less_cval b c \<Longrightarrow> less_cval a c"
    using Cons.prems(1) [of a b c] b c by simp
  show ?case
    using t tr IH Cons.prems(3,4) b c less_cval_asym(1) by auto
qed

lemma has_type_iff:
  "has_type TBool v \<longleftrightarrow> (\<exists>b. v = VBool b)"
  "has_type (TU w) v \<longleftrightarrow> (\<exists>x. v = VUInt x \<and> unat x < 2 ^ width_bits w)"
  "has_type (TI w) v \<longleftrightarrow> (\<exists>x. v = VInt x \<and> fits_signed w x)"
  "has_type TFloat v \<longleftrightarrow> (\<exists>x. v = VFloat x)"
  "has_type TDouble v \<longleftrightarrow> (\<exists>x. v = VDouble x)"
  "has_type TBytes v \<longleftrightarrow> (\<exists>bs. v = VBytes bs)"
  "has_type TString v \<longleftrightarrow> (\<exists>bs. v = VString bs)"
  "has_type (THash n) v \<longleftrightarrow> (\<exists>bs. v = VHash bs \<and> length bs = n)"
  "has_type (TVector t) v \<longleftrightarrow> (\<exists>vs. v = VSeq vs \<and> list_all (has_type t) vs)"
  "has_type (TPair t u) v \<longleftrightarrow> (\<exists>a b. v = VPair a b \<and> has_type t a \<and> has_type u b)"
  by (cases v; simp)+

text \<open>Transitivity at one type, and that vectors and pairs inherit it from their elements.\<close>

definition trans_at :: "cty \<Rightarrow> bool" where
  "trans_at t \<longleftrightarrow> (\<forall>a b c. has_type t a \<longrightarrow> has_type t b \<longrightarrow> has_type t c \<longrightarrow>
    less_cval a b \<longrightarrow> less_cval b c \<longrightarrow> less_cval a c)"

lemma trans_atD:
  "trans_at t \<Longrightarrow> has_type t a \<Longrightarrow> has_type t b \<Longrightarrow> has_type t c \<Longrightarrow> less_cval a b \<Longrightarrow> less_cval b c \<Longrightarrow> less_cval a c"
  unfolding trans_at_def by blast

lemma trans_atI:
  "(\<And>a b c. has_type t a \<Longrightarrow> has_type t b \<Longrightarrow> has_type t c \<Longrightarrow> less_cval a b \<Longrightarrow> less_cval b c \<Longrightarrow> less_cval a c) \<Longrightarrow>
   trans_at t"
  unfolding trans_at_def by blast

lemma trans_at_vector:
  assumes k: "key_type t" and tr: "trans_at t"
  shows "trans_at (TVector t)"
proof (rule trans_atI)
  fix a b c
  assume ty: "has_type (TVector t) a" "has_type (TVector t) b" "has_type (TVector t) c"
    and less: "less_cval a b" "less_cval b c"
  obtain as bs cs where ab: "a = VSeq as" "b = VSeq bs" "c = VSeq cs"
    "list_all (has_type t) as" "list_all (has_type t) bs" "list_all (has_type t) cs"
    using ty by (auto simp: has_type_iff simp del: has_type.simps)
  have "less_cvals as cs"
  proof (rule less_cvals_trans [of as bs cs])
    show "less_cvals as bs" "less_cvals bs cs" using less ab by simp_all
  next
    fix a b c assume "a \<in> set as" "b \<in> set bs" "c \<in> set cs" "less_cval a b" "less_cval b c"
    then show "less_cval a c" using trans_atD [OF tr, of a b c] ab by (simp add: list_all_iff)
  next
    fix a b assume "a \<in> set as \<union> set bs \<union> set cs" "b \<in> set as \<union> set bs \<union> set cs"
    then have "has_type t a" "has_type t b" using ab(4-6) by (auto simp: list_all_iff)
    then show "less_cval a b \<or> less_cval b a \<or> a = b" by (rule less_cval_total [OF k])
  qed
  then show "less_cval a c" using ab by simp
qed

lemma trans_at_pair:
  assumes k: "key_type t" "key_type u" and tr: "trans_at t" "trans_at u"
  shows "trans_at (TPair t u)"
proof (rule trans_atI)
  fix a b c
  assume typed: "has_type (TPair t u) a" "has_type (TPair t u) b" "has_type (TPair t u) c"
    and less: "less_cval a b" "less_cval b c"
  obtain a1 a2 b1 b2 c1 c2 where ab: "a = VPair a1 a2" "b = VPair b1 b2" "c = VPair c1 c2"
    and ty: "has_type t a1" "has_type u a2" "has_type t b1" "has_type u b2" "has_type t c1" "has_type u c2"
    using typed by (auto simp: has_type_iff simp del: has_type.simps)
  have l: "less_cval a1 b1 \<or> \<not> less_cval b1 a1 \<and> less_cval a2 b2"
    "less_cval b1 c1 \<or> \<not> less_cval c1 b1 \<and> less_cval b2 c2"
    using less by (simp_all add: ab)
  then have "less_cval a1 b1 \<or> a1 = b1" "less_cval b1 c1 \<or> b1 = c1"
    using less_cval_total [OF k(1) ty(1,3)] less_cval_total [OF k(1) ty(3,5)] by blast+
  then have "less_cval a1 c1 \<or> a1 = b1 \<and> b1 = c1"
    using trans_atD [OF tr(1) ty(1,3,5)] by blast
  then have "less_cval a1 c1 \<or> \<not> less_cval c1 a1 \<and> less_cval a2 c2"
    using l trans_atD [OF tr(2) ty(2,4,6)] less_cval_asym(1) [of a1 a1] by blast
  then show "less_cval a c" by (simp add: ab)
qed

lemma trans_at_key: "key_type t \<Longrightarrow> trans_at t"
proof (induction t)
  case (TVector t)
  then show ?case by (simp add: trans_at_vector)
next
  case (TPair t u)
  then show ?case by (simp add: trans_at_pair)
qed (auto intro!: trans_atI simp: has_type_iff simp del: has_type.simps, (erule (1) less_bytes_trans)+)

lemma less_cval_trans:
  "key_type t \<Longrightarrow> has_type t a \<Longrightarrow> has_type t b \<Longrightarrow> has_type t c \<Longrightarrow>
   less_cval a b \<Longrightarrow> less_cval b c \<Longrightarrow> less_cval a c"
  by (rule trans_atD [OF trans_at_key])

text \<open>Insertion, as the library's ordered containers do it, for an order on entries by a key.\<close>

lemma set_insert_sorted:
  assumes "\<And>a b c. P a \<Longrightarrow> P b \<Longrightarrow> P c \<Longrightarrow> less_cval a b \<Longrightarrow> less_cval b c \<Longrightarrow> less_cval a c"
    and "P x" "list_all P ys" "sorted_wrt less_cval ys"
  shows "list_all P (set_insert x ys) \<and> sorted_wrt less_cval (set_insert x ys)"
  using assms(3,4)
proof (induction ys)
  case (Cons y ys)
  have sub: "set (set_insert x zs) \<subseteq> insert x (set zs)" for zs by (induction zs) auto
  have "less_cval x z" if "less_cval x y" "z \<in> set ys" for z
    using Cons.prems that assms(1) [of x y z] assms(2) by (auto simp: list_all_iff)
  then show ?case using Cons assms(2) sub [of ys] by auto
qed (simp add: assms(2))

lemma map_insert_sorted:
  assumes "\<And>a b c. P a \<Longrightarrow> P b \<Longrightarrow> P c \<Longrightarrow> less_cval (entry_key a) (entry_key b) \<Longrightarrow>
      less_cval (entry_key b) (entry_key c) \<Longrightarrow> less_cval (entry_key a) (entry_key c)"
    and "P x" "list_all P ys" "sorted_wrt (\<lambda>a b. less_cval (entry_key a) (entry_key b)) ys"
  shows "list_all P (map_insert x ys) \<and>
    sorted_wrt (\<lambda>a b. less_cval (entry_key a) (entry_key b)) (map_insert x ys)"
  using assms(3,4)
proof (induction ys)
  case (Cons y ys)
  have sub: "set (map_insert x zs) \<subseteq> insert x (set zs)" for zs by (induction zs) auto
  have "less_cval (entry_key x) (entry_key z)" if "less_cval (entry_key x) (entry_key y)" "z \<in> set ys" for z
    using Cons.prems that assms(1) [of x y z] assms(2) by (auto simp: list_all_iff)
  then show ?case using Cons assms(2) sub [of ys] by auto
qed (simp add: assms(2))

lemma fold_keeps:
  "(\<And>x y. Q x \<Longrightarrow> P y \<Longrightarrow> P (f x y)) \<Longrightarrow> list_all Q xs \<Longrightarrow> P y \<Longrightarrow> P (fold f xs y)"
  by (induction xs arbitrary: y) auto

section \<open>Well-formed types\<close>

text \<open>The keys of sets and maps are types with \<open>operator<\<close>, at every level.\<close>

fun wf_type :: "cty \<Rightarrow> bool" where
  "wf_type (TVector t) = wf_type t"
| "wf_type (TList t) = wf_type t"
| "wf_type (TSet t) = (wf_type t \<and> key_type t)"
| "wf_type (TArray n t) = wf_type t"
| "wf_type (TPair t u) = (wf_type t \<and> wf_type u)"
| "wf_type (TMap t u) = (wf_type t \<and> wf_type u \<and> key_type t)"
| "wf_type (TTuple ts) = list_all wf_type ts"
| "wf_type (TStruct ts) = list_all wf_type ts"
| "wf_type _ = True"

lemma has_types_list_all2: "has_types ts vs \<longleftrightarrow> list_all2 has_type ts vs"
proof (induction ts arbitrary: vs)
  case (Cons t ts)
  then show ?case by (cases vs) simp_all
qed auto

lemma has_type_default: "wf_type t \<Longrightarrow> has_type t (default_val t)"
proof (induction t)
  case (TTuple ts)
  then show ?case by (simp add: has_types_list_all2 list_all2_conv_all_nth list_all_length)
next
  case (TStruct ts)
  then show ?case by (simp add: has_types_list_all2 list_all2_conv_all_nth list_all_length)
next
  case (TI w)
  then show ?case by (cases w) (simp_all add: fits_signed_def)
qed (auto simp: list_all_iff)

section \<open>Results of the building blocks\<close>

lemma range_for_loop_results:
  "range_for_loop mem body en fuel it = Inr vs \<Longrightarrow> v \<in> set vs \<Longrightarrow> \<exists>r. body r = Inr v"
  by (induction fuel arbitrary: it vs) (auto simp: bind_res_eq_Inr split: if_splits)

lemma fetch_each_results:
  "fetch_each mem r f = Inr vs \<Longrightarrow> v \<in> set vs \<Longrightarrow> \<exists>i. f i = Inr v"
  "fetch_vector mem r f = Inr vs \<Longrightarrow> v \<in> set vs \<Longrightarrow> \<exists>i. f i = Inr v"
  by (auto simp: fetch_each_def fetch_vector_def range_for_def bind_res_eq_Inr
      dest!: range_for_loop_results split: if_splits)

lemma fetch_fields_results:
  "fetch_fields mem r i fs = Inr vs \<Longrightarrow> list_all2 (\<lambda>f v. \<exists>x. f x = Inr v) fs vs"
proof (induction fs arbitrary: r i vs)
  case (Cons f fs)
  then show ?case by (fastforce simp: bind_res_eq_Inr split: prod.splits)
qed simp

lemma fetch_pair_results:
  "fetch_pair mem r f g = Inr v \<Longrightarrow> \<exists>x y a b. v = VPair a b \<and> f x = Inr a \<and> g y = Inr b"
  by (auto simp: fetch_pair_def bind_res_eq_Inr split: if_splits prod.splits)

lemma toUInt_w_range: "toUInt_w w mem d = Inr x \<Longrightarrow> unat x < 2 ^ width_bits w"
proof (cases w)
  case W8
  then show "toUInt_w w mem d = Inr x \<Longrightarrow> unat x < 2 ^ width_bits w"
    using unsigned_less [where 'b = 8] by (auto simp: bind_res_eq_Inr unat_ucast_up simp del: power_numeral)
next
  case W16
  then show "toUInt_w w mem d = Inr x \<Longrightarrow> unat x < 2 ^ width_bits w"
    using unsigned_less [where 'b = 16] by (auto simp: bind_res_eq_Inr unat_ucast_up simp del: power_numeral)
next
  case W32
  then show "toUInt_w w mem d = Inr x \<Longrightarrow> unat x < 2 ^ width_bits w"
    using unsigned_less [where 'b = 32] by (auto simp: bind_res_eq_Inr unat_ucast_up simp del: power_numeral)
next
  case W64
  then show "toUInt_w w mem d = Inr x \<Longrightarrow> unat x < 2 ^ width_bits w"
    using unsigned_less [where 'b = 64] by (auto simp: bind_res_eq_Inr unat_ucast_up simp del: power_numeral)
next
  case W128
  then show "toUInt_w w mem d = Inr x \<Longrightarrow> unat x < 2 ^ width_bits w"
    using unsigned_less [of x] by simp
qed

lemma ucast_scast_down:
  "LENGTH('a::len) \<le> LENGTH('b::len) \<Longrightarrow> ucast (scast (x :: 'a word) :: 'b word) = x"
  by (rule bit_word_eqI) (simp add: bit_simps)

lemma toSInt_w_range: "toSInt_w w mem d = Inr x \<Longrightarrow> fits_signed w x"
  by (cases w) (auto simp: bind_res_eq_Inr fits_signed_def ucast_scast_down)

lemma toHash_length: "toHash N mem d flags = Inr bs \<Longrightarrow> length bs = N"
  by (auto simp: toHash_def bind_res_eq_Inr Let_def mem_range_def length_seg split: if_splits)

section \<open>Every value that is read has the type asked for\<close>

definition fetch_typed :: "cty \<Rightarrow> bool" where
  "fetch_typed t \<longleftrightarrow> (\<forall>mem r tgt v. has_type t tgt \<longrightarrow> fetch t mem r tgt = Inr v \<longrightarrow> has_type t v)"

lemma fetch_typedD: "fetch_typed t \<Longrightarrow> has_type t tgt \<Longrightarrow> fetch t mem r tgt = Inr v \<Longrightarrow> has_type t v"
  unfolding fetch_typed_def by blast

lemma member_fetchers_typed:
  assumes "\<forall>t \<in> set ts. fetch_typed t" "has_types ts tgts"
    and "list_all2 (\<lambda>f v. \<exists>x. f x = Inr v) (member_fetchers ts mem tgts) vs"
  shows "has_types ts vs"
  using assms
proof (induction ts arbitrary: tgts vs)
  case (Cons t ts)
  then obtain g gs where g: "tgts = g # gs" "has_type t g" "has_types ts gs" by (cases tgts) auto
  with Cons.prems(3) obtain v vs' x where v: "vs = v # vs'" "fetch t mem x g = Inr v"
    "list_all2 (\<lambda>f v. \<exists>x. f x = Inr v) (member_fetchers ts mem gs) vs'"
    by (auto simp: list_all2_Cons1)
  have "has_type t v" using fetch_typedD [of t g mem x v] Cons.prems(1) g v by simp
  moreover have "has_types ts vs'" using Cons.IH [of gs vs'] Cons.prems(1) g v by simp
  ultimately show ?case using v by simp
qed simp

lemma fetch_each_typed:
  assumes "fetch_typed t" "wf_type t"
    and "fetch_each mem r (\<lambda>i. fetch t mem i (default_val t)) = Inr vs \<or>
         fetch_vector mem r (\<lambda>i. fetch t mem i (default_val t)) = Inr vs"
  shows "list_all (has_type t) vs"
  unfolding list_all_iff
proof
  fix v assume "v \<in> set vs"
  then obtain i where "fetch t mem i (default_val t) = Inr v"
    using assms(3) fetch_each_results by fast
  then show "has_type t v" using fetch_typedD [OF assms(1) has_type_default [OF assms(2)]] by blast
qed

abbreviation entry_typed :: "cty \<Rightarrow> cty \<Rightarrow> cval \<Rightarrow> bool" where
  "entry_typed t u \<equiv> \<lambda>e. case e of VPair a b \<Rightarrow> has_type t a \<and> has_type u b | _ \<Rightarrow> False"

lemma fetch_pair_typed:
  assumes "fetch_typed t" "wf_type t" "fetch_typed u" "wf_type u"
    and "fetch_pair mem r (\<lambda>i. fetch t mem i (default_val t)) (\<lambda>i. fetch u mem i (default_val u)) = Inr v"
  shows "entry_typed t u v"
proof -
  obtain x y a b where v: "v = VPair a b" "fetch t mem x (default_val t) = Inr a"
    "fetch u mem y (default_val u) = Inr b"
    using fetch_pair_results [OF assms(5)] by blast
  have "has_type t a" "has_type u b"
    using fetch_typedD [OF assms(1) has_type_default [OF assms(2)] v(2)]
      fetch_typedD [OF assms(3) has_type_default [OF assms(4)] v(3)] by simp_all
  then show ?thesis using v(1) by simp
qed

lemma fetch_set_typed:
  assumes "key_type t" "list_all (has_type t) vs" "has_type (TSet t) (VSeq ys)"
  shows "has_type (TSet t) (VSeq (fold set_insert vs ys))"
proof -
  let ?ok = "\<lambda>ys. list_all (has_type t) ys \<and> sorted_wrt less_cval ys"
  have "?ok (fold set_insert vs ys)"
  proof (rule fold_keeps [where P = ?ok, OF _ assms(2)])
    show "?ok (set_insert x zs)" if "has_type t x" "?ok zs" for x zs
      using set_insert_sorted [of "has_type t" x zs] less_cval_trans [OF assms(1)] that by blast
  qed (use assms(3) in simp)
  then show ?thesis using assms(1) by simp
qed

lemma fetch_map_typed:
  assumes "key_type t" "list_all (entry_typed t u) vs" "has_type (TMap t u) (VSeq ys)"
  shows "has_type (TMap t u) (VSeq (fold map_insert vs ys))"
proof -
  let ?R = "\<lambda>a b. less_cval (entry_key a) (entry_key b)"
  let ?ok = "\<lambda>ys. list_all (entry_typed t u) ys \<and> sorted_wrt ?R ys"
  have key: "has_type t (entry_key e)" if "entry_typed t u e" for e using that by (cases e) auto
  have tr: "?R a c" if "entry_typed t u a" "entry_typed t u b" "entry_typed t u c" "?R a b" "?R b c" for a b c
    using less_cval_trans [OF assms(1) key [OF that(1)] key [OF that(2)] key [OF that(3)] that(4,5)] .
  have "?ok (fold map_insert vs ys)"
  proof (rule fold_keeps [where P = ?ok, OF _ assms(2)])
    show "?ok (map_insert x zs)" if "entry_typed t u x" "?ok zs" for x zs
      using that by (intro map_insert_sorted [of "entry_typed t u" x zs]) (blast intro: tr)+
  qed (use assms(3) in simp)
  then show ?thesis using assms(1) by simp
qed

lemma fetch_typedI:
  "(\<And>mem r tgt v. has_type t tgt \<Longrightarrow> fetch t mem r tgt = Inr v \<Longrightarrow> has_type t v) \<Longrightarrow> fetch_typed t"
  unfolding fetch_typed_def by blast

text \<open>One lemma per container: if the element types keep to their types when read, so does the container.\<close>

lemma fetch_typed_vector:
  assumes "fetch_typed t" "wf_type t"
  shows "fetch_typed (TVector t)"
proof (rule fetch_typedI)
  fix mem r tgt v assume tgt: "has_type (TVector t) tgt" and f: "fetch (TVector t) mem r tgt = Inr v"
  obtain ys vs where "tgt = VSeq ys" "v = VSeq (ys @ vs)"
    "fetch_vector mem r (\<lambda>i. fetch t mem i (default_val t)) = Inr vs"
    using f tgt by (cases tgt) (auto simp: bind_res_eq_Inr seq_elems_def)
  then show "has_type (TVector t) v" using fetch_each_typed [of t mem r vs] assms tgt by simp
qed

lemma fetch_typed_list:
  assumes "fetch_typed t" "wf_type t"
  shows "fetch_typed (TList t)"
proof (rule fetch_typedI)
  fix mem r tgt v assume tgt: "has_type (TList t) tgt" and f: "fetch (TList t) mem r tgt = Inr v"
  obtain ys vs where "tgt = VSeq ys" "v = VSeq (ys @ vs)"
    "fetch_each mem r (\<lambda>i. fetch t mem i (default_val t)) = Inr vs"
    using f tgt by (cases tgt) (auto simp: bind_res_eq_Inr seq_elems_def)
  then show "has_type (TList t) v" using fetch_each_typed [of t mem r vs] assms tgt by simp
qed

lemma fetch_typed_set:
  assumes "fetch_typed t" "wf_type t" "key_type t"
  shows "fetch_typed (TSet t)"
proof (rule fetch_typedI)
  fix mem r tgt v assume tgt: "has_type (TSet t) tgt" and f: "fetch (TSet t) mem r tgt = Inr v"
  obtain ys where ys: "tgt = VSeq ys" using tgt by (cases tgt) auto
  obtain vs where vs: "fetch_each mem r (\<lambda>i. fetch t mem i (default_val t)) = Inr vs"
    "v = VSeq (fold set_insert vs ys)"
    using f ys by (auto simp: bind_res_eq_Inr seq_elems_def)
  have "list_all (has_type t) vs" using fetch_each_typed [of t mem r vs] vs(1) assms by simp
  then show "has_type (TSet t) v" using fetch_set_typed [of t vs ys] vs(2) tgt ys assms(3) by simp
qed

lemma fetch_typed_array:
  assumes "fetch_typed t" "wf_type t"
  shows "fetch_typed (TArray n t)"
proof (rule fetch_typedI)
  fix mem r tgt v assume "has_type (TArray n t) tgt" and f: "fetch (TArray n t) mem r tgt = Inr v"
  obtain vs where vs: "v = VSeq vs"
    "fetch_fields mem r 0 (replicate n (\<lambda>i. fetch t mem i (default_val t))) = Inr vs"
    using f by (auto simp: fetch_array_def bind_res_eq_Inr split: if_splits)
  have "\<exists>x. fetch t mem x (default_val t) = Inr w" if "w \<in> set vs" for w
    using fetch_fields_results [OF vs(2)] that by (auto simp: list_all2_conv_all_nth in_set_conv_nth)
  then have "\<forall>w \<in> set vs. has_type t w"
    using fetch_typedD [OF assms(1) has_type_default [OF assms(2)]] by fastforce
  moreover have "length vs = n" using list_all2_lengthD [OF fetch_fields_results [OF vs(2)]] by simp
  ultimately show "has_type (TArray n t) v" using vs(1) by (simp add: list_all_iff)
qed

lemma fetch_typed_map:
  assumes "fetch_typed t" "wf_type t" "fetch_typed u" "wf_type u" "key_type t"
  shows "fetch_typed (TMap t u)"
proof (rule fetch_typedI)
  fix mem r tgt v assume tgt: "has_type (TMap t u) tgt" and f: "fetch (TMap t u) mem r tgt = Inr v"
  let ?f = "\<lambda>i. fetch_pair mem i (\<lambda>j. fetch t mem j (default_val t)) (\<lambda>j. fetch u mem j (default_val u))"
  obtain ys where ys: "tgt = VSeq ys" using tgt by (cases tgt) auto
  obtain vs where vs: "fetch_each mem r ?f = Inr vs" "v = VSeq (fold map_insert vs ys)"
    using f ys by (auto simp: bind_res_eq_Inr seq_elems_def)
  have "list_all (entry_typed t u) vs"
    unfolding list_all_iff
  proof
    fix e assume "e \<in> set vs"
    then obtain i where "?f i = Inr e" using fetch_each_results(1) [OF vs(1)] by blast
    then show "entry_typed t u e" using fetch_pair_typed [of t u mem i e] assms(1-4) by simp
  qed
  then show "has_type (TMap t u) v" using fetch_map_typed [of t u vs ys] vs(2) tgt ys assms(5) by simp
qed

lemma fetch_typed_members:
  assumes ts: "\<forall>t \<in> set ts. fetch_typed t"
  shows "fetch_typed (TTuple ts)" "fetch_typed (TStruct ts)"
proof -
  have members: "has_types ts vs"
    if "has_types ts ys" "fetch_fields mem r 0 (member_fetchers ts mem ys) = Inr vs" for mem r ys vs
    using member_fetchers_typed [OF ts _ fetch_fields_results] that by simp
  show "fetch_typed (TTuple ts)"
  proof (rule fetch_typedI)
    fix mem r tgt v assume "has_type (TTuple ts) tgt" "fetch (TTuple ts) mem r tgt = Inr v"
    then show "has_type (TTuple ts) v"
      by (cases tgt) (auto simp: bind_res_eq_Inr seq_elems_def intro: members)
  qed
  show "fetch_typed (TStruct ts)"
  proof (rule fetch_typedI)
    fix mem r tgt v assume "has_type (TStruct ts) tgt" "fetch (TStruct ts) mem r tgt = Inr v"
    then show "has_type (TStruct ts) v"
      by (cases tgt) (auto simp: bind_res_eq_Inr seq_elems_def intro: members)
  qed
qed

lemma fetch_typed_pair:
  assumes "fetch_typed t" "wf_type t" "fetch_typed u" "wf_type u"
  shows "fetch_typed (TPair t u)"
  using fetch_pair_typed [OF assms] by (intro fetch_typedI) simp

lemma fetch_has_type: "wf_type t \<Longrightarrow> fetch_typed t"
proof (induction t)
  case (TTuple ts)
  then show ?case by (intro fetch_typed_members) (simp add: list_all_iff)
next
  case (TStruct ts)
  then show ?case by (intro fetch_typed_members) (simp add: list_all_iff)
qed (simp_all add: fetch_typed_vector fetch_typed_list fetch_typed_set fetch_typed_array fetch_typed_pair fetch_typed_map,
  auto intro!: fetch_typedI simp: bind_res_eq_Inr toUInt_w_range toSInt_w_range toHash_length)

section \<open>Reading into an uninitialised variable\<close>

text \<open>
  What a variable declared as \<open>T v;\<close> may hold before it is read into. A number, a flag or a
  floating-point value is indeterminate, so it may be any value of its type; strings, hashes and
  containers are constructed empty (a hash zero); arrays and classes are so member by member. The
  constructors of pairs and tuples set their members to zero, which is one of the cases allowed.
\<close>

fun starts_as :: "cty \<Rightarrow> cval \<Rightarrow> bool"
  and starts_all :: "cty list \<Rightarrow> cval list \<Rightarrow> bool" where
  "starts_as TBool v = has_type TBool v"
| "starts_as (TU w) v = has_type (TU w) v"
| "starts_as (TI w) v = has_type (TI w) v"
| "starts_as TFloat v = has_type TFloat v"
| "starts_as TDouble v = has_type TDouble v"
| "starts_as (TArray n t) v = (case v of VSeq vs \<Rightarrow> length vs = n \<and> list_all (starts_as t) vs | _ \<Rightarrow> False)"
| "starts_as (TPair t u) v = (case v of VPair a b \<Rightarrow> starts_as t a \<and> starts_as u b | _ \<Rightarrow> False)"
| "starts_as (TTuple ts) v = (case v of VTuple vs \<Rightarrow> starts_all ts vs | _ \<Rightarrow> False)"
| "starts_as (TStruct ts) v = (case v of VStruct vs \<Rightarrow> starts_all ts vs | _ \<Rightarrow> False)"
| "starts_as t v = (v = default_val t)"
| "starts_all [] vs = (vs = [])"
| "starts_all (t # ts) vs = (case vs of [] \<Rightarrow> False | v # vs' \<Rightarrow> starts_as t v \<and> starts_all ts vs')"

lemma starts_all_default: "\<forall>t \<in> set ts. starts_as t (default_val t) \<Longrightarrow> starts_all ts (map default_val ts)"
  by (induction ts) simp_all

lemma starts_default [simp]: "starts_as t (default_val t)"
proof (induction t)
  case (TI w)
  then show ?case by (cases w) (simp_all add: fits_signed_def)
qed (simp_all add: starts_all_default list_all_iff)

lemma starts_all_nth: "starts_all ts vs \<longleftrightarrow> list_all2 starts_as ts vs"
proof (induction ts arbitrary: vs)
  case (Cons t ts)
  then show ?case by (cases vs) simp_all
qed auto

lemma starts_all_typed:
  "starts_all ts vs \<Longrightarrow> (\<And>t v. t \<in> set ts \<Longrightarrow> starts_as t v \<Longrightarrow> has_type t v) \<Longrightarrow> has_types ts vs"
  unfolding starts_all_nth has_types_list_all2 by (rule list.rel_mono_strong)

lemma starts_typed: "wf_type t \<Longrightarrow> starts_as t v \<Longrightarrow> has_type t v"
proof (induction t arbitrary: v)
  case (TArray n t)
  then obtain vs where "v = VSeq vs" "length vs = n" "list_all (starts_as t) vs" by (cases v) simp_all
  then show ?case using TArray.IH TArray.prems(1) by (simp add: list_all_iff)
next
  case (TPair t u)
  then obtain a b where "v = VPair a b" "starts_as t a" "starts_as u b" by (cases v) simp_all
  then show ?case using TPair.IH TPair.prems(1) by simp
next
  case (TTuple ts)
  then obtain vs where "v = VTuple vs" "starts_all ts vs" by (cases v) simp_all
  then show ?case using starts_all_typed [of ts vs] TTuple.IH TTuple.prems(1) by (simp add: list_all_iff)
next
  case (TStruct ts)
  then obtain vs where "v = VStruct vs" "starts_all ts vs" by (cases v) simp_all
  then show ?case using starts_all_typed [of ts vs] TStruct.IH TStruct.prems(1) by (simp add: list_all_iff)
qed simp_all

definition start_free :: "memory \<Rightarrow> cty \<Rightarrow> bool" where
  "start_free mem t \<longleftrightarrow> (\<forall>g r. starts_as t g \<longrightarrow> fetch t mem r g = fetch t mem r (default_val t))"

lemma start_freeI:
  "(\<And>g r. starts_as t g \<Longrightarrow> fetch t mem r g = fetch t mem r (default_val t)) \<Longrightarrow> start_free mem t"
  unfolding start_free_def by blast

lemma start_freeD: "start_free mem t \<Longrightarrow> starts_as t g \<Longrightarrow> fetch t mem r g = fetch t mem r (default_val t)"
  unfolding start_free_def by blast

lemma member_fetchers_start:
  assumes "\<forall>t \<in> set ts. start_free mem t" "starts_all ts gs"
  shows "member_fetchers ts mem gs = member_fetchers ts mem (map default_val ts)"
  using assms
proof (induction ts arbitrary: gs)
  case (Cons t ts)
  then obtain g gs' where gs: "gs = g # gs'" "starts_as t g" "starts_all ts gs'" by (cases gs) simp_all
  have "(\<lambda>i. fetch t mem i g) = (\<lambda>i. fetch t mem i (default_val t))"
    using start_freeD [of mem t g] Cons.prems(1) gs(2) by (intro ext) simp
  then show ?case using Cons.IH [of gs'] Cons.prems(1) gs by simp
qed simp

lemma fetch_start: "start_free mem t"
proof (induction t)
  case (TTuple ts)
  show ?case
  proof (rule start_freeI)
    fix g r assume "starts_as (TTuple ts) g"
    then obtain gs where "g = VTuple gs" "starts_all ts gs" by (cases g) simp_all
    then show "fetch (TTuple ts) mem r g = fetch (TTuple ts) mem r (default_val (TTuple ts))"
      using member_fetchers_start [of ts mem gs] TTuple by (simp add: seq_elems_def)
  qed
next
  case (TStruct ts)
  show ?case
  proof (rule start_freeI)
    fix g r assume "starts_as (TStruct ts) g"
    then obtain gs where "g = VStruct gs" "starts_all ts gs" by (cases g) simp_all
    then show "fetch (TStruct ts) mem r g = fetch (TStruct ts) mem r (default_val (TStruct ts))"
      using member_fetchers_start [of ts mem gs] TStruct by (simp add: seq_elems_def)
  qed
qed (rule start_freeI, simp)+

end
