(* ===== verification/RLP_Roundtrip.thy ===== *)
theory RLP_Roundtrip
  imports RLP_Typing
begin

text \<open>
  Serialisation is faithful: \<open>fetch\<close> restores what \<open>operator<<\<close> wrote, for every type, and
  \<open>fetch\<close> of any type from arbitrary bytes returns or throws.
\<close>

section \<open>Containers on encodings\<close>

lemma fetch_each_enc:
  assumes "enc_view mem d (Lst (map item_of vs))"
    and "\<And>v d. v \<in> set vs \<Longrightarrow> enc_view mem d (item_of v) \<Longrightarrow> f (rlp_fresh d) = Inr v"
  shows "fetch_each mem (rlp_fresh d) f = Inr vs" "fetch_vector mem (rlp_fresh d) f = Inr vs"
proof -
  have r: "range_for mem d f = Inr vs"
    by (rule range_for_enc [OF assms(1)]) (auto simp: list_all2_conv_all_nth assms(2))
  obtain p ws where lv: "list_view mem d p ws" using enc_list_view [OF assms(1)] by blast
  from r show "fetch_each mem (rlp_fresh d) f = Inr vs"
    by (simp add: fetch_each_def enc_view_kind(4) [OF assms(1)])
  from r show "fetch_vector mem (rlp_fresh d) f = Inr vs"
    by (simp add: fetch_vector_def enc_view_kind(4) [OF assms(1)] itemCount_list_view [OF lv])
qed

text \<open>A list view of the encodings of the values \<open>us\<close>, with what the subscript needs to know.\<close>

definition fields_view :: "memory \<Rightarrow> RLP \<Rightarrow> cval list \<Rightarrow> bool" where
  "fields_view mem r us \<longleftrightarrow> (\<exists>p ws. list_view mem (rlp_data r) p ws \<and> cache_ok p ws r \<and>
     list_all2 (enc_view mem) ws (map item_of us) \<and> length us < size_max)"

lemma fields_view_fresh:
  assumes "enc_view mem d (Lst (map item_of us))"
  shows "fields_view mem (rlp_fresh d) us"
proof -
  obtain p ws where lv: "list_view mem d p ws" "list_all2 (enc_view mem) ws (map item_of us)"
    using enc_list_view [OF assms] by blast
  have "length ws \<le> m_count p"
    using split_items_length_le list_viewD(5-7) [OF lv(1)] by blast
  moreover have "m_count p < 2 ^ 31" using wf_count list_viewD(5) [OF lv(1)] by blast
  moreover have "length ws = length us" using lv(2) by (simp add: list_all2_lengthD)
  ultimately have "length us < size_max" by simp
  then show ?thesis unfolding fields_view_def using lv by (intro exI [of _ p] exI [of _ ws]) simp
qed

lemma fields_view_count:
  assumes "fields_view mem r us"
  shows "itemCountStrict mem (rlp_data r) = Inr (length us)"
proof -
  obtain p ws where "list_view mem (rlp_data r) p ws" "list_all2 (enc_view mem) ws (map item_of us)"
    using assms by (auto simp: fields_view_def)
  then show ?thesis using itemCount_list_view(2) by (fastforce dest: list_all2_lengthD)
qed

lemma fields_view_index:
  assumes "fields_view mem r us" "i < length us"
  obtains d r' where "rlp_index mem r i = Inr (rlp_fresh d, r')" "fields_view mem r' us"
    "enc_view mem d (item_of (us ! i))"
proof -
  obtain p ws where lv: "list_view mem (rlp_data r) p ws" and c: "cache_ok p ws r"
    and ws: "list_all2 (enc_view mem) ws (map item_of us)" and len: "length us < size_max"
    using assms by (auto simp: fields_view_def)
  obtain r' where r': "rlp_index mem r i = Inr (rlp_fresh (item_at p ws i), r')"
    "rlp_data r' = rlp_data r" "cache_ok p ws r'"
    using rlp_index_split [OF lv c, of i] assms(2) len by auto
  have "enc_view mem (item_at p ws i) (item_of (us ! i))"
    using ws assms(2) list_all2_nthD2 [OF ws, of i] list_all2_lengthD [OF ws] by (simp add: item_at_def)
  moreover have "fields_view mem r' us"
    unfolding fields_view_def using lv ws len r' by (intro exI [of _ p] exI [of _ ws]) simp
  ultimately show thesis using that r'(1) by blast
qed

lemma fetch_fields_enc:
  assumes "fields_view mem r us" "i + length fs = length us"
    and "\<And>k d. k < length fs \<Longrightarrow> enc_view mem d (item_of (us ! (i + k))) \<Longrightarrow>
           (fs ! k) (rlp_fresh d) = Inr (us ! (i + k))"
  shows "fetch_fields mem r i fs = Inr (drop i us)"
  using assms
proof (induction fs arbitrary: r i)
  case (Cons f fs)
  have i: "i < length us" using Cons.prems(2) by simp
  obtain d r' where x: "rlp_index mem r i = Inr (rlp_fresh d, r')" "fields_view mem r' us"
    "enc_view mem d (item_of (us ! i))"
    using fields_view_index [OF Cons.prems(1) i] .
  have "f (rlp_fresh d) = Inr (us ! i)" using Cons.prems(3) [of 0 d] x(3) by simp
  moreover have "fetch_fields mem r' (Suc i) fs = Inr (drop (Suc i) us)"
    using Cons.prems(2) Cons.prems(3) [of "Suc _"] by (intro Cons.IH [OF x(2)]) auto
  ultimately show ?case using x(1) i by (simp add: Cons_nth_drop_Suc)
qed simp

lemma fetch_pair_enc:
  assumes "enc_view mem d (item_of (VPair a b))"
    and "\<And>d. enc_view mem d (item_of a) \<Longrightarrow> f (rlp_fresh d) = Inr a"
    and "\<And>d. enc_view mem d (item_of b) \<Longrightarrow> g (rlp_fresh d) = Inr b"
  shows "fetch_pair mem (rlp_fresh d) f g = Inr (VPair a b)"
proof -
  have fv: "fields_view mem (rlp_fresh d) [a, b]" using assms(1) by (intro fields_view_fresh) simp
  obtain d0 r' where x: "rlp_index mem (rlp_fresh d) 0 = Inr (rlp_fresh d0, r')"
    "fields_view mem r' [a, b]" "enc_view mem d0 (item_of a)"
    using fields_view_index [OF fv, of 0] by auto
  obtain d1 r'' where y: "rlp_index mem r' 1 = Inr (rlp_fresh d1, r'')" "enc_view mem d1 (item_of b)"
    using fields_view_index [OF x(2), of 1] by (metis One_nat_def length_Cons lessI list.size(3) nth_Cons_0 nth_Cons_Suc)
  show ?thesis
    using fields_view_count [OF fv] x y assms(2) [OF x(3)] assms(3) [OF y(2)]
    by (simp add: fetch_pair_def)
qed

section \<open>Scalars on encodings\<close>

lemma toInt_small:
  assumes "enc_view mem d (Str (be_bytes n))" "n < 2 ^ LENGTH('a)" "8 dvd LENGTH('a::len)" "LENGTH('a) \<le> 128"
  shows "toInt mem d Strict = Inr (word_of_nat n :: 'a word)"
proof -
  obtain k where k: "LENGTH('a) = 8 * k" using assms(3) by (auto simp: dvd_def)
  then have "2 ^ LENGTH('a) = (256::nat) ^ (LENGTH('a) div 8)" by (simp add: power_mult)
  then show ?thesis using assms k by (intro toInt_enc [OF assms(1)]) auto
qed

lemma ucast_of_nat_unat:
  "unat x < 2 ^ LENGTH('a::len) \<Longrightarrow> ucast (word_of_nat (unat x) :: 'a word) = (x :: 128 word)"
  by (rule word_unat_eq_iff [THEN iffD2])
    (simp add: unsigned_ucast_eq unsigned_take_bit_eq take_bit_nat_eq_self)

lemma toUInt_w_enc:
  assumes ev: "enc_view mem d (Str (be_bytes (unat x)))" and x: "unat x < 2 ^ width_bits w"
  shows "toUInt_w w mem d = Inr x"
proof (cases w)
  case W8
  then show ?thesis using toInt_small [OF ev, where 'a = 8] ucast_of_nat_unat [of x, where 'a = 8] x by simp
next
  case W16
  then show ?thesis using toInt_small [OF ev, where 'a = 16] ucast_of_nat_unat [of x, where 'a = 16] x by simp
next
  case W32
  then show ?thesis using toInt_small [OF ev, where 'a = 32] ucast_of_nat_unat [of x, where 'a = 32] x by simp
next
  case W64
  then show ?thesis using toInt_small [OF ev, where 'a = 64] ucast_of_nat_unat [of x, where 'a = 64] x by simp
next
  case W128
  then show ?thesis using toInt_small [OF ev, where 'a = 128] x by simp
qed

lemma toSInt_w_enc:
  assumes ev: "enc_view mem d (Str (be_bytes (unat (zigzag x))))" and x: "fits_signed w x"
  shows "toSInt_w w mem d = Inr x"
proof (cases w)
  case W8
  then show ?thesis using toSignedInt_enc [of mem d "ucast x :: 8 word"] ev x by (simp add: fits_signed_def)
next
  case W16
  then show ?thesis using toSignedInt_enc [of mem d "ucast x :: 16 word"] ev x by (simp add: fits_signed_def)
next
  case W32
  then show ?thesis using toSignedInt_enc [of mem d "ucast x :: 32 word"] ev x by (simp add: fits_signed_def)
next
  case W64
  then show ?thesis using toSignedInt_enc [of mem d "ucast x :: 64 word"] ev x by (simp add: fits_signed_def)
next
  case W128
  then show ?thesis using toSignedInt_enc [of mem d x] ev by simp
qed

lemma toInt_word_enc:
  assumes ev: "enc_view mem d (Str (be_bytes (unat (x :: 'a::len word))))" and "8 dvd LENGTH('a)" "LENGTH('a) \<le> 128"
  shows "toInt mem d Strict = Inr x"
  using toInt_small [OF ev _ assms(2,3)] unsigned_less [of x] by simp

lemma toBool_enc:
  assumes ev: "enc_view mem d (item_of (VBool b))"
  shows "toBool mem d Strict = Inr b"
proof -
  have "toInt mem d Strict = Inr ((if b then 1 else 0) :: 8 word)"
    using ev toInt_small [of mem d "if b then 1 else 0", where 'a = 8] by (cases b) simp_all
  then show ?thesis by (cases b) (simp_all add: toBool_def)
qed

section \<open>The round trip\<close>

lemma member_fetchers_default:
  "member_fetchers ts mem (map default_val ts) = map (\<lambda>t i. fetch t mem i (default_val t)) ts"
  by (induction ts) simp_all

lemma fetch_members_enc:
  assumes "\<And>t v d. t \<in> set ts \<Longrightarrow> has_type t v \<Longrightarrow> enc_view mem d (item_of v) \<Longrightarrow>
      fetch t mem (rlp_fresh d) (default_val t) = Inr v"
    and "has_types ts vs" "enc_view mem d (Lst (map item_of vs))"
  shows "fetch_fields mem (rlp_fresh d) 0 (member_fetchers ts mem (map default_val ts)) = Inr vs"
proof -
  have l: "length ts = length vs" and t: "\<And>k. k < length ts \<Longrightarrow> has_type (ts ! k) (vs ! k)"
    using assms(2) by (auto simp: has_types_list_all2 list_all2_conv_all_nth)
  show ?thesis
    using fetch_fields_enc [OF fields_view_fresh [OF assms(3)], of 0
        "member_fetchers ts mem (map default_val ts)"] l t assms(1)
    by (simp add: member_fetchers_default)
qed

lemma fetch_enc:
  "has_type t v \<Longrightarrow> enc_view mem d (item_of v) \<Longrightarrow> fetch t mem (rlp_fresh d) (default_val t) = Inr v"
proof (induction t arbitrary: v d)
  case (TVector t)
  then show ?case by (auto simp: fetch_each_enc(2) list_all_iff seq_elems_def split: cval.splits)
next
  case (TList t)
  then show ?case by (auto simp: fetch_each_enc(1) list_all_iff seq_elems_def split: cval.splits)
next
  case (TSet t)
  then obtain vs where vs: "v = VSeq vs" "list_all (has_type t) vs" "sorted_wrt less_cval vs"
    by (auto split: cval.splits)
  then have "fetch_each mem (rlp_fresh d) (\<lambda>i. fetch t mem i (default_val t)) = Inr vs"
    using TSet by (intro fetch_each_enc(1)) (auto simp: list_all_iff)
  moreover have "fold set_insert vs [] = vs"
    using fold_insert_sorted [of less_cval set_insert "[]" vs] vs(3) set_insert_snoc by simp
  ultimately show ?case using vs by (simp add: seq_elems_def)
next
  case (TArray n t)
  then obtain vs where vs: "v = VSeq vs" "length vs = n" "list_all (has_type t) vs"
    by (auto split: cval.splits)
  have fv: "fields_view mem (rlp_fresh d) vs" using TArray vs by (intro fields_view_fresh) simp
  have "fetch_fields mem (rlp_fresh d) 0 (replicate n (\<lambda>i. fetch t mem i (default_val t))) = Inr vs"
    using fetch_fields_enc [OF fv, of 0 "replicate n (\<lambda>i. fetch t mem i (default_val t))"]
      vs TArray.IH by (simp add: list_all_length)
  then show ?case using fields_view_count [OF fv] vs by (simp add: fetch_array_def)
next
  case (TPair t u)
  then show ?case by (auto simp del: item_of.simps intro!: fetch_pair_enc split: cval.splits)
next
  case (TMap t u)
  let ?R = "\<lambda>a b. less_cval (entry_key a) (entry_key b)"
  let ?ty = "\<lambda>e. case e of VPair a b \<Rightarrow> has_type t a \<and> has_type u b | _ \<Rightarrow> False"
  obtain vs where vs: "v = VSeq vs" "list_all ?ty vs" "sorted_wrt ?R vs"
    using TMap.prems by (auto split: cval.splits)
  have "fetch_pair mem (rlp_fresh d') (\<lambda>j. fetch t mem j (default_val t)) (\<lambda>j. fetch u mem j (default_val u)) = Inr e"
    if "e \<in> set vs" "enc_view mem d' (item_of e)" for e d'
  proof -
    have "?ty e" using vs(2) that(1) by (simp add: list_all_iff)
    then obtain a b where "e = VPair a b" "has_type t a" "has_type u b"
      by (cases e) auto
    then show ?thesis using that(2) TMap.IH by (auto simp del: item_of.simps intro!: fetch_pair_enc)
  qed
  then have "fetch_each mem (rlp_fresh d) (\<lambda>i. fetch_pair mem i (\<lambda>j. fetch t mem j (default_val t))
      (\<lambda>j. fetch u mem j (default_val u))) = Inr vs"
    using TMap.prems vs(1) by (intro fetch_each_enc(1)) auto
  moreover have "fold map_insert vs [] = vs"
    using fold_insert_sorted [of ?R map_insert "[]" vs] vs(3) map_insert_snoc by simp
  ultimately show ?case using vs by (simp add: seq_elems_def)
next
  case (TTuple ts)
  then show ?case by (auto simp: seq_elems_def fetch_members_enc split: cval.splits)
next
  case (TStruct ts)
  then show ?case by (auto simp: seq_elems_def fetch_members_enc split: cval.splits)
qed (auto simp: toBool_enc toUInt_w_enc toSInt_w_enc toFloat_def toDouble_def toInt_word_enc
    toBytes_enc toString_enc toHash_enc simp del: item_of.simps(1) split: cval.splits)

section \<open>Fetching from arbitrary bytes\<close>

lemma fetch_fields_safe:
  assumes "rlp_inv mem r" "\<And>f d. f \<in> set fs \<Longrightarrow> exact_view mem d \<Longrightarrow> safe (f (rlp_fresh d))"
  shows "safe (fetch_fields mem r i fs)"
  using assms
proof (induction fs arbitrary: r i)
  case (Cons f fs)
  note ix = rlp_index_safe [OF Cons.prems(1), of i]
  show ?case
    unfolding fetch_fields.simps using ix(1)
  proof (rule safe_bind)
    fix xr assume xr: "rlp_index mem r i = Inr xr"
    obtain x r' where "xr = (x, r')" by (cases xr)
    with ix(2) xr obtain d where "x = rlp_fresh d" "exact_view mem d" "rlp_inv mem r'" by blast
    then show "safe (case xr of (x, r') \<Rightarrow> bind_res (f x) (\<lambda>v.
        bind_res (fetch_fields mem r' (Suc i) fs) (\<lambda>vs. Inr (v # vs))))"
      using Cons.prems(2) Cons.IH [of r'] \<open>xr = (x, r')\<close> by (auto intro!: safe_bind)
  qed
qed simp

lemma fetch_pair_fields:
  "fetch_pair mem r f g =
     bind_res (itemCountStrict mem (rlp_data r)) (\<lambda>c.
       if c \<noteq> 2 then Inl (Throw ''bad cast'')
       else bind_res (fetch_fields mem r 0 [f, g]) (\<lambda>vs. Inr (VPair (vs ! 0) (vs ! 1))))"
  by (auto simp: fetch_pair_def bind_res_assoc intro!: bind_res_cong split: prod.splits)

lemma exact_inv: "exact_view mem d \<Longrightarrow> rlp_inv mem (rlp_fresh d)"
  by (simp add: exact_view_def rlp_inv_fresh)

lemma fetch_pair_safe:
  assumes "exact_view mem d" "\<And>d. exact_view mem d \<Longrightarrow> safe (f (rlp_fresh d))"
    "\<And>d. exact_view mem d \<Longrightarrow> safe (g (rlp_fresh d))"
  shows "safe (fetch_pair mem (rlp_fresh d) f g)"
  unfolding fetch_pair_fields
  using assms itemCount_safe(2) [of mem d]
  by (auto simp: exact_view_def simp del: fetch_fields.simps
      intro!: safe_bind fetch_fields_safe [OF exact_inv])

lemma fetch_each_safe:
  assumes "exact_view mem d" "\<And>d. exact_view mem d \<Longrightarrow> safe (f (rlp_fresh d))"
  shows "safe (fetch_each mem (rlp_fresh d) f)" "safe (fetch_vector mem (rlp_fresh d) f)"
proof -
  have wf: "wf_view mem d" using assms(1) by (simp add: exact_view_def)
  note r = range_for_safe [OF assms(1), of f, OF assms(2)]
  show "safe (fetch_each mem (rlp_fresh d) f)" "safe (fetch_vector mem (rlp_fresh d) f)"
    using r itemCount_safe(1) [OF wf]
    by (auto simp: fetch_each_def fetch_vector_def isList_wf [OF wf] intro!: safe_bind)
qed

lemma to_w_safe:
  assumes "wf_view mem d"
  shows "safe (toUInt_w w mem d)" "safe (toSInt_w w mem d)"
  using toInt_safe [OF assms] toSignedInt_safe [OF assms] by (cases w; auto intro!: safe_bind)+

lemma member_fetchers_safe:
  "f \<in> set (member_fetchers ts mem tgts) \<Longrightarrow> \<exists>t \<in> set ts. \<exists>tgt. f = (\<lambda>i. fetch t mem i tgt)"
  by (induction ts arbitrary: tgts) auto

lemma toBytes_exact_safe:
  "wf_view mem d \<Longrightarrow> actualSize mem d = Inr (m_count d) \<Longrightarrow> safe (toBytes mem d flags)"
  by (rule toBytes_safe [of _ _ "m_count d"]) (simp add: prefix_view_def)

lemma fetch_safe: "exact_view mem d \<Longrightarrow> safe (fetch t mem (rlp_fresh d) tgt)"
proof (induction t arbitrary: d tgt)
  case (TArray n t)
  then show ?case
    using itemCount_safe(2) [of mem d]
    by (auto simp: exact_view_def fetch_array_def intro!: safe_bind fetch_fields_safe [OF exact_inv])
next
  case (TTuple ts)
  then show ?case
    by (auto intro!: safe_bind fetch_fields_safe [OF exact_inv] dest!: member_fetchers_safe)
next
  case (TStruct ts)
  then show ?case
    by (auto intro!: safe_bind fetch_fields_safe [OF exact_inv] dest!: member_fetchers_safe)
qed (auto simp: exact_view_def toFloat_def toDouble_def
    intro!: safe_bind toBool_safe to_w_safe toInt_safe toString_safe toHash_safe toBytes_exact_safe
      fetch_each_safe fetch_pair_safe)

section \<open>What a client may rely on\<close>

text \<open>The bytes that \<open>RLPStream() << v\<close> holds.\<close>

definition serialize :: "rlp_host \<Rightarrow> cval \<Rightarrow> bytes res" where
  "serialize h v = bind_res (put h stream_empty v) stream_out"

text \<open>\<open>fetch(RLP(data), value)\<close> for a default-constructed value.\<close>

definition deserialize :: "cty \<Rightarrow> memory \<Rightarrow> vector_ref \<Rightarrow> cval res" where
  "deserialize t mem d = bind_res (rlp_ctor mem d VeryStrict) (\<lambda>r. fetch t mem r (default_val t))"

lemma ts_add_empty: "ts_add ts_empty [y] = Some (ts_empty\<lparr>ts_done := [y]\<rparr>)"
  by (simp add: ts_add_def ts_empty_def)

lemma serialize_enc:
  assumes "rlp_host_ok h" "item_len v < 2 ^ 32"
  shows "serialize h v = Inr (enc (item_of v))"
proof -
  let ?ts = "ts_empty\<lparr>ts_done := [item_of v]\<rparr>"
  have "ts_size ?ts < 2 ^ 32" using assms(2) by (simp add: ts_size_def ts_empty_def item_len_def)
  then obtain rs' where "put h stream_empty v = Inr rs'" "stream_rel rs' ?ts"
    using put_specD [OF put_ok [OF assms(1), of v] stream_rel_empty ts_add_empty] by blast
  then show ?thesis using stream_out_ok [of rs' ?ts] by (simp add: serialize_def ts_empty_def)
qed

lemma deserialize_enc:
  assumes "has_type t v" "enc_view mem d (item_of v)"
  shows "deserialize t mem d = Inr v"
proof -
  have "rlp_ctor mem d VeryStrict = Inr (rlp_fresh d)"
    using enc_view_exact(1) [OF assms(2)] assms(2) by (simp add: rlp_ctor_VeryStrict_Inr enc_view_def)
  then show ?thesis using fetch_enc [OF assms] by (simp add: deserialize_def)
qed

text \<open>
  C1. Serialisation round trip, for every supported type: writing a value to a fresh stream ends
  with a byte string, and reading those bytes back from wherever they lie in memory gives
  the value. The encoding must fit in the memory of the module.
\<close>

theorem serialize_roundtrip:
  assumes "rlp_host_ok h" "has_type t v" "item_len v < 2 ^ 31"
  shows "\<exists>bs. serialize h v = Inr bs \<and>
    (\<forall>mem d. wf_view mem d \<and> contents mem d = bs \<longrightarrow> deserialize t mem d = Inr v)"
  using serialize_enc [OF assms(1), of v] deserialize_enc [OF assms(2)] assms(3)
  by (simp add: enc_view_def)

definition demo_type :: cty where
  "demo_type = TStruct [TU W64, TI W32, TString, TMap TString (TVector (TU W8))]"

definition demo_value :: cval where
  "demo_value = VStruct [VUInt 1024, VInt (- 5), VString [104, 105],
     VSeq [VPair (VString [97]) (VSeq [VUInt 7]), VPair (VString [98]) (VSeq [])]]"

lemma demo_has_type: "has_type demo_type demo_value"
  by (simp add: demo_type_def demo_value_def fits_signed_def)

lemma demo_item: "item_of demo_value = Lst [Str [4, 0], Str [9], Str [104, 105],
    Lst [Lst [Str [97], Lst [Str [7]]], Lst [Str [98], Lst []]]]"
proof -
  have "zigzag (- 5) = 9" by (simp add: zigzag_def)
  then show ?thesis
    by (simp add: demo_value_def be_bytes.simps)
qed

theorem serialize_roundtrip_witness:
  "\<exists>bs. serialize model_host demo_value = Inr bs \<and>
    (\<forall>mem d. wf_view mem d \<and> contents mem d = bs \<longrightarrow> deserialize demo_type mem d = Inr demo_value)"
proof -
  have "item_len demo_value < 2 ^ 31"
    by (simp add: item_len_def demo_item enc_str_def enc_list_def rlp_head_def)
  then show ?thesis by (rule serialize_roundtrip [OF model_host_ok demo_has_type])
qed

text \<open>
  C8. The stream refines the machine of trees: in any state of nested open lists, \<open>operator<<\<close> of a
  value appends exactly one item to the innermost open list and closes every list that is
  complete by it, with the right header in front of its payload.
\<close>

theorem put_refines_trees:
  assumes "rlp_host_ok h" "stream_rel rs ts" "ts_add ts [item_of v] = Some ts'" "ts_size ts' < 2 ^ 32"
  shows "\<exists>rs'. put h rs v = Inr rs' \<and> stream_rel rs' ts'"
  using put_specD [OF put_ok [OF assms(1)] assms(2-4)] .

theorem put_refines_trees_witness:
  "\<exists>rs'. put model_host (stream_empty\<lparr>m_listStack := [(1, 0), (1, 0)]\<rparr>) (VString [97]) = Inr rs' \<and>
     stream_rel rs' (ts_empty\<lparr>ts_done := [Lst [Lst [Str [97]]]]\<rparr>)"
proof -
  let ?rs = "stream_empty\<lparr>m_listStack := [(1, 0), (1, 0)]\<rparr>"
  let ?ts = "ts_empty\<lparr>ts_open := [(1, []), (1, [])]\<rparr>"
  have rel: "stream_rel ?rs ?ts"
    by (simp add: stream_rel_def stream_empty_def ts_empty_def bb_inv_def bb_bytes_def)
  have "ts_add ?ts [item_of (VString [97])] = Some (ts_empty\<lparr>ts_done := [Lst [Lst [Str [97]]]]\<rparr>)"
    by (simp add: ts_add_def ts_empty_def)
  moreover have "ts_size (ts_empty\<lparr>ts_done := [Lst [Lst [Str [97]]]]\<rparr>) < 2 ^ 32"
    by (simp add: ts_size_def ts_empty_def enc_list_def enc_str_def rlp_head_def)
  ultimately show ?thesis by (rule put_refines_trees [OF model_host_ok rel])
qed

text \<open>
  C7. Deserialising untrusted bytes as any well-formed type is memory safe, ends, and keeps to the
  type: the result is a thrown panic or a value of the type (sets and maps sorted, arrays of
  their length, integers in range), however nested the type and for every byte string in memory.
\<close>

theorem deserialize_safe:
  assumes "wf_view mem d" "wf_type t"
  shows "safe (deserialize t mem d) \<and> (\<forall>v. deserialize t mem d = Inr v \<longrightarrow> has_type t v)"
proof
  show "safe (deserialize t mem d)"
    unfolding deserialize_def
    by (rule safe_bind [OF rlp_ctor_VeryStrict_safe [OF assms(1)]])
      (simp add: rlp_ctor_VeryStrict_Inr [OF assms(1)] fetch_safe)
  show "\<forall>v. deserialize t mem d = Inr v \<longrightarrow> has_type t v"
    using fetch_typedD [OF fetch_has_type [OF assms(2)] has_type_default [OF assms(2)]]
    by (auto simp: deserialize_def bind_res_eq_Inr)
qed

theorem deserialize_safe_witness:
  "safe (deserialize demo_type cat_dog (vr_mk 1 9)) \<and>
   (case deserialize demo_type cat_dog (vr_mk 1 9) of Inl e \<Rightarrow> True | Inr v \<Rightarrow> has_type demo_type v)"
  using deserialize_safe [of cat_dog "vr_mk 1 9" demo_type] cat_dog_view
  by (simp add: enc_view_def demo_type_def split: sum.split)

text \<open>
  C16. \<open>pack_size\<close> computes the length of the serialised value without building it, for every value
  of less than 4 GiB in which no hash of two or more bytes is zero and no hash of one byte lies
  between \<open>0x01\<close> and \<open>0x7f\<close>; on those the count is wrong (lemma \<open>pack_size_hash_iff\<close>).
\<close>

theorem pack_size_exact:
  assumes "rlp_host_ok h" "hash_exact v" "item_len v < 2 ^ 32"
  shows "\<exists>bs. serialize h v = Inr bs \<and> pack_size v = Inr (length bs)"
proof -
  have "size_put size_empty v = Inr (size_add size_empty (item_len v))"
    using assms by (intro size_put_ok(1)) (simp_all add: size_wf_def size_empty_def)
  then have "pack_size v = Inr (item_len v)"
    using assms(3) by (simp add: pack_size_def size_add_def size_empty_def)
  then show ?thesis using serialize_enc [OF assms(1,3)] by (simp add: item_len_def)
qed

theorem pack_size_exact_witness:
  "\<exists>bs. serialize model_host demo_value = Inr bs \<and> pack_size demo_value = Inr (length bs)"
proof (rule pack_size_exact [OF model_host_ok])
  show "hash_exact demo_value" by (simp add: demo_value_def)
  show "item_len demo_value < 2 ^ 32"
    by (simp add: item_len_def demo_item enc_str_def enc_list_def rlp_head_def)
qed

text \<open>For a single hash that condition is exact.\<close>

lemma pack_size_hash_iff:
  assumes "item_len (VHash s) < 2 ^ 32"
  shows "pack_size (VHash s) = Inr (item_len (VHash s)) \<longleftrightarrow> hash_exact (VHash s)"
proof
  assume "hash_exact (VHash s)"
  then have "size_put size_empty (VHash s) = Inr (size_add size_empty (item_len (VHash s)))"
    using assms by (intro size_put_ok(1)) (simp_all add: size_wf_def size_empty_def)
  then show "pack_size (VHash s) = Inr (item_len (VHash s))"
    using assms by (simp add: pack_size_def size_add_def size_empty_def)
next
  assume p: "pack_size (VHash s) = Inr (item_len (VHash s))"
  show "hash_exact (VHash s)"
  proof (cases "list_all (\<lambda>b. b = 0) s")
    case True
    then have "item_len (VHash s) = 1"
      using p by (simp add: pack_size_def size_hash_def size_add_def size_empty_def)
    then have "length s \<le> 1" using length_enc_str_ge [of s] by (simp add: item_len_def)
    then show ?thesis using True by simp
  next
    case False
    have "128 \<le> unat (hd s)" if "length s = 1"
    proof (rule ccontr)
      assume "\<not> 128 \<le> unat (hd s)"
      then have "item_len (VHash s) = 1" using that by (simp add: item_len_def length_enc_str)
      moreover have "pack_size (VHash s) = Inr 2"
        using False that by (simp add: pack_size_def size_hash_def size_add_def size_empty_def rlp_consts)
      ultimately show False using p by simp
    qed
    then show ?thesis using False by simp
  qed
qed

text \<open>
  For a zero hash \<open>pack_size\<close> counts one byte, while the stream writes the hash with its length
  prefix: the two disagree for every width of more than one byte.
\<close>

lemma pack_size_zero_hash:
  assumes "rlp_host_ok h" "1 < N" "N < 56"
  shows "pack_size (VHash (replicate N 0)) = Inr 1 \<and>
    (\<exists>bs. serialize h (VHash (replicate N 0)) = Inr bs \<and> length bs = N + 1)"
proof -
  have l: "length (enc (item_of (VHash (replicate N 0)))) = N + 1"
    using assms(2,3) by (simp add: length_enc_str length_rlp_head)
  have "pack_size (VHash (replicate N 0)) = Inr 1"
    by (simp add: pack_size_def size_hash_def size_add_def size_empty_def list_all_iff Let_def)
  moreover have "serialize h (VHash (replicate N 0)) = Inr (enc (item_of (VHash (replicate N 0))))"
    using l assms(3) by (intro serialize_enc [OF assms(1)]) (simp add: item_len_def)
  ultimately show ?thesis using l by blast
qed

end
