(* ===== verification/RLP_Converter.thy ===== *)
theory RLP_Converter
  imports RLP_Roundtrip
begin

text \<open>
  Model of the second way to read values in \<open>platonlib/include/platon/RLP.h\<close>: \<open>RLP::convert\<close> with the
  specialisations of \<open>Converter\<close>, the container conversions it uses, and the comparisons of an item
  with a value. The lemmas relate it to \<open>fetch\<close>: under strict flags it accepts no more, and it
  reads back everything the stream writes.
\<close>

section \<open>Conversions\<close>

text \<open>A failed conversion throws or returns the default, as the flags say.\<close>

definition bad_cast_or :: "nat \<Rightarrow> 'a \<Rightarrow> 'a res" where
  "bad_cast_or flags x = (if has_flag flags ThrowOnFail then Inl (Throw ''bad cast'') else Inr x)"

definition toVector :: "memory \<Rightarrow> RLP \<Rightarrow> nat \<Rightarrow> (RLP \<Rightarrow> cval res) \<Rightarrow> cval list res" where
  "toVector mem r flags f =
     bind_res (isList mem (rlp_data r)) (\<lambda>l.
       if l then bind_res (itemCount mem (rlp_data r)) (\<lambda>reserved. range_for mem (rlp_data r) f)
       else bad_cast_or flags [])"

definition toSet :: "memory \<Rightarrow> RLP \<Rightarrow> nat \<Rightarrow> (RLP \<Rightarrow> cval res) \<Rightarrow> cval list res" where
  "toSet mem r flags f =
     bind_res (isList mem (rlp_data r)) (\<lambda>l.
       if l then bind_res (range_for mem (rlp_data r) f) (\<lambda>vs. Inr (fold set_insert vs []))
       else bad_cast_or flags [])"

definition toPair :: "memory \<Rightarrow> RLP \<Rightarrow> nat \<Rightarrow> cval \<Rightarrow> (RLP \<Rightarrow> cval res) \<Rightarrow> (RLP \<Rightarrow> cval res) \<Rightarrow> cval res" where
  "toPair mem r flags ret f g =
     bind_res (itemCountStrict mem (rlp_data r)) (\<lambda>c.
       if c \<noteq> 2 then bad_cast_or flags ret
       else bind_res (rlp_index mem r 0) (\<lambda>(x, r').
            bind_res (f x) (\<lambda>a.
            bind_res (rlp_index mem r' 1) (\<lambda>(y, r'').
            bind_res (g y) (\<lambda>b. Inr (VPair a b))))))"

definition toArray :: "memory \<Rightarrow> RLP \<Rightarrow> nat \<Rightarrow> nat \<Rightarrow> cval list \<Rightarrow> (RLP \<Rightarrow> cval res) \<Rightarrow> cval list res" where
  "toArray mem r flags N ret f =
     bind_res (itemCountStrict mem (rlp_data r)) (\<lambda>c.
       if c \<noteq> N then bad_cast_or flags ret else fetch_fields mem r 0 (replicate N f))"

fun conv_uint :: "width \<Rightarrow> memory \<Rightarrow> vector_ref \<Rightarrow> nat \<Rightarrow> 128 word res" where
  "conv_uint W8 mem d flags = bind_res (toInt mem d flags :: 8 word res) (\<lambda>x. Inr (ucast x))"
| "conv_uint W16 mem d flags = bind_res (toInt mem d flags :: 16 word res) (\<lambda>x. Inr (ucast x))"
| "conv_uint W32 mem d flags = bind_res (toInt mem d flags :: 32 word res) (\<lambda>x. Inr (ucast x))"
| "conv_uint W64 mem d flags = bind_res (toInt mem d flags :: 64 word res) (\<lambda>x. Inr (ucast x))"
| "conv_uint W128 mem d flags = toInt mem d flags"

text \<open>There is no specialisation for \<open>int128_t\<close>: the general template throws.\<close>

fun conv_sint :: "width \<Rightarrow> memory \<Rightarrow> vector_ref \<Rightarrow> nat \<Rightarrow> 128 word res" where
  "conv_sint W8 mem d flags = bind_res (toSignedInt mem d flags :: 8 word res) (\<lambda>x. Inr (scast x))"
| "conv_sint W16 mem d flags = bind_res (toSignedInt mem d flags :: 16 word res) (\<lambda>x. Inr (scast x))"
| "conv_sint W32 mem d flags = bind_res (toSignedInt mem d flags :: 32 word res) (\<lambda>x. Inr (scast x))"
| "conv_sint W64 mem d flags = bind_res (toSignedInt mem d flags :: 64 word res) (\<lambda>x. Inr (scast x))"
| "conv_sint W128 mem d flags = Inl (Throw ''bad cast'')"

fun convert :: "cty \<Rightarrow> memory \<Rightarrow> RLP \<Rightarrow> nat \<Rightarrow> cval res" where
  "convert TBool mem r flags = bind_res (toBool mem (rlp_data r) flags) (\<lambda>b. Inr (VBool b))"
| "convert (TU w) mem r flags = bind_res (conv_uint w mem (rlp_data r) flags) (\<lambda>x. Inr (VUInt x))"
| "convert (TI w) mem r flags = bind_res (conv_sint w mem (rlp_data r) flags) (\<lambda>x. Inr (VInt x))"
| "convert TFloat mem r flags = bind_res (toFloat mem (rlp_data r) flags) (\<lambda>x. Inr (VFloat x))"
| "convert TDouble mem r flags = bind_res (toDouble mem (rlp_data r) flags) (\<lambda>x. Inr (VDouble x))"
| "convert TBytes mem r flags = bind_res (toBytes mem (rlp_data r) flags) (\<lambda>b. Inr (VBytes b))"
| "convert TString mem r flags = bind_res (toString mem (rlp_data r) flags) (\<lambda>b. Inr (VString b))"
| "convert (THash n) mem r flags = bind_res (toHash n mem (rlp_data r) flags) (\<lambda>b. Inr (VHash b))"
| "convert (TVector t) mem r flags =
     bind_res (toVector mem r flags (\<lambda>i. convert t mem i flags)) (\<lambda>vs. Inr (VSeq vs))"
| "convert (TSet t) mem r flags =
     bind_res (toSet mem r flags (\<lambda>i. convert t mem i flags)) (\<lambda>vs. Inr (VSeq vs))"
| "convert (TArray n t) mem r flags =
     bind_res (toArray mem r flags n (replicate n (default_val t)) (\<lambda>i. convert t mem i flags)) (\<lambda>vs. Inr (VSeq vs))"
| "convert (TPair t u) mem r flags =
     toPair mem r flags (VPair (default_val t) (default_val u)) (\<lambda>i. convert t mem i flags) (\<lambda>i. convert u mem i flags)"
| "convert t mem r flags = Inl (Throw ''bad cast'')"

text \<open>\<open>RLP(data).convert<T>(flags)\<close>.\<close>

definition convert_from :: "cty \<Rightarrow> memory \<Rightarrow> vector_ref \<Rightarrow> nat \<Rightarrow> cval res" where
  "convert_from t mem d flags = bind_res (rlp_ctor mem d VeryStrict) (\<lambda>r. convert t mem r flags)"

text \<open>The types with a specialisation.\<close>

fun convertible :: "cty \<Rightarrow> bool" where
  "convertible (TI w) \<longleftrightarrow> w \<noteq> W128"
| "convertible (TVector t) \<longleftrightarrow> convertible t"
| "convertible (TSet t) \<longleftrightarrow> convertible t"
| "convertible (TArray n t) \<longleftrightarrow> convertible t"
| "convertible (TPair t u) \<longleftrightarrow> convertible t \<and> convertible u"
| "convertible (TList t) \<longleftrightarrow> False"
| "convertible (TMap t u) \<longleftrightarrow> False"
| "convertible (TTuple ts) \<longleftrightarrow> False"
| "convertible (TStruct ts) \<longleftrightarrow> False"
| "convertible t \<longleftrightarrow> True"

section \<open>Sizes and comparisons\<close>

definition rlp_size_of :: "memory \<Rightarrow> vector_ref \<Rightarrow> nat res" where
  "rlp_size_of mem d = bind_res (isData mem d) (\<lambda>dt. if dt then rlp_length mem d else Inr 0)"

definition sizeStrict :: "memory \<Rightarrow> vector_ref \<Rightarrow> nat res" where
  "sizeStrict mem d =
     bind_res (isData mem d) (\<lambda>dt. if dt then rlp_length mem d else Inl (Throw ''bad cast''))"

definition eq_string :: "memory \<Rightarrow> vector_ref \<Rightarrow> bytes \<Rightarrow> bool res" where
  "eq_string mem d s =
     bind_res (isData mem d) (\<lambda>dt.
       if dt then bind_res (toString mem d LaissezFaire) (\<lambda>t. Inr (t = s)) else Inr False)"

definition ne_string :: "memory \<Rightarrow> vector_ref \<Rightarrow> bytes \<Rightarrow> bool res" where
  "ne_string mem d s =
     bind_res (isData mem d) (\<lambda>dt.
       if dt then bind_res (toString mem d LaissezFaire) (\<lambda>t. Inr (t \<noteq> s)) else Inr False)"

definition eq_unsigned :: "memory \<Rightarrow> vector_ref \<Rightarrow> 32 word \<Rightarrow> bool res" where
  "eq_unsigned mem d i =
     bind_res (isInt mem d) (\<lambda>int.
       if int then bind_res (toInt mem d Strict) (\<lambda>x. Inr (x = i)) else Inr False)"

definition ne_unsigned :: "memory \<Rightarrow> vector_ref \<Rightarrow> 32 word \<Rightarrow> bool res" where
  "ne_unsigned mem d i =
     bind_res (isInt mem d) (\<lambda>int.
       if int then bind_res (toInt mem d Strict) (\<lambda>x. Inr (x \<noteq> i)) else Inr False)"

definition eq_bigint :: "memory \<Rightarrow> vector_ref \<Rightarrow> 128 word \<Rightarrow> bool res" where
  "eq_bigint mem d i =
     bind_res (isInt mem d) (\<lambda>int.
       if int then bind_res (toInt mem d Strict) (\<lambda>x. Inr (x = i)) else Inr False)"

definition ne_bigint :: "memory \<Rightarrow> vector_ref \<Rightarrow> 128 word \<Rightarrow> bool res" where
  "ne_bigint mem d i =
     bind_res (isInt mem d) (\<lambda>int.
       if int then bind_res (toInt mem d Strict) (\<lambda>x. Inr (x \<noteq> i)) else Inr False)"

section \<open>Conversion and fetch\<close>

lemma range_for_mono:
  assumes "\<And>i x. f i = Inr x \<Longrightarrow> g i = Inr x" "range_for mem d f = Inr xs"
  shows "range_for mem d g = Inr xs"
proof -
  have loop: "range_for_loop mem f en n it = Inr ys \<Longrightarrow> range_for_loop mem g en n it = Inr ys" for en n it ys
    by (induction n arbitrary: it ys) (auto simp: bind_res_eq_Inr assms(1) split: if_splits)
  show ?thesis using assms(2) loop unfolding range_for_def bind_res_eq_Inr by blast
qed

lemma fetch_fields_mono:
  assumes "list_all2 (\<lambda>f g. \<forall>i x. f i = Inr x \<longrightarrow> g i = Inr x) fs gs" "fetch_fields mem r n fs = Inr xs"
  shows "fetch_fields mem r n gs = Inr xs"
  using assms
  by (induction fs gs arbitrary: r n xs rule: list_all2_induct) (fastforce simp: bind_res_eq_Inr split: prod.splits)+

lemma conv_strict:
  "conv_uint w mem d Strict = toUInt_w w mem d" "w \<noteq> W128 \<Longrightarrow> conv_sint w mem d Strict = toSInt_w w mem d"
  by (cases w; simp)+

lemma strict_throws [simp]: "bad_cast_or Strict x = Inl (Throw ''bad cast'')"
  by (simp add: bad_cast_or_def)

lemma strict_parts:
  "toVector mem r Strict f = fetch_vector mem r f"
  "toPair mem r Strict p f g = fetch_pair mem r f g"
  "toArray mem r Strict n ret f = fetch_array mem r n f"
  by (simp_all add: toVector_def fetch_vector_def toPair_def fetch_pair_def toArray_def fetch_array_def
      cong: if_cong)

lemma strict_set: "toSet mem r Strict f = bind_res (fetch_each mem r f) (\<lambda>vs. Inr (fold set_insert vs []))"
proof (cases "isList mem (rlp_data r)")
  case (Inr l)
  then show ?thesis by (cases l) (simp_all add: toSet_def fetch_each_def)
qed (simp add: toSet_def fetch_each_def)

lemma strict_bytes:
  "toBytes mem d Strict = Inr b \<Longrightarrow> toBytes mem d LaissezFaire = Inr b"
  "toString mem d Strict = Inr b \<Longrightarrow> toString mem d LaissezFaire = Inr b"
  unfolding toBytes_def toString_def bind_res_eq_Inr by (elim exE conjE; force split: if_splits)+

lemma fetch_each_mono:
  assumes "\<And>i x. f i = Inr x \<Longrightarrow> g i = Inr x"
  shows "fetch_each mem r f = Inr vs \<Longrightarrow> fetch_each mem r g = Inr vs"
    and "fetch_vector mem r f = Inr vs \<Longrightarrow> fetch_vector mem r g = Inr vs"
proof -
  show "fetch_each mem r g = Inr vs" if "fetch_each mem r f = Inr vs"
    using that range_for_mono [OF assms] by (cases "isList mem (rlp_data r)") (auto simp: fetch_each_def split: if_splits)
  show "fetch_vector mem r g = Inr vs" if "fetch_vector mem r f = Inr vs"
    using that range_for_mono [OF assms]
    by (cases "isList mem (rlp_data r)"; cases "itemCount mem (rlp_data r)") (auto simp: fetch_vector_def split: if_splits)
qed

lemma fetch_pair_mono:
  assumes "\<And>i x. f i = Inr x \<Longrightarrow> f' i = Inr x" "\<And>i x. g i = Inr x \<Longrightarrow> g' i = Inr x" "fetch_pair mem r f g = Inr v"
  shows "fetch_pair mem r f' g' = Inr v"
proof -
  have "list_all2 (\<lambda>f g. \<forall>i x. f i = Inr x \<longrightarrow> g i = Inr x) [f, g] [f', g']" using assms(1,2) by simp
  then show ?thesis
    using assms(3) fetch_fields_mono [of "[f, g]" "[f', g']" mem r 0]
    by (auto simp: fetch_pair_fields bind_res_eq_Inr simp del: fetch_fields.simps split: if_splits)
qed

lemma strict_convert_fetch:
  "convertible t \<Longrightarrow> convert t mem r Strict = Inr v \<Longrightarrow> fetch t mem r (default_val t) = Inr v"
proof (induction t arbitrary: r v)
  case (TVector t)
  then show ?case using fetch_each_mono(2) [of "\<lambda>i. convert t mem i Strict" "\<lambda>i. fetch t mem i (default_val t)"]
    by (auto simp: strict_parts bind_res_eq_Inr seq_elems_def)
next
  case (TSet t)
  then show ?case using fetch_each_mono(1) [of "\<lambda>i. convert t mem i Strict" "\<lambda>i. fetch t mem i (default_val t)"]
    by (auto simp: strict_set bind_res_eq_Inr seq_elems_def)
next
  case (TArray n t)
  let ?f = "\<lambda>i. convert t mem i Strict" and ?g = "\<lambda>i. fetch t mem i (default_val t)"
  have "list_all2 (\<lambda>f g. \<forall>i x. f i = Inr x \<longrightarrow> g i = Inr x) (replicate n ?f) (replicate n ?g)"
    using TArray by (simp add: list_all2_conv_all_nth)
  from fetch_fields_mono [OF this] show ?case using TArray.prems(2)
    by (auto simp: strict_parts bind_res_eq_Inr fetch_array_def split: if_splits)
next
  case (TPair t u)
  then show ?case using fetch_pair_mono [of "\<lambda>i. convert t mem i Strict" "\<lambda>i. fetch t mem i (default_val t)"
      "\<lambda>i. convert u mem i Strict" "\<lambda>i. fetch u mem i (default_val u)"] by (simp add: strict_parts)
qed (auto simp: bind_res_eq_Inr conv_strict toFloat_def toDouble_def strict_bytes)

section \<open>Conversion of encodings\<close>

lemma convert_enc:
  "convertible t \<Longrightarrow> has_type t v \<Longrightarrow> enc_view mem d (item_of v) \<Longrightarrow> convert t mem (rlp_fresh d) Strict = Inr v"
proof (induction t arbitrary: v d)
  case (TVector t)
  then show ?case by (auto simp: strict_parts fetch_each_enc(2) list_all_iff split: cval.splits)
next
  case (TSet t)
  then obtain vs where vs: "v = VSeq vs" "list_all (has_type t) vs" "sorted_wrt less_cval vs"
    by (auto split: cval.splits)
  then have "fetch_each mem (rlp_fresh d) (\<lambda>i. convert t mem i Strict) = Inr vs"
    using TSet by (intro fetch_each_enc(1)) (auto simp: list_all_iff)
  moreover have "fold set_insert vs [] = vs"
    using fold_insert_sorted [of less_cval set_insert "[]" vs] vs(3) set_insert_snoc by simp
  ultimately show ?case using vs by (simp add: strict_set)
next
  case (TArray n t)
  then obtain vs where vs: "v = VSeq vs" "length vs = n" "list_all (has_type t) vs"
    by (auto split: cval.splits)
  have fv: "fields_view mem (rlp_fresh d) vs" using TArray vs by (intro fields_view_fresh) simp
  have "fetch_fields mem (rlp_fresh d) 0 (replicate n (\<lambda>i. convert t mem i Strict)) = Inr vs"
    using fetch_fields_enc [OF fv, of 0 "replicate n (\<lambda>i. convert t mem i Strict)"]
      vs TArray by (simp add: list_all_length)
  then show ?case using fields_view_count [OF fv] vs by (simp add: strict_parts fetch_array_def)
next
  case (TPair t u)
  then show ?case by (auto simp: strict_parts simp del: item_of.simps intro!: fetch_pair_enc split: cval.splits)
qed (auto simp: conv_strict toBool_enc toUInt_w_enc toSInt_w_enc toFloat_def toDouble_def toInt_word_enc
    toBytes_enc toString_enc toHash_enc simp del: item_of.simps(1) split: cval.splits)

section \<open>Conversion of arbitrary bytes\<close>

lemma throw_safe [simp]: "safe (Inl (Throw m) :: 'a res)"
  by (simp add: safe_def)

lemma bad_cast_safe [simp]: "safe (bad_cast_or flags x)"
  by (simp add: bad_cast_or_def safe_def)

lemma conv_safe:
  assumes "wf_view mem d"
  shows "safe (conv_uint w mem d flags)" "safe (conv_sint w mem d flags)"
  using toInt_safe [OF assms] toSignedInt_safe [OF assms] throw_safe by (cases w; auto intro!: safe_bind)+

lemma container_safe:
  assumes ex: "exact_view mem d" and f: "\<And>d. exact_view mem d \<Longrightarrow> safe (f (rlp_fresh d))"
  shows "safe (toVector mem (rlp_fresh d) flags f)" "safe (toSet mem (rlp_fresh d) flags f)"
    "safe (toArray mem (rlp_fresh d) flags n ret f)"
proof -
  have wf: "wf_view mem d" using ex by (simp add: exact_view_def)
  note r = range_for_safe [OF ex, of f, OF f]
  show "safe (toVector mem (rlp_fresh d) flags f)" "safe (toSet mem (rlp_fresh d) flags f)"
    using r itemCount_safe(1) [OF wf] by (auto simp: toVector_def toSet_def isList_wf [OF wf] intro!: safe_bind)
  show "safe (toArray mem (rlp_fresh d) flags n ret f)"
    using itemCount_safe(2) [OF wf] f by (auto simp: toArray_def intro!: safe_bind safe_if fetch_fields_safe [OF exact_inv [OF ex]])
qed

lemma toPair_safe:
  assumes ex: "exact_view mem d" and f: "\<And>d. exact_view mem d \<Longrightarrow> safe (f (rlp_fresh d))"
    and g: "\<And>d. exact_view mem d \<Longrightarrow> safe (g (rlp_fresh d))"
  shows "safe (toPair mem (rlp_fresh d) flags p f g)"
proof -
  have "toPair mem (rlp_fresh d) flags p f g =
      bind_res (itemCountStrict mem (rlp_data (rlp_fresh d))) (\<lambda>c.
        if c \<noteq> 2 then bad_cast_or flags p
        else bind_res (fetch_fields mem (rlp_fresh d) 0 [f, g]) (\<lambda>vs. Inr (VPair (vs ! 0) (vs ! 1))))"
    by (auto simp: toPair_def bind_res_assoc intro!: bind_res_cong split: prod.splits)
  moreover have "safe (itemCountStrict mem (rlp_data (rlp_fresh d)))"
    using itemCount_safe(2) [of mem d] ex by (simp add: exact_view_def)
  ultimately show ?thesis
    using f g by (auto simp del: fetch_fields.simps intro!: safe_bind safe_if fetch_fields_safe [OF exact_inv [OF ex]])
qed

lemma convert_safe: "exact_view mem d \<Longrightarrow> safe (convert t mem (rlp_fresh d) flags)"
proof (induction t arbitrary: d)
  case (TPair t u)
  then show ?case by (simp add: toPair_safe)
qed (auto simp: exact_view_def toFloat_def toDouble_def
    intro!: safe_bind toBool_safe conv_safe toInt_safe toString_safe toHash_safe toBytes_exact_safe container_safe)

text \<open>
  C28. The two ways to read a value agree. On any bytes, \<open>RLP(data).convert<T>(flags)\<close> ends without leaving its
  view, whatever the flags; what it accepts under \<open>Strict\<close> is a value of the type, and the one \<open>fetch\<close>
  reads; and it accepts the encoding of every value of a type with a converter.
\<close>

theorem converter_agrees:
  assumes "wf_view mem d" "wf_type t" "convertible t"
  shows "safe (convert_from t mem d flags) \<and>
    (\<forall>v. convert_from t mem d Strict = Inr v \<longrightarrow> deserialize t mem d = Inr v \<and> has_type t v) \<and>
    (\<forall>v. has_type t v \<and> contents mem d = enc (item_of v) \<longrightarrow> convert_from t mem d Strict = Inr v)"
proof (intro conjI allI impI)
  show "safe (convert_from t mem d flags)"
    unfolding convert_from_def
    by (rule safe_bind [OF rlp_ctor_VeryStrict_safe [OF assms(1)]])
      (simp add: rlp_ctor_VeryStrict_Inr [OF assms(1)] convert_safe)
  fix v
  show de: "deserialize t mem d = Inr v" if "convert_from t mem d Strict = Inr v"
    using that strict_convert_fetch [OF assms(3)] by (auto simp: convert_from_def deserialize_def bind_res_eq_Inr)
  show "has_type t v" if "convert_from t mem d Strict = Inr v"
    using de [OF that] fetch_typedD [OF fetch_has_type [OF assms(2)] has_type_default [OF assms(2)]]
    by (auto simp: deserialize_def bind_res_eq_Inr)
  show "convert_from t mem d Strict = Inr v" if "has_type t v \<and> contents mem d = enc (item_of v)"
  proof -
    have ev: "enc_view mem d (item_of v)" using that assms(1) by (simp add: enc_view_def)
    then have "rlp_ctor mem d VeryStrict = Inr (rlp_fresh d)"
      using enc_view_exact(1) [OF ev] by (simp add: rlp_ctor_VeryStrict_Inr enc_view_def)
    then show ?thesis using convert_enc [OF assms(3) _ ev] that by (simp add: convert_from_def)
  qed
qed

theorem converter_agrees_witness:
  "safe (convert_from (TVector TString) cat_dog (vr_mk 1 9) LaissezFaire) \<and>
   convert_from (TVector TString) cat_dog (vr_mk 1 9) Strict = Inr (VSeq [VString [99, 97, 116], VString [100, 111, 103]]) \<and>
   deserialize (TVector TString) cat_dog (vr_mk 1 9) = Inr (VSeq [VString [99, 97, 116], VString [100, 111, 103]])"
proof -
  let ?v = "VSeq [VString [99, 97, 116], VString [100, 111, 103]]"
  have v: "has_type (TVector TString) ?v" "contents cat_dog (vr_mk 1 9) = enc (item_of ?v)"
    using cat_dog_view by (simp_all add: enc_view_def cat_dog_item_def)
  have "wf_view cat_dog (vr_mk 1 9)" "wf_type (TVector TString)" "convertible (TVector TString)"
    using cat_dog_view by (simp_all add: enc_view_def)
  from converter_agrees [OF this, of LaissezFaire] v show ?thesis by blast
qed

text \<open>The comparison operators: on an item that is no string, or no number, equal and unequal are both false.\<close>

lemma ne_of_non_data:
  "isData mem d = Inr False \<Longrightarrow> ne_string mem d s = Inr False \<and> eq_string mem d s = Inr False"
  "isInt mem d = Inr False \<Longrightarrow> ne_unsigned mem d i = Inr False \<and> eq_unsigned mem d i = Inr False"
  "isInt mem d = Inr False \<Longrightarrow> ne_bigint mem d j = Inr False \<and> eq_bigint mem d j = Inr False"
  by (simp_all add: ne_string_def eq_string_def ne_unsigned_def eq_unsigned_def ne_bigint_def eq_bigint_def)

lemma eq_of_encodings:
  "enc_view mem d (Str bs) \<Longrightarrow> eq_string mem d s = Inr (bs = s)" "enc_view mem d (Str bs) \<Longrightarrow> ne_string mem d s = Inr (bs \<noteq> s)"
  "enc_view mem d (Str bs) \<Longrightarrow> rlp_size_of mem d = Inr (length bs)" "enc_view mem d (Str bs) \<Longrightarrow> sizeStrict mem d = Inr (length bs)"
  "enc_view mem d (Lst xs) \<Longrightarrow> rlp_size_of mem d = Inr 0" "enc_view mem d (Lst xs) \<Longrightarrow> sizeStrict mem d = Inl (Throw ''bad cast'')"
proof -
  have len: "rlp_length mem d = Inr (length bs)" if ev: "enc_view mem d (Str bs)"
  proof -
    obtain p where "wf_view mem p" "contents mem p = bs" "rlp_length mem d = Inr (m_count p)"
      using enc_view_payload [OF ev] by auto
    then show ?thesis using length_contents [of mem p] by simp
  qed
  show "enc_view mem d (Str bs) \<Longrightarrow> eq_string mem d s = Inr (bs = s)"
    "enc_view mem d (Str bs) \<Longrightarrow> ne_string mem d s = Inr (bs \<noteq> s)"
    "enc_view mem d (Str bs) \<Longrightarrow> rlp_size_of mem d = Inr (length bs)"
    "enc_view mem d (Str bs) \<Longrightarrow> sizeStrict mem d = Inr (length bs)"
    by (simp_all add: eq_string_def ne_string_def rlp_size_of_def sizeStrict_def enc_view_kind(1) toString_enc len)
  show "enc_view mem d (Lst xs) \<Longrightarrow> rlp_size_of mem d = Inr 0"
    "enc_view mem d (Lst xs) \<Longrightarrow> sizeStrict mem d = Inl (Throw ''bad cast'')"
    by (simp_all add: rlp_size_of_def sizeStrict_def enc_view_kind(3))
qed

end
