(* ===== verification/Storage.thy ===== *)
theory Storage
  imports RLP_Roundtrip
begin

text \<open>
  Model of \<open>platonlib/include/platon/storage.hpp\<close>: typed access to the state of the contract.
  The state itself belongs to the chain: its three functions are the record \<open>chain_host\<close>, over
  an arbitrary type of states, and \<open>chain_host_ok\<close> states what the library relies on. The
  lemmas turn the state into a map from keys to values, which is the interface the storage
  classes are built on.
\<close>

section \<open>Host functions\<close>

text \<open>\<open>platon_get_state\<close> fills a buffer of the given size; \<open>None\<close> is the result \<open>-1\<close>.\<close>

record 's chain_host =
  rlp_h :: rlp_host
  platon_set_state :: "'s \<Rightarrow> bytes \<Rightarrow> bytes \<Rightarrow> 's"
  platon_get_state_length :: "'s \<Rightarrow> bytes \<Rightarrow> nat"
  platon_get_state :: "'s \<Rightarrow> bytes \<Rightarrow> nat \<Rightarrow> bytes option"

definition chain_host_ok :: "'s chain_host \<Rightarrow> bool" where
  "chain_host_ok H \<longleftrightarrow> rlp_host_ok (rlp_h H) \<and>
     (\<forall>s k v k'. k' \<noteq> k \<longrightarrow>
        platon_get_state_length H (platon_set_state H s k v) k' = platon_get_state_length H s k' \<and>
        platon_get_state H (platon_set_state H s k v) k' = platon_get_state H s k') \<and>
     (\<forall>s k v. platon_get_state_length H (platon_set_state H s k v) k = length v \<and>
        platon_get_state H (platon_set_state H s k v) k (length v) = Some v)"

section \<open>Operations\<close>

definition value_prefix :: byte where
  "value_prefix = 254"

definition state_key :: "'s chain_host \<Rightarrow> cval \<Rightarrow> bytes res" where
  "state_key H key = bind_res (put (rlp_h H) stream_empty key) stream_out"

definition set_state :: "'s chain_host \<Rightarrow> 's \<Rightarrow> cval \<Rightarrow> cval \<Rightarrow> 's res" where
  "set_state H s key val =
     bind_res (pack_size key) (\<lambda>key_size.
     bind_res (stream_reserve stream_empty key_size) (\<lambda>state_stream.
     bind_res (put (rlp_h H) state_stream key) (\<lambda>state_stream1.
     bind_res (stream_out state_stream1) (\<lambda>vect_key.
     bind_res (pack_size val) (\<lambda>value_size.
     bind_res (appendPrefix stream_empty [value_prefix]) (\<lambda>value_stream.
     bind_res (stream_reserve value_stream ((1 + value_size) mod 2 ^ 32)) (\<lambda>value_stream1.
     bind_res (put (rlp_h H) value_stream1 val) (\<lambda>value_stream2.
     bind_res (stream_out value_stream2) (\<lambda>vect_value.
       Inr (platon_set_state H s vect_key vect_value))))))))))"

text \<open>
  The result vector is placed at address 1 of an otherwise empty memory; the view skips the
  prefix byte. The number returned is the length of the data, 0 when there is none.
\<close>

definition get_state :: "cty \<Rightarrow> 's chain_host \<Rightarrow> 's \<Rightarrow> cval \<Rightarrow> cval \<Rightarrow> (nat \<times> cval) res" where
  "get_state t H s key tgt =
     bind_res (state_key H key) (\<lambda>vect_key.
       let len = platon_get_state_length H s vect_key in
       if len = 0 then Inr (0, tgt)
       else case platon_get_state H s vect_key len of
         None \<Rightarrow> Inr (0, tgt)
       | Some result \<Rightarrow>
           bind_res (rlp_ctor (0 # result) (vr_mk (1 + 1) (length result - 1)) VeryStrict) (\<lambda>r.
           bind_res (fetch t (0 # result) r tgt) (\<lambda>v. Inr (len, v))))"

definition del_state :: "'s chain_host \<Rightarrow> 's \<Rightarrow> cval \<Rightarrow> 's res" where
  "del_state H s key =
     bind_res (state_key H key) (\<lambda>vect_key. Inr (platon_set_state H s vect_key []))"

definition has_state :: "'s chain_host \<Rightarrow> 's \<Rightarrow> cval \<Rightarrow> bool res" where
  "has_state H s key =
     bind_res (state_key H key) (\<lambda>vect_key. Inr (platon_get_state_length H s vect_key \<noteq> 0))"

section \<open>What the operations do to the state\<close>

definition key_bytes :: "cval \<Rightarrow> bytes" where
  "key_bytes k = enc (item_of k)"

definition value_bytes :: "cval \<Rightarrow> bytes" where
  "value_bytes v = value_prefix # enc (item_of v)"

text \<open>Values small enough to be written and read back within the memory of a module.\<close>

definition fits :: "cval \<Rightarrow> bool" where
  "fits v \<longleftrightarrow> item_len v < 2 ^ 31 - 2"

lemma pack_size_total: "\<exists>n < 2 ^ 32. pack_size v = Inr n"
  using size_put_total(1) [of size_empty v]
  by (auto simp: pack_size_def size_wf_def size_empty_def)

lemma put_out:
  assumes h: "rlp_host_ok h" and rel: "stream_rel rs (ts_empty\<lparr>ts_prefix := pre\<rparr>)"
    and n: "length pre + item_len v < 2 ^ 32"
  shows "\<exists>rs'. put h rs v = Inr rs' \<and> stream_out rs' = Inr (pre @ enc (item_of v))"
proof -
  let ?ts = "ts_empty\<lparr>ts_prefix := pre\<rparr>"
  let ?ts' = "?ts\<lparr>ts_done := [item_of v]\<rparr>"
  have "ts_add ?ts [item_of v] = Some ?ts'" by (simp add: ts_add_def ts_empty_def)
  moreover have "ts_size ?ts' < 2 ^ 32" using n by (simp add: ts_size_def ts_empty_def item_len_def)
  ultimately obtain rs' where "put h rs v = Inr rs'" "stream_rel rs' ?ts'"
    using put_specD [OF put_ok [OF h] rel] by blast
  then show ?thesis using stream_out_ok [of rs' ?ts'] by (simp add: ts_empty_def)
qed

lemma ts_empty_prefix [simp]: "ts_empty\<lparr>ts_prefix := []\<rparr> = ts_empty"
  by (simp add: ts_empty_def)

text \<open>Reserving the packed size first, as most callers do, changes nothing.\<close>

lemma pack_out:
  assumes h: "rlp_host_ok h" and n: "item_len v < 2 ^ 32"
  shows "bind_res (pack_size v) (\<lambda>n. bind_res (stream_reserve stream_empty n) (\<lambda>stream.
      bind_res (put h stream v) stream_out)) = Inr (enc (item_of v))"
proof -
  obtain k where k: "pack_size v = Inr k" "k < 2 ^ 32" using pack_size_total by blast
  obtain r where r: "stream_reserve stream_empty k = Inr r" "stream_rel r ts_empty"
    using stream_reserve_ok [OF stream_rel_empty k(2)] by blast
  then obtain r' where "put h r v = Inr r'" "stream_out r' = Inr (enc (item_of v))"
    using put_out [OF h, of r "[]" v] n by auto
  with k r show ?thesis by simp
qed

lemma state_key_ok:
  assumes "chain_host_ok H" "fits k"
  shows "state_key H k = Inr (key_bytes k)"
  using put_out [of "rlp_h H" stream_empty "[]" k] assms stream_rel_empty
  by (auto simp: state_key_def key_bytes_def fits_def chain_host_ok_def)

lemma set_state_ok:
  assumes ok: "chain_host_ok H" and k: "fits k" and v: "fits v"
  shows "set_state H s k v = Inr (platon_set_state H s (key_bytes k) (value_bytes v))"
proof -
  have h: "rlp_host_ok (rlp_h H)" using ok by (simp add: chain_host_ok_def)
  obtain ks where ks: "pack_size k = Inr ks" "ks < 2 ^ 32" using pack_size_total by blast
  obtain vs where vs: "pack_size v = Inr vs" using pack_size_total by blast
  obtain r1 where r1: "stream_reserve stream_empty ks = Inr r1" "stream_rel r1 ts_empty"
    using stream_reserve_ok [OF stream_rel_empty ks(2)] by blast
  obtain r2 where r2: "put (rlp_h H) r1 k = Inr r2" "stream_out r2 = Inr (key_bytes k)"
    using put_out [OF h, of r1 "[]" k] r1 k by (auto simp: key_bytes_def fits_def)
  obtain v1 where v1: "appendPrefix stream_empty [value_prefix] = Inr v1"
    "stream_rel v1 (ts_empty\<lparr>ts_prefix := [value_prefix]\<rparr>)"
    using appendPrefix_ok [OF stream_rel_empty, of "[value_prefix]"] by (auto simp: ts_empty_def ts_size_def)
  obtain v2 where v2: "stream_reserve v1 ((1 + vs) mod 2 ^ 32) = Inr v2"
    "stream_rel v2 (ts_empty\<lparr>ts_prefix := [value_prefix]\<rparr>)"
    using stream_reserve_ok [OF v1(2), of "(1 + vs) mod 2 ^ 32"] by auto
  obtain v3 where v3: "put (rlp_h H) v2 v = Inr v3" "stream_out v3 = Inr (value_bytes v)"
    using put_out [OF h v2(2), of v] v by (auto simp: value_bytes_def fits_def)
  show ?thesis using ks vs r1 r2 v1 v2 v3 by (simp add: set_state_def)
qed

lemma del_state_ok:
  "chain_host_ok H \<Longrightarrow> fits k \<Longrightarrow> del_state H s k = Inr (platon_set_state H s (key_bytes k) [])"
  by (simp add: del_state_def state_key_ok)

text \<open>The entry of a key: nothing, or a value of the type behind the prefix byte.\<close>

definition entry_is :: "'s chain_host \<Rightarrow> 's \<Rightarrow> cval \<Rightarrow> cval option \<Rightarrow> bool" where
  "entry_is H s k e \<longleftrightarrow> (case e of
     None \<Rightarrow> platon_get_state_length H s (key_bytes k) = 0
   | Some v \<Rightarrow> platon_get_state_length H s (key_bytes k) = length (value_bytes v) \<and>
       platon_get_state H s (key_bytes k) (length (value_bytes v)) = Some (value_bytes v))"

lemma value_view:
  assumes "fits v"
  shows "enc_view (0 # value_bytes v) (vr_mk 2 (length (value_bytes v) - 1)) (item_of v)"
  using assms
  by (simp add: enc_view_def wf_view_def contents_def seg_def value_bytes_def fits_def item_len_def)

text \<open>
  The variable that is read into may hold anything a fresh variable of its type can: it is left as
  it is when there is no entry, and has no influence on the value otherwise.
\<close>

lemma get_state_from:
  assumes ok: "chain_host_ok H" and k: "fits k" and e: "entry_is H s k e" and g: "starts_as t g"
    and v: "\<And>v. e = Some v \<Longrightarrow> has_type t v \<and> fits v"
  shows "get_state t H s k g = Inr (case e of None \<Rightarrow> (0, g) | Some v \<Rightarrow> (length (value_bytes v), v))"
proof (cases e)
  case None
  then show ?thesis using e by (simp add: get_state_def state_key_ok [OF ok k] entry_is_def)
next
  case (Some v)
  then have ty: "has_type t v" and ev: "enc_view (0 # value_bytes v) (vr_mk 2 (length (value_bytes v) - 1)) (item_of v)"
    using v value_view by auto
  have "rlp_ctor (0 # value_bytes v) (vr_mk 2 (length (value_bytes v) - 1)) VeryStrict =
      Inr (rlp_fresh (vr_mk 2 (length (value_bytes v) - 1)))"
    using enc_view_exact(1) [OF ev] ev by (simp add: rlp_ctor_VeryStrict_Inr enc_view_def)
  moreover have "length (value_bytes v) \<noteq> 0" by (simp add: value_bytes_def)
  ultimately show ?thesis
    using e Some fetch_enc [OF ty ev] start_freeD [OF fetch_start g]
    by (simp add: get_state_def state_key_ok [OF ok k] entry_is_def numeral_2_eq_2)
qed

lemmas get_state_ok = get_state_from [OF _ _ _ starts_default]

lemma has_state_ok:
  assumes "chain_host_ok H" "fits k" "entry_is H s k e"
  shows "has_state H s k = Inr (e \<noteq> None)"
  using assms
  by (auto simp: has_state_def state_key_ok entry_is_def value_bytes_def split: option.splits)

lemma entry_is_set:
  assumes "chain_host_ok H"
  shows "entry_is H (platon_set_state H s (key_bytes k) (value_bytes v)) k (Some v)"
    and "entry_is H (platon_set_state H s (key_bytes k) []) k None"
    and "key_bytes k' \<noteq> key_bytes k \<Longrightarrow>
           entry_is H (platon_set_state H s (key_bytes k) bs) k' e \<longleftrightarrow> entry_is H s k' e"
  using assms by (auto simp: entry_is_def chain_host_ok_def split: option.splits)

text \<open>Keys of one type are told apart by their encoding.\<close>

lemma key_bytes_inj:
  assumes "has_type t a" "has_type t b" "fits a" "key_bytes a = key_bytes b"
  shows "a = b"
proof -
  let ?mem = "0 # key_bytes a" and ?d = "vr_mk 1 (length (key_bytes a))"
  have "enc_view ?mem ?d (item_of a)" "enc_view ?mem ?d (item_of b)"
    using assms(3,4)
    by (simp_all add: enc_view_def wf_view_def contents_def seg_def key_bytes_def fits_def item_len_def)
  then show ?thesis using fetch_enc assms(1,2) by (metis Inr_inject)
qed

section \<open>The interface of the storage classes\<close>

text \<open>
  The four functions as the storage classes instantiate them: keys of one type, values of
  another. A class that is built on them takes them as a record.
\<close>

record 's store_ops =
  op_set :: "'s \<Rightarrow> cval \<Rightarrow> cval \<Rightarrow> 's res"
  op_get :: "'s \<Rightarrow> cval \<Rightarrow> cval \<Rightarrow> (nat \<times> cval) res"
  op_del :: "'s \<Rightarrow> cval \<Rightarrow> 's res"
  op_has :: "'s \<Rightarrow> cval \<Rightarrow> bool res"

definition state_ops :: "cty \<Rightarrow> 's chain_host \<Rightarrow> 's store_ops" where
  "state_ops t H =
     \<lparr>op_set = set_state H, op_get = get_state t H, op_del = del_state H, op_has = has_state H\<rparr>"

text \<open>
  What a storage class relies on: under a representation relation the functions behave as update,
  lookup, deletion and membership of a partial map. A lookup that finds nothing leaves the
  variable as it was; \<open>ini\<close> says what variables may hold before.
\<close>

locale kv_store =
  fixes ops :: "'s store_ops"
    and okk :: "cval \<Rightarrow> bool"
    and okv :: "cval \<Rightarrow> bool"
    and ini :: "cval \<Rightarrow> bool"
    and repr :: "'s \<Rightarrow> (cval \<rightharpoonup> cval) \<Rightarrow> bool"
  assumes set_law: "repr s M \<Longrightarrow> okk k \<Longrightarrow> okv v \<Longrightarrow>
      \<exists>s'. op_set ops s k v = Inr s' \<and> repr s' (M(k \<mapsto> v))"
    and del_law: "repr s M \<Longrightarrow> okk k \<Longrightarrow> \<exists>s'. op_del ops s k = Inr s' \<and> repr s' (M(k := None))"
    and get_law: "repr s M \<Longrightarrow> okk k \<Longrightarrow> ini g \<Longrightarrow>
      \<exists>n. op_get ops s k g = Inr (n, case M k of None \<Rightarrow> g | Some v \<Rightarrow> v) \<and> (n = 0 \<longleftrightarrow> M k = None)"
    and has_law: "repr s M \<Longrightarrow> okk k \<Longrightarrow> op_has ops s k = Inr (M k \<noteq> None)"
    and val_law: "repr s M \<Longrightarrow> M k = Some v \<Longrightarrow> okv v"
    and ini_law: "ini g \<Longrightarrow> okv g"
begin

lemma get_value:
  assumes "repr s M" "okk k" "ini g"
  shows "bind_res (op_get ops s k g) (\<lambda>(n, v). Inr v) = Inr (case M k of None \<Rightarrow> g | Some v \<Rightarrow> v)"
  using get_law [OF assms] by auto

lemma get_ok_value: "repr s M \<Longrightarrow> ini g \<Longrightarrow> okv (case M k of None \<Rightarrow> g | Some v \<Rightarrow> v)"
  using val_law [of s M k] ini_law by (auto split: option.splits)

text \<open>A write followed by a read of the same key, and of another key.\<close>

lemma set_get:
  assumes "repr s M" "okk k" "okv v" "okk k'" "ini g"
  shows "\<exists>s'. op_set ops s k v = Inr s' \<and>
    bind_res (op_get ops s' k' g) (\<lambda>(n, v). Inr v) =
      (if k' = k then Inr v else bind_res (op_get ops s k' g) (\<lambda>(n, v). Inr v))"
proof -
  obtain s' where "op_set ops s k v = Inr s'" "repr s' (M(k \<mapsto> v))" using set_law [OF assms(1-3)] by blast
  then show ?thesis using get_value [of s' "M(k \<mapsto> v)" k' g] get_value [OF assms(1,4,5)] assms(4,5) by simp
qed

end

definition typed :: "cty \<Rightarrow> cval \<Rightarrow> bool" where
  "typed t v \<longleftrightarrow> has_type t v \<and> fits v"

text \<open>What a fresh variable of a type may hold, within the bound on sizes.\<close>

definition local_ok :: "cty \<Rightarrow> cval \<Rightarrow> bool" where
  "local_ok t g \<longleftrightarrow> starts_as t g \<and> typed t g"

lemma local_default: "typed t (default_val t) \<Longrightarrow> local_ok t (default_val t)"
  by (simp add: local_ok_def)

text \<open>The host answers for every key outside \<open>B\<close>, whatever it is the key of, as it did before.\<close>

definition untouched :: "'s chain_host \<Rightarrow> bytes set \<Rightarrow> 's \<Rightarrow> 's \<Rightarrow> bool" where
  "untouched H B s s' \<longleftrightarrow> (\<forall>kb. kb \<notin> B \<longrightarrow>
     platon_get_state_length H s' kb = platon_get_state_length H s kb \<and>
     platon_get_state H s' kb = platon_get_state H s kb)"

lemma untouched_refl [simp]: "untouched H B s s"
  by (simp add: untouched_def)

lemma untouched_set:
  assumes "chain_host_ok H" "kb \<in> B"
  shows "untouched H B s0 (platon_set_state H s kb bs) \<longleftrightarrow> untouched H B s0 s"
proof -
  have "platon_get_state_length H (platon_set_state H s kb bs) k' = platon_get_state_length H s k' \<and>
      platon_get_state H (platon_set_state H s kb bs) k' = platon_get_state H s k'" if "k' \<notin> B" for k'
    using assms that by (metis chain_host_ok_def)
  then show ?thesis by (auto simp: untouched_def)
qed

text \<open>
  The state \<open>s\<close> holds the partial map \<open>M\<close> under the keys of one storage object (\<open>K\<close>), with values of
  its type, and under every other key what the state \<open>s0\<close> held.
\<close>

definition store_repr ::
  "'s chain_host \<Rightarrow> (cval \<Rightarrow> bool) \<Rightarrow> cty \<Rightarrow> 's \<Rightarrow> 's \<Rightarrow> (cval \<rightharpoonup> cval) \<Rightarrow> bool" where
  "store_repr H K vt s0 s M \<longleftrightarrow> (\<forall>k. K k \<longrightarrow> entry_is H s k (M k)) \<and>
     (\<forall>k v. M k = Some v \<longrightarrow> K k \<and> typed vt v) \<and> untouched H (key_bytes ` Collect K) s0 s"

text \<open>The functions of \<open>storage.hpp\<close> keep that promise, on every chain that keeps its own.\<close>

locale typed_state =
  fixes H :: "'s chain_host" and K :: "cval \<Rightarrow> bool" and kt :: cty and vt :: cty
  assumes host: "chain_host_ok H" and keys: "K k \<Longrightarrow> typed kt k"

sublocale typed_state \<subseteq> kv_store "state_ops vt H" K "typed vt" "local_ok vt" "store_repr H K vt s0" for s0
proof unfold_locales
  fix s M k v g
  assume r: "store_repr H K vt s0 s M" and k: "K k"
  have fk: "fits k" using keys [OF k] by (simp add: typed_def)
  have other: "key_bytes k' \<noteq> key_bytes k" if "K k'" "k' \<noteq> k" for k'
    using that keys [OF k] keys [OF that(1)] key_bytes_inj [of kt k' k] by (auto simp: typed_def)
  have ut: "untouched H (key_bytes ` Collect K) s0 (platon_set_state H s (key_bytes k) bs)" for bs
    using r k by (subst untouched_set [OF host]) (auto simp: store_repr_def)
  show "\<exists>s'. op_set (state_ops vt H) s k v = Inr s' \<and> store_repr H K vt s0 s' (M(k \<mapsto> v))"
    if "typed vt v"
    using r k that other ut set_state_ok [OF host fk, of v s] entry_is_set [OF host]
    by (auto simp: state_ops_def store_repr_def typed_def)
  show "\<exists>s'. op_del (state_ops vt H) s k = Inr s' \<and> store_repr H K vt s0 s' (M(k := None))"
    using r k other ut del_state_ok [OF host fk, of s] entry_is_set [OF host]
    by (auto simp: state_ops_def store_repr_def)
  show "\<exists>n. op_get (state_ops vt H) s k g =
      Inr (n, case M k of None \<Rightarrow> g | Some v \<Rightarrow> v) \<and> (n = 0 \<longleftrightarrow> M k = None)" if "local_ok vt g"
    using get_state_from [OF host fk, of s "M k" vt g] r k that
    by (auto simp: state_ops_def store_repr_def typed_def local_ok_def value_bytes_def split: option.splits)
  show "op_has (state_ops vt H) s k = Inr (M k \<noteq> None)"
    using has_state_ok [OF host fk, of s "M k"] r k by (simp add: state_ops_def store_repr_def)
next
  fix s M k v
  assume "store_repr H K vt s0 s M" "M k = Some v"
  then show "typed vt v" by (simp add: store_repr_def)
next
  show "local_ok vt g \<Longrightarrow> typed vt g" for g by (simp add: local_ok_def)
qed

section \<open>A chain that keeps its promise\<close>

text \<open>States are total functions from keys to byte strings, empty where nothing is stored.\<close>

definition model_chain :: "(bytes \<Rightarrow> bytes) chain_host" where
  "model_chain =
     \<lparr>rlp_h = model_host, platon_set_state = (\<lambda>s k v. s(k := v)),
      platon_get_state_length = (\<lambda>s k. length (s k)),
      platon_get_state = (\<lambda>s k n. if length (s k) \<le> n then Some (s k) else None)\<rparr>"

lemma model_chain_ok: "chain_host_ok model_chain"
  by (auto simp: chain_host_ok_def model_chain_def model_host_ok)

interpretation u64_state: typed_state model_chain "typed (TU W64)" "TU W64" "TU W64"
  by unfold_locales (simp_all add: model_chain_ok)

lemma entry_empty: "entry_is model_chain (\<lambda>k. []) k None"
  by (simp add: entry_is_def model_chain_def)

end
