(* ===== verification/Db_Map.thy ===== *)
theory Db_Map
  imports Storage
begin

text \<open>
  Model of \<open>platonlib/include/platon/db/map.hpp\<close>: the class \<open>db::Map\<close>, a cache of entries and a
  set of modified keys in front of the contract state. The lemmas show that a client that does
  not touch erased keys sees a map, and that the state holds that map after \<open>flush\<close>.
\<close>

section \<open>The class\<close>

definition KeyWrapper :: "64 word \<Rightarrow> cval \<Rightarrow> cval" where
  "KeyWrapper name k = VStruct [VUInt (ucast name), k]"

record db_map =
  map_cache :: "cval \<rightharpoonup> cval"
  map_modify :: "cval list"
  map_keyPrefix :: "64 word"

definition map_ctor :: "64 word \<Rightarrow> db_map" where
  "map_ctor name = \<lparr>map_cache = Map.empty, map_modify = [], map_keyPrefix = name\<rparr>"

definition db_insert :: "db_map \<Rightarrow> cval \<Rightarrow> cval \<Rightarrow> bool \<times> db_map" where
  "db_insert m k v =
     (True, m\<lparr>map_cache := (map_cache m)(k \<mapsto> v), map_modify := set_insert k (map_modify m)\<rparr>)"

definition db_insert_const ::
  "'s store_ops \<Rightarrow> 's \<Rightarrow> db_map \<Rightarrow> cval \<Rightarrow> cval \<Rightarrow> (bool \<times> 's \<times> db_map) res" where
  "db_insert_const ops s m k v =
     (let m1 = (if map_cache m k \<noteq> None then m\<lparr>map_cache := (map_cache m)(k \<mapsto> v)\<rparr> else m) in
      bind_res (op_set ops s (KeyWrapper (map_keyPrefix m) k) v) (\<lambda>s'. Inr (True, s', m1)))"

text \<open>
  \<open>g\<close> is what the local variable \<open>Value v;\<close> holds before \<open>get_state\<close>, which leaves it alone when the
  state has no entry: the default of a class type, an indeterminate value of a scalar type.
\<close>

definition db_get_const :: "'s store_ops \<Rightarrow> cval \<Rightarrow> 's \<Rightarrow> db_map \<Rightarrow> cval \<Rightarrow> cval res" where
  "db_get_const ops g s m k = (case map_cache m k of
     Some v \<Rightarrow> Inr v
   | None \<Rightarrow> bind_res (op_get ops s (KeyWrapper (map_keyPrefix m) k) g) (\<lambda>(n, v). Inr v))"

definition db_at :: "'s store_ops \<Rightarrow> cval \<Rightarrow> 's \<Rightarrow> db_map \<Rightarrow> cval \<Rightarrow> (cval \<times> db_map) res" where
  "db_at ops g s m k = (case map_cache m k of
     Some v \<Rightarrow> Inr (v, m)
   | None \<Rightarrow> bind_res (op_get ops s (KeyWrapper (map_keyPrefix m) k) g) (\<lambda>(n, v).
       Inr (v, m\<lparr>map_cache := (map_cache m)(k \<mapsto> v), map_modify := set_insert k (map_modify m)\<rparr>)))"

text \<open>\<open>map[k] = v\<close>: an assignment through the reference that \<open>operator[]\<close> returns.\<close>

definition db_assign :: "'s store_ops \<Rightarrow> cval \<Rightarrow> 's \<Rightarrow> db_map \<Rightarrow> cval \<Rightarrow> cval \<Rightarrow> db_map res" where
  "db_assign ops g s m k v =
     bind_res (db_at ops g s m k) (\<lambda>(old, m'). Inr (m'\<lparr>map_cache := (map_cache m')(k \<mapsto> v)\<rparr>))"

definition db_erase :: "db_map \<Rightarrow> cval \<Rightarrow> db_map" where
  "db_erase m k =
     m\<lparr>map_cache := (map_cache m)(k := None), map_modify := set_insert k (map_modify m)\<rparr>"

definition db_contains :: "'s store_ops \<Rightarrow> 's \<Rightarrow> db_map \<Rightarrow> cval \<Rightarrow> bool res" where
  "db_contains ops s m key =
     (if map_cache m key \<noteq> None then Inr True
      else if key \<in> set (map_modify m) then Inr False
      else op_has ops s (KeyWrapper (map_keyPrefix m) key))"

fun db_flush_loop :: "'s store_ops \<Rightarrow> db_map \<Rightarrow> 's \<Rightarrow> cval list \<Rightarrow> 's res" where
  "db_flush_loop ops m s [] = Inr s"
| "db_flush_loop ops m s (k # ks) =
     bind_res (case map_cache m k of
         Some v \<Rightarrow> op_set ops s (KeyWrapper (map_keyPrefix m) k) v
       | None \<Rightarrow> op_del ops s (KeyWrapper (map_keyPrefix m) k))
       (\<lambda>s'. db_flush_loop ops m s' ks)"

definition db_flush :: "'s store_ops \<Rightarrow> 's \<Rightarrow> db_map \<Rightarrow> 's res" where
  "db_flush ops s m = db_flush_loop ops m s (map_modify m)"

section \<open>Clients\<close>

text \<open>A client is a sequence of calls; each call yields what the client observes.\<close>

datatype map_call =
  MInsert cval cval | MInsertConst cval cval | MGetConst cval | MAt cval | MAssign cval cval
| MErase cval | MContains cval | MFlush

datatype map_obs = ODone | OBool bool | OVal cval

text \<open>Each call comes with what its local variable starts as.\<close>

fun map_step ::
  "'s store_ops \<Rightarrow> cval \<Rightarrow> 's \<times> db_map \<Rightarrow> map_call \<Rightarrow> (map_obs \<times> 's \<times> db_map) res" where
  "map_step ops g (s, m) (MInsert k v) = (case db_insert m k v of (b, m') \<Rightarrow> Inr (OBool b, s, m'))"
| "map_step ops g (s, m) (MInsertConst k v) =
     bind_res (db_insert_const ops s m k v) (\<lambda>(b, s', m'). Inr (OBool b, s', m'))"
| "map_step ops g (s, m) (MGetConst k) =
     bind_res (db_get_const ops g s m k) (\<lambda>v. Inr (OVal v, s, m))"
| "map_step ops g (s, m) (MAt k) =
     bind_res (db_at ops g s m k) (\<lambda>(v, m'). Inr (OVal v, s, m'))"
| "map_step ops g (s, m) (MAssign k v) =
     bind_res (db_assign ops g s m k v) (\<lambda>m'. Inr (ODone, s, m'))"
| "map_step ops g (s, m) (MErase k) = Inr (ODone, s, db_erase m k)"
| "map_step ops g (s, m) (MContains k) =
     bind_res (db_contains ops s m k) (\<lambda>b. Inr (OBool b, s, m))"
| "map_step ops g (s, m) MFlush = bind_res (db_flush ops s m) (\<lambda>s'. Inr (ODone, s', m))"

fun map_run ::
  "'s store_ops \<Rightarrow> 's \<times> db_map \<Rightarrow> (cval \<times> map_call) list \<Rightarrow> (map_obs list \<times> 's \<times> db_map) res" where
  "map_run ops st [] = Inr ([], st)"
| "map_run ops st ((g, c) # cs) =
     bind_res (map_step ops g st c) (\<lambda>(x, st').
     bind_res (map_run ops st' cs) (\<lambda>(xs, st''). Inr (x # xs, st'')))"

text \<open>The object's life: construction, the calls, and the destructor, which flushes.\<close>

definition map_session ::
  "'s store_ops \<Rightarrow> 64 word \<Rightarrow> 's \<Rightarrow> (cval \<times> map_call) list \<Rightarrow> (map_obs list \<times> 's) res" where
  "map_session ops name s cs =
     bind_res (map_run ops (s, map_ctor name) cs) (\<lambda>(xs, s', m).
     bind_res (db_flush ops s' m) (\<lambda>s''. Inr (xs, s'')))"

section \<open>The abstract map\<close>

text \<open>Reading a key that the map lacks shows, and \<open>at\<close> stores, what the local variable started as.\<close>

definition at_or :: "cval \<Rightarrow> (cval \<rightharpoonup> cval) \<Rightarrow> cval \<Rightarrow> cval" where
  "at_or g A k = (case A k of None \<Rightarrow> g | Some v \<Rightarrow> v)"

fun spec_step :: "cval \<Rightarrow> (cval \<rightharpoonup> cval) \<Rightarrow> map_call \<Rightarrow> map_obs \<times> (cval \<rightharpoonup> cval)" where
  "spec_step g A (MInsert k v) = (OBool True, A(k \<mapsto> v))"
| "spec_step g A (MInsertConst k v) = (OBool True, A(k \<mapsto> v))"
| "spec_step g A (MGetConst k) = (OVal (at_or g A k), A)"
| "spec_step g A (MAt k) = (OVal (at_or g A k), A(k \<mapsto> at_or g A k))"
| "spec_step g A (MAssign k v) = (ODone, A(k \<mapsto> v))"
| "spec_step g A (MErase k) = (ODone, A(k := None))"
| "spec_step g A (MContains k) = (OBool (A k \<noteq> None), A)"
| "spec_step g A MFlush = (ODone, A)"

fun spec_run :: "(cval \<rightharpoonup> cval) \<Rightarrow> (cval \<times> map_call) list \<Rightarrow> map_obs list \<times> (cval \<rightharpoonup> cval)" where
  "spec_run A [] = ([], A)"
| "spec_run A ((g, c) # cs) =
     (case spec_step g A c of (x, A') \<Rightarrow> case spec_run A' cs of (xs, A'') \<Rightarrow> (x # xs, A''))"

text \<open>
  The discipline under which the class is a map: between \<open>erase(k)\<close> and the next \<open>flush\<close> the key
  is not read, and after \<open>erase(k)\<close> it comes back by \<open>insert\<close>, not by \<open>insert_const\<close>. \<open>S\<close> holds
  the keys erased since the last flush, \<open>E\<close> all keys erased and not inserted since.
\<close>

fun disc_ok :: "cval set \<Rightarrow> cval set \<Rightarrow> map_call \<Rightarrow> bool" where
  "disc_ok S E (MInsertConst k v) = (k \<notin> E)"
| "disc_ok S E (MGetConst k) = (k \<notin> S)"
| "disc_ok S E (MAt k) = (k \<notin> S)"
| "disc_ok S E c = True"

fun disc_next :: "cval set \<Rightarrow> cval set \<Rightarrow> map_call \<Rightarrow> cval set \<times> cval set" where
  "disc_next S E (MInsert k v) = (S - {k}, E - {k})"
| "disc_next S E (MAssign k v) = (S - {k}, E - {k})"
| "disc_next S E (MAt k) = (S - {k}, E - {k})"
| "disc_next S E (MErase k) = (insert k S, insert k E)"
| "disc_next S E MFlush = ({}, E)"
| "disc_next S E c = (S, E)"

fun disciplined :: "cval set \<Rightarrow> cval set \<Rightarrow> map_call list \<Rightarrow> bool" where
  "disciplined S E [] = True"
| "disciplined S E (c # cs) =
     (disc_ok S E c \<and> (case disc_next S E c of (S', E') \<Rightarrow> disciplined S' E' cs))"

fun call_ok :: "(cval \<Rightarrow> bool) \<Rightarrow> (cval \<Rightarrow> bool) \<Rightarrow> map_call \<Rightarrow> bool" where
  "call_ok okk okv (MInsert k v) = (okk k \<and> okv v)"
| "call_ok okk okv (MInsertConst k v) = (okk k \<and> okv v)"
| "call_ok okk okv (MGetConst k) = okk k"
| "call_ok okk okv (MAt k) = okk k"
| "call_ok okk okv (MAssign k v) = (okk k \<and> okv v)"
| "call_ok okk okv (MErase k) = okk k"
| "call_ok okk okv (MContains k) = okk k"
| "call_ok okk okv MFlush = True"

section \<open>The map over any store\<close>

lemma KeyWrapper_inj [simp]: "KeyWrapper n a = KeyWrapper n b \<longleftrightarrow> a = b"
  by (simp add: KeyWrapper_def)

text \<open>What the client of one table sees: the entries under its prefix.\<close>

definition table :: "64 word \<Rightarrow> (cval \<rightharpoonup> cval) \<Rightarrow> (cval \<rightharpoonup> cval)" where
  "table name M = (\<lambda>k. M (KeyWrapper name k))"

lemma table_upd [simp]:
  "table name (M(KeyWrapper name k \<mapsto> v)) = (table name M)(k \<mapsto> v)"
  "table name (M(KeyWrapper name k := None)) = (table name M)(k := None)"
  by (auto simp: table_def)

definition map_view :: "db_map \<Rightarrow> (cval \<rightharpoonup> cval) \<Rightarrow> (cval \<rightharpoonup> cval)" where
  "map_view m M = (\<lambda>k. case map_cache m k of Some v \<Rightarrow> Some v
     | None \<Rightarrow> if k \<in> set (map_modify m) then None else table (map_keyPrefix m) M k)"

definition map_inv :: "64 word \<Rightarrow> (cval \<Rightarrow> bool) \<Rightarrow> (cval \<Rightarrow> bool) \<Rightarrow> db_map \<Rightarrow> bool" where
  "map_inv name okey okv m \<longleftrightarrow> map_keyPrefix m = name \<and> (\<forall>k \<in> set (map_modify m). okey k) \<and>
     dom (map_cache m) \<subseteq> set (map_modify m) \<and> (\<forall>k v. map_cache m k = Some v \<longrightarrow> okv v)"

text \<open>What is erased is known, and only what was erased since the last flush can be stale.\<close>

definition erased_ok :: "db_map \<Rightarrow> (cval \<rightharpoonup> cval) \<Rightarrow> cval set \<Rightarrow> cval set \<Rightarrow> bool" where
  "erased_ok m T S E \<longleftrightarrow> (\<forall>k \<in> set (map_modify m). map_cache m k = None \<longrightarrow>
     k \<in> E \<and> (T k \<noteq> None \<longrightarrow> k \<in> S))"

locale kv_map = kv_store ops okk okv ini repr
  for ops :: "'s store_ops" and okk okv ini :: "cval \<Rightarrow> bool"
    and repr :: "'s \<Rightarrow> (cval \<rightharpoonup> cval) \<Rightarrow> bool" +
  fixes name :: "64 word" and okey :: "cval \<Rightarrow> bool"
  assumes wrap_ok: "okey k \<Longrightarrow> okk (KeyWrapper name k)"
    and key_total: "okey a \<Longrightarrow> okey b \<Longrightarrow> less_cval a b \<or> less_cval b a \<or> a = b"
begin

lemma set_modify [simp]:
  "map_inv name okey okv m \<Longrightarrow> okey k \<Longrightarrow> set (set_insert k (map_modify m)) = insert k (set (map_modify m))"
  by (rule set_set_insert) (auto simp: map_inv_def key_total)

lemma flush_loop_ok:
  assumes "repr s M" "map_inv name okey okv m" "\<forall>k \<in> set ks. okey k"
  shows "\<exists>s' M'. db_flush_loop ops m s ks = Inr s' \<and> repr s' M' \<and>
    table name M' = (\<lambda>k. if k \<in> set ks then map_cache m k else table name M k)"
  using assms
proof (induction ks arbitrary: s M)
  case Nil
  then show ?case by auto
next
  case (Cons k ks)
  have name: "map_keyPrefix m = name" and k: "okk (KeyWrapper name k)"
    using Cons.prems wrap_ok by (auto simp: map_inv_def)
  obtain s1 M1 where s1: "(case map_cache m k of
         Some v \<Rightarrow> op_set ops s (KeyWrapper (map_keyPrefix m) k) v
       | None \<Rightarrow> op_del ops s (KeyWrapper (map_keyPrefix m) k)) = Inr s1" "repr s1 M1"
    and M1: "table name M1 = (table name M)(k := map_cache m k)"
  proof (cases "map_cache m k")
    case None
    then show thesis
      using del_law [OF Cons.prems(1) k] that name by fastforce
  next
    case (Some v)
    then have "okv v" using Cons.prems(2) by (simp add: map_inv_def)
    then show thesis
      using set_law [OF Cons.prems(1) k, of v] that name Some by fastforce
  qed
  obtain s' M' where "db_flush_loop ops m s1 ks = Inr s'" "repr s' M'"
    "table name M' = (\<lambda>x. if x \<in> set ks then map_cache m x else table name M1 x)"
    using Cons.IH [OF s1(2) Cons.prems(2)] Cons.prems(3) by auto
  moreover have "(\<lambda>x. if x \<in> set ks then map_cache m x else table name M1 x) =
      (\<lambda>x. if x \<in> set (k # ks) then map_cache m x else table name M x)"
    using M1 by (auto simp: fun_eq_iff)
  ultimately show ?case using s1(1) by auto
qed

lemma flush_ok:
  assumes "repr s M" "map_inv name okey okv m"
  shows "\<exists>s' M'. db_flush ops s m = Inr s' \<and> repr s' M' \<and> table name M' = map_view m M"
proof -
  have "(\<lambda>k. if k \<in> set (map_modify m) then map_cache m k else table name M k) = map_view m M"
    using assms(2) by (auto simp: map_view_def map_inv_def fun_eq_iff split: option.splits)
  then show ?thesis
    using flush_loop_ok [OF assms, of "map_modify m"] assms(2) by (auto simp: db_flush_def map_inv_def)
qed

lemma lookup_key:
  assumes "repr s M" "map_inv name okey okv m" "okey k" "ini g"
  shows "bind_res (op_get ops s (KeyWrapper (map_keyPrefix m) k) g) (\<lambda>(n, v). f v) =
           f (at_or g (table name M) k)" "okv (at_or g (table name M) k)"
  using get_law [OF assms(1) wrap_ok [OF assms(3)] assms(4)] get_ok_value [OF assms(1,4)] assms(2)
  by (auto simp: at_or_def table_def map_inv_def)

text \<open>Every change of the cache sets the entry of one key and notes the key as modified.\<close>

abbreviation touch :: "db_map \<Rightarrow> cval \<Rightarrow> cval option \<Rightarrow> db_map" where
  "touch m k e \<equiv> m\<lparr>map_cache := (map_cache m)(k := e), map_modify := set_insert k (map_modify m)\<rparr>"

lemma touch_inv:
  assumes "map_inv name okey okv m" "okey k" "\<And>v. e = Some v \<Longrightarrow> okv v"
  shows "map_inv name okey okv (touch m k e)"
  using assms set_modify [OF assms(1,2)] unfolding map_inv_def by auto

lemma touch_view:
  assumes "map_inv name okey okv m" "okey k"
  shows "map_view (touch m k e) M = (map_view m M)(k := e)"
  using set_modify [OF assms] by (auto simp: map_view_def fun_eq_iff split: option.splits)

lemma touch_erased:
  assumes "map_inv name okey okv m" "okey k" "erased_ok m T S E"
  shows "e \<noteq> None \<Longrightarrow> erased_ok (touch m k e) T (S - {k}) (E - {k})"
    "erased_ok (touch m k None) T (insert k S) (insert k E)"
  using set_modify [OF assms(1,2)] assms(3) by (auto simp: erased_ok_def)

definition msim :: "'s \<times> db_map \<Rightarrow> (cval \<rightharpoonup> cval) \<Rightarrow> cval set \<Rightarrow> cval set \<Rightarrow> bool" where
  "msim st A S E \<longleftrightarrow> (\<exists>M. repr (fst st) M \<and> map_inv name okey okv (snd st) \<and>
     A = map_view (snd st) M \<and> erased_ok (snd st) (table name M) S E)"

lemma msim_touch:
  assumes "msim (s, m) A S E" "okey k"
  shows "okv v \<Longrightarrow> msim (s, touch m k (Some v)) (A(k \<mapsto> v)) (S - {k}) (E - {k})"
    "msim (s, touch m k None) (A(k := None)) (insert k S) (insert k E)"
proof -
  obtain M where M: "repr s M" "map_inv name okey okv m" "A = map_view m M"
    "erased_ok m (table name M) S E" using assms(1) by (auto simp: msim_def)
  show "okv v \<Longrightarrow> msim (s, touch m k (Some v)) (A(k \<mapsto> v)) (S - {k}) (E - {k})"
    using M touch_inv [OF M(2) assms(2), of "Some v"] touch_view [OF M(2) assms(2), of "Some v"]
      touch_erased(1) [OF M(2) assms(2) M(4), of "Some v"]
    by (auto simp: msim_def)
  show "msim (s, touch m k None) (A(k := None)) (insert k S) (insert k E)"
    using M touch_inv [OF M(2) assms(2), of None] touch_view [OF M(2) assms(2), of None]
      touch_erased(2) [OF M(2) assms(2) M(4)]
    by (auto simp: msim_def)
qed

text \<open>An entry that is cached already can be overwritten in place.\<close>

lemma msim_overwrite:
  assumes sim: "msim (s, m) A S E" and w: "map_cache m k = Some w" and v: "okv v"
  shows "msim (s, m\<lparr>map_cache := (map_cache m)(k \<mapsto> v)\<rparr>) (A(k \<mapsto> v)) (S - {k}) (E - {k})"
proof -
  obtain M where M: "repr s M" "map_inv name okey okv m" "A = map_view m M"
    "erased_ok m (table name M) S E" using sim by (auto simp: msim_def)
  let ?m = "m\<lparr>map_cache := (map_cache m)(k \<mapsto> v)\<rparr>"
  have "map_inv name okey okv ?m" using M(2) w v unfolding map_inv_def by auto
  moreover have "map_view ?m M = A(k \<mapsto> v)" by (auto simp: M(3) map_view_def fun_eq_iff split: option.splits)
  moreover have "erased_ok ?m (table name M) (S - {k}) (E - {k})" using M(4) by (auto simp: erased_ok_def)
  ultimately show ?thesis unfolding msim_def using M(1) by (intro exI [of _ M]) simp
qed

lemma msim_narrow:
  assumes sim: "msim (s, m) A S E" and w: "map_cache m k = Some w"
  shows "msim (s, m) (A(k \<mapsto> w)) (S - {k}) (E - {k})"
proof -
  have "okv w" using sim w by (auto simp: msim_def map_inv_def)
  from msim_overwrite [OF sim w this] w show ?thesis by (simp add: fun_upd_idem)
qed

lemma at_sim:
  assumes sim: "msim (s, m) A S E" and k: "okey k" and g: "ini g" and S: "k \<notin> S"
  shows "\<exists>m'. db_at ops g s m k = Inr (at_or g A k, m') \<and>
           msim (s, m') (A(k \<mapsto> at_or g A k)) (S - {k}) (E - {k}) \<and> map_cache m' k \<noteq> None"
proof (cases "map_cache m k")
  case None
  obtain M where M: "repr s M" "map_inv name okey okv m" "A = map_view m M"
    "erased_ok m (table name M) S E" using sim by (auto simp: msim_def)
  have "A k = table name M k" using M None S by (auto simp: map_view_def erased_ok_def map_inv_def)
  then have a: "at_or g A k = at_or g (table name M) k" by (simp add: at_or_def)
  have "db_at ops g s m k = Inr (at_or g A k, touch m k (Some (at_or g A k)))"
    using lookup_key(1) [OF M(1,2) k g, of "\<lambda>v. Inr (v, touch m k (Some v))"] None a
    by (simp add: db_at_def)
  then show ?thesis
    using msim_touch(1) [OF sim k] lookup_key(2) [OF M(1,2) k g] a by auto
next
  case (Some w)
  then have "A k = Some w" using sim by (auto simp: msim_def map_view_def)
  then show ?thesis using Some msim_narrow [OF sim Some] by (simp add: db_at_def at_or_def)
qed

lemma assign_sim:
  assumes sim: "msim (s, m) A S E" and k: "okey k" and g: "ini g" and v: "okv v"
  shows "\<exists>m'. db_assign ops g s m k v = Inr m' \<and> msim (s, m') (A(k \<mapsto> v)) (S - {k}) (E - {k})"
proof (cases "map_cache m k")
  case None
  obtain M where M: "repr s M" "map_inv name okey okv m" using sim by (auto simp: msim_def)
  have "db_assign ops g s m k v = Inr (touch m k (Some v))"
    using lookup_key(1) [OF M k g, of "\<lambda>v. Inr (v, touch m k (Some v))"] None
    by (simp add: db_assign_def db_at_def)
  then show ?thesis using msim_touch(1) [OF sim k v] by simp
next
  case (Some w)
  then show ?thesis using msim_overwrite [OF sim Some v] by (simp add: db_assign_def db_at_def)
qed

lemma insert_const_sim:
  assumes sim: "msim (s, m) A S E" and k: "okey k" and v: "okv v" and E: "k \<notin> E"
  shows "\<exists>s' m'. db_insert_const ops s m k v = Inr (True, s', m') \<and> msim (s', m') (A(k \<mapsto> v)) S E"
proof -
  obtain M where M: "repr s M" "map_inv name okey okv m" "A = map_view m M"
    "erased_ok m (table name M) S E" using sim by (auto simp: msim_def)
  obtain s' where s': "op_set ops s (KeyWrapper name k) v = Inr s'" "repr s' (M(KeyWrapper name k \<mapsto> v))"
    using set_law [OF M(1) wrap_ok [OF k] v] by blast
  let ?m = "if map_cache m k \<noteq> None then m\<lparr>map_cache := (map_cache m)(k \<mapsto> v)\<rparr> else m"
  have "map_inv name okey okv ?m" using M(2) v by (auto simp: map_inv_def)
  moreover have "map_view ?m (M(KeyWrapper name k \<mapsto> v)) = A(k \<mapsto> v)"
    using M E by (auto simp: map_view_def map_inv_def erased_ok_def fun_eq_iff split: option.splits)
  moreover have "erased_ok ?m ((table name M)(k \<mapsto> v)) S E" using M(4) E by (auto simp: erased_ok_def)
  ultimately have "msim (s', ?m) (A(k \<mapsto> v)) S E"
    unfolding msim_def using s'(2) by (intro exI [of _ "M(KeyWrapper name k \<mapsto> v)"]) simp
  then show ?thesis using s'(1) M(2) by (simp add: db_insert_const_def map_inv_def)
qed

lemma flush_sim:
  assumes sim: "msim (s, m) A S E"
  shows "\<exists>s'. db_flush ops s m = Inr s' \<and> msim (s', m) A {} E \<and> (\<exists>M. repr s' M \<and> table name M = A)"
proof -
  obtain M where M: "repr s M" "map_inv name okey okv m" "A = map_view m M"
    "erased_ok m (table name M) S E" using sim by (auto simp: msim_def)
  obtain s' M' where s': "db_flush ops s m = Inr s'" "repr s' M'" "table name M' = A"
    using flush_ok [OF M(1,2)] M(3) by blast
  have "map_view m M' = A"
    using M(2,3) s'(3) by (auto simp: map_view_def map_inv_def fun_eq_iff split: option.splits)
  moreover have "erased_ok m (table name M') {} E"
    using M(3,4) s'(3) by (auto simp: erased_ok_def map_view_def)
  ultimately show ?thesis using s' M(2) unfolding msim_def by force
qed

lemma contains_sim:
  assumes sim: "msim (s, m) A S E" and k: "okey k"
  shows "db_contains ops s m k = Inr (A k \<noteq> None)"
proof -
  obtain M where M: "repr s M" "map_inv name okey okv m" "A = map_view m M"
    using sim by (auto simp: msim_def)
  show ?thesis
    using has_law [OF M(1) wrap_ok [OF k]] M(2,3)
    by (auto simp: db_contains_def map_view_def table_def map_inv_def split: option.splits)
qed

lemma get_const_sim:
  assumes sim: "msim (s, m) A S E" and k: "okey k" and g: "ini g" and S: "k \<notin> S"
  shows "db_get_const ops g s m k = Inr (at_or g A k)"
proof -
  obtain m' where "db_at ops g s m k = Inr (at_or g A k, m')" using at_sim [OF assms] by blast
  moreover have "db_get_const ops g s m k = bind_res (db_at ops g s m k) (\<lambda>(v, m'). Inr v)"
    by (auto simp: db_get_const_def db_at_def bind_res_assoc intro!: bind_res_cong split: option.splits)
  ultimately show ?thesis by simp
qed

lemma step_sim:
  assumes sim: "msim (s, m) A S E" and g: "ini g" and c: "call_ok okey okv c" "disc_ok S E c"
    and n: "disc_next S E c = (S', E')" and a: "spec_step g A c = (x, A')"
  shows "\<exists>st'. map_step ops g (s, m) c = Inr (x, st') \<and> msim st' A' S' E'"
proof (cases c)
  case (MInsert k v)
  then show ?thesis using msim_touch(1) [OF sim, of k v] assms(3-) by (auto simp: db_insert_def)
next
  case (MInsertConst k v)
  then show ?thesis using insert_const_sim [OF sim, of k v] assms(3-) by auto
next
  case (MGetConst k)
  then show ?thesis using get_const_sim [OF sim _ g, of k] assms by auto
next
  case (MAt k)
  then show ?thesis using at_sim [OF sim _ g, of k] assms(3-) by auto
next
  case (MAssign k v)
  then show ?thesis using assign_sim [OF sim _ g, of k v] assms(3-) by auto
next
  case (MErase k)
  then show ?thesis using msim_touch(2) [OF sim, of k] assms(3-) by (auto simp: db_erase_def)
next
  case (MContains k)
  then show ?thesis using contains_sim [OF sim, of k] assms by auto
next
  case MFlush
  then show ?thesis using flush_sim [OF sim] assms(3-) by auto
qed

lemma run_sim:
  assumes "msim st A S E" "list_all (\<lambda>(g, c). ini g \<and> call_ok okey okv c) cs" "disciplined S E (map snd cs)"
    "spec_run A cs = (xs, A')"
  shows "\<exists>st' S' E'. map_run ops st cs = Inr (xs, st') \<and> msim st' A' S' E'"
  using assms
proof (induction cs arbitrary: st A S E xs)
  case Nil
  then show ?case by auto
next
  case (Cons gc cs)
  obtain g c where gc: "gc = (g, c)" by (cases gc)
  obtain s m where st: "st = (s, m)" by (cases st)
  obtain S' E' where n: "disc_next S E c = (S', E')" by fastforce
  obtain x A1 where a: "spec_step g A c = (x, A1)" by fastforce
  obtain ys where ys: "spec_run A1 cs = (ys, A')" "xs = x # ys"
    using Cons.prems(4) a gc by (auto split: prod.splits)
  obtain st1 where st1: "map_step ops g st c = Inr (x, st1)" "msim st1 A1 S' E'"
    using step_sim [of s m A S E g c S' E' x A1] Cons.prems(1-3) st n a gc by auto
  obtain st2 S2 E2 where "map_run ops st1 cs = Inr (ys, st2)" "msim st2 A' S2 E2"
    using Cons.IH [OF st1(2) _ _ ys(1)] Cons.prems(2,3) n gc by auto
  then show ?case using st1(1) ys(2) gc by (intro exI [of _ st2] exI [of _ S2] exI [of _ E2]) simp
qed

text \<open>A whole session of the object is a session of the abstract map.\<close>

lemma session_refines:
  assumes r: "repr s M" and cs: "list_all (\<lambda>(g, c). ini g \<and> call_ok okey okv c) cs" "disciplined {} {} (map snd cs)"
    and a: "spec_run (table name M) cs = (xs, A')"
  shows "\<exists>s' M'. map_session ops name s cs = Inr (xs, s') \<and> repr s' M' \<and> table name M' = A'"
proof -
  have "msim (s, map_ctor name) (table name M) {} {}"
    using r by (auto simp: msim_def map_ctor_def map_inv_def map_view_def erased_ok_def)
  then obtain s1 m1 S E where run: "map_run ops (s, map_ctor name) cs = Inr (xs, s1, m1)"
    and sim: "msim (s1, m1) A' S E"
    using run_sim [OF _ cs a, of "(s, map_ctor name)"] by auto
  from flush_sim [OF sim] run show ?thesis by (auto simp: map_session_def)
qed

text \<open>Reading an erased key before the flush brings back the value that is still in the state.\<close>

lemma erase_then_at:
  assumes r: "repr s M" and k: "okey k" and g: "ini g" and v: "table name M k = Some v"
  shows "\<exists>s' M'. map_session ops name s [(g1, MErase k), (g2, MContains k), (g, MAt k)] =
      Inr ([ODone, OBool False, OVal v], s') \<and> repr s' M' \<and> table name M' = table name M"
proof -
  let ?m = "db_erase (map_ctor name) k"
  have inv: "map_inv name okey okv ?m"
    using k by (auto simp: map_inv_def db_erase_def map_ctor_def)
  have "db_at ops g s ?m k = Inr (v, touch ?m k (Some v))"
    using lookup_key(1) [OF r inv k g, of "\<lambda>v. Inr (v, touch ?m k (Some v))"] v
    by (simp add: db_at_def at_or_def) (simp add: db_erase_def map_ctor_def)
  moreover have "db_contains ops s ?m k = Inr False"
    by (simp add: db_contains_def db_erase_def map_ctor_def)
  ultimately have run: "map_run ops (s, map_ctor name) [(g1, MErase k), (g2, MContains k), (g, MAt k)] =
      Inr ([ODone, OBool False, OVal v], s, touch ?m k (Some v))" by simp
  have "okv v" using r v val_law by (auto simp: table_def)
  then have inv': "map_inv name okey okv (touch ?m k (Some v))" by (intro touch_inv [OF inv k]) simp
  obtain s' M' where s': "db_flush ops s (touch ?m k (Some v)) = Inr s'" "repr s' M'"
    "table name M' = map_view (touch ?m k (Some v)) M"
    using flush_ok [OF r inv'] by blast
  have "map_view (touch ?m k (Some v)) M = table name M"
    using v by (auto simp: map_view_def db_erase_def map_ctor_def fun_eq_iff)
  then show ?thesis using run s' by (auto simp: map_session_def)
qed

text \<open>A value written by \<open>insert_const\<close> under an erased key does not survive the flush.\<close>

lemma erase_then_insert_const:
  assumes r: "repr s M" and k: "okey k" and v: "okv v"
  shows "\<exists>s' M'. map_session ops name s [(g1, MErase k), (g2, MInsertConst k v)] =
      Inr ([ODone, OBool True], s') \<and> repr s' M' \<and> table name M' k = None"
proof -
  let ?m = "db_erase (map_ctor name) k"
  have inv: "map_inv name okey okv ?m"
    using k by (auto simp: map_inv_def db_erase_def map_ctor_def)
  have c: "map_cache ?m k = None" "map_keyPrefix ?m = name" "map_modify ?m = [k]"
    by (simp_all add: db_erase_def map_ctor_def)
  obtain s1 M1 where s1: "op_set ops s (KeyWrapper name k) v = Inr s1" "repr s1 M1"
    using set_law [OF r wrap_ok [OF k] v] by blast
  have run: "map_run ops (s, map_ctor name) [(g1, MErase k), (g2, MInsertConst k v)] =
      Inr ([ODone, OBool True], s1, ?m)"
    using s1 c by (simp add: db_insert_const_def Let_def)
  obtain s' M' where "db_flush ops s1 ?m = Inr s'" "repr s' M'" "table name M' = map_view ?m M1"
    using flush_ok [OF s1(2) inv] by blast
  then show ?thesis using run c by (auto simp: map_session_def map_view_def)
qed

end

section \<open>The class over the contract state\<close>

definition map_key_type :: "cty \<Rightarrow> cty" where
  "map_key_type kt = TStruct [TU W64, kt]"

definition map_key_ok :: "cty \<Rightarrow> cval \<Rightarrow> bool" where
  "map_key_ok kt k \<longleftrightarrow> has_type kt k \<and> item_len k < 2 ^ 30"

lemma KeyWrapper_len:
  assumes "item_len k < 2 ^ 30"
  shows "fits (KeyWrapper name k)"
proof -
  have "unat name < 256 ^ 8" using unsigned_less [of name] by simp
  then have "length (be_bytes (unat name)) \<le> 8" by (simp only: length_be_bytes_le)
  then have "item_len (VUInt (ucast name)) \<le> 9"
    by (simp add: item_len_def length_enc_str length_rlp_head unat_ucast_up)
  then have l: "items_len [VUInt (ucast name), k] < 2 ^ 30 + 9" using assms by simp
  then have "length (be_bytes (items_len [VUInt (ucast name), k])) \<le> 4"
    by (intro length_be_bytes_4) simp
  then show ?thesis
    using l by (simp add: fits_def KeyWrapper_def item_len_list length_rlp_head)
qed

lemma KeyWrapper_typed:
  assumes "has_type kt k" "item_len k < 2 ^ 30"
  shows "typed (map_key_type kt) (KeyWrapper name k)"
proof -
  have "unat (ucast name :: 128 word) < 2 ^ 64"
    using unsigned_less [of name] by (simp add: unat_ucast_up)
  then show ?thesis
    using assms KeyWrapper_len [OF assms(2)] by (simp add: typed_def map_key_type_def KeyWrapper_def)
qed

text \<open>
  The contract state as the table sees it: under the keys of the table the entries of a partial
  map, with values of the type. Nothing is said of other keys.
\<close>

definition table_holds :: "'s chain_host \<Rightarrow> cty \<Rightarrow> cty \<Rightarrow> 64 word \<Rightarrow> 's \<Rightarrow> (cval \<rightharpoonup> cval) \<Rightarrow> bool" where
  "table_holds H kt vt name s A \<longleftrightarrow> (\<forall>k. map_key_ok kt k \<longrightarrow> entry_is H s (KeyWrapper name k) (A k)) \<and>
     (\<forall>k v. A k = Some v \<longrightarrow> map_key_ok kt k \<and> typed vt v)"

definition own_key :: "cty \<Rightarrow> 64 word \<Rightarrow> cval \<Rightarrow> bool" where
  "own_key kt name q \<longleftrightarrow> (\<exists>k. q = KeyWrapper name k \<and> map_key_ok kt k)"

text \<open>Every key of the state but those of the table is as it was, whatever object it belongs to.\<close>

abbreviation table_frame :: "'s chain_host \<Rightarrow> cty \<Rightarrow> 64 word \<Rightarrow> 's \<Rightarrow> 's \<Rightarrow> bool" where
  "table_frame H kt name \<equiv> untouched H {key_bytes (KeyWrapper name k) |k. map_key_ok kt k}"

definition untable :: "64 word \<Rightarrow> (cval \<rightharpoonup> cval) \<Rightarrow> (cval \<rightharpoonup> cval)" where
  "untable name A q = (case q of VStruct [VUInt n, k] \<Rightarrow> if n = ucast name then A k else None | _ \<Rightarrow> None)"

lemma table_untable [simp]: "table name (untable name A) = A"
  by (simp add: table_def untable_def KeyWrapper_def)

lemma unown_key: "untable name A q = Some v \<Longrightarrow> \<exists>k. q = KeyWrapper name k \<and> A k = Some v"
  by (auto simp: untable_def KeyWrapper_def split: cval.splits list.splits if_splits)

locale state_map =
  fixes H :: "'s chain_host" and kt vt :: cty and name :: "64 word"
  assumes map_host: "chain_host_ok H" and keys_ordered: "key_type kt"

sublocale state_map \<subseteq> typed_state H "own_key kt name" "map_key_type kt" vt
  by unfold_locales (auto simp: map_host own_key_def map_key_ok_def KeyWrapper_typed)

sublocale state_map \<subseteq> tbl: kv_map "state_ops vt H" "own_key kt name" "typed vt" "local_ok vt"
  "store_repr H (own_key kt name) vt s0" name "map_key_ok kt"
  for s0
  by unfold_locales (use keys_ordered less_cval_total in \<open>auto simp: map_key_ok_def own_key_def\<close>)

context state_map
begin

lemma table_repr: "table_holds H kt vt name s A \<Longrightarrow> store_repr H (own_key kt name) vt s s (untable name A)"
  using unown_key [of name A] table_untable [of name A]
  by (fastforce simp: table_holds_def store_repr_def own_key_def table_def fun_eq_iff)

lemma repr_table:
  assumes "store_repr H (own_key kt name) vt s0 s M"
  shows "table_holds H kt vt name s (table name M)" "table_frame H kt name s0 s"
proof -
  have "key_bytes ` Collect (own_key kt name) = {key_bytes (KeyWrapper name k) |k. map_key_ok kt k}"
    by (auto simp: own_key_def)
  then show "table_frame H kt name s0 s" using assms by (simp add: store_repr_def)
  show "table_holds H kt vt name s (table name M)"
    using assms by (fastforce simp: table_holds_def store_repr_def own_key_def table_def)
qed

lemma table_session_refines:
  assumes "table_holds H kt vt name s A" "list_all (\<lambda>(g, c). local_ok vt g \<and> call_ok (map_key_ok kt) (typed vt) c) cs"
    "disciplined {} {} (map snd cs)" "spec_run A cs = (xs, A')"
  shows "\<exists>s'. map_session (state_ops vt H) name s cs = Inr (xs, s') \<and> table_holds H kt vt name s' A' \<and>
    table_frame H kt name s s'"
  using tbl.session_refines [OF table_repr [OF assms(1)] assms(2,3)] assms(4) repr_table by fastforce

lemma table_erase_then_at:
  assumes "table_holds H kt vt name s A" "map_key_ok kt k" "local_ok vt g" "A k = Some v"
  shows "\<exists>s'. map_session (state_ops vt H) name s [(g1, MErase k), (g2, MContains k), (g, MAt k)] =
      Inr ([ODone, OBool False, OVal v], s') \<and> table_holds H kt vt name s' A"
  using tbl.erase_then_at [OF table_repr [OF assms(1)] assms(2,3), of v g1 g2] assms(4) repr_table(1) by fastforce

lemma table_erase_then_insert_const:
  assumes "table_holds H kt vt name s A" "map_key_ok kt k" "typed vt v"
  shows "\<exists>s' A'. map_session (state_ops vt H) name s [(g1, MErase k), (g2, MInsertConst k v)] =
      Inr ([ODone, OBool True], s') \<and> table_holds H kt vt name s' A' \<and> A' k = None"
  using tbl.erase_then_insert_const [OF table_repr [OF assms(1)] assms(2,3)] repr_table(1) by fastforce

end

lemma state_mapI: "chain_host_ok H \<Longrightarrow> key_type kt \<Longrightarrow> state_map H kt"
  by unfold_locales

interpretation string_map: state_map model_chain TString vt name for vt name
  by (rule state_mapI) (simp_all add: model_chain_ok)

lemma table_empty: "table_holds model_chain kt vt name (\<lambda>k. []) Map.empty"
  by (simp add: table_holds_def entry_empty)

section \<open>What a client may rely on\<close>

text \<open>
  C2. \<open>db::Map\<close> is a map: over any chain, a session of calls that respects the discipline for erased
  keys observes exactly what a plain map would show, and after the destructor has flushed, the
  contract state under the table's prefix is that map. No other key of the state is touched, of
  whatever type, and nothing is assumed of it. A read of a key the map lacks shows what its local
  variable started as, which is the default for a class type and any value for a scalar.
\<close>

theorem map_session_refines:
  assumes "chain_host_ok H" "key_type kt" "table_holds H kt vt name s A"
    and "list_all (\<lambda>(g, c). local_ok vt g \<and> call_ok (map_key_ok kt) (typed vt) c) cs"
    and "disciplined {} {} (map snd cs)" "spec_run A cs = (xs, A')"
  shows "\<exists>s'. map_session (state_ops vt H) name s cs = Inr (xs, s') \<and> table_holds H kt vt name s' A' \<and>
    table_frame H kt name s s'"
  by (rule state_map.table_session_refines [OF state_mapI [OF assms(1,2)] assms(3-6)])

lemma number_local: "local_ok (TU W64) (VUInt 7)" "local_ok (TU W64) (VUInt 8)"
  by (simp_all add: local_ok_def typed_def fits_def item_len_def enc_str_def rlp_head_def be_bytes.simps)

theorem map_session_refines_witness:
  "\<exists>s'. map_session (state_ops (TU W64) model_chain) 7 (\<lambda>k. [])
      [(VUInt 7, MInsert (VString [97]) (VUInt 8)), (VUInt 7, MAt (VString [98])), (VUInt 8, MErase (VString [97])),
       (VUInt 7, MFlush), (VUInt 7, MContains (VString [97])), (VUInt 8, MGetConst (VString [97])),
       (VUInt 8, MGetConst (VString [98]))] =
      Inr ([OBool True, OVal (VUInt 7), ODone, ODone, OBool False, OVal (VUInt 8), OVal (VUInt 7)], s') \<and>
    table_holds model_chain TString (TU W64) 7 s' [VString [98] \<mapsto> VUInt 7] \<and>
    table_frame model_chain TString 7 (\<lambda>k. []) s'"
proof -
  let ?cs = "[(VUInt 7, MInsert (VString [97]) (VUInt 8)), (VUInt 7, MAt (VString [98])), (VUInt 8, MErase (VString [97])),
       (VUInt 7, MFlush), (VUInt 7, MContains (VString [97])), (VUInt 8, MGetConst (VString [97])),
       (VUInt 8, MGetConst (VString [98]))]"
  have b: "list_all (\<lambda>(g, c). local_ok (TU W64) g \<and> call_ok (map_key_ok TString) (typed (TU W64)) c) ?cs"
    using number_local by (simp add: local_ok_def map_key_ok_def item_len_def enc_str_def rlp_head_def)
  have c: "disciplined {} {} (map snd ?cs)" by simp
  have d: "spec_run Map.empty ?cs =
      ([OBool True, OVal (VUInt 7), ODone, ODone, OBool False, OVal (VUInt 8), OVal (VUInt 7)], [VString [98] \<mapsto> VUInt 7])"
    by (auto simp: at_or_def fun_eq_iff)
  have "key_type TString" by simp
  from map_session_refines [OF model_chain_ok this table_empty b c d] show ?thesis .
qed



text \<open>
  C18. Outside the discipline \<open>db::Map\<close> is not a map: when a key with a stored value is erased, \<open>contains\<close>
  denies it, but the next \<open>at\<close> returns the old value again, and the erasure is undone in the
  state when the object is destroyed: the table is what it was before.
\<close>

theorem map_erase_then_at:
  assumes "chain_host_ok H" "key_type kt" "table_holds H kt vt name s A" "map_key_ok kt k" "local_ok vt g" "A k = Some v"
  shows "\<exists>s'. map_session (state_ops vt H) name s [(g1, MErase k), (g2, MContains k), (g, MAt k)] =
      Inr ([ODone, OBool False, OVal v], s') \<and> table_holds H kt vt name s' A"
  by (rule state_map.table_erase_then_at [OF state_mapI [OF assms(1,2)] assms(3-6)])

lemma one_entry:
  "\<exists>s. table_holds model_chain TString TString 7 s [VString [97] \<mapsto> VString [1]]"
proof -
  let ?cs = "[(VString [], MInsert (VString [97]) (VString [1]))]"
  have "list_all (\<lambda>(g, c). local_ok TString g \<and> call_ok (map_key_ok TString) (typed TString) c) ?cs"
    by (simp add: local_ok_def typed_def map_key_ok_def fits_def item_len_def enc_str_def rlp_head_def)
  moreover have "spec_run Map.empty ?cs = ([OBool True], [VString [97] \<mapsto> VString [1]])" "disciplined {} {} (map snd ?cs)"
    by simp_all
  ultimately show ?thesis using string_map.table_session_refines [OF table_empty] by blast
qed

theorem map_erase_then_at_witness:
  "\<exists>s s'. map_session (state_ops TString model_chain) 7 s
      [(VString [], MErase (VString [97])), (VString [], MContains (VString [97])), (VString [], MAt (VString [97]))] =
      Inr ([ODone, OBool False, OVal (VString [1])], s') \<and>
    table_holds model_chain TString TString 7 s' [VString [97] \<mapsto> VString [1]]"
proof -
  obtain s where s: "table_holds model_chain TString TString 7 s [VString [97] \<mapsto> VString [1]]"
    using one_entry by blast
  have "key_type TString" "map_key_ok TString (VString [97])" "local_ok TString (VString [])"
    by (simp_all add: local_ok_def typed_def map_key_ok_def fits_def item_len_def enc_str_def rlp_head_def)
  from map_erase_then_at [OF model_chain_ok this(1) s this(2,3), of "VString [1]" "VString []" "VString []"]
  show ?thesis by auto
qed

text \<open>
  A value that \<open>insert_const\<close> writes under a key erased before by the same object is lost: the
  flush of the destructor deletes it again.
\<close>

lemma map_insert_const_lost:
  assumes "chain_host_ok H" "key_type kt" "table_holds H kt vt name s A" "map_key_ok kt k" "typed vt v"
  shows "\<exists>s' A'. map_session (state_ops vt H) name s [(g1, MErase k), (g2, MInsertConst k v)] =
      Inr ([ODone, OBool True], s') \<and> table_holds H kt vt name s' A' \<and> A' k = None"
  by (rule state_map.table_erase_then_insert_const [OF state_mapI [OF assms(1,2)] assms(3-5)])

end
