(* ===== verification/Db_Array.thy ===== *)
theory Db_Array
  imports Storage
begin

text \<open>
  Model of \<open>platonlib/include/platon/db/array.hpp\<close>: the class \<open>db::Array\<close> of \<open>N\<close> elements, a
  write-back cache in front of the contract state, and its iterators. The lemmas show that it is
  an array: every element is what was last written, iteration visits the elements in order,
  and the state holds the array after the destructor.
\<close>

section \<open>The class\<close>

text \<open>The bytes of an integer as they lie in the memory of the little-endian machine.\<close>

fun le_bytes :: "nat \<Rightarrow> nat \<Rightarrow> bytes" where
  "le_bytes 0 n = []"
| "le_bytes (Suc k) n = word_of_nat n # le_bytes k (n div 256)"

definition EncodeKey :: "64 word \<Rightarrow> nat \<Rightarrow> cval" where
  "EncodeKey name index = VString (le_bytes 8 (unat name) @ [65] @ le_bytes 4 index)"

record db_array =
  arr_cache :: "(nat \<times> cval) list"
  arr_name :: "64 word"
  arr_size :: nat

definition arr_ctor :: "64 word \<Rightarrow> nat \<Rightarrow> db_array" where
  "arr_ctor name N = \<lparr>arr_cache = [], arr_name = name, arr_size = N\<rparr>"

text \<open>\<open>std::map\<close> keeps its entries by ascending key.\<close>

fun cache_put :: "nat \<Rightarrow> cval \<Rightarrow> (nat \<times> cval) list \<Rightarrow> (nat \<times> cval) list" where
  "cache_put p v [] = [(p, v)]"
| "cache_put p v ((q, w) # c) =
     (if p < q then (p, v) # (q, w) # c else if q < p then (q, w) # cache_put p v c else (p, v) # c)"

text \<open>
  \<open>g\<close> is what the local variable \<open>Key key;\<close> holds before \<open>get_state\<close>, which leaves it alone when the
  state has no entry: the default of a class type, an indeterminate value of a scalar type
  (reading that is undefined in C++; here it may be any value of the type).
\<close>

definition arr_at :: "'s store_ops \<Rightarrow> cval \<Rightarrow> 's \<Rightarrow> db_array \<Rightarrow> nat \<Rightarrow> (cval \<times> db_array) res" where
  "arr_at ops g s a pos =
     (if \<not> pos < arr_size a then Inl (Revert ''out of range pos:'')
      else case map_of (arr_cache a) pos of
        Some v \<Rightarrow> Inr (v, a)
      | None \<Rightarrow> bind_res (op_get ops s (EncodeKey (arr_name a) pos) g) (\<lambda>(n, v).
          Inr (v, a\<lparr>arr_cache := cache_put pos v (arr_cache a)\<rparr>)))"

text \<open>\<open>array[pos] = v\<close>, through the reference that \<open>operator[]\<close> returns.\<close>

definition arr_assign :: "'s store_ops \<Rightarrow> cval \<Rightarrow> 's \<Rightarrow> db_array \<Rightarrow> nat \<Rightarrow> cval \<Rightarrow> db_array res" where
  "arr_assign ops g s a pos v =
     bind_res (arr_at ops g s a pos) (\<lambda>(old, a').
       Inr (a'\<lparr>arr_cache := cache_put pos v (arr_cache a')\<rparr>))"

definition arr_get_const :: "'s store_ops \<Rightarrow> cval \<Rightarrow> 's \<Rightarrow> db_array \<Rightarrow> nat \<Rightarrow> cval res" where
  "arr_get_const ops g s a pos = (case map_of (arr_cache a) pos of
     Some v \<Rightarrow> Inr v
   | None \<Rightarrow> bind_res (op_get ops s (EncodeKey (arr_name a) pos) g) (\<lambda>(n, v). Inr v))"

definition arr_set_const ::
  "'s store_ops \<Rightarrow> 's \<Rightarrow> db_array \<Rightarrow> nat \<Rightarrow> cval \<Rightarrow> ('s \<times> db_array) res" where
  "arr_set_const ops s a pos v =
     (let a1 = (if map_of (arr_cache a) pos \<noteq> None
                then a\<lparr>arr_cache := cache_put pos v (arr_cache a)\<rparr> else a) in
      bind_res (op_set ops s (EncodeKey (arr_name a) pos) v) (\<lambda>s'. Inr (s', a1)))"

fun arr_flush_loop :: "'s store_ops \<Rightarrow> 64 word \<Rightarrow> 's \<Rightarrow> (nat \<times> cval) list \<Rightarrow> 's res" where
  "arr_flush_loop ops name s [] = Inr s"
| "arr_flush_loop ops name s ((p, v) # c) =
     bind_res (op_set ops s (EncodeKey name p) v) (\<lambda>s'. arr_flush_loop ops name s' c)"

definition arr_flush :: "'s store_ops \<Rightarrow> 's \<Rightarrow> db_array \<Rightarrow> 's res" where
  "arr_flush ops s a = arr_flush_loop ops (arr_name a) s (arr_cache a)"

section \<open>Iterators\<close>

text \<open>
  An iterator is its position; the object it points to is the array of the calls. Forward
  iterators stand at \<open>pos_ - 1\<close>, from \<open>begin() = 1\<close> to \<open>end() = N + 1\<close>; the constant reverse
  iterator runs from \<open>N\<close> to 0.
\<close>

definition arr_begin :: "db_array \<Rightarrow> nat" where
  "arr_begin a = 1"

definition arr_end :: "db_array \<Rightarrow> nat" where
  "arr_end a = arr_size a + 1"

definition arr_crbegin :: "db_array \<Rightarrow> nat" where
  "arr_crbegin a = arr_size a"

definition arr_crend :: "db_array \<Rightarrow> nat" where
  "arr_crend a = 0"

definition arr_it_inc :: "nat \<Rightarrow> nat" where
  "arr_it_inc pos = (pos + 1) mod 2 ^ 32"

definition arr_it_dec :: "nat \<Rightarrow> nat" where
  "arr_it_dec pos = (pos + (2 ^ 32 - 1)) mod 2 ^ 32"

text \<open>The postfix forms return a copy that they have moved as well: result and new position.\<close>

definition arr_it_post_inc :: "nat \<Rightarrow> nat \<times> nat" where
  "arr_it_post_inc pos = (arr_it_inc pos, arr_it_inc pos)"

definition arr_it_post_dec :: "nat \<Rightarrow> (nat \<times> nat) res" where
  "arr_it_post_dec pos =
     (if \<not> pos > 0 then Inl (Revert ''pos can't be negative'') else Inr (arr_it_dec pos, arr_it_dec pos))"

text \<open>\<open>for (it = begin(); it != end(); ++it) visit(*it)\<close>, collecting what is visited; \<open>G\<close> gives
  what the local variable of the read at each position starts as.\<close>

fun arr_for :: "'s store_ops \<Rightarrow> (nat \<Rightarrow> cval) \<Rightarrow> 's \<Rightarrow> nat \<Rightarrow> db_array \<Rightarrow> nat \<Rightarrow> nat \<Rightarrow> (cval list \<times> db_array) res" where
  "arr_for ops G s 0 a it en = Inl OutOfFuel"
| "arr_for ops G s (Suc fuel) a it en =
     (if it = en then Inr ([], a)
      else bind_res (arr_at ops (G (arr_it_dec it)) s a (arr_it_dec it)) (\<lambda>(v, a').
           bind_res (arr_for ops G s fuel a' (arr_it_inc it) en) (\<lambda>(vs, a''). Inr (v # vs, a''))))"

text \<open>\<open>for (it = crbegin(); it != crend(); ++it) visit(*it)\<close>; here \<open>++\<close> steps down.\<close>

fun arr_rfor :: "'s store_ops \<Rightarrow> (nat \<Rightarrow> cval) \<Rightarrow> 's \<Rightarrow> nat \<Rightarrow> db_array \<Rightarrow> nat \<Rightarrow> nat \<Rightarrow> cval list res" where
  "arr_rfor ops G s 0 a it en = Inl OutOfFuel"
| "arr_rfor ops G s (Suc fuel) a it en =
     (if it = en then Inr []
      else bind_res (arr_get_const ops (G (arr_it_dec it)) s a (arr_it_dec it)) (\<lambda>v.
           bind_res (arr_rfor ops G s fuel a (arr_it_dec it) en) (\<lambda>vs. Inr (v # vs))))"

text \<open>
  \<open>for (it = cbegin(); it != cend(); ++it) visit(*it)\<close> with constant iterators, which read with
  \<open>get_const\<close>, and \<open>for (it = rbegin(); it != rend(); ++it) visit(*it)\<close> with \<open>std::reverse_iterator\<close>, which
  stands one behind the element it refers to.
\<close>

definition arr_cbegin :: "db_array \<Rightarrow> nat" where
  "arr_cbegin a = 1"

definition arr_cend :: "db_array \<Rightarrow> nat" where
  "arr_cend a = arr_size a + 1"

fun arr_cfor :: "'s store_ops \<Rightarrow> (nat \<Rightarrow> cval) \<Rightarrow> 's \<Rightarrow> nat \<Rightarrow> db_array \<Rightarrow> nat \<Rightarrow> nat \<Rightarrow> cval list res" where
  "arr_cfor ops G s 0 a it en = Inl OutOfFuel"
| "arr_cfor ops G s (Suc fuel) a it en =
     (if it = en then Inr []
      else bind_res (arr_get_const ops (G (arr_it_dec it)) s a (arr_it_dec it)) (\<lambda>v.
           bind_res (arr_cfor ops G s fuel a (arr_it_inc it) en) (\<lambda>vs. Inr (v # vs))))"

definition arr_rbegin :: "db_array \<Rightarrow> nat" where
  "arr_rbegin a = arr_end a"

definition arr_rend :: "db_array \<Rightarrow> nat" where
  "arr_rend a = arr_begin a"

fun arr_revfor :: "'s store_ops \<Rightarrow> (nat \<Rightarrow> cval) \<Rightarrow> 's \<Rightarrow> nat \<Rightarrow> db_array \<Rightarrow> nat \<Rightarrow> nat \<Rightarrow> (cval list \<times> db_array) res" where
  "arr_revfor ops G s 0 a it en = Inl OutOfFuel"
| "arr_revfor ops G s (Suc fuel) a it en =
     (if it = en then Inr ([], a)
      else bind_res (arr_at ops (G (arr_it_dec (arr_it_dec it))) s a (arr_it_dec (arr_it_dec it))) (\<lambda>(v, a').
           bind_res (arr_revfor ops G s fuel a' (arr_it_dec it) en) (\<lambda>(vs, a''). Inr (v # vs, a''))))"

text \<open>
  The postfix forms of the constant reverse iterator move their copy the other way, to a position
  that neither the old nor the new iterator has.
\<close>

definition arr_cri_post_inc :: "nat \<Rightarrow> nat \<times> nat" where
  "arr_cri_post_inc pos = (arr_it_inc pos, arr_it_dec pos)"

definition arr_cri_post_dec :: "nat \<Rightarrow> (nat \<times> nat) res" where
  "arr_cri_post_dec pos =
     (if \<not> pos > 0 then Inl (Revert ''pos can't be negative'') else Inr (arr_it_dec pos, arr_it_inc pos))"

section \<open>Clients\<close>

datatype arr_call = AAt nat | AAssign nat cval | AGetConst nat | ASetConst nat cval | AForEach | ARForEach
  | ACForEach | ARevForEach

text \<open>Each call comes with what the local variables of its reads start as.\<close>

fun arr_step ::
  "'s store_ops \<Rightarrow> (nat \<Rightarrow> cval) \<Rightarrow> 's \<times> db_array \<Rightarrow> arr_call \<Rightarrow> (cval list \<times> 's \<times> db_array) res" where
  "arr_step ops G (s, a) (AAt p) = bind_res (arr_at ops (G p) s a p) (\<lambda>(v, a'). Inr ([v], s, a'))"
| "arr_step ops G (s, a) (AAssign p v) =
     bind_res (arr_assign ops (G p) s a p v) (\<lambda>a'. Inr ([], s, a'))"
| "arr_step ops G (s, a) (AGetConst p) =
     bind_res (arr_get_const ops (G p) s a p) (\<lambda>v. Inr ([v], s, a))"
| "arr_step ops G (s, a) (ASetConst p v) =
     bind_res (arr_set_const ops s a p v) (\<lambda>(s', a'). Inr ([], s', a'))"
| "arr_step ops G (s, a) AForEach =
     bind_res (arr_for ops G s (arr_size a + 1) a (arr_begin a) (arr_end a))
       (\<lambda>(vs, a'). Inr (vs, s, a'))"
| "arr_step ops G (s, a) ARForEach =
     bind_res (arr_rfor ops G s (arr_size a + 1) a (arr_crbegin a) (arr_crend a))
       (\<lambda>vs. Inr (vs, s, a))"
| "arr_step ops G (s, a) ACForEach =
     bind_res (arr_cfor ops G s (arr_size a + 1) a (arr_cbegin a) (arr_cend a))
       (\<lambda>vs. Inr (vs, s, a))"
| "arr_step ops G (s, a) ARevForEach =
     bind_res (arr_revfor ops G s (arr_size a + 1) a (arr_rbegin a) (arr_rend a))
       (\<lambda>(vs, a'). Inr (vs, s, a'))"

fun arr_run ::
  "'s store_ops \<Rightarrow> 's \<times> db_array \<Rightarrow> ((nat \<Rightarrow> cval) \<times> arr_call) list \<Rightarrow> (cval list list \<times> 's \<times> db_array) res" where
  "arr_run ops st [] = Inr ([], st)"
| "arr_run ops st ((G, c) # cs) =
     bind_res (arr_step ops G st c) (\<lambda>(x, st').
     bind_res (arr_run ops st' cs) (\<lambda>(xs, st''). Inr (x # xs, st'')))"

definition arr_session ::
  "'s store_ops \<Rightarrow> 64 word \<Rightarrow> nat \<Rightarrow> 's \<Rightarrow> ((nat \<Rightarrow> cval) \<times> arr_call) list \<Rightarrow> (cval list list \<times> 's) res" where
  "arr_session ops name N s cs =
     bind_res (arr_run ops (s, arr_ctor name N) cs) (\<lambda>(xs, s', a).
     bind_res (arr_flush ops s' a) (\<lambda>s''. Inr (xs, s'')))"

section \<open>The abstract array\<close>

text \<open>
  An array of elements some of which were never written. A read of such an element shows what
  its local variable started as; the reads that cache, \<open>at\<close> and the mutable iterators, also
  store that, since the destructor writes the whole cache.
\<close>

definition val_or :: "cval \<Rightarrow> cval option \<Rightarrow> cval" where
  "val_or g e = (case e of None \<Rightarrow> g | Some v \<Rightarrow> v)"

definition filled :: "(nat \<Rightarrow> cval) \<Rightarrow> cval option list \<Rightarrow> cval list" where
  "filled G A = map (\<lambda>p. val_or (G p) (A ! p)) [0..<length A]"

fun arr_spec :: "(nat \<Rightarrow> cval) \<Rightarrow> cval option list \<Rightarrow> arr_call \<Rightarrow> cval list \<times> cval option list" where
  "arr_spec G A (AAt p) = ([val_or (G p) (A ! p)], A[p := Some (val_or (G p) (A ! p))])"
| "arr_spec G A (AAssign p v) = ([], A[p := Some v])"
| "arr_spec G A (AGetConst p) = ([val_or (G p) (A ! p)], A)"
| "arr_spec G A (ASetConst p v) = ([], A[p := Some v])"
| "arr_spec G A AForEach = (filled G A, map Some (filled G A))"
| "arr_spec G A ARForEach = (rev (filled G A), A)"
| "arr_spec G A ACForEach = (filled G A, A)"
| "arr_spec G A ARevForEach = (rev (filled G A), map Some (filled G A))"

fun arr_spec_run :: "cval option list \<Rightarrow> ((nat \<Rightarrow> cval) \<times> arr_call) list \<Rightarrow> cval list list \<times> cval option list" where
  "arr_spec_run A [] = ([], A)"
| "arr_spec_run A ((G, c) # cs) =
     (case arr_spec G A c of (x, A') \<Rightarrow> case arr_spec_run A' cs of (xs, A'') \<Rightarrow> (x # xs, A''))"

fun arr_call_ok :: "nat \<Rightarrow> (cval \<Rightarrow> bool) \<Rightarrow> arr_call \<Rightarrow> bool" where
  "arr_call_ok N okv (AAt p) = (p < N)"
| "arr_call_ok N okv (AAssign p v) = (p < N \<and> okv v)"
| "arr_call_ok N okv (AGetConst p) = (p < N)"
| "arr_call_ok N okv (ASetConst p v) = (p < N \<and> okv v)"
| "arr_call_ok N okv AForEach = True"
| "arr_call_ok N okv ARForEach = True"
| "arr_call_ok N okv ACForEach = True"
| "arr_call_ok N okv ARevForEach = True"

section \<open>Keys\<close>

lemma length_le_bytes [simp]: "length (le_bytes k n) = k"
  by (induction k arbitrary: n) simp_all

lemma le_bytes_inj: "m < 256 ^ k \<Longrightarrow> n < 256 ^ k \<Longrightarrow> le_bytes k m = le_bytes k n \<Longrightarrow> m = n"
proof (induction k arbitrary: m n)
  case (Suc k)
  have "m div 256 = n div 256"
    using Suc by (intro Suc.IH) (simp_all add: div_less_iff_less_mult mult.commute)
  moreover have "m mod 256 = n mod 256"
    using Suc.prems(3) by (simp add: word_of_nat_eq_iff take_bit_eq_mod)
  ultimately show ?case by (metis div_mult_mod_eq)
qed simp

lemma EncodeKey_inj:
  "p < 2 ^ 32 \<Longrightarrow> q < 2 ^ 32 \<Longrightarrow> EncodeKey name p = EncodeKey name q \<longleftrightarrow> p = q"
  using le_bytes_inj [of p 4 q] by (auto simp: EncodeKey_def)

section \<open>The array over any store\<close>

lemma map_of_cache_put: "map_of (cache_put p v c) = (map_of c)(p \<mapsto> v)"
  by (induction p v c rule: cache_put.induct) (auto simp: fun_eq_iff)

definition cache_inv :: "(nat \<times> cval) list \<Rightarrow> bool" where
  "cache_inv c \<longleftrightarrow> sorted_wrt (<) (map fst c)"

lemma set_fst_cache_put: "fst ` set (cache_put p v c) = insert p (fst ` set c)"
  by (induction p v c rule: cache_put.induct) auto

lemma cache_inv_put: "cache_inv c \<Longrightarrow> cache_inv (cache_put p v c)"
proof (induction p v c rule: cache_put.induct)
  case (2 p v q w c)
  have "\<forall>x \<in> fst ` set (cache_put p v c). q < x" if "q < p"
    using 2(2) that by (simp add: cache_inv_def set_fst_cache_put)
  with 2 show ?case by (auto simp: cache_inv_def)
qed (simp add: cache_inv_def)

lemma cache_inv_distinct: "cache_inv c \<Longrightarrow> distinct (map fst c)"
  by (simp add: cache_inv_def strict_sorted_iff)

definition arr_view :: "db_array \<Rightarrow> (cval \<rightharpoonup> cval) \<Rightarrow> cval option list" where
  "arr_view a M = map (\<lambda>p. case map_of (arr_cache a) p of Some v \<Rightarrow> Some v
     | None \<Rightarrow> M (EncodeKey (arr_name a) p)) [0..<arr_size a]"

definition state_view :: "64 word \<Rightarrow> nat \<Rightarrow> (cval \<rightharpoonup> cval) \<Rightarrow> cval option list" where
  "state_view name N M = map (\<lambda>p. M (EncodeKey name p)) [0..<N]"

definition arr_inv :: "64 word \<Rightarrow> nat \<Rightarrow> (cval \<Rightarrow> bool) \<Rightarrow> db_array \<Rightarrow> bool" where
  "arr_inv name N okv a \<longleftrightarrow> arr_name a = name \<and> arr_size a = N \<and> cache_inv (arr_cache a) \<and>
     (\<forall>(p, v) \<in> set (arr_cache a). p < N \<and> okv v)"

lemma length_filled [simp]: "length (filled G A) = length A"
  by (simp add: filled_def)

lemma nth_filled [simp]: "p < length A \<Longrightarrow> filled G A ! p = val_or (G p) (A ! p)"
  by (simp add: filled_def)

text \<open>Storing what was read changes nothing for later reads.\<close>

lemma filled_store: "p < length A \<Longrightarrow> filled G (A[p := Some (val_or (G p) (A ! p))]) = filled G A"
  by (rule nth_equalityI) (auto simp: nth_list_update val_or_def)

locale kv_array = kv_store ops okk okv ini repr
  for ops :: "'s store_ops" and okk okv ini :: "cval \<Rightarrow> bool"
    and repr :: "'s \<Rightarrow> (cval \<rightharpoonup> cval) \<Rightarrow> bool" +
  fixes name :: "64 word" and N :: nat
  assumes encode_ok: "p < N \<Longrightarrow> okk (EncodeKey name p)"
    and size_ok: "N + 1 < 2 ^ 32"
begin

lemma encode_eq [simp]: "p < N \<Longrightarrow> q < N \<Longrightarrow> EncodeKey name p = EncodeKey name q \<longleftrightarrow> p = q"
  using size_ok by (intro EncodeKey_inj) simp_all

lemma arr_inv_put: "arr_inv name N okv a \<Longrightarrow> p < N \<Longrightarrow> okv v \<Longrightarrow>
    arr_inv name N okv (a\<lparr>arr_cache := cache_put p v (arr_cache a)\<rparr>)"
proof -
  assume a: "arr_inv name N okv a" "p < N" "okv v"
  have "set (cache_put p v c) \<subseteq> insert (p, v) (set c)" for c
    by (induction p v c rule: cache_put.induct) auto
  then show ?thesis using a cache_inv_put by (fastforce simp: arr_inv_def)
qed

lemma view_put:
  "arr_inv name N okv a \<Longrightarrow> p < N \<Longrightarrow>
   arr_view (a\<lparr>arr_cache := cache_put p v (arr_cache a)\<rparr>) M = (arr_view a M)[p := Some v]"
  by (rule nth_equalityI)
    (auto simp: arr_view_def map_of_cache_put nth_list_update arr_inv_def split: option.splits)

definition asim :: "'s \<times> db_array \<Rightarrow> cval option list \<Rightarrow> bool" where
  "asim st A \<longleftrightarrow> (\<exists>M. repr (fst st) M \<and> arr_inv name N okv (snd st) \<and> A = arr_view (snd st) M)"

lemma asim_length: "asim st A \<Longrightarrow> length A = N"
  by (auto simp: asim_def arr_view_def arr_inv_def)

lemma asim_size: "asim (s, a) A \<Longrightarrow> arr_size a = N"
  by (auto simp: asim_def arr_inv_def)

lemma asim_put:
  "asim (s, a) A \<Longrightarrow> p < N \<Longrightarrow> okv v \<Longrightarrow>
   asim (s, a\<lparr>arr_cache := cache_put p v (arr_cache a)\<rparr>) (A[p := Some v])"
  using arr_inv_put view_put by (fastforce simp: asim_def)

lemma lookup_pos:
  assumes "repr s M" "arr_inv name N okv a" "p < N" "map_of (arr_cache a) p = None" "ini g"
  shows "\<exists>n. op_get ops s (EncodeKey (arr_name a) p) g = Inr (n, val_or g (arr_view a M ! p))"
    "okv (val_or g (arr_view a M ! p))"
  using get_law [OF assms(1) encode_ok [OF assms(3)] assms(5)] get_ok_value [OF assms(1,5), of "EncodeKey name p"] assms(2-4)
  by (auto simp: arr_view_def arr_inv_def val_or_def)

lemma view_cached:
  "arr_inv name N okv a \<Longrightarrow> p < N \<Longrightarrow> map_of (arr_cache a) p = Some v \<Longrightarrow> arr_view a M ! p = Some v"
  by (simp add: arr_view_def arr_inv_def)

lemma at_sim:
  assumes "asim (s, a) A" "p < N" "ini g"
  shows "\<exists>a'. arr_at ops g s a p = Inr (val_or g (A ! p), a') \<and> asim (s, a') (A[p := Some (val_or g (A ! p))])"
proof -
  obtain M where M: "repr s M" "arr_inv name N okv a" "A = arr_view a M"
    using assms(1) by (auto simp: asim_def)
  show ?thesis
  proof (cases "map_of (arr_cache a) p")
    case None
    then have "arr_at ops g s a p =
        Inr (val_or g (A ! p), a\<lparr>arr_cache := cache_put p (val_or g (A ! p)) (arr_cache a)\<rparr>)"
      using lookup_pos(1) [OF M(1,2) assms(2) _ assms(3)] M(2,3) assms(2) by (auto simp: arr_at_def arr_inv_def)
    moreover have "okv (val_or g (A ! p))" using lookup_pos(2) [OF M(1,2) assms(2) None assms(3)] M(3) by simp
    ultimately show ?thesis using asim_put [OF assms(1,2)] by blast
  next
    case (Some v)
    then have v: "A ! p = Some v" using M view_cached [OF M(2) assms(2)] by simp
    then have "A[p := Some (val_or g (A ! p))] = A" by (simp add: val_or_def list_update_same_conv asim_length [OF assms(1)] assms(2))
    then show ?thesis using assms Some v M(2) by (auto simp: arr_at_def arr_inv_def val_or_def)
  qed
qed

lemma at_out_of_range:
  "asim (s, a) A \<Longrightarrow> \<not> p < N \<Longrightarrow> arr_at ops g s a p = Inl (Revert ''out of range pos:'')"
  by (auto simp: arr_at_def asim_def arr_inv_def)

lemma get_const_sim:
  assumes "asim (s, a) A" "p < N" "ini g"
  shows "arr_get_const ops g s a p = Inr (val_or g (A ! p))"
proof -
  obtain M where M: "repr s M" "arr_inv name N okv a" "A = arr_view a M"
    using assms(1) by (auto simp: asim_def)
  show ?thesis
    using lookup_pos(1) [OF M(1,2) assms(2) _ assms(3)] view_cached [OF M(2) assms(2)] M(3)
    by (auto simp: arr_get_const_def val_or_def split: option.splits)
qed

lemma assign_sim:
  assumes "asim (s, a) A" "p < N" "ini g" "okv v"
  shows "\<exists>a'. arr_assign ops g s a p v = Inr a' \<and> asim (s, a') (A[p := Some v])"
proof -
  obtain a' where a': "arr_at ops g s a p = Inr (val_or g (A ! p), a')" "asim (s, a') (A[p := Some (val_or g (A ! p))])"
    using at_sim [OF assms(1-3)] by blast
  from asim_put [OF a'(2) assms(2,4)] a'(1) show ?thesis by (simp add: arr_assign_def)
qed

lemma set_const_sim:
  assumes "asim (s, a) A" "p < N" "okv v"
  shows "\<exists>s' a'. arr_set_const ops s a p v = Inr (s', a') \<and> asim (s', a') (A[p := Some v])"
proof -
  obtain M where M: "repr s M" "arr_inv name N okv a" "A = arr_view a M"
    using assms(1) by (auto simp: asim_def)
  obtain s' where s': "op_set ops s (EncodeKey name p) v = Inr s'" "repr s' (M(EncodeKey name p \<mapsto> v))"
    using set_law [OF M(1) encode_ok [OF assms(2)] assms(3)] by blast
  have nm: "arr_name a = name" "arr_size a = N" using M(2) by (simp_all add: arr_inv_def)
  let ?a = "if map_of (arr_cache a) p \<noteq> None then a\<lparr>arr_cache := cache_put p v (arr_cache a)\<rparr> else a"
  have "arr_inv name N okv ?a" using arr_inv_put M(2) assms(2,3) by simp
  moreover have "arr_view ?a (M(EncodeKey name p \<mapsto> v)) = A[p := Some v]"
    using M(3) assms(2)
    by (intro nth_equalityI)
      (auto simp: nm arr_view_def map_of_cache_put nth_list_update split: option.splits)
  ultimately have "asim (s', ?a) (A[p := Some v])" using s'(2) unfolding asim_def by auto
  then show ?thesis using s'(1) M(2) by (auto simp: arr_set_const_def arr_inv_def Let_def)
qed

text \<open>The loops: forward from a position to the end, and down from a position to the start.\<close>

lemma step_arith: "i < N \<Longrightarrow> arr_it_dec (i + 1) = i" "i < N \<Longrightarrow> arr_it_inc (i + 1) = Suc i + 1"
  "i < N \<Longrightarrow> arr_it_dec (Suc i + 1) = i + 1"
proof -
  have dec: "arr_it_dec (k + 1) = k" if "k \<le> N" for k
  proof -
    have "k + 1 + (2 ^ 32 - 1) = k + 2 ^ 32" "k < 2 ^ 32" using that size_ok by simp_all
    then show ?thesis unfolding arr_it_dec_def by simp
  qed
  show "i < N \<Longrightarrow> arr_it_dec (i + 1) = i" "i < N \<Longrightarrow> arr_it_dec (Suc i + 1) = i + 1" using dec [of i] dec [of "Suc i"] by simp_all
  show "i < N \<Longrightarrow> arr_it_inc (i + 1) = Suc i + 1" using size_ok by (simp add: arr_it_inc_def)
qed

lemma for_sim:
  assumes "asim (s, a) A" "i \<le> N" "N - i < fuel" "\<forall>p < N. ini (G p)"
  shows "\<exists>a'. arr_for ops G s fuel a (i + 1) (N + 1) = Inr (drop i (filled G A), a') \<and>
    asim (s, a') (take i A @ map Some (drop i (filled G A)))"
  using assms
proof (induction fuel arbitrary: a A i)
  case (Suc fuel)
  note len = asim_length [OF Suc.prems(1)]
  show ?case
  proof (cases "i = N")
    case True
    then show ?thesis using Suc.prems(1) len by simp
  next
    case False
    then have i: "i < N" using Suc.prems(2) by simp
    let ?A = "A[i := Some (val_or (G i) (A ! i))]"
    obtain a1 where a1: "arr_at ops (G i) s a i = Inr (val_or (G i) (A ! i), a1)" "asim (s, a1) ?A"
      using at_sim [OF Suc.prems(1) i] Suc.prems(4) i by blast
    have F: "filled G ?A = filled G A" using i len by (intro filled_store) simp
    obtain a2 where a2: "arr_for ops G s fuel a1 (Suc i + 1) (N + 1) = Inr (drop (Suc i) (filled G A), a2)"
      "asim (s, a2) (take (Suc i) ?A @ map Some (drop (Suc i) (filled G A)))"
      using Suc.IH [OF a1(2), of "Suc i"] i Suc.prems(3,4) unfolding F by force
    have d: "drop i (filled G A) = val_or (G i) (A ! i) # drop (Suc i) (filled G A)"
      using i len Cons_nth_drop_Suc [of i "filled G A"] by simp
    have "take (Suc i) ?A = take i A @ [Some (val_or (G i) (A ! i))]"
      using i len by (simp add: take_Suc_conv_app_nth)
    then show ?thesis using a1(1) a2 False d step_arith [OF i] by simp
  qed
qed simp

lemma rfor_sim:
  assumes "asim (s, a) A" "i \<le> N" "i < fuel" "\<forall>p < N. ini (G p)"
  shows "arr_rfor ops G s fuel a i 0 = Inr (rev (take i (filled G A)))"
  using assms
proof (induction fuel arbitrary: i)
  case (Suc fuel)
  show ?case
  proof (cases i)
    case (Suc j)
    then have j: "j < N" "j < fuel" using Suc.prems(2,3) by simp_all
    then have "arr_rfor ops G s fuel a j 0 = Inr (rev (take j (filled G A)))"
      using Suc.IH [of j] Suc.prems(1,4) by simp
    moreover have "take i (filled G A) = take j (filled G A) @ [val_or (G j) (A ! j)]"
      using Suc j asim_length [OF Suc.prems(1)] by (simp add: take_Suc_conv_app_nth)
    ultimately show ?thesis
      using get_const_sim [OF Suc.prems(1) j(1), of "G j"] Suc Suc.prems(4) j(1) step_arith(1) [OF j(1)] by simp
  qed simp
qed simp

lemma cfor_sim:
  assumes "asim (s, a) A" "i \<le> N" "N - i < fuel" "\<forall>p < N. ini (G p)"
  shows "arr_cfor ops G s fuel a (i + 1) (N + 1) = Inr (drop i (filled G A))"
  using assms
proof (induction fuel arbitrary: i)
  case (Suc fuel)
  show ?case
  proof (cases "i = N")
    case True
    then show ?thesis using asim_length [OF Suc.prems(1)] by simp
  next
    case False
    then have i: "i < N" using Suc.prems(2) by simp
    have "arr_cfor ops G s fuel a (Suc i + 1) (N + 1) = Inr (drop (Suc i) (filled G A))"
      using Suc.IH [OF Suc.prems(1), of "Suc i"] i Suc.prems(3,4) by force
    moreover have "drop i (filled G A) = val_or (G i) (A ! i) # drop (Suc i) (filled G A)"
      using i asim_length [OF Suc.prems(1)] Cons_nth_drop_Suc [of i "filled G A"] by simp
    ultimately show ?thesis
      using get_const_sim [OF Suc.prems(1) i, of "G i"] Suc.prems(4) i step_arith [OF i] False by simp
  qed
qed simp

lemma revfor_sim:
  assumes "asim (s, a) A" "i \<le> N" "i < fuel" "\<forall>p < N. ini (G p)"
  shows "\<exists>a'. arr_revfor ops G s fuel a (i + 1) 1 = Inr (rev (take i (filled G A)), a') \<and>
    asim (s, a') (map Some (take i (filled G A)) @ drop i A)"
  using assms
proof (induction fuel arbitrary: a A i)
  case (Suc fuel)
  note len = asim_length [OF Suc.prems(1)]
  show ?case
  proof (cases i)
    case 0
    then show ?thesis using Suc.prems(1) by simp
  next
    case (Suc j)
    then have j: "j < N" "j < fuel" using Suc.prems(2,3) by simp_all
    let ?A = "A[j := Some (val_or (G j) (A ! j))]"
    obtain a1 where a1: "arr_at ops (G j) s a j = Inr (val_or (G j) (A ! j), a1)" "asim (s, a1) ?A"
      using at_sim [OF Suc.prems(1) j(1)] Suc.prems(4) j(1) by blast
    have F: "filled G ?A = filled G A" using j(1) len by (intro filled_store) simp
    obtain a2 where a2: "arr_revfor ops G s fuel a1 (j + 1) 1 = Inr (rev (take j (filled G A)), a2)"
      "asim (s, a2) (map Some (take j (filled G A)) @ drop j ?A)"
      using Suc.IH [OF a1(2), of j] j Suc.prems(4) unfolding F by auto
    have t: "take i (filled G A) = take j (filled G A) @ [val_or (G j) (A ! j)]"
      using Suc j len by (simp add: take_Suc_conv_app_nth)
    have "drop j ?A = Some (val_or (G j) (A ! j)) # drop i A"
      using j(1) len Suc Cons_nth_drop_Suc [of j ?A] by simp
    then show ?thesis using a1(1) a2 t Suc step_arith [OF j(1)] by simp
  qed
qed simp

lemma step_sim:
  assumes sim: "asim (s, a) A" and c: "arr_call_ok N okv c" and G: "\<forall>p < N. ini (G p)" and x: "arr_spec G A c = (x, A')"
  shows "\<exists>st'. arr_step ops G (s, a) c = Inr (x, st') \<and> asim st' A'"
proof (cases c)
  case (AAt p)
  then show ?thesis using at_sim [OF sim, of p "G p"] c x G by auto
next
  case (AAssign p v)
  then show ?thesis using assign_sim [OF sim, of p "G p" v] c x G by auto
next
  case (AGetConst p)
  then show ?thesis using get_const_sim [OF sim, of p "G p"] sim c x G by auto
next
  case (ASetConst p v)
  then show ?thesis using set_const_sim [OF sim, of p v] c x by auto
next
  case AForEach
  then show ?thesis using for_sim [OF sim, of 0 "N + 1" G] G x asim_size [OF sim] by (auto simp: arr_begin_def arr_end_def)
next
  case ARForEach
  then show ?thesis
    using rfor_sim [OF sim, of N "N + 1" G] G sim x asim_length [OF sim] asim_size [OF sim]
    by (auto simp: arr_crbegin_def arr_crend_def)
next
  case ACForEach
  then show ?thesis
    using cfor_sim [OF sim, of 0 "N + 1" G] G sim x asim_size [OF sim] by (auto simp: arr_cbegin_def arr_cend_def)
next
  case ARevForEach
  then show ?thesis
    using revfor_sim [OF sim, of N "N + 1" G] G x asim_length [OF sim] asim_size [OF sim]
    by (auto simp: arr_rbegin_def arr_rend_def arr_begin_def arr_end_def)
qed

abbreviation arr_calls_ok :: "((nat \<Rightarrow> cval) \<times> arr_call) list \<Rightarrow> bool" where
  "arr_calls_ok \<equiv> list_all (\<lambda>(G, c). (\<forall>p < N. ini (G p)) \<and> arr_call_ok N okv c)"

lemma run_sim:
  assumes "asim st A" "arr_calls_ok cs" "arr_spec_run A cs = (xs, A')"
  shows "\<exists>st'. arr_run ops st cs = Inr (xs, st') \<and> asim st' A'"
  using assms
proof (induction cs arbitrary: st A xs)
  case (Cons gc cs)
  obtain G c where gc: "gc = (G, c)" by (cases gc)
  obtain s a where st: "st = (s, a)" by (cases st)
  obtain x A1 where x: "arr_spec G A c = (x, A1)" by fastforce
  obtain ys where ys: "arr_spec_run A1 cs = (ys, A')" "xs = x # ys"
    using Cons.prems(3) x gc by (auto split: prod.splits)
  obtain st1 where st1: "arr_step ops G st c = Inr (x, st1)" "asim st1 A1"
    using step_sim [of s a A c G x A1] Cons.prems(1,2) st x gc by auto
  obtain st2 where "arr_run ops st1 cs = Inr (ys, st2)" "asim st2 A'"
    using Cons.IH [OF st1(2) _ ys(1)] Cons.prems(2) by auto
  then show ?case using st1(1) ys(2) gc by auto
qed auto

lemma flush_loop_ok:
  assumes "repr s M" "\<forall>(p, v) \<in> set c. p < N \<and> okv v" "distinct (map fst c)"
  shows "\<exists>s' M'. arr_flush_loop ops name s c = Inr s' \<and> repr s' M' \<and>
    (\<forall>p < N. M' (EncodeKey name p) = (case map_of c p of Some v \<Rightarrow> Some v | None \<Rightarrow> M (EncodeKey name p)))"
  using assms
proof (induction c arbitrary: s M)
  case (Cons pv c)
  obtain p v where pv: "pv = (p, v)" by (cases pv)
  then have p: "p < N" "okv v" "p \<notin> fst ` set c" using Cons.prems by auto
  obtain s1 where s1: "op_set ops s (EncodeKey name p) v = Inr s1" "repr s1 (M(EncodeKey name p \<mapsto> v))"
    using set_law [OF Cons.prems(1) encode_ok [OF p(1)] p(2)] by blast
  obtain s' M' where s': "arr_flush_loop ops name s1 c = Inr s'" "repr s' M'"
    "\<forall>q < N. M' (EncodeKey name q) =
       (case map_of c q of Some w \<Rightarrow> Some w | None \<Rightarrow> (M(EncodeKey name p \<mapsto> v)) (EncodeKey name q))"
    using Cons.IH [OF s1(2)] Cons.prems(2,3) by auto
  moreover have "map_of c p = None" using p(3) by (simp add: map_of_eq_None_iff)
  ultimately show ?case
    using s1(1) pv p by (intro exI [of _ s'] exI [of _ M']) (auto split: option.splits)
qed auto

lemma session_refines:
  assumes r: "repr s M" and cs: "arr_calls_ok cs" and x: "arr_spec_run (state_view name N M) cs = (xs, A')"
  shows "\<exists>s' M'. arr_session ops name N s cs = Inr (xs, s') \<and> repr s' M' \<and> state_view name N M' = A'"
proof -
  have "asim (s, arr_ctor name N) (state_view name N M)"
    using r by (auto simp: asim_def arr_ctor_def arr_inv_def cache_inv_def arr_view_def state_view_def)
  then obtain s1 a1 where run: "arr_run ops (s, arr_ctor name N) cs = Inr (xs, s1, a1)"
    and sim: "asim (s1, a1) A'" using run_sim [OF _ cs x, of "(s, arr_ctor name N)"] by auto
  obtain M1 where M1: "repr s1 M1" "arr_inv name N okv a1" "A' = arr_view a1 M1"
    using sim by (auto simp: asim_def)
  obtain s2 M2 where s2: "arr_flush_loop ops name s1 (arr_cache a1) = Inr s2" "repr s2 M2"
    "\<forall>p < N. M2 (EncodeKey name p) =
       (case map_of (arr_cache a1) p of Some v \<Rightarrow> Some v | None \<Rightarrow> M1 (EncodeKey name p))"
    using flush_loop_ok [OF M1(1), of "arr_cache a1"] M1(2) cache_inv_distinct by (auto simp: arr_inv_def)
  have "state_view name N M2 = A'"
    using s2(3) M1(2,3) by (auto simp: state_view_def arr_view_def arr_inv_def)
  then show ?thesis using run s2 M1(2) by (auto simp: arr_session_def arr_flush_def arr_inv_def)
qed

end

section \<open>The class over the contract state\<close>

lemma EncodeKey_typed: "typed TString (EncodeKey name p)"
  by (simp add: typed_def fits_def EncodeKey_def item_len_def length_enc_str length_rlp_head)

text \<open>
  The state as the array sees it: under the keys of its positions nothing or a value of the type.
  Nothing is said of other keys.
\<close>

definition array_holds :: "'s chain_host \<Rightarrow> cty \<Rightarrow> 64 word \<Rightarrow> nat \<Rightarrow> 's \<Rightarrow> cval option list \<Rightarrow> bool" where
  "array_holds H vt name N s A \<longleftrightarrow> length A = N \<and>
     (\<forall>p < N. entry_is H s (EncodeKey name p) (A ! p) \<and> (\<forall>v. A ! p = Some v \<longrightarrow> typed vt v))"

definition array_key :: "64 word \<Rightarrow> nat \<Rightarrow> cval \<Rightarrow> bool" where
  "array_key name N q \<longleftrightarrow> (\<exists>p < N. q = EncodeKey name p)"

abbreviation array_frame :: "'s chain_host \<Rightarrow> 64 word \<Rightarrow> nat \<Rightarrow> 's \<Rightarrow> 's \<Rightarrow> bool" where
  "array_frame H name N \<equiv> untouched H {key_bytes (EncodeKey name p) |p. p < N}"

definition entries :: "64 word \<Rightarrow> cval option list \<Rightarrow> (cval \<rightharpoonup> cval)" where
  "entries name A q = (if \<exists>p < length A. q = EncodeKey name p then A ! (LEAST p. q = EncodeKey name p) else None)"

locale state_array =
  fixes H :: "'s chain_host" and vt :: cty and name :: "64 word" and N :: nat
  assumes array_host: "chain_host_ok H" and bound: "N + 1 < 2 ^ 32"

sublocale state_array \<subseteq> typed_state H "array_key name N" TString vt
  by unfold_locales (auto simp: array_host array_key_def EncodeKey_typed)

sublocale state_array \<subseteq> arr: kv_array "state_ops vt H" "array_key name N" "typed vt" "local_ok vt"
  "store_repr H (array_key name N) vt s0" name N
  for s0
  by unfold_locales (use bound in \<open>auto simp: array_key_def\<close>)

context state_array
begin

lemma entries_pos:
  assumes "p < N" "length A = N"
  shows "entries name A (EncodeKey name p) = A ! p"
proof -
  have "(LEAST q. EncodeKey name p = EncodeKey name q) = p"
  proof (rule Least_equality)
    show "p \<le> q" if "EncodeKey name p = EncodeKey name q" for q
    proof (cases "q < N")
      case True
      then show ?thesis using that assms(1) by (simp only: arr.encode_eq)
    qed (use assms(1) in simp)
  qed simp
  then show ?thesis using assms by (auto simp: entries_def)
qed

lemma array_repr:
  assumes "array_holds H vt name N s A"
  shows "store_repr H (array_key name N) vt s s (entries name A)" "state_view name N (entries name A) = A"
proof -
  have len: "length A = N" using assms by (simp add: array_holds_def)
  then show "state_view name N (entries name A) = A"
    by (intro nth_equalityI) (simp_all add: state_view_def entries_pos)
  have "entries name A k = None" if "\<not> array_key name N k" for k
    using that len by (auto simp: entries_def array_key_def)
  then have "array_key name N k" if "entries name A k = Some v" for k v using that by fastforce
  moreover have "entry_is H s k (entries name A k) \<and> (\<forall>v. entries name A k = Some v \<longrightarrow> typed vt v)" if "array_key name N k" for k
    using that assms entries_pos [OF _ len] by (auto simp: array_key_def array_holds_def)
  ultimately show "store_repr H (array_key name N) vt s s (entries name A)" unfolding store_repr_def by (metis untouched_refl)
qed

lemma repr_array:
  assumes "store_repr H (array_key name N) vt s0 s M"
  shows "array_holds H vt name N s (state_view name N M)" "array_frame H name N s0 s"
proof -
  have "key_bytes ` Collect (array_key name N) = {key_bytes (EncodeKey name p) |p. p < N}"
    unfolding array_key_def by blast
  then show "array_frame H name N s0 s" using assms by (simp add: store_repr_def)
  show "array_holds H vt name N s (state_view name N M)"
    using assms by (auto simp: array_holds_def store_repr_def array_key_def state_view_def)
qed

lemma array_session:
  assumes "array_holds H vt name N s A"
    and "list_all (\<lambda>(G, c). (\<forall>p < N. local_ok vt (G p)) \<and> arr_call_ok N (typed vt) c) cs" "arr_spec_run A cs = (xs, A')"
  shows "\<exists>s'. arr_session (state_ops vt H) name N s cs = Inr (xs, s') \<and> array_holds H vt name N s' A' \<and> array_frame H name N s s'"
  using arr.session_refines [OF array_repr(1) [OF assms(1)] assms(2)] array_repr(2) [OF assms(1)] assms(3) repr_array
  by fastforce

end

lemma state_arrayI: "chain_host_ok H \<Longrightarrow> N + 1 < 2 ^ 32 \<Longrightarrow> state_array H N"
  by unfold_locales

interpretation three_array: state_array model_chain vt name 3 for vt name
  by (rule state_arrayI) (simp_all add: model_chain_ok)

lemma array_empty: "array_holds model_chain vt name N (\<lambda>k. []) (replicate N None)"
  by (simp add: array_holds_def entry_empty)

section \<open>What a client may rely on\<close>

text \<open>
  C9. \<open>db::Array\<close> is an array: over any chain, a session of in-range calls observes what a plain
  array would show, the four kinds of iteration visit the elements in order and end, and after
  the destructor the contract state holds the array. No other key of the state is touched, and
  nothing is assumed of it. A read of an element that was never written shows what its local
  variable started as, the default for a class type and any value for a scalar, and \<open>at\<close> and the
  mutable iterators store that value.
\<close>

theorem array_session_refines:
  assumes "chain_host_ok H" "N + 1 < 2 ^ 32" "array_holds H vt name N s A"
    and "list_all (\<lambda>(G, c). (\<forall>p < N. local_ok vt (G p)) \<and> arr_call_ok N (typed vt) c) cs"
    and "arr_spec_run A cs = (xs, A')"
  shows "\<exists>s'. arr_session (state_ops vt H) name N s cs = Inr (xs, s') \<and>
    array_holds H vt name N s' A' \<and> array_frame H name N s s'"
  by (rule state_array.array_session [OF state_arrayI [OF assms(1,2)] assms(3-5)])

lemma filled_three: "filled G [a, b, c] = [val_or (G 0) a, val_or (G 1) b, val_or (G 2) c]"
  by (simp add: filled_def upt_rec numeral_2_eq_2)

theorem array_session_refines_witness:
  "\<exists>s'. arr_session (state_ops (TU W64) model_chain) 5 3 (\<lambda>k. [])
      [(\<lambda>p. VUInt 7, AAssign 1 (VUInt 9)), (\<lambda>p. VUInt 7, ASetConst 2 (VUInt 4)), (\<lambda>p. VUInt 6, ARForEach),
       (\<lambda>p. VUInt 7, AForEach), (\<lambda>p. VUInt 6, ACForEach)] =
      Inr ([[], [], [VUInt 4, VUInt 9, VUInt 6], [VUInt 7, VUInt 9, VUInt 4], [VUInt 7, VUInt 9, VUInt 4]], s') \<and>
    array_holds model_chain (TU W64) 5 3 s' [Some (VUInt 7), Some (VUInt 9), Some (VUInt 4)] \<and>
    array_frame model_chain 5 3 (\<lambda>k. []) s'"
proof -
  let ?cs = "[(\<lambda>p. VUInt 7, AAssign 1 (VUInt 9)), (\<lambda>p. VUInt 7, ASetConst 2 (VUInt 4)), (\<lambda>p. VUInt 6, ARForEach),
       (\<lambda>p. VUInt 7, AForEach), (\<lambda>p. VUInt 6, ACForEach)]"
  have three: "replicate 3 None = [None, None, None]" by (simp add: numeral_3_eq_3)
  have "local_ok (TU W64) (VUInt 4)" "local_ok (TU W64) (VUInt 6)" "local_ok (TU W64) (VUInt 7)" "local_ok (TU W64) (VUInt 9)"
    by (simp_all add: local_ok_def typed_def fits_def item_len_def enc_str_def rlp_head_def be_bytes.simps)
  then have b: "list_all (\<lambda>(G, c). (\<forall>p < 3. local_ok (TU W64) (G p)) \<and> arr_call_ok 3 (typed (TU W64)) c) ?cs"
    by (simp add: local_ok_def)
  have c: "arr_spec_run (replicate 3 None) ?cs =
      ([[], [], [VUInt 4, VUInt 9, VUInt 6], [VUInt 7, VUInt 9, VUInt 4], [VUInt 7, VUInt 9, VUInt 4]],
       [Some (VUInt 7), Some (VUInt 9), Some (VUInt 4)])"
    unfolding three by (simp add: filled_three val_or_def)
  have n: "3 + 1 < (2 :: nat) ^ 32" by simp
  show ?thesis by (rule array_session_refines [OF model_chain_ok n array_empty b c])
qed

text \<open>The postfix increment returns the new position, not the old one as its form promises.\<close>

lemma array_post_increment: "pos + 1 < 2 ^ 32 \<Longrightarrow> fst (arr_it_post_inc pos) \<noteq> pos"
  by (simp add: arr_it_post_inc_def arr_it_inc_def)

end
