(* ===== verification/Multi_Store.thy ===== *)
theory Multi_Store
  imports Storage
begin

text \<open>
  The contract state seen by a class that stores values of several types under keys of several
  shapes: \<open>db::MultiIndex\<close> keeps its objects, its unique indices, its ordinary indices and its
  counter side by side. RLP is an injective encoding, so keys that differ as trees never meet
  in the state; the state is then one map whose value type depends on the key.
\<close>

section \<open>The encoding is injective\<close>

lemma byte_of_nat_eq:
  "m < 256 \<Longrightarrow> n < 256 \<Longrightarrow> (word_of_nat m :: byte) = word_of_nat n \<longleftrightarrow> m = n"
  using unat_byte_of_nat by metis

lemma rlp_head_prefix:
  assumes "rlp_head b m @ u = rlp_head b n @ v" "b \<le> 192" "m < 2 ^ 31" "n < 2 ^ 31"
  shows "m = n \<and> u = v"
proof -
  have k: "length (be_bytes m) \<le> 4" "length (be_bytes n) \<le> 4" "0 < length (be_bytes m) \<or> m = 0"
    "0 < length (be_bytes n) \<or> n = 0"
    using assms(3,4) length_be_bytes_4 by auto
  show ?thesis
  proof (cases "m < 56 \<or> n < 56")
    case True
    then have "m < 56 \<and> n < 56 \<and> b + m = b + n"
      using assms(1,2) k byte_of_nat_eq
      by (auto simp: rlp_head_def simp del: of_nat_add split: if_splits)
    then show ?thesis using assms(1) by (auto simp: rlp_head_def)
  next
    case False
    then have l: "length (be_bytes m) = length (be_bytes n)" "be_bytes m @ u = be_bytes n @ v"
      using assms(1,2) k byte_of_nat_eq [of "b + 55 + length (be_bytes m)" "b + 55 + length (be_bytes n)"]
      by (auto simp: rlp_head_def simp del: of_nat_add)
    then have "be_bytes m = be_bytes n" "u = v" by auto
    then have "be_val (be_bytes m) = be_val (be_bytes n)" by simp
    then show ?thesis using \<open>u = v\<close> by simp
  qed
qed

text \<open>The first byte tells the three forms of an item apart.\<close>

definition lead :: "rlp_item \<Rightarrow> nat" where
  "lead x = (case x of
     Str bs \<Rightarrow> if length bs = 1 \<and> unat (hd bs) < 128 then 0 else 1
   | Lst xs \<Rightarrow> 2)"

lemma hd_rlp_head:
  assumes "n < 2 ^ 31" "b \<le> 192"
  shows "b \<le> unat (hd (rlp_head b n))" "unat (hd (rlp_head b n)) < b + 64"
  using assms length_be_bytes_4 [OF assms(1)] by (auto simp: rlp_head_def unat_byte_of_nat simp del: of_nat_add)

lemma hd_enc:
  assumes "length (enc x) < 2 ^ 31"
  shows "lead x = (let b = unat (hd (enc x)) in if b < 128 then 0 else if b < 192 then 1 else 2)"
proof (cases x)
  case (Str bs)
  then show ?thesis
    using assms hd_rlp_head [of "length bs" 128] by (auto simp: lead_def enc_str_def Let_def)
next
  case (Lst xs)
  then show ?thesis
    using assms hd_rlp_head [of "length (concat (map enc xs))" 192]
    by (auto simp: lead_def enc_list_def Let_def)
qed

lemma lead_prefix:
  assumes "enc x @ r = enc y @ s" "length (enc x) < 2 ^ 31" "length (enc y) < 2 ^ 31"
  shows "lead x = lead y"
proof -
  have "hd (enc x @ r) = hd (enc y @ s)" by (simp only: assms(1))
  then show ?thesis unfolding hd_enc [OF assms(2)] hd_enc [OF assms(3)] by simp
qed

lemma enc_str_prefix:
  assumes e: "enc_str bs @ r = enc y @ s" and l: "length (enc_str bs) < 2 ^ 31" "length (enc y) < 2 ^ 31"
  shows "y = Str bs \<and> r = s"
proof -
  have "lead (Str bs) = lead y" using assms by (intro lead_prefix [of _ r _ s]) simp_all
  then obtain cs where y: "y = Str cs" "lead (Str bs) = lead (Str cs)"
    by (cases y) (simp_all add: lead_def split: if_split_asm)
  show ?thesis
  proof (cases "length bs = 1 \<and> unat (hd bs) < 128")
    case True
    with y(2) have c: "length cs = 1 \<and> unat (hd cs) < 128" by (simp add: lead_def split: if_split_asm)
    have "bs @ r = cs @ s" using e unfolding y(1) enc.simps enc_str_def if_P [OF True] if_P [OF c] .
    then show ?thesis using True c y(1) by simp
  next
    case False
    with y(2) have c: "\<not> (length cs = 1 \<and> unat (hd cs) < 128)" by (simp add: lead_def split: if_split_asm)
    have h: "rlp_head 128 (length bs) @ bs @ r = rlp_head 128 (length cs) @ cs @ s"
      using e unfolding y(1) enc.simps enc_str_def if_not_P [OF False] if_not_P [OF c] by simp
    have "length bs < 2 ^ 31" "length cs < 2 ^ 31"
      using l length_enc_str_ge [of bs] length_enc_str_ge [of cs] unfolding y(1) enc.simps by linarith+
    then have "length bs = length cs \<and> bs @ r = cs @ s" by (intro rlp_head_prefix [OF h]) simp_all
    then show ?thesis using append_eq_append_conv [of bs cs r s] y(1) by simp
  qed
qed

lemma concat_enc_inj:
  assumes IH: "\<And>x y r s. x \<in> set xs \<Longrightarrow> enc x @ r = enc y @ s \<Longrightarrow> length (enc x) < 2 ^ 31 \<Longrightarrow>
      length (enc y) < 2 ^ 31 \<Longrightarrow> x = y \<and> r = s"
    and "concat (map enc xs) = concat (map enc ys)" "length (concat (map enc xs)) < 2 ^ 31"
  shows "xs = ys"
  using assms
proof (induction xs arbitrary: ys)
  case Nil
  then show ?case by (cases ys) simp_all
next
  case (Cons x xs)
  then obtain y ys' where ys: "ys = y # ys'" by (cases ys) auto
  have eq: "enc x @ concat (map enc xs) = enc y @ concat (map enc ys')" using Cons.prems(2) ys by simp
  have l: "length (enc x @ concat (map enc xs)) < 2 ^ 31" using Cons.prems(3) by simp
  then have "length (enc y @ concat (map enc ys')) < 2 ^ 31" by (simp only: eq)
  then have "x = y \<and> concat (map enc xs) = concat (map enc ys')"
    using l by (intro Cons.prems(1) [OF _ eq]) simp_all
  moreover from this have "xs = ys'"
    using l by (intro Cons.IH Cons.prems(1)) simp_all
  ultimately show ?case using ys by simp
qed

lemma enc_prefix:
  assumes "enc x @ r = enc y @ s" "length (enc x) < 2 ^ 31" "length (enc y) < 2 ^ 31"
  shows "x = y \<and> r = s"
  using assms
proof (induction x arbitrary: y r s)
  case (Str bs)
  then show ?case using enc_str_prefix [of bs r y s] by simp
next
  case (Lst xs)
  have "lead (Lst xs) = lead y" by (rule lead_prefix [OF Lst.prems])
  then obtain ys where y: "y = Lst ys" by (cases y) (simp_all add: lead_def split: if_split_asm)
  let ?p = "concat (map enc xs)" and ?q = "concat (map enc ys)"
  have h: "rlp_head 192 (length ?p) @ ?p @ r = rlp_head 192 (length ?q) @ ?q @ s"
    using Lst.prems(1) unfolding y enc.simps enc_list_def by simp
  have b: "length ?p < 2 ^ 31" "length ?q < 2 ^ 31"
    using Lst.prems(2,3) unfolding y enc.simps enc_list_def length_append by linarith+
  then have "length ?p = length ?q \<and> ?p @ r = ?q @ s" by (intro rlp_head_prefix [OF h]) simp_all
  then have pq: "?p = ?q" "r = s" using append_eq_append_conv [of ?p ?q r s] by simp_all
  have "xs = ys" by (rule concat_enc_inj [OF Lst.IH pq(1) b(1)])
  then show ?case using y pq(2) by simp
qed

lemma enc_inj: "enc x = enc y \<Longrightarrow> length (enc x) < 2 ^ 31 \<Longrightarrow> x = y"
  using enc_prefix [of x "[]" y "[]"] by simp

lemma key_bytes_item: "key_bytes a = key_bytes b \<Longrightarrow> fits a \<Longrightarrow> item_of a = item_of b"
  unfolding key_bytes_def by (rule enc_inj) (simp_all add: fits_def item_len_def)

lemma item_of_inj:
  assumes "has_type t a" "has_type t b" "fits a" "item_of a = item_of b"
  shows "a = b"
  using key_bytes_inj [OF assms(1-3)] assms(4) by (simp add: key_bytes_def)

section \<open>One map for keys of several shapes\<close>

text \<open>
  \<open>vtype\<close> gives the type of the value under a key, \<open>okk\<close> the keys the class uses.
\<close>

definition multi_repr ::
  "'s chain_host \<Rightarrow> (cval \<Rightarrow> bool) \<Rightarrow> (cval \<Rightarrow> cty) \<Rightarrow> 's \<Rightarrow> (cval \<rightharpoonup> cval) \<Rightarrow> bool" where
  "multi_repr H okk vtype s M \<longleftrightarrow> (\<forall>k. okk k \<longrightarrow> entry_is H s k (M k)) \<and>
     (\<forall>k v. M k = Some v \<longrightarrow> okk k \<and> typed (vtype k) v)"

locale multi_store =
  fixes H :: "'s chain_host" and okk :: "cval \<Rightarrow> bool" and vtype :: "cval \<Rightarrow> cty"
  assumes host: "chain_host_ok H"
    and key_fits: "okk k \<Longrightarrow> fits k"
    and key_inj: "okk j \<Longrightarrow> okk k \<Longrightarrow> item_of j = item_of k \<Longrightarrow> j = k"
begin

abbreviation repr :: "'s \<Rightarrow> (cval \<rightharpoonup> cval) \<Rightarrow> bool" where
  "repr \<equiv> multi_repr H okk vtype"

lemma other_key: "okk j \<Longrightarrow> okk k \<Longrightarrow> j \<noteq> k \<Longrightarrow> key_bytes j \<noteq> key_bytes k"
  using key_bytes_item key_inj key_fits by blast

lemma multi_set:
  assumes "repr s M" "okk k" "typed (vtype k) v"
  shows "\<exists>s'. set_state H s k v = Inr s' \<and> repr s' (M(k \<mapsto> v))"
  using assms other_key set_state_ok [OF host key_fits, of k v s] entry_is_set [OF host]
  by (auto simp: multi_repr_def typed_def)

lemma multi_del:
  assumes "repr s M" "okk k"
  shows "\<exists>s'. del_state H s k = Inr s' \<and> repr s' (M(k := None))"
  using assms other_key del_state_ok [OF host key_fits, of k s] entry_is_set [OF host]
  by (auto simp: multi_repr_def typed_def)

lemma multi_get:
  assumes "repr s M" "okk k" "t = vtype k"
  shows "\<exists>n. get_state t H s k (default_val t) =
      Inr (n, case M k of None \<Rightarrow> default_val t | Some v \<Rightarrow> v) \<and> (n = 0 \<longleftrightarrow> M k = None)"
  using get_state_ok [OF host key_fits, of k s "M k" t] assms
  by (auto simp: multi_repr_def typed_def value_bytes_def split: option.splits)

lemma multi_has:
  assumes "repr s M" "okk k"
  shows "has_state H s k = Inr (M k \<noteq> None)"
  using has_state_ok [OF host key_fits, of k s "M k"] assms by (simp add: multi_repr_def)

end

end
