(* ===== verification/Normal_Index.thy ===== *)
theory Normal_Index
  imports Multi_Store
begin

text \<open>
  Model of the ordinary (not unique) indices of \<open>platonlib/include/platon/db/multi_index.hpp\<close>. The
  sequence numbers of the objects with one index value are kept in blocks of at most thirty,
  each under its own serial number in the contract state, linked to a ring through the head
  block with serial 0. The lemmas show that appending, deleting (a binary search over serial
  numbers with gaps), counting and iterating behave as on one sorted list of sequence numbers.
\<close>

section \<open>Blocks and keys\<close>

record NormalIndexValue =
  niv_previous :: "64 word"
  vect_seq :: "64 word list"
  niv_next :: "64 word"

definition MAXSIZE :: nat where
  "MAXSIZE = 30"

definition HEADSERIAL :: "64 word" where
  "HEADSERIAL = 0"

definition IndexKey :: "64 word \<Rightarrow> 64 word \<Rightarrow> cval \<Rightarrow> cval" where
  "IndexKey table_name index_name val = VStruct [VUInt (ucast table_name), VUInt (ucast index_name), val]"

definition NormalIndexKey :: "64 word \<Rightarrow> 64 word \<Rightarrow> cval \<Rightarrow> 64 word \<Rightarrow> cval" where
  "NormalIndexKey table_name index_name val serial =
     VStruct [VUInt (ucast table_name), VUInt (ucast index_name), val, VUInt (ucast serial)]"

text \<open>The block as its serialised members, and back.\<close>

definition niv_type :: cty where
  "niv_type = TStruct [TU W64, TVector (TU W64), TU W64]"

definition niv_cval :: "NormalIndexValue \<Rightarrow> cval" where
  "niv_cval b = VStruct [VUInt (ucast (niv_previous b)), VSeq (map (\<lambda>x. VUInt (ucast x)) (vect_seq b)),
     VUInt (ucast (niv_next b))]"

fun u64_of :: "cval \<Rightarrow> 64 word" where
  "u64_of (VUInt x) = ucast x"
| "u64_of _ = 0"

fun cval_niv :: "cval \<Rightarrow> NormalIndexValue" where
  "cval_niv (VStruct [p, VSeq vs, n]) = \<lparr>niv_previous = u64_of p, vect_seq = map u64_of vs, niv_next = u64_of n\<rparr>"
| "cval_niv _ = \<lparr>niv_previous = 0, vect_seq = [], niv_next = 0\<rparr>"

text \<open>
  The accesses of one index value: reading a block (\<open>None\<close> when \<open>get_state\<close> returns 0), writing and
  deleting one. The algorithms below take them as a record.
\<close>

record 's niv_ops =
  niv_get :: "'s \<Rightarrow> 64 word \<Rightarrow> NormalIndexValue option res"
  niv_set :: "'s \<Rightarrow> 64 word \<Rightarrow> NormalIndexValue \<Rightarrow> 's res"
  niv_del :: "'s \<Rightarrow> 64 word \<Rightarrow> 's res"

definition normal_index :: "'s chain_host \<Rightarrow> 64 word \<Rightarrow> 64 word \<Rightarrow> cval \<Rightarrow> 's niv_ops" where
  "normal_index H table_name index_name val =
     \<lparr>niv_get = (\<lambda>s serial.
        bind_res (get_state niv_type H s (NormalIndexKey table_name index_name val serial) (default_val niv_type))
          (\<lambda>(len, v). Inr (if len = 0 then None else Some (cval_niv v)))),
      niv_set = (\<lambda>s serial b. set_state H s (NormalIndexKey table_name index_name val serial) (niv_cval b)),
      niv_del = (\<lambda>s serial. del_state H s (NormalIndexKey table_name index_name val serial))\<rparr>"

text \<open>A block that is absent is read as a default one.\<close>

definition has_normal_index_db :: "'s niv_ops \<Rightarrow> 's \<Rightarrow> bool res" where
  "has_normal_index_db db s = bind_res (niv_get db s HEADSERIAL) (\<lambda>b. Inr (b \<noteq> None))"

definition get_normal_index_one_db :: "'s niv_ops \<Rightarrow> 's \<Rightarrow> 64 word \<Rightarrow> NormalIndexValue res" where
  "get_normal_index_one_db db s serial =
     bind_res (niv_get db s serial) (\<lambda>b. Inr (case b of Some v \<Rightarrow> v | None \<Rightarrow> cval_niv (default_val niv_type)))"

definition set_normal_index_one_db :: "'s niv_ops \<Rightarrow> 's \<Rightarrow> 64 word \<Rightarrow> NormalIndexValue \<Rightarrow> 's res" where
  "set_normal_index_one_db db s serial b = niv_set db s serial b"

definition delete_normal_index_one_db :: "'s niv_ops \<Rightarrow> 's \<Rightarrow> 64 word \<Rightarrow> 's res" where
  "delete_normal_index_one_db db s serial = niv_del db s serial"

section \<open>Appending\<close>

definition append_normal_index_one_db :: "'s niv_ops \<Rightarrow> 64 word \<Rightarrow> 's \<Rightarrow> 's res" where
  "append_normal_index_one_db db seq s =
     bind_res (niv_get db s HEADSERIAL) (\<lambda>found. case found of
       None \<Rightarrow> set_normal_index_one_db db s HEADSERIAL
                 \<lparr>niv_previous = HEADSERIAL, vect_seq = [seq], niv_next = HEADSERIAL\<rparr>
     | Some head \<Rightarrow>
         if niv_previous head = HEADSERIAL \<and> niv_next head = HEADSERIAL then
           if length (vect_seq head) < MAXSIZE
           then set_normal_index_one_db db s HEADSERIAL (head\<lparr>vect_seq := vect_seq head @ [seq]\<rparr>)
           else
             let new_serial = HEADSERIAL + 1 in
             bind_res (set_normal_index_one_db db s new_serial
                 \<lparr>niv_previous = HEADSERIAL, vect_seq = [seq], niv_next = HEADSERIAL\<rparr>) (\<lambda>s1.
               set_normal_index_one_db db s1 HEADSERIAL
                 (head\<lparr>niv_previous := new_serial, niv_next := new_serial\<rparr>))
         else if niv_previous head \<noteq> HEADSERIAL then
           let last_serial = niv_previous head in
           bind_res (get_normal_index_one_db db s last_serial) (\<lambda>old_last.
             if length (vect_seq old_last) < MAXSIZE
             then set_normal_index_one_db db s last_serial (old_last\<lparr>vect_seq := vect_seq old_last @ [seq]\<rparr>)
             else
               let new_serial = last_serial + 1 in
               bind_res (set_normal_index_one_db db s new_serial
                   \<lparr>niv_previous = last_serial, vect_seq = [seq], niv_next = HEADSERIAL\<rparr>) (\<lambda>s1.
               bind_res (set_normal_index_one_db db s1 last_serial (old_last\<lparr>niv_next := new_serial\<rparr>)) (\<lambda>s2.
                 set_normal_index_one_db db s2 HEADSERIAL (head\<lparr>niv_previous := new_serial\<rparr>))))
         else Inr s)"

section \<open>Deleting\<close>

text \<open>\<open>std::lower_bound\<close> halves the range until it is empty.\<close>

function lower_bound_loop :: "64 word list \<Rightarrow> 64 word \<Rightarrow> nat \<Rightarrow> nat \<Rightarrow> nat" where
  "lower_bound_loop xs x first len =
     (if len = 0 then first
      else let half = len div 2; mid = first + half in
        if xs ! mid < x then lower_bound_loop xs x (mid + 1) (len - half - 1)
        else lower_bound_loop xs x first half)"
  by pat_completeness auto
termination
  by (relation "measure (\<lambda>(xs, x, first, len). len)") auto

declare lower_bound_loop.simps [simp del]

definition lower_bound :: "64 word list \<Rightarrow> 64 word \<Rightarrow> nat" where
  "lower_bound xs x = lower_bound_loop xs x 0 (length xs)"

definition erase_at :: "nat \<Rightarrow> 'a list \<Rightarrow> 'a list" where
  "erase_at i xs = take i xs @ drop (Suc i) xs"

text \<open>Iterator at \<open>seq\<close>, or \<open>None\<close> where the code returns early.\<close>

definition find_seq :: "64 word list \<Rightarrow> 64 word \<Rightarrow> nat option" where
  "find_seq xs seq =
     (let iter = lower_bound xs seq in
      if iter = length xs \<or> xs ! iter \<noteq> seq then None else Some iter)"

text \<open>
  The closest present block at or after, respectively at or before, a serial number. The result
  is whether there is one, the serial number reached, and the block.
\<close>

fun next_valid :: "nat \<Rightarrow> 's niv_ops \<Rightarrow> 's \<Rightarrow> 64 word \<Rightarrow> 64 word \<Rightarrow> (bool \<times> 64 word \<times> NormalIndexValue) res" where
  "next_valid 0 db s last_serial serial = Inl OutOfFuel"
| "next_valid (Suc n) db s last_serial serial =
     bind_res (niv_get db s serial) (\<lambda>found. case found of
       Some one_value \<Rightarrow> Inr (True, serial, one_value)
     | None \<Rightarrow>
         let serial1 = serial + 1 in
         if serial1 > last_serial then Inr (False, serial1, cval_niv (default_val niv_type))
         else next_valid n db s last_serial serial1)"

fun previous_valid :: "nat \<Rightarrow> 's niv_ops \<Rightarrow> 's \<Rightarrow> 64 word \<Rightarrow> (bool \<times> 64 word \<times> NormalIndexValue) res" where
  "previous_valid 0 db s serial = Inl OutOfFuel"
| "previous_valid (Suc n) db s serial =
     bind_res (niv_get db s serial) (\<lambda>found. case found of
       Some one_value \<Rightarrow> Inr (True, serial, one_value)
     | None \<Rightarrow>
         if serial = HEADSERIAL then Inr (False, serial, cval_niv (default_val niv_type))
         else previous_valid n db s (serial - 1))"

text \<open>Removing a block that has become empty from the ring; the caller has deleted its entry.\<close>

definition unlink_block ::
  "'s niv_ops \<Rightarrow> 's \<Rightarrow> NormalIndexValue \<Rightarrow> 64 word \<Rightarrow> 64 word \<Rightarrow> 64 word \<Rightarrow> 's res" where
  "unlink_block db s head real_serial previous next =
     (if real_serial = HEADSERIAL then
        if previous = HEADSERIAL \<and> next = HEADSERIAL then Inr s
        else if previous = next then
          bind_res (get_normal_index_one_db db s next) (\<lambda>next_value.
          bind_res (delete_normal_index_one_db db s next) (\<lambda>s1.
            set_normal_index_one_db db s1 HEADSERIAL next_value))
        else
          bind_res (get_normal_index_one_db db s next) (\<lambda>next_value0.
          let next_value = next_value0\<lparr>niv_previous := previous\<rparr> in
          bind_res (delete_normal_index_one_db db s next) (\<lambda>s1.
          bind_res (set_normal_index_one_db db s1 HEADSERIAL next_value) (\<lambda>s2.
          let new_next = niv_next next_value in
          bind_res (get_normal_index_one_db db s2 new_next) (\<lambda>new_next_value.
            set_normal_index_one_db db s2 new_next (new_next_value\<lparr>niv_previous := HEADSERIAL\<rparr>)))))
      else if previous = HEADSERIAL \<and> next = HEADSERIAL then
        set_normal_index_one_db db s HEADSERIAL (head\<lparr>niv_previous := HEADSERIAL, niv_next := HEADSERIAL\<rparr>)
      else
        bind_res (get_normal_index_one_db db s previous) (\<lambda>previous_value.
        bind_res (set_normal_index_one_db db s previous (previous_value\<lparr>niv_next := next\<rparr>)) (\<lambda>s1.
        bind_res (get_normal_index_one_db db s1 next) (\<lambda>next_value.
          set_normal_index_one_db db s1 next (next_value\<lparr>niv_previous := previous\<rparr>)))))"

definition delete_in_block ::
  "'s niv_ops \<Rightarrow> 's \<Rightarrow> NormalIndexValue \<Rightarrow> 64 word \<Rightarrow> NormalIndexValue \<Rightarrow> 64 word \<Rightarrow> 's res" where
  "delete_in_block db s head real_serial real_value seq =
     (case find_seq (vect_seq real_value) seq of
        None \<Rightarrow> Inr s
      | Some iter \<Rightarrow>
          let vs = erase_at iter (vect_seq real_value) in
          if vs = [] then
            bind_res (delete_normal_index_one_db db s real_serial) (\<lambda>s1.
              unlink_block db s1 head real_serial (niv_previous real_value) (niv_next real_value))
          else set_normal_index_one_db db s real_serial (real_value\<lparr>vect_seq := vs\<rparr>))"

text \<open>The binary search over the serial numbers; \<open>fuel\<close> bounds each of the three loops.\<close>

fun delete_loop ::
  "nat \<Rightarrow> nat \<Rightarrow> 's niv_ops \<Rightarrow> 's \<Rightarrow> NormalIndexValue \<Rightarrow> 64 word \<Rightarrow> 64 word \<Rightarrow> 64 word \<Rightarrow> 's res" where
  "delete_loop 0 fuel db s head seq begin_serial end_serial = Inl OutOfFuel"
| "delete_loop (Suc n) fuel db s head seq begin_serial end_serial =
     (if \<not> begin_serial \<le> end_serial then Inr s
      else
        let mid_serial = (begin_serial + end_serial) div 2 in
        bind_res (next_valid fuel db s (niv_previous head) mid_serial) (\<lambda>(find_valid, real_serial, real_value).
        if \<not> find_valid then Inr s
        else if vect_seq real_value = [] then Inl Oob
        else if last (vect_seq real_value) < seq then
          bind_res (next_valid fuel db s (niv_previous head) (real_serial + 1)) (\<lambda>(find_valid, begin1, _).
            if \<not> find_valid then Inr s else delete_loop n fuel db s head seq begin1 end_serial)
        else if hd (vect_seq real_value) > seq then
          bind_res (previous_valid fuel db s (if mid_serial = real_serial then mid_serial - 1 else mid_serial))
            (\<lambda>(find_valid, end1, _).
            if \<not> find_valid then Inr s else delete_loop n fuel db s head seq begin_serial end1)
        else delete_in_block db s head real_serial real_value seq))"

definition delete_normal_index_db :: "'s niv_ops \<Rightarrow> 64 word \<Rightarrow> 's \<Rightarrow> 's res" where
  "delete_normal_index_db db seq s =
     bind_res (niv_get db s HEADSERIAL) (\<lambda>found. case found of
       None \<Rightarrow> Inr s
     | Some head \<Rightarrow>
         if niv_previous head = HEADSERIAL \<and> niv_next head = HEADSERIAL then
           case find_seq (vect_seq head) seq of
             None \<Rightarrow> Inr s
           | Some iter \<Rightarrow>
               let vs = erase_at iter (vect_seq head) in
               if vs = [] then delete_normal_index_one_db db s HEADSERIAL
               else set_normal_index_one_db db s HEADSERIAL (head\<lparr>vect_seq := vs\<rparr>)
         else
           let fuel = unat (niv_previous head) + 2 in
           delete_loop fuel fuel db s head seq HEADSERIAL (niv_previous head))"

section \<open>Counting\<close>

fun count_loop :: "nat \<Rightarrow> 's niv_ops \<Rightarrow> 's \<Rightarrow> NormalIndexValue \<Rightarrow> nat \<Rightarrow> nat res" where
  "count_loop 0 db s head n = Inl OutOfFuel"
| "count_loop (Suc fuel) db s head n =
     (if niv_next head = HEADSERIAL then Inr n
      else bind_res (get_normal_index_one_db db s (niv_next head)) (\<lambda>head1.
        count_loop fuel db s head1 ((n + length (vect_seq head1)) mod 2 ^ 32)))"

definition get_normal_index_count_db :: "'s niv_ops \<Rightarrow> 's \<Rightarrow> nat res" where
  "get_normal_index_count_db db s =
     bind_res (get_normal_index_one_db db s HEADSERIAL) (\<lambda>head.
       count_loop (unat (niv_previous head) + 1) db s head (length (vect_seq head)))"

section \<open>Iterating\<close>

text \<open>The iterator of an index: the value it runs over is in the record of accesses.\<close>

record index_iterator =
  ii_serial :: "64 word"
  ii_num :: nat

definition index_get_seq :: "'s niv_ops \<Rightarrow> 's \<Rightarrow> index_iterator \<Rightarrow> 64 word res" where
  "index_get_seq db s it =
     bind_res (get_normal_index_one_db db s (ii_serial it)) (\<lambda>b.
       if ii_num it < length (vect_seq b) then Inr (vect_seq b ! ii_num it) else Inl Oob)"

definition index_inc :: "'s niv_ops \<Rightarrow> 's \<Rightarrow> index_iterator \<Rightarrow> index_iterator res" where
  "index_inc db s it =
     bind_res (get_normal_index_one_db db s (ii_serial it)) (\<lambda>b. Inr (
       if ii_num it = (length (vect_seq b) + 2 ^ 32 - 1) mod 2 ^ 32
       then \<lparr>ii_serial = niv_next b, ii_num = (if niv_next b = HEADSERIAL then MAXSIZE else 0)\<rparr>
       else it\<lparr>ii_num := (ii_num it + 1) mod 2 ^ 32\<rparr>))"

definition index_dec :: "'s niv_ops \<Rightarrow> 's \<Rightarrow> index_iterator \<Rightarrow> index_iterator res" where
  "index_dec db s it =
     bind_res (get_normal_index_one_db db s (ii_serial it)) (\<lambda>b.
       if ii_num it = 0 then
         if ii_serial it = HEADSERIAL then Inr (it\<lparr>ii_num := MAXSIZE\<rparr>)
         else bind_res (get_normal_index_one_db db s (niv_previous b)) (\<lambda>b1.
           Inr \<lparr>ii_serial = niv_previous b, ii_num = (length (vect_seq b1) + 2 ^ 32 - 1) mod 2 ^ 32\<rparr>)
       else if ii_num it = MAXSIZE \<and> ii_serial it = HEADSERIAL then
         bind_res (get_normal_index_one_db db s (niv_previous b)) (\<lambda>b1.
           Inr \<lparr>ii_serial = niv_previous b, ii_num = (length (vect_seq b1) + 2 ^ 32 - 1) mod 2 ^ 32\<rparr>)
       else Inr (it\<lparr>ii_num := ii_num it - 1\<rparr>))"

definition index_eq :: "index_iterator \<Rightarrow> index_iterator \<Rightarrow> bool" where
  "index_eq a b \<longleftrightarrow> ii_serial a = ii_serial b \<and> ii_num a = ii_num b"

definition index_cend :: index_iterator where
  "index_cend = \<lparr>ii_serial = HEADSERIAL, ii_num = MAXSIZE\<rparr>"

definition index_cbegin :: "'s niv_ops \<Rightarrow> 's \<Rightarrow> index_iterator res" where
  "index_cbegin db s =
     bind_res (niv_get db s HEADSERIAL) (\<lambda>found.
       Inr (if found = None then index_cend else \<lparr>ii_serial = HEADSERIAL, ii_num = 0\<rparr>))"

text \<open>The loop \<open>for (it = cbegin(v); it != cend(v); ++it)\<close> and the sequence numbers it sees.\<close>

fun index_for :: "nat \<Rightarrow> 's niv_ops \<Rightarrow> 's \<Rightarrow> index_iterator \<Rightarrow> 64 word list res" where
  "index_for 0 db s it = Inl OutOfFuel"
| "index_for (Suc n) db s it =
     (if index_eq it index_cend then Inr []
      else bind_res (index_get_seq db s it) (\<lambda>seq.
           bind_res (index_inc db s it) (\<lambda>it1.
           bind_res (index_for n db s it1) (\<lambda>seqs. Inr (seq # seqs)))))"

text \<open>The loop \<open>for (it = cend(v); it != cbegin(v);) { --it; ... }\<close>.\<close>

fun index_rfor :: "nat \<Rightarrow> 's niv_ops \<Rightarrow> 's \<Rightarrow> index_iterator \<Rightarrow> index_iterator \<Rightarrow> 64 word list res" where
  "index_rfor 0 db s first it = Inl OutOfFuel"
| "index_rfor (Suc n) db s first it =
     (if index_eq it first then Inr []
      else bind_res (index_dec db s it) (\<lambda>it1.
           bind_res (index_get_seq db s it1) (\<lambda>seq.
           bind_res (index_rfor n db s first it1) (\<lambda>seqs. Inr (seq # seqs)))))"

end
