(* ===== verification/Index_Ring.thy ===== *)
theory Index_Ring
  imports Normal_Index
begin

text \<open>
  The blocks of an ordinary index as a ring: what the algorithms of \<open>Normal_Index\<close> do to it, on a map
  from serial numbers to blocks.
\<close>

section \<open>Blocks in a map\<close>

definition map_index :: "(64 word \<rightharpoonup> NormalIndexValue) niv_ops" where
  "map_index =
     \<lparr>niv_get = (\<lambda>N serial. Inr (N serial)),
      niv_set = (\<lambda>N serial b. if length (vect_seq b) \<le> MAXSIZE then Inr (N(serial \<mapsto> b)) else Inl Oob),
      niv_del = (\<lambda>N serial. Inr (N(serial := None)))\<rparr>"

lemma map_index_simps [simp]:
  "niv_get map_index N serial = Inr (N serial)"
  "set_normal_index_one_db map_index N serial b =
     (if length (vect_seq b) \<le> MAXSIZE then Inr (N(serial \<mapsto> b)) else Inl Oob)"
  "delete_normal_index_one_db map_index N serial = Inr (N(serial := None))"
  "get_normal_index_one_db map_index N serial =
     Inr (case N serial of Some v \<Rightarrow> v | None \<Rightarrow> cval_niv (default_val niv_type))"
  by (simp_all add: map_index_def set_normal_index_one_db_def delete_normal_index_one_db_def
      get_normal_index_one_db_def)

section \<open>The ring\<close>

text \<open>
  \<open>links N p bs n\<close>: the blocks \<open>bs\<close> are in \<open>N\<close>, chained in both directions, with \<open>p\<close> before the first and
  \<open>n\<close> after the last.
\<close>

type_synonym blocks = "(64 word \<times> 64 word list) list"

fun links :: "(64 word \<rightharpoonup> NormalIndexValue) \<Rightarrow> 64 word \<Rightarrow> blocks \<Rightarrow> 64 word \<Rightarrow> bool" where
  "links N p [] n = True"
| "links N p ((k, vs) # bs) n \<longleftrightarrow>
     N k = Some \<lparr>niv_previous = p, vect_seq = vs, niv_next = (if bs = [] then n else fst (hd bs))\<rparr> \<and>
     links N k bs n"

definition ring :: "(64 word \<rightharpoonup> NormalIndexValue) \<Rightarrow> blocks \<Rightarrow> bool" where
  "ring N bs \<longleftrightarrow> dom N = fst ` set bs \<and> (bs \<noteq> [] \<longrightarrow> links N (fst (last bs)) bs 0)"

definition seqs :: "blocks \<Rightarrow> 64 word list" where
  "seqs bs = concat (map snd bs)"

definition blocks_wf :: "blocks \<Rightarrow> bool" where
  "blocks_wf bs \<longleftrightarrow> (bs \<noteq> [] \<longrightarrow> fst (hd bs) = 0) \<and> sorted_wrt (<) (map fst bs) \<and> sorted_wrt (<) (seqs bs) \<and>
     (\<forall>(k, vs) \<in> set bs. vs \<noteq> [] \<and> length vs \<le> MAXSIZE \<and> (\<forall>x \<in> set vs. k \<le> x))"

lemma seqs_simps [simp]: "seqs [] = []" "seqs ((k, vs) # bs) = vs @ seqs bs" "seqs (as @ bs) = seqs as @ seqs bs"
  by (simp_all add: seqs_def)

lemma set_seqs: "set (seqs bs) = (\<Union>(k, vs) \<in> set bs. set vs)"
  by (auto simp: seqs_def)

lemma links_append:
  "links N p (as @ bs) n \<longleftrightarrow> links N p as (if bs = [] then n else fst (hd bs)) \<and>
     links N (if as = [] then p else fst (last as)) bs n"
  by (induction as arbitrary: p) (auto simp: hd_append)

lemma links_upd [simp]: "k \<notin> fst ` set bs \<Longrightarrow> links (N(k := x)) p bs n = links N p bs n"
  by (induction bs arbitrary: p) auto

lemma links_entry: "links N p bs n \<Longrightarrow> (k, vs) \<in> set bs \<Longrightarrow> \<exists>b. N k = Some b \<and> vect_seq b = vs"
  by (induction bs arbitrary: p) auto

lemma ring_empty: "ring N [] \<longleftrightarrow> N = Map.empty"
  by (simp add: ring_def)

lemma sorted_fst_notin:
  fixes k :: "64 word"
  assumes "sorted_wrt (<) (map fst (as @ (k, vs) # bs))"
  shows "k \<notin> fst ` set as" "k \<notin> fst ` set bs"
proof -
  have lt: "\<forall>a \<in> set as. fst a < k" "\<forall>b \<in> set bs. k < fst b" using assms by (auto simp: sorted_wrt_append)
  show "k \<notin> fst ` set as" using lt(1) by fastforce
  show "k \<notin> fst ` set bs" using lt(2) by fastforce
qed

section \<open>Appending\<close>

lemma blocks_wf_snoc:
  assumes "blocks_wf (bs @ [(k, vs)])" "\<forall>x \<in> set (seqs (bs @ [(k, vs)])). x < seq"
  shows "length vs < MAXSIZE \<Longrightarrow> blocks_wf (bs @ [(k, vs @ [seq])])"
    and "k < k + 1 \<Longrightarrow> blocks_wf (bs @ [(k, vs), (k + 1, [seq])])"
proof -
  have vs: "vs \<noteq> []" "\<forall>x \<in> set vs. k \<le> x \<and> x < seq" using assms by (auto simp: blocks_wf_def)
  then have k: "k < seq" using le_less_trans [of k "hd vs" seq] by simp
  show "blocks_wf (bs @ [(k, vs @ [seq])])" if "length vs < MAXSIZE"
    using assms that k by (auto simp: blocks_wf_def sorted_wrt_append hd_append)
  show "blocks_wf (bs @ [(k, vs), (k + 1, [seq])])" if "k < k + 1"
  proof -
    have "k + 1 \<le> seq" by (rule inc_le [OF k])
    then show ?thesis
      using assms that by (auto simp: blocks_wf_def sorted_wrt_append hd_append MAXSIZE_def)
  qed
qed

lemma append_first:
  assumes "ring N []"
  shows "\<exists>N'. append_normal_index_one_db map_index seq N = Inr N' \<and> ring N' [(0, [seq])]"
  using assms by (simp add: append_normal_index_one_db_def ring_empty HEADSERIAL_def MAXSIZE_def ring_def)

lemma append_single:
  assumes "ring N [(0, vs)]" "length vs \<le> MAXSIZE"
  shows "\<exists>N'. append_normal_index_one_db map_index seq N = Inr N' \<and>
    ring N' (if length vs < MAXSIZE then [(0, vs @ [seq])] else [(0, vs), (1, [seq])])"
proof -
  have N: "N 0 = Some \<lparr>niv_previous = 0, vect_seq = vs, niv_next = 0\<rparr>" "dom N = {0}"
    using assms(1) by (simp_all add: ring_def)
  show ?thesis
  proof (cases "length vs < MAXSIZE")
    case True
    then show ?thesis using N by (simp add: append_normal_index_one_db_def HEADSERIAL_def ring_def)
  next
    case False
    have "length [seq] \<le> MAXSIZE" by (simp add: MAXSIZE_def)
    then show ?thesis
      using N False assms(2) by (auto simp: append_normal_index_one_db_def HEADSERIAL_def ring_def)
  qed
qed

lemma append_many:
  assumes ring: "ring N ((0, hvs) # ds @ [(k, vs)])" and sorted: "sorted_wrt (<) (map fst ((0, hvs) # ds @ [(k, vs)]))"
    and len: "length vs \<le> MAXSIZE" "length hvs \<le> MAXSIZE" and fresh: "k + 1 \<notin> insert 0 (insert k (fst ` set ds))"
  shows "\<exists>N'. append_normal_index_one_db map_index seq N = Inr N' \<and>
    ring N' ((0, hvs) # ds @ (if length vs < MAXSIZE then [(k, vs @ [seq])] else [(k, vs), (k + 1, [seq])]))"
proof -
  have k0: "k \<noteq> 0" "0 \<notin> fst ` set ds" "k \<notin> fst ` set ds"
    using sorted_fst_notin [of "[]" 0 hvs "ds @ [(k, vs)]"] sorted_fst_notin [of "(0, hvs) # ds" k vs "[]"] sorted
    by auto
  define nx where "nx = fst (hd (ds @ [(k, vs)]))"
  define pk where "pk = (if ds = [] then 0 else fst (last ds))"
  have lk: "links N 0 (ds @ [(k, vs)]) 0" and N0: "N 0 = Some \<lparr>niv_previous = k, vect_seq = hvs, niv_next = nx\<rparr>"
    using ring by (simp_all add: ring_def nx_def)
  have ds: "links N 0 ds k" and Nk: "N k = Some \<lparr>niv_previous = pk, vect_seq = vs, niv_next = 0\<rparr>"
    using lk by (simp_all add: links_append pk_def)
  have D: "dom N = insert 0 (insert k (fst ` set ds))" using ring by (auto simp: ring_def)
  show ?thesis
  proof (cases "length vs < MAXSIZE")
    case True
    let ?N = "N(k \<mapsto> \<lparr>niv_previous = pk, vect_seq = vs @ [seq], niv_next = 0\<rparr>)"
    have "append_normal_index_one_db map_index seq N = Inr ?N"
      using N0 Nk k0 True by (simp add: append_normal_index_one_db_def HEADSERIAL_def)
    moreover have "ring ?N ((0, hvs) # ds @ [(k, vs @ [seq])])"
      using N0 ds D k0 by (auto simp: ring_def links_append pk_def nx_def hd_append)
    ultimately show ?thesis using True by simp
  next
    case False
    let ?N = "N(k + 1 \<mapsto> \<lparr>niv_previous = k, vect_seq = [seq], niv_next = 0\<rparr>,
                k \<mapsto> \<lparr>niv_previous = pk, vect_seq = vs, niv_next = k + 1\<rparr>,
                0 \<mapsto> \<lparr>niv_previous = k + 1, vect_seq = hvs, niv_next = nx\<rparr>)"
    have one: "length [seq] \<le> MAXSIZE" by (simp add: MAXSIZE_def)
    have "append_normal_index_one_db map_index seq N = Inr ?N"
      using N0 Nk k0 False len one by (simp add: append_normal_index_one_db_def HEADSERIAL_def Let_def)
    moreover have "ring ?N ((0, hvs) # ds @ [(k, vs), (k + 1, [seq])])"
      using ds D k0 fresh by (auto simp: ring_def links_append pk_def nx_def hd_append)
    ultimately show ?thesis using False by auto
  qed
qed

lemma append_ring:
  assumes ring: "ring N bs" and wf: "blocks_wf bs" and new: "\<forall>x \<in> set (seqs bs). x < seq"
  shows "\<exists>N' bs'. append_normal_index_one_db map_index seq N = Inr N' \<and> ring N' bs' \<and> blocks_wf bs' \<and>
    seqs bs' = seqs bs @ [seq]"
proof (cases bs rule: rev_cases)
  case Nil
  have "blocks_wf [(0, [seq])]" by (simp add: blocks_wf_def MAXSIZE_def)
  then show ?thesis using append_first [of N seq] ring Nil by (metis append_Nil append_Nil2 seqs_simps(1,2))
next
  case (snoc cs b)
  obtain k vs where b: "b = (k, vs)" by (cases b)
  have vs: "vs \<noteq> []" "length vs \<le> MAXSIZE" "\<forall>x \<in> set vs. k \<le> x \<and> x < seq"
    using wf new by (auto simp: blocks_wf_def snoc b)
  then have "k < seq" using le_less_trans [of k "hd vs" seq] by simp
  then have kk: "k < k + 1" using unat_bound [of seq] by (simp add: word_less_nat_alt unat_word_ariths)
  define last where "last = (if length vs < MAXSIZE then [(k, vs @ [seq])] else [(k, vs), (k + 1, [seq])])"
  have wf': "blocks_wf (cs @ last)" "seqs (cs @ last) = seqs bs @ [seq]"
    using blocks_wf_snoc [OF wf [unfolded snoc b] new [unfolded snoc b]] kk by (auto simp: last_def snoc b)
  have "\<exists>N'. append_normal_index_one_db map_index seq N = Inr N' \<and> ring N' (cs @ last)"
  proof (cases cs)
    case Nil
    then have "k = 0" using wf by (simp add: snoc b blocks_wf_def)
    then show ?thesis using append_single [of N vs seq] ring vs(2) Nil by (auto simp: snoc b last_def)
  next
    case (Cons c ds)
    obtain hvs where c: "c = (0, hvs)" using wf snoc Cons by (cases c) (simp add: blocks_wf_def)
    have "\<forall>a \<in> set cs. fst a < k" using wf by (simp add: blocks_wf_def snoc b sorted_wrt_append)
    then have "k + 1 \<notin> insert 0 (insert k (fst ` set ds))" using kk Cons c by force
    then show ?thesis
      using append_many [of N hvs ds k vs seq] ring wf vs(2)
      unfolding snoc b Cons c last_def blocks_wf_def by auto
  qed
  then show ?thesis using wf' by blast
qed

section \<open>The binary search in a block\<close>

lemma lower_bound_loop_sorted:
  assumes "sorted_wrt (<) xs" "first + len \<le> length xs"
    and "\<forall>i < first. xs ! i < x" "\<forall>i. first + len \<le> i \<and> i < length xs \<longrightarrow> x \<le> xs ! i"
  shows "lower_bound_loop xs x first len = length (filter (\<lambda>y. y < x) xs)"
  using assms
proof (induction xs x first len rule: lower_bound_loop.induct)
  case (1 xs x first len)
  have mono: "xs ! i < xs ! j" if "i < j" "j < length xs" for i j
    using "1.prems"(1) that by (simp add: sorted_wrt_iff_nth_less)
  show ?case
  proof (cases "len = 0")
    case True
    have "{i. i < length xs \<and> xs ! i < x} = {..<first}"
      using "1.prems"(2-4) True by (auto simp: not_less [symmetric])
    then show ?thesis using True by (simp add: lower_bound_loop.simps length_filter_conv_card)
  next
    case False
    let ?mid = "first + len div 2"
    have mid: "?mid < first + len" using False by simp
    show ?thesis
    proof (cases "xs ! ?mid < x")
      case True
      have "xs ! i < x" if "i < ?mid + 1" for i
        using that True mono [of i ?mid] mid "1.prems"(2) by (cases "i = ?mid") auto
      then have "lower_bound_loop xs x (?mid + 1) (len - len div 2 - 1) = length (filter (\<lambda>y. y < x) xs)"
        using "1.IH"(1) [OF False refl refl True] "1.prems" mid by simp
      then show ?thesis using False True by (subst lower_bound_loop.simps) (simp add: Let_def)
    next
      case F: False
      have "x \<le> xs ! i" if "?mid \<le> i" "i < length xs" for i
        using that F mono [of ?mid i] by (cases "i = ?mid") auto
      then have "lower_bound_loop xs x first (len div 2) = length (filter (\<lambda>y. y < x) xs)"
        using "1.IH"(2) [OF False refl refl F] "1.prems" mid by simp
      then show ?thesis using False F by (subst lower_bound_loop.simps) (simp add: Let_def)
    qed
  qed
qed

lemma lower_bound_sorted: "sorted_wrt (<) xs \<Longrightarrow> lower_bound xs x = length (filter (\<lambda>y. y < x) xs)"
  unfolding lower_bound_def by (rule lower_bound_loop_sorted) auto

lemma find_seq_split:
  assumes "sorted_wrt (<) (us @ x # vs)"
  shows "find_seq (us @ x # vs) x = Some (length us)"
proof -
  have "filter (\<lambda>y. y < x) (us @ x # vs) = us"
    using assms by (auto simp: sorted_wrt_append filter_empty_conv filter_id_conv dest: order.strict_trans order.asym)
  then show ?thesis using lower_bound_sorted [OF assms, of x] by (simp add: find_seq_def Let_def)
qed

lemma find_seq_absent:
  assumes "sorted_wrt (<) xs" "x \<notin> set xs"
  shows "find_seq xs x = None"
proof -
  have "lower_bound xs x \<le> length xs" using lower_bound_sorted [OF assms(1)] by simp
  then show ?thesis using assms(2) by (auto simp: find_seq_def Let_def le_less) (metis nth_mem)
qed

lemma erase_at_split: "erase_at (length us) (us @ x # vs) = us @ vs"
  by (simp add: erase_at_def)

section \<open>The search over serial numbers\<close>

text \<open>The present block closest to a serial number, from above and from below.\<close>

lemma word_Suc: "(k :: 64 word) < j \<Longrightarrow> unat (k + 1) = unat k + 1"
  using unat_bound [of j] by (simp add: word_less_nat_alt unat_word_ariths)

lemma next_valid_found:
  assumes "N j = Some b" "k \<le> j" "\<forall>i. k \<le> i \<and> i < j \<longrightarrow> N i = None" "j \<le> e" "unat j - unat k < fuel"
  shows "next_valid fuel map_index N e k = Inr (True, j, b)"
  using assms(2,3,5)
proof (induction fuel arbitrary: k)
  case (Suc fuel)
  show ?case
  proof (cases "k = j")
    case True
    then show ?thesis using assms(1) by simp
  next
    case False
    then have kj: "k < j" "N k = None" using Suc.prems by auto
    then have k1: "k + 1 \<le> j" "unat (k + 1) = unat k + 1" "k < k + 1"
      using inc_le [of k j] word_Suc [OF kj(1)] by (simp_all add: word_less_nat_alt)
    have "next_valid fuel map_index N e (k + 1) = Inr (True, j, b)"
    proof (rule Suc.IH [OF k1(1)])
      show "\<forall>i. k + 1 \<le> i \<and> i < j \<longrightarrow> N i = None" using Suc.prems(2) k1(3) by auto
      have "unat k < unat j" using kj(1) by (simp add: word_less_nat_alt)
      then show "unat j - unat (k + 1) < fuel" using Suc.prems(3) k1(2) by simp
    qed
    moreover have "\<not> e < k + 1" using k1(1) assms(4) by simp
    ultimately show ?thesis using kj(2) by simp
  qed
qed simp

lemma previous_valid_found:
  assumes "N j = Some b" "j \<le> k" "\<forall>i. j < i \<and> i \<le> k \<longrightarrow> N i = None" "unat k - unat j < fuel"
  shows "previous_valid fuel map_index N k = Inr (True, j, b)"
  using assms(2-)
proof (induction fuel arbitrary: k)
  case (Suc fuel)
  show ?case
  proof (cases "k = j")
    case True
    then show ?thesis using assms(1) by simp
  next
    case False
    then have kj: "j < k" "N k = None" using Suc.prems by auto
    then have "k \<noteq> 0" by auto
    then have "unat (k - 1) = unat k - 1" by (rule unat_minus_one)
    then have k1: "k \<noteq> HEADSERIAL" "unat (k - 1) = unat k - 1" "j \<le> k - 1" "k - 1 < k"
      using kj(1) \<open>k \<noteq> 0\<close> by (auto simp: HEADSERIAL_def word_less_nat_alt word_le_nat_alt)
    have "previous_valid fuel map_index N (k - 1) = Inr (True, j, b)"
    proof (rule Suc.IH [OF k1(3)])
      show "\<forall>i. j < i \<and> i \<le> k - 1 \<longrightarrow> N i = None" using Suc.prems(2) k1(4) by auto
      have "unat j < unat k" using kj(1) by (simp add: word_less_nat_alt)
      then show "unat (k - 1) - unat j < fuel" using Suc.prems(3) k1(2) by simp
    qed
    then show ?thesis using kj(2) k1(1) by simp
  qed
qed simp

lemma next_valid_ex:
  assumes "N i \<noteq> None" "k \<le> i" "i \<le> e" "unat e < fuel"
  shows "\<exists>j b. next_valid fuel map_index N e k = Inr (True, j, b) \<and> N j = Some b \<and> k \<le> j \<and> j \<le> i \<and>
    (\<forall>i. k \<le> i \<and> i < j \<longrightarrow> N i = None)"
proof -
  define j where "j = (LEAST i. k \<le> i \<and> N i \<noteq> None)"
  have j: "k \<le> j \<and> N j \<noteq> None" unfolding j_def by (rule LeastI [of _ i]) (use assms in simp)
  have le: "j \<le> i'" if "k \<le> i'" "N i' \<noteq> None" for i' unfolding j_def by (rule Least_le) (use that in simp)
  have ji: "j \<le> i" using le assms(1,2) by simp
  have none: "\<forall>i. k \<le> i \<and> i < j \<longrightarrow> N i = None" using le by (metis leD)
  obtain b where b: "N j = Some b" using j by auto
  have "unat j \<le> unat e" using ji assms(3) by (simp add: word_le_nat_alt)
  then have "next_valid fuel map_index N e k = Inr (True, j, b)"
    using j ji none assms(3,4) by (intro next_valid_found [where N = N, OF b]) auto
  then show ?thesis using b j ji none by blast
qed

lemma previous_valid_ex:
  assumes "N i \<noteq> None" "i \<le> k" "unat k < fuel"
  shows "\<exists>j b. previous_valid fuel map_index N k = Inr (True, j, b) \<and> N j \<noteq> None \<and> i \<le> j \<and> j \<le> k"
proof -
  let ?S = "{j. j \<le> k \<and> N j \<noteq> None}"
  define j where "j = Max ?S"
  have "i \<in> ?S" using assms(1,2) by simp
  then have "j \<in> ?S" unfolding j_def by (intro Max_in) auto
  moreover have "i \<le> j" unfolding j_def using \<open>i \<in> ?S\<close> by (intro Max_ge) auto
  ultimately have j: "j \<in> ?S" "i \<le> j" by simp_all
  have ge: "i' \<le> j" if "i' \<in> ?S" for i' unfolding j_def using that by (intro Max_ge) auto
  have none: "\<forall>i. j < i \<and> i \<le> k \<longrightarrow> N i = None"
  proof (intro allI impI)
    fix i assume "j < i \<and> i \<le> k"
    then show "N i = None" using ge [of i] by (cases "N i") auto
  qed
  obtain b where b: "N j = Some b" using j by auto
  have "previous_valid fuel map_index N k = Inr (True, j, b)"
    using j none assms(3) by (intro previous_valid_found [where N = N, OF b]) auto
  then show ?thesis using j by auto
qed

text \<open>Blocks with smaller serial numbers hold smaller sequence numbers.\<close>

lemma block_order:
  assumes "blocks_wf bs" "(i, us) \<in> set bs" "(j, vs) \<in> set bs" "i < j" "x \<in> set us" "y \<in> set vs"
  shows "x < y"
proof -
  have s: "sorted_wrt (<) (map fst bs)" "sorted_wrt (<) (seqs bs)" using assms(1) by (auto simp: blocks_wf_def)
  from s assms(2-) show ?thesis
  proof (induction bs)
    case (Cons b bs)
    then have "x < y" if "(i, us) = b" "(j, vs) \<in> set bs"
      using that by (cases b) (auto simp: sorted_wrt_append set_seqs)
    moreover have "(i, us) \<in> set bs \<Longrightarrow> b \<noteq> (j, vs)" using Cons.prems(1,5) by (auto dest: order.asym)
    ultimately show ?case using Cons by (cases b) (auto simp: sorted_wrt_append)
  qed simp
qed

lemma ring_entry:
  assumes "ring N bs" "N j = Some b"
  shows "(j, vect_seq b) \<in> set bs"
proof -
  from assms have "bs \<noteq> []" "j \<in> fst ` set bs" by (auto simp: ring_def dest: domI)
  then obtain ws where "(j, ws) \<in> set bs" "links N (fst (last bs)) bs 0" using assms(1) by (auto simp: ring_def)
  then show ?thesis using links_entry assms(2) by fastforce
qed

lemma ring_dom: "ring N bs \<Longrightarrow> (k, vs) \<in> set bs \<Longrightarrow> N k \<noteq> None"
  by (force simp: ring_def dest: equalityD2 [THEN subsetD])

lemma unat_mid:
  fixes b e :: "64 word"
  assumes "b \<le> e" "unat e < 2 ^ 63"
  shows "b \<le> (b + e) div 2" "(b + e) div 2 \<le> e"
proof -
  have "unat b \<le> unat e" using assms(1) by (simp add: word_le_nat_alt)
  then have "unat ((b + e) div 2) = (unat b + unat e) div 2"
    using assms(2) by (simp add: unat_div unat_word_ariths)
  then show "b \<le> (b + e) div 2" "(b + e) div 2 \<le> e"
    using \<open>unat b \<le> unat e\<close> by (simp_all add: word_le_nat_alt)
qed

lemma block_sorted:
  assumes "blocks_wf bs" "(k, vs) \<in> set bs"
  shows "sorted_wrt (<) vs" "vs \<noteq> []"
  using assms by (auto simp: blocks_wf_def in_set_conv_decomp sorted_wrt_append)

lemma sorted_range:
  fixes x :: "'a :: linorder"
  assumes "sorted_wrt (<) xs" "x \<in> set xs"
  shows "hd xs \<le> x" "x \<le> last xs"
  using assms by (induction xs) (auto simp: less_imp_le split: if_splits)

text \<open>One round of the search, for each of its three outcomes.\<close>

lemma delete_loop_right:
  assumes "b \<le> e" "next_valid fuel db s (niv_previous head) ((b + e) div 2) = Inr (True, j, blj)"
    and "vect_seq blj \<noteq> []" "last (vect_seq blj) < seq"
    and "next_valid fuel db s (niv_previous head) (j + 1) = Inr (True, b1, bl1)"
  shows "delete_loop (Suc n) fuel db s head seq b e = delete_loop n fuel db s head seq b1 e"
  unfolding delete_loop.simps Let_def assms(2) bind_res_Inr split_conv assms(5) using assms(1,3,4) by simp

lemma delete_loop_left:
  assumes "b \<le> e" "next_valid fuel db s (niv_previous head) ((b + e) div 2) = Inr (True, j, blj)"
    and "vect_seq blj \<noteq> []" "\<not> last (vect_seq blj) < seq" "seq < hd (vect_seq blj)"
    and "previous_valid fuel db s (if (b + e) div 2 = j then (b + e) div 2 - 1 else (b + e) div 2) = Inr (True, e1, bl1)"
  shows "delete_loop (Suc n) fuel db s head seq b e = delete_loop n fuel db s head seq b e1"
  unfolding delete_loop.simps Let_def assms(2) bind_res_Inr split_conv assms(6) using assms(1,3-5) by simp

lemma delete_loop_here:
  assumes "b \<le> e" "next_valid fuel db s (niv_previous head) ((b + e) div 2) = Inr (True, j, blj)"
    and "vect_seq blj \<noteq> []" "\<not> last (vect_seq blj) < seq" "\<not> seq < hd (vect_seq blj)"
  shows "delete_loop (Suc n) fuel db s head seq b e = delete_in_block db s head j blj seq"
  unfolding delete_loop.simps Let_def assms(2) bind_res_Inr split_conv using assms(1,3-5) by simp

text \<open>Where the block in the middle lies relative to the one that holds the number.\<close>

lemma block_compare:
  assumes ring: "ring N bs" and wf: "blocks_wf bs" and "N k = Some blk" "seq \<in> set (vect_seq blk)" "N j = Some blj"
  shows "vect_seq blj \<noteq> []" "last (vect_seq blj) < seq \<longleftrightarrow> j < k" "seq < hd (vect_seq blj) \<longleftrightarrow> k < j"
proof -
  have k: "(k, vect_seq blk) \<in> set bs" by (rule ring_entry [OF ring assms(3)])
  have j: "(j, vect_seq blj) \<in> set bs" by (rule ring_entry [OF ring assms(5)])
  note s = block_sorted [OF wf j]
  show ne: "vect_seq blj \<noteq> []" by (rule s(2))
  have hl: "hd (vect_seq blj) \<le> last (vect_seq blj)" using sorted_range(1) [OF s(1) last_in_set [OF ne]] .
  consider "j < k" | "j = k" | "k < j" by (rule linorder_cases)
  then have "(last (vect_seq blj) < seq \<longleftrightarrow> j < k) \<and> (seq < hd (vect_seq blj) \<longleftrightarrow> k < j)"
  proof cases
    case 1
    have "last (vect_seq blj) < seq" by (rule block_order [OF wf j k 1 last_in_set [OF ne] assms(4)])
    then show ?thesis using 1 hl by auto
  next
    case 2
    then have "seq \<in> set (vect_seq blj)" using assms(3-5) by simp
    from sorted_range [OF s(1) this] show ?thesis using 2 by auto
  next
    case 3
    have "seq < hd (vect_seq blj)" by (rule block_order [OF wf k j 3 assms(4) hd_in_set [OF ne]])
    then show ?thesis using 3 hl by auto
  qed
  then show "last (vect_seq blj) < seq \<longleftrightarrow> j < k" "seq < hd (vect_seq blj) \<longleftrightarrow> k < j" by simp_all
qed

text \<open>The block the search goes on from, right and left of the middle: nearer to the one that holds the number.\<close>

lemma search_right:
  assumes Nk: "N k = Some blk" and jk: "j < k" "k \<le> l" and fuel: "unat l < fuel"
  shows "\<exists>b1 bl1. next_valid fuel map_index N l (j + 1) = Inr (True, b1, bl1) \<and> unat j < unat b1 \<and> b1 \<le> k"
proof -
  have le: "j + 1 \<le> k" "unat (j + 1) = unat j + 1" by (rule inc_le [OF jk(1)], rule word_Suc [OF jk(1)])
  obtain b1 bl1 where "next_valid fuel map_index N l (j + 1) = Inr (True, b1, bl1)" "j + 1 \<le> b1" "b1 \<le> k"
    using next_valid_ex [where N = N, OF _ le(1) jk(2) fuel] Nk by auto
  then show ?thesis using le(2) by (auto simp: word_le_nat_alt)
qed

lemma search_left:
  assumes Nk: "N k = Some blk" and kj: "k < j" "mid \<le> j" "mid \<le> l" and least: "\<forall>i. mid \<le> i \<and> i < j \<longrightarrow> N i = None"
    and fuel: "unat l < fuel"
  shows "\<exists>e1 bl1. previous_valid fuel map_index N (if mid = j then mid - 1 else mid) = Inr (True, e1, bl1) \<and>
    k \<le> e1 \<and> e1 < mid"
proof -
  define m where "m = (if mid = j then mid - 1 else mid)"
  have km: "k \<le> m \<and> m \<le> mid \<and> (m = mid \<longrightarrow> N m = None)"
  proof (cases "mid = j")
    case True
    then have km: "k < mid" using kj(1) by simp
    then have "mid \<noteq> 0" by auto
    then have "unat (mid - 1) = unat mid - 1" by (rule unat_minus_one)
    moreover have "unat k < unat mid" using km by (simp add: word_less_nat_alt)
    ultimately show ?thesis using True \<open>mid \<noteq> 0\<close> by (auto simp: m_def word_le_nat_alt)
  next
    case False
    then have "mid < j" using kj(2) by simp
    then have "N mid = None" "k < mid" using least Nk kj(1) by (auto simp: not_le [symmetric])
    then show ?thesis using False by (simp add: m_def)
  qed
  have "unat m \<le> unat l" using km kj(3) by (auto simp: word_le_nat_alt)
  then obtain e1 bl1 where e1: "previous_valid fuel map_index N m = Inr (True, e1, bl1)" "N e1 \<noteq> None" "k \<le> e1" "e1 \<le> m"
    using previous_valid_ex [where N = N and i = k and k = m and fuel = fuel] Nk km fuel by auto
  moreover have "e1 < mid" using e1(2,4) km by (cases "e1 = mid") auto
  ultimately show ?thesis unfolding m_def by blast
qed

text \<open>
  The search returns to the block that holds the number, from any range of serial numbers that
  contains the block: each round strictly narrows the range.
\<close>

lemma delete_loop_finds:
  assumes ring: "ring N bs" and wf: "blocks_wf bs" and Nk: "N k = Some blk" and seq: "seq \<in> set (vect_seq blk)"
    and prev: "niv_previous head = l" and l: "N l \<noteq> None" "unat l < 2 ^ 63" "unat l + 1 < fuel"
    and "b \<le> k" "k \<le> e" "e \<le> l" "unat e - unat b < n"
  shows "delete_loop n fuel map_index N head seq b e = delete_in_block map_index N head k blk seq"
  using assms(9-)
proof (induction n arbitrary: b e)
  case (Suc n)
  let ?mid = "(b + e) div 2"
  have be: "b \<le> e" using Suc.prems(1,2) by simp
  have "unat e < 2 ^ 63" using Suc.prems(3) l(2) by (simp add: word_le_nat_alt)
  note mid = unat_mid [OF be this]
  have ml: "?mid \<le> l" using mid(2) Suc.prems(3) by (rule order.trans)
  have fuel: "unat l < fuel" using l(3) by simp
  obtain j blj where j: "next_valid fuel map_index N (niv_previous head) ?mid = Inr (True, j, blj)" "N j = Some blj"
      "?mid \<le> j" "j \<le> l" and least: "\<forall>i. ?mid \<le> i \<and> i < j \<longrightarrow> N i = None"
    using next_valid_ex [where N = N, OF l(1) ml order.refl fuel] unfolding prev by blast
  note cmp = block_compare [OF ring wf Nk seq j(2)]
  consider "j < k" | "j = k" | "k < j" by (rule linorder_cases)
  then show ?case
  proof cases
    case 1
    obtain b1 bl1 where b1: "next_valid fuel map_index N (niv_previous head) (j + 1) = Inr (True, b1, bl1)"
        "unat j < unat b1" "b1 \<le> k"
      using search_right [where N = N, OF Nk 1 order.trans [OF Suc.prems(2,3)] fuel] unfolding prev by blast
    have "unat e - unat b1 < n"
      using mid(1) j(3) b1(2) order.trans [OF b1(3) Suc.prems(2)] Suc.prems(4) by (simp add: word_le_nat_alt)
    then have "delete_loop n fuel map_index N head seq b1 e = delete_in_block map_index N head k blk seq"
      by (rule Suc.IH [OF b1(3) Suc.prems(2,3)])
    moreover have "last (vect_seq blj) < seq" using cmp(2) 1 by simp
    ultimately show ?thesis using delete_loop_right [OF be j(1) cmp(1) _ b1(1)] by simp
  next
    case 2
    then have "blj = blk" using j(2) Nk by simp
    then show ?thesis using delete_loop_here [OF be j(1) cmp(1)] cmp(2,3) 2 by simp
  next
    case 3
    obtain e1 bl1 where e1: "previous_valid fuel map_index N (if ?mid = j then ?mid - 1 else ?mid) = Inr (True, e1, bl1)"
        "k \<le> e1" "e1 < ?mid"
      using search_left [where N = N, OF Nk 3 j(3) ml least fuel] by blast
    have e1e: "e1 < e" using e1(3) mid(2) by (rule order.strict_trans2)
    moreover have "unat b \<le> unat e1" using order.trans [OF Suc.prems(1) e1(2)] by (simp add: word_le_nat_alt)
    ultimately have "unat e1 - unat b < n" using Suc.prems(4) by (simp add: word_less_nat_alt)
    moreover have "e1 \<le> l" using e1e Suc.prems(3) by simp
    ultimately have "delete_loop n fuel map_index N head seq b e1 = delete_in_block map_index N head k blk seq"
      by (intro Suc.IH [OF Suc.prems(1) e1(2)])
    then show ?thesis using delete_loop_left [OF be j(1) cmp(1) _ _ e1(1)] cmp(2,3) 3 by simp
  qed
qed simp

section \<open>Removing a block\<close>

lemma unlink_head_two:
  assumes "ring N [(0, vs), (k, ws)]" "k \<noteq> 0" "length ws \<le> MAXSIZE"
  shows "\<exists>N'. unlink_block map_index (N(0 := None)) head 0 k k = Inr N' \<and> ring N' [(0, ws)]"
  using assms by (auto simp: unlink_block_def HEADSERIAL_def ring_def)

lemma unlink_head_more:
  assumes ring: "ring N ((0, vs) # (k, ws) # (j, us) # cs)" and len: "length ws \<le> MAXSIZE" "length us \<le> MAXSIZE"
    and sorted: "sorted_wrt (<) (map fst ((0, vs) # (k, ws) # (j, us) # cs))"
  shows "\<exists>N'. unlink_block map_index (N(0 := None)) head 0 (fst (last ((j, us) # cs))) k = Inr N' \<and>
    ring N' ((0, ws) # (j, us) # cs)"
proof -
  have n: "k \<noteq> 0" "j \<noteq> 0" "j \<noteq> k" "0 \<notin> fst ` set cs" "k \<notin> fst ` set cs" "j \<notin> fst ` set cs"
    using sorted_fst_notin [of "[]" 0 vs "(k, ws) # (j, us) # cs"] sorted_fst_notin [of "[(0, vs)]" k ws "(j, us) # cs"]
      sorted_fst_notin [of "[(0, vs), (k, ws)]" j us cs] sorted by auto
  define l nx where "l = fst (last ((j, us) # cs))" and "nx = (if cs = [] then 0 else fst (hd cs))"
  have l: "l \<noteq> 0" "l \<noteq> k" using n unfolding l_def by (auto simp: image_iff)
  have N: "N 0 = Some \<lparr>niv_previous = l, vect_seq = vs, niv_next = k\<rparr>" "N k = Some \<lparr>niv_previous = 0, vect_seq = ws, niv_next = j\<rparr>"
    "N j = Some \<lparr>niv_previous = k, vect_seq = us, niv_next = nx\<rparr>" "links N j cs 0"
    "dom N = insert 0 (insert k (insert j (fst ` set cs)))"
    using ring by (auto simp: ring_def l_def nx_def)
  let ?N = "N(0 := None, k := None, 0 \<mapsto> \<lparr>niv_previous = l, vect_seq = ws, niv_next = j\<rparr>,
    j \<mapsto> \<lparr>niv_previous = 0, vect_seq = us, niv_next = nx\<rparr>)"
  have "unlink_block map_index (N(0 := None)) head 0 l k = Inr ?N"
    using N n l len by (simp add: unlink_block_def HEADSERIAL_def Let_def)
  moreover have "ring ?N ((0, ws) # (j, us) # cs)"
    using N n by (auto simp: ring_def l_def nx_def)
  ultimately show ?thesis unfolding l_def by blast
qed

lemma unlink_second:
  assumes "ring N [(0, vs), (k, ws)]" "k \<noteq> 0" "length vs \<le> MAXSIZE" "N 0 = Some head"
  shows "\<exists>N'. unlink_block map_index (N(k := None)) head k 0 0 = Inr N' \<and> ring N' [(0, vs)]"
  using assms by (auto simp: unlink_block_def HEADSERIAL_def ring_def)

lemma unlink_last:
  assumes ring: "ring N ((0, vs) # as @ [(p, us), (k, ws)])" and len: "length vs \<le> MAXSIZE" "length us \<le> MAXSIZE"
    and sorted: "sorted_wrt (<) (map fst ((0, vs) # as @ [(p, us), (k, ws)]))"
  shows "\<exists>N'. unlink_block map_index (N(k := None)) head k p 0 = Inr N' \<and> ring N' ((0, vs) # as @ [(p, us)])"
proof -
  have n: "k \<noteq> 0" "p \<noteq> 0" "p \<noteq> k" "0 \<notin> fst ` set as" "k \<notin> fst ` set as" "p \<notin> fst ` set as"
    using sorted_fst_notin [of "[]" 0 vs "as @ [(p, us), (k, ws)]"] sorted_fst_notin [of "(0, vs) # as" p us "[(k, ws)]"]
      sorted_fst_notin [of "(0, vs) # as @ [(p, us)]" k ws "[]"] sorted by auto
  define nx pp where "nx = fst (hd (as @ [(p, us)]))" and "pp = (if as = [] then 0 else fst (last as))"
  have N: "N 0 = Some \<lparr>niv_previous = k, vect_seq = vs, niv_next = nx\<rparr>" "links N 0 as p"
    "N p = Some \<lparr>niv_previous = pp, vect_seq = us, niv_next = k\<rparr>"
    "dom N = insert 0 (insert p (insert k (fst ` set as)))"
    using ring by (auto simp: ring_def nx_def pp_def links_append hd_append)
  let ?N = "N(k := None, p \<mapsto> \<lparr>niv_previous = pp, vect_seq = us, niv_next = 0\<rparr>,
    0 \<mapsto> \<lparr>niv_previous = p, vect_seq = vs, niv_next = nx\<rparr>)"
  have "unlink_block map_index (N(k := None)) head k p 0 = Inr ?N"
    using N n len by (simp add: unlink_block_def HEADSERIAL_def Let_def)
  moreover have "ring ?N ((0, vs) # as @ [(p, us)])"
    using N n by (auto simp: ring_def nx_def pp_def links_append hd_append)
  ultimately show ?thesis by blast
qed

lemma unlink_middle:
  assumes ring: "ring N (as @ (p, us) # (k, ws) # (j, zs) # cs)" and len: "length us \<le> MAXSIZE" "length zs \<le> MAXSIZE"
    and sorted: "sorted_wrt (<) (map fst (as @ (p, us) # (k, ws) # (j, zs) # cs))" and pos: "k \<noteq> 0" "j \<noteq> 0"
  shows "\<exists>N'. unlink_block map_index (N(k := None)) head k p j = Inr N' \<and> ring N' (as @ (p, us) # (j, zs) # cs)"
proof -
  let ?bs = "as @ (p, us) # (k, ws) # (j, zs) # cs"
  have n: "p \<noteq> k" "j \<noteq> k" "p \<noteq> j" "k \<notin> fst ` set as" "p \<notin> fst ` set as" "j \<notin> fst ` set as"
     "k \<notin> fst ` set cs" "p \<notin> fst ` set cs" "j \<notin> fst ` set cs"
    using sorted_fst_notin [of as p us "(k, ws) # (j, zs) # cs"] sorted_fst_notin [of "as @ [(p, us)]" k ws "(j, zs) # cs"]
      sorted_fst_notin [of "as @ [(p, us), (k, ws)]" j zs cs] sorted by auto
  define l nx pp where "l = fst (last ((j, zs) # cs))" and "nx = (if cs = [] then 0 else fst (hd cs))"
    and "pp = (if as = [] then l else fst (last as))"
  have N: "links N l as p" "N p = Some \<lparr>niv_previous = pp, vect_seq = us, niv_next = k\<rparr>"
    "N j = Some \<lparr>niv_previous = k, vect_seq = zs, niv_next = nx\<rparr>" "links N j cs 0"
    "dom N = fst ` set as \<union> insert p (insert k (insert j (fst ` set cs)))"
    using ring by (auto simp: ring_def l_def nx_def pp_def links_append)
  let ?N = "N(k := None, p \<mapsto> \<lparr>niv_previous = pp, vect_seq = us, niv_next = j\<rparr>,
    j \<mapsto> \<lparr>niv_previous = p, vect_seq = zs, niv_next = nx\<rparr>)"
  have "unlink_block map_index (N(k := None)) head k p j = Inr ?N"
    using N n len pos by (simp add: unlink_block_def HEADSERIAL_def Let_def)
  moreover have "ring ?N (as @ (p, us) # (j, zs) # cs)"
    using N n by (auto simp: ring_def l_def nx_def pp_def links_append)
  ultimately show ?thesis by blast
qed

text \<open>The same by position: the first block, whose successor moves into its place, and any later one.\<close>

lemma wf_block_facts:
  assumes "blocks_wf bs"
  shows "sorted_wrt (<) (map fst bs)" "\<And>i vs. (i, vs) \<in> set bs \<Longrightarrow> length vs \<le> MAXSIZE"
  using assms by (auto simp: blocks_wf_def)

lemma unlink_first_block:
  assumes ring: "ring N ((k, ws) # (j, us) # ds)" and wf: "blocks_wf ((k, ws) # (j, us) # ds)" and blk: "N k = Some blk"
  shows "\<exists>N'. unlink_block map_index (N(k := None)) head k (niv_previous blk) (niv_next blk) = Inr N' \<and>
    ring N' ((0, us) # ds) \<and> blocks_wf ((0, us) # ds)"
proof -
  note srt = wf_block_facts(1) [OF wf] and len = wf_block_facts(2) [OF wf]
  have k: "k = 0" using wf by (simp add: blocks_wf_def)
  have new: "blocks_wf ((0, us) # ds)" using wf by (auto simp: blocks_wf_def sorted_wrt_append)
  have b: "niv_previous blk = fst (last ((j, us) # ds))" "niv_next blk = j" using ring blk by (auto simp: ring_def)
  have "\<exists>N'. unlink_block map_index (N(0 := None)) head 0 (niv_previous blk) (niv_next blk) = Inr N' \<and>
      ring N' ((0, us) # ds)"
  proof (cases ds)
    case Nil
    moreover have "j \<noteq> 0" using srt k by auto
    ultimately show ?thesis using unlink_head_two [of N ws j us head] ring len [of j us] k b by auto
  next
    case (Cons d es)
    then show ?thesis
      using unlink_head_more [of N ws j us "fst d" "snd d" es head] ring len [of j us] len [of "fst d" "snd d"] srt k b
      by auto
  qed
  then show ?thesis using new k by blast
qed

lemma unlink_later_block:
  assumes ring: "ring N bs" and wf: "blocks_wf bs" and bs: "bs = (as @ [(p, us)]) @ (k, ws) # cs"
    and blk: "N k = Some blk" and head: "N 0 = Some head"
  shows "\<exists>N'. unlink_block map_index (N(k := None)) head k (niv_previous blk) (niv_next blk) = Inr N' \<and>
    ring N' ((as @ [(p, us)]) @ cs)"
proof -
  note srt = wf_block_facts(1) [OF wf] and len = wf_block_facts(2) [OF wf]
  have "fst (hd (as @ [(p, us)])) = 0" using wf bs by (auto simp: blocks_wf_def hd_append)
  then have zero: "0 \<in> fst ` set (as @ [(p, us)])" using hd_in_set [of "as @ [(p, us)]"] by (metis image_eqI snoc_eq_iff_butlast)
  then have k0: "k \<noteq> 0" using sorted_fst_notin(1) [of "as @ [(p, us)]" k ws cs] srt bs by auto
  have b: "niv_previous blk = p" "niv_next blk = (if cs = [] then 0 else fst (hd cs))"
    using ring bs blk by (auto simp: ring_def links_append)
  consider c cs' where "cs = c # cs'" | "cs = []" "as = []" | a as' where "cs = []" "as = a # as'"
    by (cases cs; cases as) auto
  then show ?thesis
  proof cases
    case 1
    have "fst c \<notin> fst ` set (as @ [(p, us)])"
      using sorted_fst_notin(1) [of "(as @ [(p, us)]) @ [(k, ws)]" "fst c" "snd c" cs'] srt bs 1 by simp
    then have "fst c \<noteq> 0" using zero by metis
    then show ?thesis
      using unlink_middle [of N as p us k ws "fst c" "snd c" cs' head] ring srt len [of p us] len [of "fst c" "snd c"]
        bs 1 b k0 by simp
  next
    case 2
    then have "p = 0" using wf bs by (simp add: blocks_wf_def)
    then show ?thesis using unlink_second [of N us k ws head] ring len [of p us] head bs 2 b k0 by simp
  next
    case 3
    then have "fst a = 0" using wf bs by (simp add: blocks_wf_def)
    then have "a = (0, snd a)" by (cases a) simp
    then show ?thesis
      using unlink_last [of N "snd a" as' p us k ws head] ring srt len [of p us] len [of 0 "snd a"] bs 3 b by simp
  qed
qed

lemma unlink_ring:
  assumes ring: "ring N bs" and wf: "blocks_wf bs" and bs: "bs = as @ (k, ws) # cs" "as \<noteq> [] \<or> cs \<noteq> []"
    and blk: "N k = Some blk" and head: "N 0 = Some head"
  shows "\<exists>N' bs'. unlink_block map_index (N(k := None)) head k (niv_previous blk) (niv_next blk) = Inr N' \<and>
    ring N' bs' \<and> blocks_wf bs' \<and> seqs bs' = seqs as @ seqs cs"
proof (cases as rule: rev_cases)
  case Nil
  then obtain j us ds where cs: "cs = (j, us) # ds" using bs by (cases cs) auto
  from unlink_first_block [of N k ws j us ds blk head] obtain N' where
    "unlink_block map_index (N(k := None)) head k (niv_previous blk) (niv_next blk) = Inr N'"
    "ring N' ((0, us) # ds)" "blocks_wf ((0, us) # ds)"
    using ring wf blk bs Nil cs by auto
  then show ?thesis using Nil cs by (intro exI [of _ N'] exI [of _ "(0, us) # ds"]) simp
next
  case (snoc as' p)
  obtain pk us where p: "p = (pk, us)" by (cases p)
  have new: "blocks_wf (as @ cs)" using wf bs snoc by (auto simp: blocks_wf_def sorted_wrt_append hd_append)
  from unlink_later_block [OF ring wf _ blk head, of as' pk us ws cs] obtain N' where
    "unlink_block map_index (N(k := None)) head k (niv_previous blk) (niv_next blk) = Inr N'" "ring N' (as @ cs)"
    using bs snoc p by auto
  then show ?thesis using new by (intro exI [of _ N'] exI [of _ "as @ cs"]) simp
qed

section \<open>Deleting a sequence number\<close>

lemma blocks_wf_shrink:
  assumes "blocks_wf (as @ (k, us @ x # vs) # cs)" "us @ vs \<noteq> []"
  shows "blocks_wf (as @ (k, us @ vs) # cs)"
  using assms by (auto simp: blocks_wf_def sorted_wrt_append hd_append)

lemma ring_shrink:
  assumes ring: "ring N (as @ (k, ws) # cs)" and wf: "blocks_wf (as @ (k, ws) # cs)" and "N k = Some blk"
  shows "ring (N(k \<mapsto> blk\<lparr>vect_seq := vs\<rparr>)) (as @ (k, vs) # cs)"
proof -
  have n: "k \<notin> fst ` set as" "k \<notin> fst ` set cs"
    using sorted_fst_notin [of as k ws cs] wf by (auto simp: blocks_wf_def)
  show ?thesis using ring n assms(3) by (auto simp: ring_def links_append)
qed

lemma delete_in_block_ring:
  assumes ring: "ring N bs" and wf: "blocks_wf bs" and bs: "bs = as @ (k, us @ seq # vs) # cs" "as \<noteq> [] \<or> cs \<noteq> []"
    and blk: "N k = Some blk" and head: "N 0 = Some head"
  shows "\<exists>N' bs'. delete_in_block map_index N head k blk seq = Inr N' \<and> ring N' bs' \<and> blocks_wf bs' \<and>
    seqs bs' = seqs as @ us @ vs @ seqs cs"
proof -
  have ws: "vect_seq blk = us @ seq # vs" using links_entry [of N "fst (last bs)" bs 0 k "us @ seq # vs"] ring bs blk
    by (auto simp: ring_def)
  have s: "sorted_wrt (<) (us @ seq # vs)" and l: "length (us @ seq # vs) \<le> MAXSIZE"
    using block_sorted(1) [OF wf, of k] wf bs by (auto simp: blocks_wf_def)
  note f = find_seq_split [OF s] erase_at_split
  show ?thesis
  proof (cases "us @ vs = []")
    case True
    then show ?thesis
      using unlink_ring [OF ring wf bs(1) bs(2) blk head] ws f(1) by (simp add: delete_in_block_def erase_at_def Let_def)
  next
    case False
    have "ring (N(k \<mapsto> blk\<lparr>vect_seq := us @ vs\<rparr>)) (as @ (k, us @ vs) # cs)"
      using ring wf blk unfolding bs(1) by (intro ring_shrink)
    moreover have "delete_in_block map_index N head k blk seq = Inr (N(k \<mapsto> blk\<lparr>vect_seq := us @ vs\<rparr>))"
      using ws f(1) l False by (auto simp: delete_in_block_def erase_at_split)
    ultimately show ?thesis
      using blocks_wf_shrink [OF wf [unfolded bs(1)] False]
      by (intro exI [of _ "N(k \<mapsto> blk\<lparr>vect_seq := us @ vs\<rparr>)"] exI [of _ "as @ (k, us @ vs) # cs"]) simp
  qed
qed

lemma filter_seqs:
  assumes "blocks_wf (as @ (k, us @ seq # vs) # cs)"
  shows "filter (\<lambda>x. x \<noteq> seq) (seqs (as @ (k, us @ seq # vs) # cs)) = seqs as @ us @ vs @ seqs cs"
proof -
  have "sorted_wrt (<) (seqs as @ us @ seq # vs @ seqs cs)" using assms by (simp add: blocks_wf_def)
  then have "seq \<notin> set (seqs as)" "seq \<notin> set us" "seq \<notin> set vs" "seq \<notin> set (seqs cs)"
    by (auto simp: sorted_wrt_append)
  then have "filter (\<lambda>x. x \<noteq> seq) l = l" if "l \<in> {seqs as, us, vs, seqs cs}" for l
    using that by (auto simp: filter_id_conv)
  then show ?thesis by simp
qed

text \<open>A ring of a single block: the number is erased in place, and the last one takes the block with it.\<close>

lemma delete_single:
  assumes ring: "ring N [(0, us @ seq # vs)]" and wf: "blocks_wf [(0, us @ seq # vs)]"
  shows "\<exists>N' bs'. delete_normal_index_db map_index seq N = Inr N' \<and> ring N' bs' \<and> blocks_wf bs' \<and> seqs bs' = us @ vs"
proof -
  let ?head = "\<lparr>niv_previous = 0, vect_seq = us @ seq # vs, niv_next = 0\<rparr>"
  have head: "N 0 = Some ?head" using ring by (simp add: ring_def)
  have s: "sorted_wrt (<) (us @ seq # vs)" and l: "length (us @ seq # vs) \<le> MAXSIZE"
    using block_sorted(1) [OF wf, of 0] wf by (simp_all add: blocks_wf_def)
  have go: "delete_normal_index_db map_index seq N = (if us @ vs = [] then Inr (N(0 := None))
      else Inr (N(0 \<mapsto> ?head\<lparr>vect_seq := us @ vs\<rparr>)))"
    using head l find_seq_split [OF s] by (simp add: delete_normal_index_db_def HEADSERIAL_def erase_at_split)
  show ?thesis
  proof (cases "us @ vs = []")
    case True
    then have "ring (N(0 := None)) []" using ring by (auto simp: ring_def)
    then show ?thesis using go True by (intro exI [of _ "N(0 := None)"] exI [of _ "[]"]) (simp add: blocks_wf_def)
  next
    case False
    have "ring (N(0 \<mapsto> ?head\<lparr>vect_seq := us @ vs\<rparr>)) ([] @ (0, us @ vs) # [])"
      using ring wf head by (intro ring_shrink [of N "[]" 0 "us @ seq # vs" "[]"]) simp_all
    moreover have "blocks_wf ([] @ (0, us @ vs) # [])"
      using wf False by (intro blocks_wf_shrink [of "[]" 0 us seq vs "[]"]) simp_all
    ultimately show ?thesis using go False
      by (intro exI [of _ "N(0 \<mapsto> ?head\<lparr>vect_seq := us @ vs\<rparr>)"] exI [of _ "[(0, us @ vs)]"]) auto
  qed
qed

lemma last_serial:
  assumes wf: "blocks_wf bs" and ne: "bs \<noteq> []" and small: "\<forall>x \<in> set (seqs bs). unat x < 2 ^ 63"
  shows "unat (fst (last bs)) < 2 ^ 63"
proof -
  have lin: "(fst (last bs), snd (last bs)) \<in> set bs" using ne by simp
  have x: "hd (snd (last bs)) \<in> set (snd (last bs))" "\<forall>x \<in> set (snd (last bs)). fst (last bs) \<le> x"
    using wf lin by (auto simp: blocks_wf_def)
  then have "hd (snd (last bs)) \<in> set (seqs bs)" using lin unfolding set_seqs by blast
  then have "unat (hd (snd (last bs))) < 2 ^ 63" using small by blast
  moreover have "fst (last bs) \<le> hd (snd (last bs))" using x by blast
  ultimately show ?thesis unfolding word_le_nat_alt by linarith
qed

text \<open>A ring of several blocks: the search finds the block, which is shrunk or unlinked.\<close>

lemma delete_searches:
  assumes ring: "ring N bs" and wf: "blocks_wf bs" and bs: "bs = as @ (k, us @ seq # vs) # cs"
    and more: "bs = (0, hvs) # bs'" "bs' \<noteq> []" and small: "unat (fst (last bs)) < 2 ^ 63"
    and blk: "N k = Some blk" "vect_seq blk = us @ seq # vs" and head: "N 0 = Some head" "niv_previous head = fst (last bs)"
  shows "delete_normal_index_db map_index seq N = delete_in_block map_index N head k blk seq"
proof -
  let ?l = "fst (last bs)"
  have srt: "sorted_wrt (<) (map fst bs)" using wf by (simp add: blocks_wf_def)
  have lin: "(?l, snd (last bs)) \<in> set bs" using more by simp
  have "?l \<in> fst ` set bs'" using more by simp
  then have l0: "?l \<noteq> 0" using sorted_fst_notin(2) [of "[]" 0 hvs bs'] srt more by auto
  have kl: "k \<le> ?l"
  proof (cases "cs = []")
    case False
    then show ?thesis using srt last_in_set [of cs] unfolding bs by (simp add: sorted_wrt_append less_imp_le)
  qed (simp add: bs)
  have "delete_loop (unat ?l + 2) (unat ?l + 2) map_index N head seq 0 ?l = delete_in_block map_index N head k blk seq"
    using ring_dom [OF ring lin] small kl blk(2) head(2) by (intro delete_loop_finds [OF ring wf blk(1)]) auto
  then show ?thesis using head l0 by (simp add: delete_normal_index_db_def HEADSERIAL_def Let_def)
qed

lemma delete_ring:
  assumes ring: "ring N bs" and wf: "blocks_wf bs" and seq: "seq \<in> set (seqs bs)"
    and small: "\<forall>x \<in> set (seqs bs). unat x < 2 ^ 63"
  shows "\<exists>N' bs'. delete_normal_index_db map_index seq N = Inr N' \<and> ring N' bs' \<and> blocks_wf bs' \<and>
    seqs bs' = filter (\<lambda>x. x \<noteq> seq) (seqs bs)"
proof -
  obtain k ws where "(k, ws) \<in> set bs" "seq \<in> set ws" using seq by (auto simp: set_seqs)
  then obtain as us vs cs where bs: "bs = as @ (k, us @ seq # vs) # cs" by (metis in_set_conv_decomp)
  have flt: "filter (\<lambda>x. x \<noteq> seq) (seqs bs) = seqs as @ us @ vs @ seqs cs"
    using filter_seqs wf unfolding bs by blast
  obtain blk where blk: "N k = Some blk" using ring_dom [OF ring, of k] bs by fastforce
  have ws: "vect_seq blk = us @ seq # vs" using links_entry [of N "fst (last bs)" bs 0 k "us @ seq # vs"] ring bs blk
    by (auto simp: ring_def)
  have ne: "bs \<noteq> []" and "fst (hd bs) = 0" using wf by (auto simp: blocks_wf_def bs)
  then obtain hvs bs' where h: "bs = (0, hvs) # bs'" by (cases bs) auto
  then obtain head where head: "N 0 = Some head" "niv_previous head = fst (last bs)"
    using ring by (auto simp: ring_def)
  show ?thesis
  proof (cases "bs' = []")
    case True
    then have "as = [] \<and> cs = [] \<and> k = 0" using bs h by (cases as) auto
    then show ?thesis using delete_single [of N us seq vs] ring wf flt bs by simp
  next
    case False
    then have "as \<noteq> [] \<or> cs \<noteq> []" using bs h by auto
    then show ?thesis
      using delete_in_block_ring [OF ring wf bs _ blk head(1)]
        delete_searches [OF ring wf bs h False last_serial [OF wf ne small] blk ws head] flt by simp
  qed
qed

section \<open>Counting and iterating\<close>

lemma count_links:
  assumes "links N p ((k, vs) # bs) 0" "N k = Some b" "0 \<notin> fst ` set bs" "length bs < fuel" "n < 2 ^ 32"
  shows "count_loop fuel map_index N b n = Inr ((n + length (seqs bs)) mod 2 ^ 32)"
  using assms
proof (induction bs arbitrary: fuel p k vs b n)
  case Nil
  then show ?case by (cases fuel) (auto simp: HEADSERIAL_def)
next
  case (Cons c bs)
  obtain j us where c: "c = (j, us)" by (cases c)
  obtain f where f: "fuel = Suc f" using Cons.prems(4) by (cases fuel) auto
  have b: "niv_next b = j" "j \<noteq> 0" using Cons.prems c by auto
  obtain b1 where b1: "N j = Some b1" "vect_seq b1 = us" using Cons.prems(1) c by auto
  have "count_loop f map_index N b1 ((n + length us) mod 2 ^ 32) =
      Inr (((n + length us) mod 2 ^ 32 + length (seqs bs)) mod 2 ^ 32)"
    using Cons.prems c f b1(1) by (intro Cons.IH [of k j us]) auto
  then show ?case using f b b1 c by (simp add: HEADSERIAL_def mod_add_left_eq add.assoc)
qed

lemma blocks_bound:
  assumes "sorted_wrt (<) (map fst (bs :: blocks))" "bs \<noteq> []"
  shows "length bs \<le> unat (fst (last bs)) + 1"
  using assms
proof (induction bs rule: rev_induct)
  case (snoc b bs)
  show ?case
  proof (cases "bs = []")
    case False
    then have "last bs \<in> set bs" by simp
    then have "fst (last bs) < fst b" using snoc.prems by (auto simp: sorted_wrt_append)
    then have "unat (fst (last bs)) < unat (fst b)" by (simp add: word_less_nat_alt)
    moreover have "length bs \<le> unat (fst (last bs)) + 1" using snoc False by (simp add: sorted_wrt_append)
    ultimately show ?thesis by simp
  qed simp
qed simp

lemma blocks_headE:
  assumes "ring N bs" "blocks_wf bs" "bs \<noteq> []"
  obtains hvs cs where "bs = (0, hvs) # cs" "0 \<notin> fst ` set cs" "links N (fst (last bs)) bs 0"
    "N 0 = Some \<lparr>niv_previous = fst (last bs), vect_seq = hvs, niv_next = (if cs = [] then 0 else fst (hd cs))\<rparr>"
proof -
  obtain hvs cs where bs: "bs = (0, hvs) # cs" using assms(2,3) by (cases bs) (auto simp: blocks_wf_def)
  show thesis
    using assms bs sorted_fst_notin(2) [of "[]" 0 hvs cs] by (intro that [OF bs]) (auto simp: ring_def blocks_wf_def)
qed

lemma count_ring:
  assumes ring: "ring N bs" and wf: "blocks_wf bs" and "bs \<noteq> []"
  shows "get_normal_index_count_db map_index N = Inr (length (seqs bs) mod 2 ^ 32)"
proof -
  obtain hvs cs where h: "bs = (0, hvs) # cs" "0 \<notin> fst ` set cs" "links N (fst (last bs)) bs 0"
    "N 0 = Some \<lparr>niv_previous = fst (last bs), vect_seq = hvs, niv_next = (if cs = [] then 0 else fst (hd cs))\<rparr>"
    by (rule blocks_headE [OF assms])
  have "length bs \<le> unat (fst (last bs)) + 1" using wf assms(3) by (intro blocks_bound) (simp_all add: blocks_wf_def)
  moreover have "length hvs \<le> 30" using wf h(1) by (simp add: blocks_wf_def MAXSIZE_def)
  ultimately show ?thesis
    using h count_links [of N "fst (last bs)" 0 hvs cs _ "unat (fst (last bs)) + 1" "length hvs"]
    by (simp add: get_normal_index_count_db_def HEADSERIAL_def del: count_loop.simps)
qed

lemma size_minus_one: "0 < n \<Longrightarrow> n \<le> MAXSIZE \<Longrightarrow> (n + 2 ^ 32 - 1) mod 2 ^ 32 = n - 1"
  by (cases n) (auto simp: MAXSIZE_def)

lemma index_at:
  assumes "N k = Some b" "i < length (vect_seq b)" "length (vect_seq b) \<le> MAXSIZE"
  shows "index_get_seq map_index N \<lparr>ii_serial = k, ii_num = i\<rparr> = Inr (vect_seq b ! i)"
    and "\<not> index_eq \<lparr>ii_serial = k, ii_num = i\<rparr> index_cend"
    and "index_inc map_index N \<lparr>ii_serial = k, ii_num = i\<rparr> =
      Inr (if Suc i < length (vect_seq b) then \<lparr>ii_serial = k, ii_num = Suc i\<rparr>
           else \<lparr>ii_serial = niv_next b, ii_num = (if niv_next b = 0 then MAXSIZE else 0)\<rparr>)"
proof -
  have n: "0 < length (vect_seq b)" using assms(2) by auto
  show "index_get_seq map_index N \<lparr>ii_serial = k, ii_num = i\<rparr> = Inr (vect_seq b ! i)"
    using assms by (simp add: index_get_seq_def)
  show "\<not> index_eq \<lparr>ii_serial = k, ii_num = i\<rparr> index_cend" using assms(2,3) by (simp add: index_eq_def index_cend_def)
  have "(i + 1) mod 2 ^ 32 = Suc i" using assms(2,3) by (simp add: MAXSIZE_def)
  then show "index_inc map_index N \<lparr>ii_serial = k, ii_num = i\<rparr> =
      Inr (if Suc i < length (vect_seq b) then \<lparr>ii_serial = k, ii_num = Suc i\<rparr>
           else \<lparr>ii_serial = niv_next b, ii_num = (if niv_next b = 0 then MAXSIZE else 0)\<rparr>)"
    using assms size_minus_one [OF n assms(3)] by (auto simp: index_inc_def HEADSERIAL_def)
qed

lemma index_for_links:
  assumes "links N p ((k, vs) # bs) 0" "0 \<notin> fst ` set bs" "i < length vs"
    and "\<forall>(j, us) \<in> set ((k, vs) # bs). us \<noteq> [] \<and> length us \<le> MAXSIZE" "length (drop i vs @ seqs bs) < fuel"
  shows "index_for fuel map_index N \<lparr>ii_serial = k, ii_num = i\<rparr> = Inr (drop i vs @ seqs bs)"
  using assms
proof (induction fuel arbitrary: p k vs bs i)
  case (Suc fuel)
  obtain b where b: "N k = Some b" "vect_seq b = vs" "niv_next b = (if bs = [] then 0 else fst (hd bs))"
    using Suc.prems(1) by auto
  have "length vs \<le> MAXSIZE" using Suc.prems(4) by simp
  note at = index_at [of N k b i, unfolded b(2), OF b(1) Suc.prems(3) this]
  have d: "drop i vs = vs ! i # drop (Suc i) vs" using Suc.prems(3) by (rule Cons_nth_drop_Suc [symmetric])
  show ?case
  proof (cases "Suc i < length vs")
    case True
    then have "index_for fuel map_index N \<lparr>ii_serial = k, ii_num = Suc i\<rparr> = Inr (drop (Suc i) vs @ seqs bs)"
      using Suc.prems d by (intro Suc.IH) auto
    then show ?thesis using True at d by simp
  next
    case False
    then have e: "drop (Suc i) vs = []" by simp
    show ?thesis
    proof (cases bs)
      case Nil
      obtain f where "fuel = Suc f" using Suc.prems(5) d by (cases fuel) auto
      then show ?thesis using Nil False at b(3) d e by (simp add: index_cend_def index_eq_def HEADSERIAL_def)
    next
      case (Cons c cs)
      obtain j us where c: "c = (j, us)" by (cases c)
      have "index_for fuel map_index N \<lparr>ii_serial = j, ii_num = 0\<rparr> = Inr (drop 0 us @ seqs cs)"
        using Suc.prems Cons c d by (intro Suc.IH [of k]) auto
      moreover have "j \<noteq> 0" using Suc.prems(2) Cons c by auto
      ultimately show ?thesis using Cons c False at b(3) d e by simp
    qed
  qed
qed simp

text \<open>Backwards: one step of \<open>--\<close> from inside a block, from its start, and from the end of the ring.\<close>

lemma index_dec_at:
  assumes "N k = Some b" "0 < i" "i < length (vect_seq b)" "length (vect_seq b) \<le> MAXSIZE"
  shows "index_dec map_index N \<lparr>ii_serial = k, ii_num = i\<rparr> = Inr \<lparr>ii_serial = k, ii_num = i - 1\<rparr>"
  using assms by (simp add: index_dec_def)

lemma index_dec_back:
  assumes "N k = Some b" "N (niv_previous b) = Some b1" "vect_seq b1 \<noteq> []" "length (vect_seq b1) \<le> MAXSIZE"
    and "i = 0 \<and> k \<noteq> 0 \<or> i = MAXSIZE \<and> k = 0"
  shows "index_dec map_index N \<lparr>ii_serial = k, ii_num = i\<rparr> =
    Inr \<lparr>ii_serial = niv_previous b, ii_num = length (vect_seq b1) - 1\<rparr>"
proof -
  have "(length (vect_seq b1) + 2 ^ 32 - 1) mod 2 ^ 32 = length (vect_seq b1) - 1"
    using assms(3,4) by (intro size_minus_one) auto
  then show ?thesis using assms by (auto simp: index_dec_def HEADSERIAL_def MAXSIZE_def)
qed

lemma index_rfor_links:
  assumes links: "links N p ((0, hvs) # cs) 0" and fst0: "0 \<notin> fst ` set cs"
    and lens: "\<forall>(j, us) \<in> set ((0, hvs) # cs). us \<noteq> [] \<and> length us \<le> MAXSIZE"
    and "(0, hvs) # cs = as @ (k, vs) # ds" "i < length vs" "length (seqs as @ take i vs) < fuel"
  shows "index_rfor fuel map_index N \<lparr>ii_serial = 0, ii_num = 0\<rparr> \<lparr>ii_serial = k, ii_num = i\<rparr> =
    Inr (rev (seqs as @ take i vs))"
  using assms(4-)
proof (induction fuel arbitrary: as k vs ds i)
  case (Suc fuel)
  have lk: "links N p (as @ (k, vs) # ds) 0" using links Suc.prems(1) by simp
  obtain b where b: "N k = Some b" "vect_seq b = vs" "niv_previous b = (if as = [] then p else fst (last as))"
    using lk by (auto simp: links_append)
  have len: "length vs \<le> MAXSIZE" using lens Suc.prems(1) by auto
  show ?case
  proof (cases "i = 0")
    case False
    then have t: "take i vs = take (i - 1) vs @ [vs ! (i - 1)]"
      using take_Suc_conv_app_nth [of "i - 1" vs] Suc.prems(2) by simp
    have "index_rfor fuel map_index N \<lparr>ii_serial = 0, ii_num = 0\<rparr> \<lparr>ii_serial = k, ii_num = i - 1\<rparr> =
        Inr (rev (seqs as @ take (i - 1) vs))"
      using Suc.prems t False by (intro Suc.IH) auto
    then show ?thesis
      using False t index_dec_at [of N k b i] index_at(1) [of N k b "i - 1"] b Suc.prems(2) len
      by (simp add: index_eq_def)
  next
    case True
    show ?thesis
    proof (cases as rule: rev_cases)
      case Nil
      then show ?thesis using True Suc.prems(1) by (simp add: index_eq_def)
    next
      case (snoc as' c)
      obtain j us where c: "c = (j, us)" by (cases c)
      have us: "us \<noteq> []" "length us \<le> MAXSIZE" using lens Suc.prems(1) snoc c by auto
      have k0: "k \<noteq> 0" using fst0 Suc.prems(1) snoc by (cases as') (auto simp: image_iff)
      obtain b1 where b1: "N j = Some b1" "vect_seq b1 = us" using lk snoc c by (auto simp: links_append)
      have t: "us = take (length us - 1) us @ [us ! (length us - 1)]"
        using take_Suc_conv_app_nth [of "length us - 1" us] us by simp
      have "index_rfor fuel map_index N \<lparr>ii_serial = 0, ii_num = 0\<rparr> \<lparr>ii_serial = j, ii_num = length us - 1\<rparr> =
          Inr (rev (seqs as' @ take (length us - 1) us))"
      proof (rule Suc.IH)
        show "(0, hvs) # cs = as' @ (j, us) # (k, vs) # ds" using Suc.prems(1) snoc c by simp
        show "length us - 1 < length us" using us(1) by simp
        show "length (seqs as' @ take (length us - 1) us) < fuel"
          using Suc.prems(3) snoc c us(1) True by (cases us) auto
      qed
      then show ?thesis
        using True k0 t index_dec_back [of N k b b1 0] index_at(1) [of N j b1 "length us - 1"] b b1 us snoc c
        by (simp add: index_eq_def) (metis append.assoc rev.simps(2) rev_append rev_swap append_Cons append_Nil)
    qed
  qed
qed simp

lemma iterate_ring:
  assumes ring: "ring N bs" and wf: "blocks_wf bs" and fuel: "length (seqs bs) < fuel"
  shows "bind_res (index_cbegin map_index N) (index_for fuel map_index N) = Inr (seqs bs)"
    and "bind_res (index_cbegin map_index N) (\<lambda>first. index_rfor fuel map_index N first index_cend) = Inr (rev (seqs bs))"
proof -
  obtain f where f: "fuel = Suc f" using fuel by (cases fuel) auto
  have "bind_res (index_cbegin map_index N) (index_for fuel map_index N) = Inr (seqs bs) \<and>
    bind_res (index_cbegin map_index N) (\<lambda>first. index_rfor fuel map_index N first index_cend) = Inr (rev (seqs bs))"
  proof (cases "bs = []")
    case True
    then show ?thesis using ring f by (simp add: ring_empty index_cbegin_def index_eq_def)
  next
    case False
    obtain hvs cs where h: "bs = (0, hvs) # cs" "0 \<notin> fst ` set cs" "links N (fst (last bs)) bs 0"
      "N 0 = Some \<lparr>niv_previous = fst (last bs), vect_seq = hvs, niv_next = (if cs = [] then 0 else fst (hd cs))\<rparr>"
      by (rule blocks_headE [OF ring wf False])
    have lens: "\<forall>(j, us) \<in> set ((0, hvs) # cs). us \<noteq> [] \<and> length us \<le> MAXSIZE" using wf h(1) by (auto simp: blocks_wf_def)
    have "index_for fuel map_index N \<lparr>ii_serial = 0, ii_num = 0\<rparr> = Inr (drop 0 hvs @ seqs cs)"
      using h(1,2,3) lens fuel by (intro index_for_links [of N "fst (last bs)"]) auto
    then have fwd: "bind_res (index_cbegin map_index N) (index_for fuel map_index N) = Inr (seqs bs)"
      using h(1,4) by (simp add: index_cbegin_def HEADSERIAL_def)
    obtain as l us where bs: "bs = as @ [(l, us)]" using False by (metis append_butlast_last_id surj_pair)
    then have us: "us \<noteq> []" "length us \<le> MAXSIZE" using lens h(1) by auto
    obtain b1 where b1: "N l = Some b1" "vect_seq b1 = us" using h(3) bs by (auto simp: links_append)
    have t: "take (length us - 1) us @ [us ! (length us - 1)] = us"
      using take_Suc_conv_app_nth [of "length us - 1" us] us by simp
    have "index_rfor f map_index N \<lparr>ii_serial = 0, ii_num = 0\<rparr> \<lparr>ii_serial = l, ii_num = length us - 1\<rparr> =
        Inr (rev (seqs as @ take (length us - 1) us))"
    proof (rule index_rfor_links [OF h(3) [unfolded h(1)] h(2) lens])
      show "(0, hvs) # cs = as @ (l, us) # []" using bs h(1) by simp
      show "length us - 1 < length us" using us(1) by simp
      show "length (seqs as @ take (length us - 1) us) < f" using fuel f bs us(1) by (cases us) auto
    qed
    moreover have "index_dec map_index N index_cend = Inr \<lparr>ii_serial = l, ii_num = length us - 1\<rparr>"
      using index_dec_back [of N 0 _ b1 MAXSIZE] h(4) b1 us bs by (simp add: index_cend_def HEADSERIAL_def)
    moreover have "index_get_seq map_index N \<lparr>ii_serial = l, ii_num = length us - 1\<rparr> = Inr (us ! (length us - 1))"
      using index_at(1) [of N l b1 "length us - 1"] b1 us by simp
    moreover have "rev (seqs bs) = us ! (length us - 1) # rev (seqs as @ take (length us - 1) us)"
      unfolding bs using arg_cong [OF t, of rev] by simp
    ultimately show ?thesis
      using fwd f h(4) by (simp add: index_cbegin_def index_eq_def index_cend_def HEADSERIAL_def MAXSIZE_def)
  qed
  then show "bind_res (index_cbegin map_index N) (index_for fuel map_index N) = Inr (seqs bs)"
    "bind_res (index_cbegin map_index N) (\<lambda>first. index_rfor fuel map_index N first index_cend) = Inr (rev (seqs bs))"
    by simp_all
qed

end
