(* ===== verification/Index_Store.thy ===== *)
theory Index_Store
  imports Index_Ring
begin

text \<open>
  The ordinary index over the contract state. The algorithms only read, write and delete blocks;
  over any store that keeps blocks they compute what they compute on a map, so the results of
  \<open>Index_Ring\<close> carry over to the state of the chain.
\<close>

section \<open>Any store of blocks\<close>

locale niv_store =
  fixes db :: "'s niv_ops" and nrepr :: "'s \<Rightarrow> (64 word \<rightharpoonup> NormalIndexValue) \<Rightarrow> bool"
  assumes get_law: "nrepr s N \<Longrightarrow> niv_get db s k = Inr (N k)"
    and set_law: "nrepr s N \<Longrightarrow> length (vect_seq b) \<le> MAXSIZE \<Longrightarrow>
      \<exists>s'. niv_set db s k b = Inr s' \<and> nrepr s' (N(k \<mapsto> b))"
    and del_law: "nrepr s N \<Longrightarrow> \<exists>s'. niv_del db s k = Inr s' \<and> nrepr s' (N(k := None))"
begin

definition sim :: "'s res \<Rightarrow> (64 word \<rightharpoonup> NormalIndexValue) res \<Rightarrow> bool" where
  "sim m m' \<longleftrightarrow> (\<forall>N'. m' = Inr N' \<longrightarrow> (\<exists>s'. m = Inr s' \<and> nrepr s' N'))"

lemma sim_Inr: "nrepr s N \<Longrightarrow> sim (Inr s) (Inr N)"
  by (simp add: sim_def)

lemma sim_Inl: "sim m (Inl e)"
  by (simp add: sim_def)

lemma sim_set: "nrepr s N \<Longrightarrow> sim (set_normal_index_one_db db s k b) (set_normal_index_one_db map_index N k b)"
  using set_law [of s N b k] by (auto simp: sim_def set_normal_index_one_db_def map_index_def)

lemma sim_del: "nrepr s N \<Longrightarrow> sim (delete_normal_index_one_db db s k) (delete_normal_index_one_db map_index N k)"
  using del_law [of s N k] by (auto simp: sim_def delete_normal_index_one_db_def map_index_def)

lemma sim_bind:
  "sim m m' \<Longrightarrow> (\<And>s N. nrepr s N \<Longrightarrow> sim (f s) (f' N)) \<Longrightarrow> sim (bind_res m f) (bind_res m' f')"
  by (fastforce simp: sim_def bind_res_eq_Inr)

lemma sim_same: "m = m' \<Longrightarrow> (\<And>x. sim (f x) (f' x)) \<Longrightarrow> sim (bind_res m f) (bind_res m' f')"
  by (cases m') (auto simp: sim_def)

lemma sim_if: "(c \<Longrightarrow> sim a a') \<Longrightarrow> (\<not> c \<Longrightarrow> sim b b') \<Longrightarrow> sim (if c then a else b) (if c then a' else b')"
  by simp

lemma sim_option:
  "(x = None \<Longrightarrow> sim a a') \<Longrightarrow> (\<And>y. x = Some y \<Longrightarrow> sim (f y) (f' y)) \<Longrightarrow>
   sim (case x of None \<Rightarrow> a | Some y \<Rightarrow> f y) (case x of None \<Rightarrow> a' | Some y \<Rightarrow> f' y)"
  by (cases x) simp_all

lemma sim_prod: "(\<And>a b. x = (a, b) \<Longrightarrow> sim (f a b) (f' a b)) \<Longrightarrow> sim (case x of (a, b) \<Rightarrow> f a b) (case x of (a, b) \<Rightarrow> f' a b)"
  by (cases x) simp

lemma get_same: "nrepr s N \<Longrightarrow> niv_get db s k = niv_get map_index N k"
  by (simp add: get_law)

lemma one_same: "nrepr s N \<Longrightarrow> get_normal_index_one_db db s k = get_normal_index_one_db map_index N k"
  by (simp add: get_normal_index_one_db_def get_law)

lemmas sim_rules = sim_set sim_del sim_Inl sim_Inr sim_bind sim_if sim_option sim_prod

lemma next_valid_same: "nrepr s N \<Longrightarrow> next_valid n db s e k = next_valid n map_index N e k"
  by (induction n arbitrary: k) (simp_all add: get_law Let_def split: option.splits)

lemma previous_valid_same: "nrepr s N \<Longrightarrow> previous_valid n db s k = previous_valid n map_index N k"
  by (induction n arbitrary: k) (simp_all add: get_law split: option.splits)

lemma append_sim: "nrepr s N \<Longrightarrow> sim (append_normal_index_one_db db seq s) (append_normal_index_one_db map_index seq N)"
  unfolding append_normal_index_one_db_def Let_def
  by (intro sim_same get_same one_same sim_rules) assumption+

lemma unlink_sim: "nrepr s N \<Longrightarrow> sim (unlink_block db s head k p n) (unlink_block map_index N head k p n)"
  unfolding unlink_block_def Let_def
  by (intro sim_same get_same one_same sim_rules) assumption+

lemma delete_in_block_sim:
  "nrepr s N \<Longrightarrow> sim (delete_in_block db s head k b seq) (delete_in_block map_index N head k b seq)"
  unfolding delete_in_block_def Let_def by (intro sim_rules unlink_sim) assumption+

lemma delete_loop_sim:
  "nrepr s N \<Longrightarrow> sim (delete_loop n fuel db s head seq b e) (delete_loop n fuel map_index N head seq b e)"
proof (induction n arbitrary: b e)
  case (Suc n)
  show ?case
    unfolding delete_loop.simps Let_def
    by (intro sim_same sim_if sim_prod sim_Inr sim_Inl next_valid_same previous_valid_same Suc delete_in_block_sim) 
qed (simp add: sim_Inl)

lemma delete_sim: "nrepr s N \<Longrightarrow> sim (delete_normal_index_db db seq s) (delete_normal_index_db map_index seq N)"
  unfolding delete_normal_index_db_def Let_def
  by (intro sim_same get_same sim_rules delete_loop_sim) assumption+

lemma count_loop_same: "nrepr s N \<Longrightarrow> count_loop fuel db s head n = count_loop fuel map_index N head n"
  by (induction fuel arbitrary: head n) (simp_all add: one_same)

lemma count_same: "nrepr s N \<Longrightarrow> get_normal_index_count_db db s = get_normal_index_count_db map_index N"
  unfolding get_normal_index_count_db_def by (simp only: one_same count_loop_same)

lemma iterator_same:
  assumes "nrepr s N"
  shows "index_get_seq db s it = index_get_seq map_index N it" "index_inc db s it = index_inc map_index N it"
    "index_dec db s it = index_dec map_index N it" "index_cbegin db s = index_cbegin map_index N"
  unfolding index_get_seq_def index_inc_def index_dec_def index_cbegin_def
  by (simp_all only: one_same [OF assms] get_same [OF assms])

lemma index_for_same: "nrepr s N \<Longrightarrow> index_for fuel db s it = index_for fuel map_index N it"
  by (induction fuel arbitrary: it) (simp_all add: iterator_same)

lemma index_rfor_same: "nrepr s N \<Longrightarrow> index_rfor fuel db s first it = index_rfor fuel map_index N first it"
  by (induction fuel arbitrary: it) (simp_all add: iterator_same)

end

section \<open>The blocks of one index value in the contract state\<close>

lemma u64_widen [simp]: "ucast (ucast (x :: 64 word) :: 128 word) = x"
  by (rule bit_word_eqI) (auto simp: bit_simps)

lemma u64_widen_eq [simp]: "(ucast (x :: 64 word) :: 128 word) = ucast y \<longleftrightarrow> x = y"
  using u64_widen by metis

lemma cval_niv_cval [simp]: "cval_niv (niv_cval b) = b"
  by (simp add: niv_cval_def o_def)

lemma u64_typed: "has_type (TU W64) (VUInt (ucast (x :: 64 word)))"
  using unat_bound [of x] by (simp add: unat_ucast_up)

lemma u64_len: "length (enc (item_of (VUInt (ucast (x :: 64 word))))) \<le> 9"
proof -
  have "unat x < 256 ^ 8" using unat_bound [of x] by simp
  then have "length (be_bytes (unat x)) \<le> 8" by (simp only: length_be_bytes_le)
  then show ?thesis by (simp add: length_enc_str length_rlp_head unat_ucast_up)
qed

lemma length_concat_le: "(\<And>x. x \<in> set xs \<Longrightarrow> length (f x) \<le> k) \<Longrightarrow> length (concat (map f xs)) \<le> k * length xs"
  by (induction xs) (auto simp: add_mono)

lemma length_enc_list: "length p < 2 ^ 31 \<Longrightarrow> length (enc_list p) \<le> length p + 5"
  using length_be_bytes_4 [of "length p"] by (simp add: enc_list_def length_rlp_head)

lemma niv_typed:
  assumes "length (vect_seq b) \<le> MAXSIZE"
  shows "typed niv_type (niv_cval b)"
proof -
  let ?v = "VSeq (map (\<lambda>x. VUInt (ucast x)) (vect_seq b))"
  have "length (concat (map (\<lambda>x. enc (item_of (VUInt (ucast x)))) (vect_seq b))) \<le> 9 * length (vect_seq b)"
    by (rule length_concat_le) (rule u64_len)
  also have "\<dots> \<le> 9 * 30" using assms by (simp add: MAXSIZE_def)
  finally have p: "length (concat (map (\<lambda>x. enc (item_of (VUInt (ucast x)))) (vect_seq b))) \<le> 270" by simp
  then have "length (enc (item_of ?v)) \<le> 275"
    using length_enc_list [of "concat (map (\<lambda>x. enc (item_of (VUInt (ucast x)))) (vect_seq b))"] by (simp add: o_def)
  then have "length (concat (map enc (map item_of [VUInt (ucast (niv_previous b)), ?v, VUInt (ucast (niv_next b))]))) \<le> 293"
    using u64_len [of "niv_previous b"] u64_len [of "niv_next b"] by simp
  then have "length (enc (item_of (niv_cval b))) \<le> 298"
    using length_enc_list [of "concat (map enc (map item_of [VUInt (ucast (niv_previous b)), ?v, VUInt (ucast (niv_next b))]))"]
    unfolding niv_cval_def item_of.simps enc.simps by simp
  then have "fits (niv_cval b)" by (simp add: fits_def item_len_def)
  moreover have "has_type niv_type (niv_cval b)"
    using u64_typed by (simp add: niv_type_def niv_cval_def list_all_iff)
  ultimately show ?thesis by (simp add: typed_def)
qed

text \<open>Everything outside the blocks of the value stays as in \<open>M0\<close>.\<close>

locale normal_index_store = multi_store H okk vtype
  for H :: "'s chain_host" and okk :: "cval \<Rightarrow> bool" and vtype :: "cval \<Rightarrow> cty" +
  fixes t i :: "64 word" and v :: cval and M0 :: "cval \<rightharpoonup> cval"
  assumes block_key: "okk (NormalIndexKey t i v k)"
    and block_type: "vtype (NormalIndexKey t i v k) = niv_type"
begin

definition nrepr :: "'s \<Rightarrow> (64 word \<rightharpoonup> NormalIndexValue) \<Rightarrow> bool" where
  "nrepr s N \<longleftrightarrow> (\<exists>M. repr s M \<and> (\<forall>k. M (NormalIndexKey t i v k) = map_option niv_cval (N k)) \<and>
     (\<forall>k. k \<notin> range (NormalIndexKey t i v) \<longrightarrow> M k = M0 k))"

lemma key_eq: "NormalIndexKey t i v j = NormalIndexKey t i v k \<longleftrightarrow> j = k"
  by (simp add: NormalIndexKey_def)

lemma map_option_niv: "map_option niv_cval (N k) = Some c \<longleftrightarrow> (\<exists>b. N k = Some b \<and> c = niv_cval b)"
  by (cases "N k") auto

end

sublocale normal_index_store \<subseteq> niv_store "normal_index H t i v" nrepr
proof unfold_locales
  fix s N k b
  assume "nrepr s N"
  then obtain M where M: "repr s M" "\<And>k. M (NormalIndexKey t i v k) = map_option niv_cval (N k)"
    "\<And>k. k \<notin> range (NormalIndexKey t i v) \<Longrightarrow> M k = M0 k" by (auto simp: nrepr_def)
  show "niv_get (normal_index H t i v) s k = Inr (N k)"
    using multi_get [OF M(1) block_key [of k] block_type [symmetric]] M(2) [of k]
    by (cases "N k") (auto simp: normal_index_def)
  show "\<exists>s'. niv_set (normal_index H t i v) s k b = Inr s' \<and> nrepr s' (N(k \<mapsto> b))" if len: "length (vect_seq b) \<le> MAXSIZE"
  proof -
    obtain s' where "set_state H s (NormalIndexKey t i v k) (niv_cval b) = Inr s'"
      "repr s' (M(NormalIndexKey t i v k \<mapsto> niv_cval b))"
      using multi_set [OF M(1) block_key, of k] niv_typed [OF len] block_type by metis
    moreover from this(2) have "nrepr s' (N(k \<mapsto> b))"
      unfolding nrepr_def using M(2,3) by (intro exI conjI) (assumption, auto simp: key_eq)
    ultimately show ?thesis by (simp add: normal_index_def)
  qed
  show "\<exists>s'. niv_del (normal_index H t i v) s k = Inr s' \<and> nrepr s' (N(k := None))"
  proof -
    obtain s' where "del_state H s (NormalIndexKey t i v k) = Inr s'" "repr s' (M(NormalIndexKey t i v k := None))"
      using multi_del [OF M(1) block_key, of k] by metis
    moreover from this(2) have "nrepr s' (N(k := None))"
      unfolding nrepr_def using M(2,3) by (intro exI conjI) (assumption, auto simp: key_eq)
    ultimately show ?thesis by (simp add: normal_index_def)
  qed
qed

section \<open>The index as a list\<close>

context niv_store
begin

definition irepr :: "'s \<Rightarrow> 64 word list \<Rightarrow> bool" where
  "irepr s xs \<longleftrightarrow> (\<exists>N bs. nrepr s N \<and> ring N bs \<and> blocks_wf bs \<and> seqs bs = xs)"

lemma irepr_sorted: "irepr s xs \<Longrightarrow> sorted_wrt (<) xs"
  by (auto simp: irepr_def blocks_wf_def)

lemma irepr_empty: "nrepr s Map.empty \<Longrightarrow> irepr s []"
  unfolding irepr_def by (intro exI [of _ Map.empty] exI [of _ "[]"]) (simp add: ring_empty blocks_wf_def)

lemma append_list:
  assumes "irepr s xs" "\<forall>x \<in> set xs. x < seq"
  shows "\<exists>s'. append_normal_index_one_db db seq s = Inr s' \<and> irepr s' (xs @ [seq])"
proof -
  obtain N bs where N: "nrepr s N" "ring N bs" "blocks_wf bs" "seqs bs = xs" using assms(1) by (auto simp: irepr_def)
  obtain N' bs' where "append_normal_index_one_db map_index seq N = Inr N'" "ring N' bs'" "blocks_wf bs'"
    "seqs bs' = xs @ [seq]"
    using append_ring [OF N(2,3), of seq] N(4) assms(2) by auto
  then show ?thesis using append_sim [OF N(1), of seq] unfolding sim_def irepr_def by blast
qed

lemma delete_list:
  assumes "irepr s xs" "seq \<in> set xs" "\<forall>x \<in> set xs. unat x < 2 ^ 63"
  shows "\<exists>s'. delete_normal_index_db db seq s = Inr s' \<and> irepr s' (filter (\<lambda>x. x \<noteq> seq) xs)"
proof -
  obtain N bs where N: "nrepr s N" "ring N bs" "blocks_wf bs" "seqs bs = xs" using assms(1) by (auto simp: irepr_def)
  obtain N' bs' where "delete_normal_index_db map_index seq N = Inr N'" "ring N' bs'" "blocks_wf bs'"
    "seqs bs' = filter (\<lambda>x. x \<noteq> seq) xs"
    using delete_ring [OF N(2,3), of seq] N(4) assms(2,3) by auto
  then show ?thesis using delete_sim [OF N(1), of seq] unfolding sim_def irepr_def by blast
qed

lemma count_list:
  assumes "irepr s xs"
  shows "has_normal_index_db db s = Inr (xs \<noteq> [])"
    and "xs \<noteq> [] \<Longrightarrow> get_normal_index_count_db db s = Inr (length xs mod 2 ^ 32)"
proof -
  obtain N bs where N: "nrepr s N" "ring N bs" "blocks_wf bs" "seqs bs = xs" using assms(1) by (auto simp: irepr_def)
  have "has_normal_index_db db s = Inr (xs \<noteq> []) \<and> (xs \<noteq> [] \<longrightarrow> get_normal_index_count_db db s = Inr (length xs mod 2 ^ 32))"
  proof (cases "bs = []")
    case True
    then show ?thesis using N by (auto simp: has_normal_index_db_def get_law ring_empty)
  next
    case False
    obtain hvs cs where h: "bs = (0, hvs) # cs"
      "N 0 = Some \<lparr>niv_previous = fst (last bs), vect_seq = hvs, niv_next = (if cs = [] then 0 else fst (hd cs))\<rparr>"
      by (rule blocks_headE [OF N(2,3) False])
    moreover have "hvs \<noteq> []" using N(3) h(1) by (simp add: blocks_wf_def)
    ultimately show ?thesis
      using N count_ring [OF N(2,3) False] count_same [OF N(1)] by (auto simp: has_normal_index_db_def get_law HEADSERIAL_def)
  qed
  then show "has_normal_index_db db s = Inr (xs \<noteq> [])"
    "xs \<noteq> [] \<Longrightarrow> get_normal_index_count_db db s = Inr (length xs mod 2 ^ 32)" by simp_all
qed

lemma iterate_list:
  assumes "irepr s xs" "length xs < fuel"
  shows "bind_res (index_cbegin db s) (index_for fuel db s) = Inr xs"
    and "bind_res (index_cbegin db s) (\<lambda>first. index_rfor fuel db s first index_cend) = Inr (rev xs)"
proof -
  obtain N bs where N: "nrepr s N" "ring N bs" "blocks_wf bs" "seqs bs = xs" using assms(1) by (auto simp: irepr_def)
  note it = iterate_ring [OF N(2,3), of fuel]
  show "bind_res (index_cbegin db s) (index_for fuel db s) = Inr xs"
    using it(1) assms(2) N(4) by (simp only: iterator_same [OF N(1)] index_for_same [OF N(1), abs_def])
  show "bind_res (index_cbegin db s) (\<lambda>first. index_rfor fuel db s first index_cend) = Inr (rev xs)"
    using it(2) assms(2) N(4) by (simp only: iterator_same [OF N(1)] index_rfor_same [OF N(1)])
qed

end

section \<open>Runs on one index value\<close>

datatype index_call = Append "64 word" | Delete "64 word"

fun index_run :: "'s niv_ops \<Rightarrow> index_call list \<Rightarrow> 's \<Rightarrow> 's res" where
  "index_run db [] s = Inr s"
| "index_run db (Append seq # cs) s = bind_res (append_normal_index_one_db db seq s) (index_run db cs)"
| "index_run db (Delete seq # cs) s = bind_res (delete_normal_index_db db seq s) (index_run db cs)"

fun list_run :: "index_call list \<Rightarrow> 64 word list \<Rightarrow> 64 word list" where
  "list_run [] xs = xs"
| "list_run (Append seq # cs) xs = list_run cs (xs @ [seq])"
| "list_run (Delete seq # cs) xs = list_run cs (filter (\<lambda>x. x \<noteq> seq) xs)"

text \<open>The calls \<open>MultiIndex\<close> makes: ever larger numbers are appended, present ones deleted.\<close>

fun calls_ok :: "index_call list \<Rightarrow> 64 word list \<Rightarrow> bool" where
  "calls_ok [] xs = True"
| "calls_ok (Append seq # cs) xs = ((\<forall>x \<in> set xs. x < seq) \<and> unat seq < 2 ^ 63 \<and> calls_ok cs (xs @ [seq]))"
| "calls_ok (Delete seq # cs) xs = (seq \<in> set xs \<and> calls_ok cs (filter (\<lambda>x. x \<noteq> seq) xs))"

context niv_store
begin

lemma index_run_list:
  assumes "irepr s xs" "calls_ok cs xs" "\<forall>x \<in> set xs. unat x < 2 ^ 63"
  shows "\<exists>s'. index_run db cs s = Inr s' \<and> irepr s' (list_run cs xs)"
  using assms
proof (induction cs xs arbitrary: s rule: calls_ok.induct)
  case (2 seq cs xs)
  obtain s1 where "append_normal_index_one_db db seq s = Inr s1" "irepr s1 (xs @ [seq])"
    using append_list [OF "2.prems"(1), of seq] "2.prems"(2) by auto
  then show ?case using "2.IH" [of s1] "2.prems" by auto
next
  case (3 seq cs xs)
  obtain s1 where "delete_normal_index_db db seq s = Inr s1" "irepr s1 (filter (\<lambda>x. x \<noteq> seq) xs)"
    using delete_list [OF "3.prems"(1), of seq] "3.prems"(2,3) by auto
  then show ?case using "3.IH" [of s1] "3.prems" by auto
qed simp

lemma index_run_outcome:
  assumes "nrepr s Map.empty" "calls_ok cs []" "length (list_run cs []) < fuel"
  shows "\<exists>s'. index_run db cs s = Inr s' \<and> has_normal_index_db db s' = Inr (list_run cs [] \<noteq> []) \<and>
    (list_run cs [] \<noteq> [] \<longrightarrow> get_normal_index_count_db db s' = Inr (length (list_run cs []) mod 2 ^ 32)) \<and>
    bind_res (index_cbegin db s') (index_for fuel db s') = Inr (list_run cs []) \<and>
    bind_res (index_cbegin db s') (\<lambda>first. index_rfor fuel db s' first index_cend) = Inr (rev (list_run cs []))"
proof -
  obtain s' where s': "index_run db cs s = Inr s'" "irepr s' (list_run cs [])"
    using index_run_list [OF irepr_empty [OF assms(1)] assms(2)] by auto
  show ?thesis using s'(1) count_list [OF s'(2)] iterate_list [OF s'(2) assms(3)] by blast
qed

end

text \<open>What the state holds for one index value, as a property of the map alone.\<close>

definition index_blocks :: "64 word \<Rightarrow> 64 word \<Rightarrow> cval \<Rightarrow> (cval \<rightharpoonup> cval) \<Rightarrow> 64 word list \<Rightarrow> bool" where
  "index_blocks t i v M xs \<longleftrightarrow> (\<exists>N bs. (\<forall>k. M (NormalIndexKey t i v k) = map_option niv_cval (N k)) \<and>
     ring N bs \<and> blocks_wf bs \<and> seqs bs = xs)"

context normal_index_store
begin

lemmas run_outcome = index_run_outcome

lemma irepr_blocks:
  "irepr s xs \<longleftrightarrow> (\<exists>M. repr s M \<and> index_blocks t i v M xs \<and> (\<forall>k. k \<notin> range (NormalIndexKey t i v) \<longrightarrow> M k = M0 k))"
  unfolding irepr_def nrepr_def index_blocks_def by blast

lemma index_blocks_repr:
  assumes "repr s M0" "index_blocks t i v M0 xs"
  shows "irepr s xs"
  using assms unfolding irepr_blocks by blast

lemma append_index:
  assumes "repr s M0" "index_blocks t i v M0 xs" "\<forall>x \<in> set xs. x < seq"
  shows "\<exists>s' M. append_normal_index_one_db (normal_index H t i v) seq s = Inr s' \<and> repr s' M \<and>
    index_blocks t i v M (xs @ [seq]) \<and> (\<forall>k. k \<notin> range (NormalIndexKey t i v) \<longrightarrow> M k = M0 k)"
  using append_list [OF index_blocks_repr [OF assms(1,2)] assms(3)] unfolding irepr_blocks by blast

lemma delete_index:
  assumes "repr s M0" "index_blocks t i v M0 xs" "seq \<in> set xs" "\<forall>x \<in> set xs. unat x < 2 ^ 63"
  shows "\<exists>s' M. delete_normal_index_db (normal_index H t i v) seq s = Inr s' \<and> repr s' M \<and>
    index_blocks t i v M (filter (\<lambda>x. x \<noteq> seq) xs) \<and> (\<forall>k. k \<notin> range (NormalIndexKey t i v) \<longrightarrow> M k = M0 k)"
  using delete_list [OF index_blocks_repr [OF assms(1,2)] assms(3,4)] unfolding irepr_blocks by blast

lemma read_index:
  assumes "repr s M0" "index_blocks t i v M0 xs"
  shows "has_normal_index_db (normal_index H t i v) s = Inr (xs \<noteq> [])"
    and "xs \<noteq> [] \<Longrightarrow> get_normal_index_count_db (normal_index H t i v) s = Inr (length xs mod 2 ^ 32)"
    and "length xs < fuel \<Longrightarrow>
      bind_res (index_cbegin (normal_index H t i v) s) (index_for fuel (normal_index H t i v) s) = Inr xs"
  using count_list [OF index_blocks_repr [OF assms]] iterate_list(1) [OF index_blocks_repr [OF assms]] by blast+

end

lemma item_of_u64: "item_of (VUInt (ucast (a :: 64 word))) = item_of (VUInt (ucast b)) \<longleftrightarrow> a = (b :: 64 word)"
proof
  assume "item_of (VUInt (ucast a)) = item_of (VUInt (ucast b))"
  then have "be_bytes (unat a) = be_bytes (unat b)" by (simp add: unat_ucast_up)
  then have "be_val (be_bytes (unat a)) = be_val (be_bytes (unat b))" by (simp only:)
  then show "a = b" by (simp add: word_unat_eq_iff)
qed simp

lemma NormalIndexKey_fits:
  assumes "item_len v < 2 ^ 31 - 100"
  shows "fits (NormalIndexKey t i v k)"
proof -
  let ?p = "concat (map enc (map item_of [VUInt (ucast t), VUInt (ucast i), v, VUInt (ucast k)]))"
  have p: "length ?p \<le> 27 + item_len v"
    using u64_len [of t] u64_len [of i] u64_len [of k] by (simp add: item_len_def)
  then have "length (enc_list ?p) \<le> length ?p + 5" using assms by (intro length_enc_list) simp
  then show ?thesis using p assms by (simp add: fits_def item_len_def NormalIndexKey_def)
qed

lemma normal_index_storeI:
  assumes "chain_host_ok H" "item_len v < 2 ^ 31 - 100"
  shows "normal_index_store H (\<lambda>k. k \<in> range (NormalIndexKey t i v)) (\<lambda>_. niv_type) t i v"
proof unfold_locales
  fix j k assume "j \<in> range (NormalIndexKey t i v)" "k \<in> range (NormalIndexKey t i v)" "item_of j = item_of k"
  then show "j = k" using item_of_u64 by (auto simp: NormalIndexKey_def simp del: item_of.simps(2))
qed (use assms NormalIndexKey_fits in auto)

text \<open>
  C10. An ordinary index over the contract state, for one index value that has no entries yet:
  after any sequence of appending ever larger sequence numbers and deleting present ones, the
  index exists exactly when the list of remaining numbers is not empty, \<open>count\<close> is its length, and
  the iterators run through exactly this list, forwards and backwards.
\<close>

theorem normal_index_refines_list:
  assumes "chain_host_ok H" "item_len v < 2 ^ 31 - 100"
    and "\<forall>k. entry_is H s (NormalIndexKey t i v k) None" "calls_ok cs []" "length (list_run cs []) < fuel"
  shows "\<exists>s'. index_run (normal_index H t i v) cs s = Inr s' \<and>
    has_normal_index_db (normal_index H t i v) s' = Inr (list_run cs [] \<noteq> []) \<and>
    (list_run cs [] \<noteq> [] \<longrightarrow>
       get_normal_index_count_db (normal_index H t i v) s' = Inr (length (list_run cs []) mod 2 ^ 32)) \<and>
    bind_res (index_cbegin (normal_index H t i v) s') (index_for fuel (normal_index H t i v) s') = Inr (list_run cs []) \<and>
    bind_res (index_cbegin (normal_index H t i v) s')
      (\<lambda>first. index_rfor fuel (normal_index H t i v) s' first index_cend) = Inr (rev (list_run cs []))"
proof -
  note st = normal_index_storeI [OF assms(1,2), of t i]
  have "multi_repr H (\<lambda>k. k \<in> range (NormalIndexKey t i v)) (\<lambda>_. niv_type) s Map.empty"
    using assms(3) by (auto simp: multi_repr_def)
  then have "normal_index_store.nrepr H (\<lambda>k. k \<in> range (NormalIndexKey t i v)) (\<lambda>_. niv_type) t i v Map.empty s Map.empty"
    unfolding normal_index_store.nrepr_def [OF st] by (intro exI [of _ Map.empty]) simp
  then show ?thesis by (rule normal_index_store.run_outcome [OF st _ assms(4,5)])
qed

interpretation age_index: normal_index_store model_chain "\<lambda>k. k \<in> range (NormalIndexKey 3 4 (VUInt 7))" "\<lambda>_. niv_type"
  3 4 "VUInt 7" Map.empty
  by (rule normal_index_storeI) (simp_all add: model_chain_ok item_len_def enc_str_def be_bytes.simps)

theorem normal_index_refines_list_witness:
  "\<exists>s'. index_run (normal_index model_chain 3 4 (VUInt 7)) [Append 1, Append 5, Append 6, Delete 5] (\<lambda>k. []) = Inr s' \<and>
    get_normal_index_count_db (normal_index model_chain 3 4 (VUInt 7)) s' = Inr 2 \<and>
    bind_res (index_cbegin (normal_index model_chain 3 4 (VUInt 7)) s')
      (index_for 3 (normal_index model_chain 3 4 (VUInt 7)) s') = Inr [1, 6]"
proof -
  let ?cs = "[Append 1, Append 5, Append 6, Delete 5]"
  have l: "list_run ?cs [] = [1, 6]" by simp
  have "item_len (VUInt 7) < 2 ^ 31 - 100" by (simp add: item_len_def enc_str_def be_bytes.simps)
  moreover have "\<forall>k. entry_is model_chain (\<lambda>k. []) (NormalIndexKey 3 4 (VUInt 7) k) None"
    by (simp add: entry_is_def model_chain_def)
  moreover have "calls_ok ?cs []" by simp
  ultimately show ?thesis
    using normal_index_refines_list [OF model_chain_ok, of "VUInt 7" "\<lambda>k. []" 3 4 ?cs 3] unfolding l by auto
qed

end
