(* ===== verification/Storage_Type.thy ===== *)
theory Storage_Type
  imports Storage
begin

unbundle bit_operations_syntax

text \<open>
  Model of \<open>platonlib/include/platon/storagetype.hpp\<close>: a contract variable that is loaded from the
  state by its constructor and written back by its destructor. The operators that forward to
  the wrapped value are modelled for integers. The lemmas show that the value
  survives from one object of a name to the next.
\<close>

section \<open>The class\<close>

record StorageType =
  st_default :: cval
  st_name :: "64 word"
  st_value :: cval

definition st_key :: "64 word \<Rightarrow> cval" where
  "st_key name = VUInt (ucast name)"

text \<open>\<open>g\<close> is what the member \<open>t_\<close> holds before: it has no initialiser.\<close>

definition st_Init :: "'s store_ops \<Rightarrow> cval \<Rightarrow> 's \<Rightarrow> 64 word \<Rightarrow> cval \<Rightarrow> StorageType res" where
  "st_Init ops g s name d =
     bind_res (op_get ops s (st_key name) g) (\<lambda>(n, v).
       Inr \<lparr>st_default = d, st_name = name, st_value = (if n = 0 then d else v)\<rparr>)"

definition st_Flush :: "'s store_ops \<Rightarrow> 's \<Rightarrow> StorageType \<Rightarrow> 's res" where
  "st_Flush ops s x = op_set ops s (st_key (st_name x)) (st_value x)"

definition st_assign :: "StorageType \<Rightarrow> cval \<Rightarrow> StorageType" where
  "st_assign x t = x\<lparr>st_value := t\<rparr>"

definition st_get :: "StorageType \<Rightarrow> cval" where
  "st_get x = st_value x"

definition st_eq :: "StorageType \<Rightarrow> cval \<Rightarrow> bool" where
  "st_eq x t \<longleftrightarrow> st_value x = t"

definition st_ne :: "StorageType \<Rightarrow> cval \<Rightarrow> bool" where
  "st_ne x t \<longleftrightarrow> st_value x = t"

definition st_less :: "StorageType \<Rightarrow> cval \<Rightarrow> bool" where
  "st_less x t \<longleftrightarrow> less_cval (st_value x) t"

definition st_greater :: "StorageType \<Rightarrow> cval \<Rightarrow> bool" where
  "st_greater x t \<longleftrightarrow> less_cval t (st_value x)"

definition st_self :: "StorageType \<Rightarrow> cval" where
  "st_self x = st_value x"

definition st_le :: "StorageType \<Rightarrow> cval \<Rightarrow> bool" where
  "st_le x t \<longleftrightarrow> \<not> less_cval t (st_value x)"

definition st_ge :: "StorageType \<Rightarrow> cval \<Rightarrow> bool" where
  "st_ge x t \<longleftrightarrow> \<not> less_cval (st_value x) t"

text \<open>
  The operators that forward to a wrapped unsigned integer of width \<open>w\<close>. The result is cut to the
  width. The shifts drop the shifted value and return the variable as it is, and the
  postfix increment is the prefix one. \<open>^=\<close>, \<open>|=\<close> and \<open>&=\<close> are constant member functions that assign
  to the value, so they cannot be used.
\<close>

definition cut_to :: "width \<Rightarrow> 128 word \<Rightarrow> 128 word" where
  "cut_to w n = take_bit (width_bits w) n"

fun st_number :: "StorageType \<Rightarrow> 128 word" where
  "st_number x = (case st_value x of VUInt n \<Rightarrow> n | _ \<Rightarrow> 0)"

definition st_set_number :: "width \<Rightarrow> StorageType \<Rightarrow> 128 word \<Rightarrow> StorageType" where
  "st_set_number w x n = x\<lparr>st_value := VUInt (cut_to w n)\<rparr>"

definition st_xor :: "width \<Rightarrow> StorageType \<Rightarrow> 128 word \<Rightarrow> 128 word" where
  "st_xor w x p = cut_to w (st_number x XOR p)"

definition st_or :: "width \<Rightarrow> StorageType \<Rightarrow> 128 word \<Rightarrow> 128 word" where
  "st_or w x p = cut_to w (st_number x OR p)"

definition st_and :: "width \<Rightarrow> StorageType \<Rightarrow> 128 word \<Rightarrow> 128 word" where
  "st_and w x p = cut_to w (st_number x AND p)"

definition st_not :: "width \<Rightarrow> StorageType \<Rightarrow> 128 word" where
  "st_not w x = cut_to w (NOT (st_number x))"

definition st_shl :: "StorageType \<Rightarrow> nat \<Rightarrow> 128 word \<times> StorageType" where
  "st_shl x offset = (st_number x, x)"

definition st_shr :: "StorageType \<Rightarrow> nat \<Rightarrow> 128 word \<times> StorageType" where
  "st_shr x offset = (st_number x, x)"

definition st_preinc :: "width \<Rightarrow> StorageType \<Rightarrow> 128 word \<times> StorageType" where
  "st_preinc w x = (let x1 = st_set_number w x (st_number x + 1) in (st_number x1, x1))"

definition st_postinc :: "width \<Rightarrow> StorageType \<Rightarrow> 128 word \<times> StorageType" where
  "st_postinc w x = (let x1 = st_set_number w x (st_number x + 1) in (st_number x1, x1))"

definition st_add_assign :: "width \<Rightarrow> StorageType \<Rightarrow> 128 word \<Rightarrow> 128 word \<times> StorageType" where
  "st_add_assign w x p = (let x1 = st_set_number w x (st_number x + p) in (st_number x1, x1))"

definition st_sub_assign :: "width \<Rightarrow> StorageType \<Rightarrow> 128 word \<Rightarrow> 128 word \<times> StorageType" where
  "st_sub_assign w x p = (let x1 = st_set_number w x (st_number x - p) in (st_number x1, x1))"

definition st_bool :: "StorageType \<Rightarrow> bool" where
  "st_bool x \<longleftrightarrow> st_number x \<noteq> 0"

text \<open>
  The life of an object in one call of the contract: the constructor with its default, a
  body that works on the value through the references the operators return, the destructor.
\<close>

definition st_scope ::
  "'s store_ops \<Rightarrow> cval \<Rightarrow> 64 word \<Rightarrow> cval \<Rightarrow> (cval \<Rightarrow> cval) \<Rightarrow> 's \<Rightarrow> (cval \<times> 's) res" where
  "st_scope ops g name d body s =
     bind_res (st_Init ops g s name d) (\<lambda>x.
     bind_res (st_Flush ops s (st_assign x (body (st_self x)))) (\<lambda>s'. Inr (st_get x, s')))"

text \<open>A sequence of calls of the contract, each with its own body; the values they start from.\<close>

fun st_scopes ::
  "'s store_ops \<Rightarrow> cval \<Rightarrow> 64 word \<Rightarrow> cval \<Rightarrow> (cval \<Rightarrow> cval) list \<Rightarrow> 's \<Rightarrow> (cval list \<times> 's) res" where
  "st_scopes ops g name d [] s = Inr ([], s)"
| "st_scopes ops g name d (b # bs) s =
     bind_res (st_scope ops g name d b s) (\<lambda>(v, s').
     bind_res (st_scopes ops g name d bs s') (\<lambda>(vs, s''). Inr (v # vs, s'')))"

fun cell_runs :: "cval \<Rightarrow> (cval \<Rightarrow> cval) list \<Rightarrow> cval list" where
  "cell_runs v [] = []"
| "cell_runs v (b # bs) = v # cell_runs (b v) bs"

text \<open>A body that stays within the values of a type.\<close>

definition keeps :: "(cval \<Rightarrow> bool) \<Rightarrow> (cval \<Rightarrow> cval) \<Rightarrow> bool" where
  "keeps okv b \<longleftrightarrow> (\<forall>v. okv v \<longrightarrow> okv (b v))"

section \<open>The variable over any store\<close>

locale kv_cell = kv_store ops okk okv ini repr
  for ops :: "'s store_ops" and okk okv ini :: "cval \<Rightarrow> bool"
    and repr :: "'s \<Rightarrow> (cval \<rightharpoonup> cval) \<Rightarrow> bool" +
  fixes name :: "64 word"
  assumes name_ok: "okk (st_key name)"
begin

lemma Init_ok:
  assumes r: "repr s M" and g: "ini g" and d: "okv d"
    and v: "v = (case M (st_key name) of None \<Rightarrow> d | Some v \<Rightarrow> v)"
  shows "st_Init ops g s name d = Inr \<lparr>st_default = d, st_name = name, st_value = v\<rparr>" "okv v"
proof -
  show "okv v"
  proof (cases "M (st_key name)")
    case (Some w)
    then show ?thesis using val_law [OF r Some] by (simp only: v option.case)
  qed (simp add: v d)
  obtain n where "op_get ops s (st_key name) g =
      Inr (n, case M (st_key name) of None \<Rightarrow> g | Some v \<Rightarrow> v) \<and> (n = 0 \<longleftrightarrow> M (st_key name) = None)"
    using get_law [OF r name_ok g] ..
  note n = conjunct1 [OF this] conjunct2 [OF this]
  show "st_Init ops g s name d = Inr \<lparr>st_default = d, st_name = name, st_value = v\<rparr>"
    unfolding st_Init_def n(1) bind_res_Inr split_conv n(2) v by (cases "M (st_key name)") (simp_all only: option.case if_True if_False option.distinct simp_thms)
qed

lemma Flush_ok:
  assumes "repr s M" "st_name x = name" "okv (st_value x)"
  shows "\<exists>s'. st_Flush ops s x = Inr s' \<and> repr s' (M(st_key name \<mapsto> st_value x))"
  using set_law [OF assms(1) name_ok assms(3)] assms(2) by (auto simp: st_Flush_def)

lemma scope_ok:
  assumes r: "repr s M" and g: "ini g" and d: "okv d"
    and v: "v = (case M (st_key name) of None \<Rightarrow> d | Some v \<Rightarrow> v)" and body: "okv (b v)"
  shows "\<exists>s'. st_scope ops g name d b s = Inr (v, s') \<and> repr s' (M(st_key name \<mapsto> b v))"
  using Init_ok(1) [OF r g d v] Flush_ok [OF r, of "\<lparr>st_default = d, st_name = name, st_value = b v\<rparr>"] body
  by (auto simp: st_scope_def st_assign_def st_get_def st_self_def)

lemma scopes_ok:
  assumes "repr s M" "ini g" "list_all (keeps okv) bs" "okv d"
    and "v = (case M (st_key name) of None \<Rightarrow> d | Some v \<Rightarrow> v)"
  shows "\<exists>s' M'. st_scopes ops g name d bs s = Inr (cell_runs v bs, s') \<and> repr s' M' \<and>
    (bs \<noteq> [] \<longrightarrow> M' (st_key name) = Some (fold (\<lambda>b. b) bs v))"
  using assms
proof (induction bs arbitrary: s M v)
  case Nil
  then show ?case by auto
next
  case (Cons b bs)
  have b: "keeps okv b" using Cons.prems(3) by simp
  obtain s1 where s1: "st_scope ops g name d b s = Inr (v, s1)" "repr s1 (M(st_key name \<mapsto> b v))"
    using scope_ok [OF Cons.prems(1,2,4,5), of b] Init_ok(2) [OF Cons.prems(1,2,4,5)] b by (auto simp: keeps_def)
  obtain s' M' where s': "st_scopes ops g name d bs s1 = Inr (cell_runs (b v) bs, s')" "repr s' M'"
    "bs \<noteq> [] \<longrightarrow> M' (st_key name) = Some (fold (\<lambda>b. b) bs (b v))"
    using Cons.IH [OF s1(2), of "b v"] Cons.prems(2-4) by auto
  show ?case
  proof (cases bs)
    case Nil
    then show ?thesis using s1 by fastforce
  next
    case (Cons c cs)
    then show ?thesis using s1(1) s' by (intro exI [of _ s'] exI [of _ M']) simp
  qed
qed

end

section \<open>The variable over the contract state\<close>

lemma st_key_typed: "typed (TU W64) (st_key name)"
proof -
  have "unat name < 256 ^ 8" using unsigned_less [of name] by simp
  then have "length (be_bytes (unat name)) \<le> 8" by (simp only: length_be_bytes_le)
  then show ?thesis
    using \<open>unat name < 256 ^ 8\<close>
    by (simp add: typed_def fits_def st_key_def item_len_def length_enc_str length_rlp_head unat_ucast_up)
qed

text \<open>The entry of the variable in the state: nothing, or a value of its type. No other key matters.\<close>

definition cell_holds :: "'s chain_host \<Rightarrow> cty \<Rightarrow> 64 word \<Rightarrow> 's \<Rightarrow> cval option \<Rightarrow> bool" where
  "cell_holds H vt name s e \<longleftrightarrow> entry_is H s (st_key name) e \<and> (\<forall>v. e = Some v \<longrightarrow> typed vt v)"

abbreviation cell_frame :: "'s chain_host \<Rightarrow> 64 word \<Rightarrow> 's \<Rightarrow> 's \<Rightarrow> bool" where
  "cell_frame H name \<equiv> untouched H {key_bytes (st_key name)}"

locale state_cell =
  fixes H :: "'s chain_host" and vt :: cty and name :: "64 word"
  assumes cell_host: "chain_host_ok H"

sublocale state_cell \<subseteq> typed_state H "\<lambda>k. k = st_key name" "TU W64" vt
  by unfold_locales (simp_all add: cell_host st_key_typed)

sublocale state_cell \<subseteq> cell: kv_cell "state_ops vt H" "\<lambda>k. k = st_key name" "typed vt" "local_ok vt"
  "store_repr H (\<lambda>k. k = st_key name) vt s0" name for s0
  by unfold_locales simp

context state_cell
begin

lemma cell_repr:
  "cell_holds H vt name s e \<Longrightarrow> store_repr H (\<lambda>k. k = st_key name) vt s s (\<lambda>k. if k = st_key name then e else None)"
  by (auto simp: cell_holds_def store_repr_def)

lemma repr_cell:
  "store_repr H (\<lambda>k. k = st_key name) vt s0 s M \<Longrightarrow> cell_holds H vt name s (M (st_key name)) \<and> cell_frame H name s0 s"
  by (auto simp: cell_holds_def store_repr_def)

lemma variable_Init:
  assumes "cell_holds H vt name s e" "local_ok vt g" "typed vt d" "v = (case e of None \<Rightarrow> d | Some v \<Rightarrow> v)"
  shows "st_Init (state_ops vt H) g s name d = Inr \<lparr>st_default = d, st_name = name, st_value = v\<rparr>" "typed vt v"
  using cell.Init_ok [OF cell_repr [OF assms(1)] assms(2,3), of v] assms(4) by simp_all

lemma variable_Flush:
  assumes "cell_holds H vt name s e" "st_name x = name" "typed vt (st_value x)"
  shows "\<exists>s'. st_Flush (state_ops vt H) s x = Inr s' \<and> cell_holds H vt name s' (Some (st_value x)) \<and> cell_frame H name s s'"
  using cell.Flush_ok [OF cell_repr [OF assms(1)] assms(2,3)] repr_cell by fastforce

lemma variable_scope:
  assumes "cell_holds H vt name s e" "local_ok vt g" "typed vt d" "v = (case e of None \<Rightarrow> d | Some v \<Rightarrow> v)" "typed vt (b v)"
  shows "\<exists>s'. st_scope (state_ops vt H) g name d b s = Inr (v, s') \<and> cell_holds H vt name s' (Some (b v)) \<and> cell_frame H name s s'"
  using cell.scope_ok [OF cell_repr [OF assms(1)] assms(2,3), of v b] assms(4,5) repr_cell by fastforce

lemma variable_scopes:
  assumes "cell_holds H vt name s e" "local_ok vt g" "list_all (keeps (typed vt)) bs" "typed vt d" "bs \<noteq> []"
    and "v = (case e of None \<Rightarrow> d | Some v \<Rightarrow> v)"
  shows "\<exists>s'. st_scopes (state_ops vt H) g name d bs s = Inr (cell_runs v bs, s') \<and>
    cell_holds H vt name s' (Some (fold (\<lambda>b. b) bs v)) \<and> cell_frame H name s s'"
  using cell.scopes_ok [OF cell_repr [OF assms(1)] assms(2-4), of v] assms(5,6) repr_cell by fastforce

end

lemma state_cellI: "chain_host_ok H \<Longrightarrow> state_cell H"
  by unfold_locales

interpretation model_cell: state_cell model_chain vt name for vt name
  by unfold_locales (rule model_chain_ok)

lemma cell_empty: "cell_holds model_chain vt name (\<lambda>k. []) None"
  by (simp add: cell_holds_def entry_empty)

section \<open>What a contract may rely on\<close>

text \<open>
  C13. A storage variable persists: over any sequence of calls of a contract, each with its own
  body, every constructor finds the value the previous destructor wrote, and the default
  before the first; the last value is in the contract state. Nothing is assumed of the rest of
  the state, and no other key of it is touched; what the member of the class holds before it is
  read into does not matter.
\<close>

theorem storage_type_persists:
  assumes "chain_host_ok H" "local_ok vt g" "cell_holds H vt name s e"
    and "list_all (keeps (typed vt)) bs" "typed vt d" "bs \<noteq> []"
    and "v = (case e of None \<Rightarrow> d | Some v \<Rightarrow> v)"
  shows "\<exists>s'. st_scopes (state_ops vt H) g name d bs s = Inr (cell_runs v bs, s') \<and>
    cell_holds H vt name s' (Some (fold (\<lambda>b. b) bs v)) \<and> cell_frame H name s s'"
  using state_cell.variable_scopes [OF state_cellI [OF assms(1)] assms(3,2,4-7)] .

theorem storage_type_persists_witness:
  "\<exists>s'. st_scopes (state_ops (TU W32) model_chain) (VUInt 77) 3 (VUInt 5)
      [\<lambda>v. VUInt 6, \<lambda>v. v, \<lambda>v. VUInt 8] (\<lambda>k. []) = Inr ([VUInt 5, VUInt 6, VUInt 6], s') \<and>
    cell_holds model_chain (TU W32) 3 s' (Some (VUInt 8)) \<and> cell_frame model_chain 3 (\<lambda>k. []) s'"
proof -
  have t: "typed (TU W32) (VUInt 77)" "typed (TU W32) (VUInt 5)" "typed (TU W32) (VUInt 6)"
    "typed (TU W32) (VUInt 8)"
    by (simp_all add: typed_def fits_def item_len_def enc_str_def rlp_head_def be_bytes.simps)
  then have "local_ok (TU W32) (VUInt 77)" by (simp add: local_ok_def)
  moreover have "list_all (keeps (typed (TU W32))) [\<lambda>v. VUInt 6, \<lambda>v. v, \<lambda>v. VUInt 8]"
    using t by (simp add: keeps_def)
  moreover have "[\<lambda>v. VUInt 6, \<lambda>v. v, \<lambda>v. VUInt 8] \<noteq> []"
    "VUInt 5 = (case None of None \<Rightarrow> VUInt 5 | Some v \<Rightarrow> v)" by simp_all
  ultimately show ?thesis
    using storage_type_persists [OF model_chain_ok _ cell_empty _ t(2),
        of "VUInt 77" "[\<lambda>v. VUInt 6, \<lambda>v. v, \<lambda>v. VUInt 8]" "VUInt 5" 3]
    by (simp del: st_scopes.simps)
qed

text \<open>The inequality operator of the class compares for equality, like \<open>operator==\<close>.\<close>

lemma storage_type_ne_is_eq: "st_ne x (st_get x)"
  by (simp add: st_ne_def st_get_def)

text \<open>
  Integer variables: a counter over any number of increments wraps at its width, subtraction takes
  an addition back.
\<close>

lemma unat_cut: "unat (cut_to w a) = unat a mod 2 ^ width_bits w"
  unfolding cut_to_def unsigned_take_bit_eq by (rule take_bit_eq_mod)

lemma cut_add: "cut_to w (cut_to w a + b) = cut_to w (a + b)"
proof -
  have d: "(2 :: nat) ^ width_bits w dvd 2 ^ 128" by (cases w) simp_all
  have u: "unat (cut_to w (x + y)) = (unat x + unat y) mod 2 ^ width_bits w" for x y
    using mod_mod_cancel [OF d, of "unat x + unat y"] by (simp add: unat_cut unat_word_ariths)
  have "unat (cut_to w (cut_to w a + b)) = unat (cut_to w (a + b))" unfolding u unfolding unat_cut by (simp add: mod_simps)
  then show ?thesis by (simp add: word_unat_eq_iff)
qed

lemma cut_idem [simp]: "cut_to w (cut_to w a) = cut_to w a"
  by (simp add: cut_to_def)

lemma st_preinc_iterate:
  assumes "st_value x = VUInt v" "cut_to w v = v"
  shows "st_value (((\<lambda>x. snd (st_preinc w x)) ^^ k) x) = VUInt (cut_to w (v + of_nat k))"
proof (induction k)
  case (Suc k)
  then show ?case
    using cut_add [of w "v + of_nat k" 1] by (simp add: st_preinc_def st_set_number_def ac_simps)
qed (simp add: assms)

lemma st_add_sub:
  assumes "st_value x = VUInt v" "cut_to w v = v"
  shows "st_value (snd (st_sub_assign w (snd (st_add_assign w x p)) p)) = VUInt v"
proof -
  have "cut_to w (cut_to w (v + p) - p) = cut_to w (v + p + - p)" using cut_add [of w "v + p" "- p"] by simp
  then show ?thesis using assms by (simp add: st_sub_assign_def st_add_assign_def st_set_number_def)
qed

end
