(* ===== verification/Multi_Index.thy ===== *)
theory Multi_Index
  imports Index_Store Storage_Type
begin

text \<open>
  Model of class \<open>MultiIndex\<close> of \<open>platonlib/include/platon/db/multi_index.hpp\<close>: a table of objects with
  unique and ordinary indices. Objects are kept under ever larger sequence numbers; the counter
  is a \<open>StorageType\<close>. Iterators hold shared pointers to items, which the table caches and loads on
  demand, so the items are an explicit store and a pointer is a position in it.
\<close>

section \<open>Tables and indices\<close>

text \<open>
  The template arguments: the name of the table, the type of its objects, and for each index its
  name, its kind, the type of its keys and the member function that extracts the key.
\<close>

record index =
  ix_name :: "64 word"
  ix_unique :: bool
  ix_type :: cty
  extract_secondary_key :: "cval \<Rightarrow> cval"

record schema =
  table_name :: "64 word"
  object_type :: cty
  indices :: "index list"

definition has_unique_index :: "schema \<Rightarrow> bool" where
  "has_unique_index sc \<longleftrightarrow> (\<exists>ix \<in> set (indices sc). ix_unique ix)"

definition check_index_unique :: "schema \<Rightarrow> 64 word \<Rightarrow> bool" where
  "check_index_unique sc name \<longleftrightarrow> (\<exists>ix \<in> set (indices sc). ix_name ix = name \<and> ix_unique ix)"

definition check_index_exist :: "schema \<Rightarrow> 64 word \<Rightarrow> bool" where
  "check_index_exist sc name \<longleftrightarrow> (\<exists>ix \<in> set (indices sc). ix_name ix = name)"

text \<open>Items, the table, and iterators.\<close>

record Item =
  item_obj :: cval
  item_seq :: "64 word"

record multi_index =
  mi_items :: "Item list"
  seq2item :: "64 word \<rightharpoonup> nat"
  mi_seq :: StorageType

type_synonym iterator = nat

definition seq_get :: "multi_index \<Rightarrow> 64 word" where
  "seq_get mi = u64_of (st_get (mi_seq mi))"

definition seq_add :: "64 word \<Rightarrow> multi_index \<Rightarrow> multi_index" where
  "seq_add n mi = mi\<lparr>mi_seq := st_assign (mi_seq mi) (VUInt (ucast (seq_get mi + n)))\<rparr>"

definition make_item :: "multi_index \<Rightarrow> Item \<Rightarrow> nat \<times> multi_index" where
  "make_item mi it = (length (mi_items mi), mi\<lparr>mi_items := mi_items mi @ [it]\<rparr>)"

definition mi_ctor :: "'s chain_host \<Rightarrow> schema \<Rightarrow> 's \<Rightarrow> multi_index res" where
  "mi_ctor H sc s =
     bind_res (st_Init (state_ops (TU W64) H) (default_val (TU W64)) s (table_name sc) (default_val (TU W64))) (\<lambda>x.
       Inr \<lparr>mi_items = [], seq2item = Map.empty, mi_seq = x\<rparr>)"

definition mi_dtor :: "'s chain_host \<Rightarrow> 's \<Rightarrow> multi_index \<Rightarrow> 's res" where
  "mi_dtor H s mi = st_Flush (state_ops (TU W64) H) s (mi_seq mi)"

section \<open>Access to the state\<close>

definition MultiDBKey :: "64 word \<Rightarrow> 64 word \<Rightarrow> cval" where
  "MultiDBKey table seq = VStruct [VUInt (ucast table), VUInt (ucast seq)]"

definition set_state_db :: "'s chain_host \<Rightarrow> schema \<Rightarrow> 's \<Rightarrow> 64 word \<Rightarrow> cval \<Rightarrow> 's res" where
  "set_state_db H sc s seq val = set_state H s (MultiDBKey (table_name sc) seq) val"

definition get_state_db :: "'s chain_host \<Rightarrow> schema \<Rightarrow> 's \<Rightarrow> 64 word \<Rightarrow> cval \<Rightarrow> cval res" where
  "get_state_db H sc s seq tgt =
     bind_res (get_state (object_type sc) H s (MultiDBKey (table_name sc) seq) tgt) (\<lambda>(len, v). Inr v)"

definition has_state_db :: "'s chain_host \<Rightarrow> schema \<Rightarrow> 's \<Rightarrow> 64 word \<Rightarrow> bool res" where
  "has_state_db H sc s seq = has_state H s (MultiDBKey (table_name sc) seq)"

definition delete_state_db :: "'s chain_host \<Rightarrow> schema \<Rightarrow> 's \<Rightarrow> 64 word \<Rightarrow> 's res" where
  "delete_state_db H sc s seq = del_state H s (MultiDBKey (table_name sc) seq)"

definition set_index_db :: "'s chain_host \<Rightarrow> schema \<Rightarrow> 's \<Rightarrow> 64 word \<Rightarrow> 64 word \<Rightarrow> cval \<Rightarrow> 's res" where
  "set_index_db H sc s index_name seq val = set_state H s (IndexKey (table_name sc) index_name val) (VUInt (ucast seq))"

definition has_index_db :: "'s chain_host \<Rightarrow> schema \<Rightarrow> 's \<Rightarrow> 64 word \<Rightarrow> cval \<Rightarrow> bool res" where
  "has_index_db H sc s index_name val = has_state H s (IndexKey (table_name sc) index_name val)"

definition get_index_db :: "'s chain_host \<Rightarrow> schema \<Rightarrow> 's \<Rightarrow> 64 word \<Rightarrow> cval \<Rightarrow> 64 word res" where
  "get_index_db H sc s index_name val =
     bind_res (get_state (TU W64) H s (IndexKey (table_name sc) index_name val) (default_val (TU W64)))
       (\<lambda>(len, v). Inr (u64_of v))"

definition delete_index_db :: "'s chain_host \<Rightarrow> schema \<Rightarrow> 's \<Rightarrow> 64 word \<Rightarrow> cval \<Rightarrow> 's res" where
  "delete_index_db H sc s index_name val = del_state H s (IndexKey (table_name sc) index_name val)"

definition check_unique :: "'s chain_host \<Rightarrow> schema \<Rightarrow> 's \<Rightarrow> 64 word \<Rightarrow> cval \<Rightarrow> bool res" where
  "check_unique H sc s index_name val = has_state H s (IndexKey (table_name sc) index_name val)"

section \<open>Items and iterators\<close>

definition get_item_ptr :: "'s chain_host \<Rightarrow> schema \<Rightarrow> 's \<Rightarrow> multi_index \<Rightarrow> 64 word \<Rightarrow> (nat \<times> multi_index) res" where
  "get_item_ptr H sc s mi seq =
     (case seq2item mi seq of
        Some p \<Rightarrow> Inr (p, mi)
      | None \<Rightarrow>
          bind_res (get_state_db H sc s seq (default_val (object_type sc))) (\<lambda>obj.
            let (p, mi1) = make_item mi \<lparr>item_obj = obj, item_seq = seq\<rparr> in
            Inr (p, mi1\<lparr>seq2item := (seq2item mi1)(seq \<mapsto> p)\<rparr>)))"

text \<open>An iterator that points to no item is not dereferenced by the table itself.\<close>

definition item_at :: "multi_index \<Rightarrow> iterator \<Rightarrow> Item res" where
  "item_at mi it = (if it < length (mi_items mi) then Inr (mi_items mi ! it) else Inl Oob)"

definition it_eq :: "multi_index \<Rightarrow> iterator \<Rightarrow> iterator \<Rightarrow> bool res" where
  "it_eq mi a b = bind_res (item_at mi a) (\<lambda>i. bind_res (item_at mi b) (\<lambda>j. Inr (item_seq i = item_seq j)))"

definition it_deref :: "'s chain_host \<Rightarrow> schema \<Rightarrow> 's \<Rightarrow> multi_index \<Rightarrow> iterator \<Rightarrow> (cval \<times> multi_index) res" where
  "it_deref H sc s mi it =
     bind_res (item_at mi it) (\<lambda>i.
       if seq2item mi (item_seq i) = None then
         bind_res (get_state_db H sc s (item_seq i) (item_obj i)) (\<lambda>obj.
           Inr (obj, mi\<lparr>mi_items := (mi_items mi)[it := i\<lparr>item_obj := obj\<rparr>],
                        seq2item := (seq2item mi)(item_seq i \<mapsto> it)\<rparr>))
       else Inr (item_obj i, mi))"

text \<open>The next sequence number from \<open>seq\<close> on that has an object, \<open>end_seq\<close> if there is none.\<close>

function skip_absent :: "'s chain_host \<Rightarrow> schema \<Rightarrow> 's \<Rightarrow> 64 word \<Rightarrow> 64 word \<Rightarrow> 64 word res" where
  "skip_absent H sc s end_seq seq =
     (if seq < end_seq then
        bind_res (has_state_db H sc s seq) (\<lambda>found.
          if found then Inr seq else skip_absent H sc s end_seq (seq + 1))
      else Inr seq)"
  by pat_completeness auto
termination
proof (relation "measure (\<lambda>(H, sc, s, end_seq, seq). unat end_seq - unat seq)")
  fix end_seq seq :: "64 word"
  assume "seq < end_seq"
  then have "unat (seq + 1) = unat seq + 1" "unat seq < unat end_seq"
    using unat_bound [of end_seq] by (simp_all add: word_less_nat_alt unat_word_ariths)
  then show "((H, sc, s, end_seq, seq + 1), H, sc, s, end_seq, seq)
      \<in> measure (\<lambda>(H, sc, s, end_seq, seq). unat end_seq - unat seq)" for H sc s
    by simp
qed simp

declare skip_absent.simps [simp del]

text \<open>The cached item of a sequence number, or a fresh one that is not loaded yet.\<close>

definition item_for :: "schema \<Rightarrow> multi_index \<Rightarrow> 64 word \<Rightarrow> iterator \<times> multi_index" where
  "item_for sc mi seq =
     (case seq2item mi seq of
        Some p \<Rightarrow> (p, mi)
      | None \<Rightarrow> make_item mi \<lparr>item_obj = default_val (object_type sc), item_seq = seq\<rparr>)"

definition it_inc :: "'s chain_host \<Rightarrow> schema \<Rightarrow> 's \<Rightarrow> multi_index \<Rightarrow> iterator \<Rightarrow> (iterator \<times> multi_index) res" where
  "it_inc H sc s mi it =
     bind_res (item_at mi it) (\<lambda>i.
       let end_seq = seq_get mi in
       if item_seq i = end_seq then Inr (it, mi)
       else
         let seq = item_seq i + 1 in
         case seq2item mi seq of
           Some p \<Rightarrow> Inr (p, mi)
         | None \<Rightarrow> bind_res (skip_absent H sc s end_seq seq) (\<lambda>seq1. Inr (item_for sc mi seq1)))"

definition cbegin :: "'s chain_host \<Rightarrow> schema \<Rightarrow> 's \<Rightarrow> multi_index \<Rightarrow> (iterator \<times> multi_index) res" where
  "cbegin H sc s mi = bind_res (skip_absent H sc s (seq_get mi) 0) (\<lambda>seq. Inr (item_for sc mi seq))"

definition cend :: "schema \<Rightarrow> multi_index \<Rightarrow> iterator \<times> multi_index" where
  "cend sc mi = make_item mi \<lparr>item_obj = default_val (object_type sc), item_seq = seq_get mi\<rparr>"

section \<open>Operations\<close>

fun is_conflict :: "'s chain_host \<Rightarrow> schema \<Rightarrow> 's \<Rightarrow> cval \<Rightarrow> index list \<Rightarrow> bool res" where
  "is_conflict H sc s obj [] = Inr False"
| "is_conflict H sc s obj (ix # ixs) =
     (if ix_unique ix then
        bind_res (check_unique H sc s (ix_name ix) (extract_secondary_key ix obj)) (\<lambda>found.
          if found then Inr True else is_conflict H sc s obj ixs)
      else is_conflict H sc s obj ixs)"

fun set_indices :: "'s chain_host \<Rightarrow> schema \<Rightarrow> 64 word \<Rightarrow> cval \<Rightarrow> index list \<Rightarrow> 's \<Rightarrow> 's res" where
  "set_indices H sc seq obj [] s = Inr s"
| "set_indices H sc seq obj (ix # ixs) s =
     bind_res
       (if ix_unique ix then set_index_db H sc s (ix_name ix) seq (extract_secondary_key ix obj)
        else append_normal_index_one_db
               (normal_index H (table_name sc) (ix_name ix) (extract_secondary_key ix obj)) seq s)
       (set_indices H sc seq obj ixs)"

definition emplace ::
  "'s chain_host \<Rightarrow> schema \<Rightarrow> (cval \<Rightarrow> cval) \<Rightarrow> 's \<Rightarrow> multi_index \<Rightarrow> ((iterator \<times> bool) \<times> 's \<times> multi_index) res" where
  "emplace H sc constructor s mi =
     (let obj = constructor (default_val (object_type sc));
          seq = seq_get mi;
          (p, mi1) = make_item mi \<lparr>item_obj = obj, item_seq = seq\<rparr>;
          mi2 = seq_add 1 mi1 in
      bind_res (if has_unique_index sc then is_conflict H sc s obj (indices sc) else Inr False) (\<lambda>conflict.
        if conflict then
          let (e, mi3) = cend sc (seq_add (- 1) mi2) in Inr ((e, False), s, mi3)
        else
          bind_res (set_indices H sc seq obj (indices sc) s) (\<lambda>s1.
          bind_res (set_state_db H sc s1 seq obj) (\<lambda>s2.
            Inr ((p, True), s2, mi2\<lparr>seq2item := (seq2item mi2)(seq \<mapsto> p)\<rparr>)))))"

definition find_item ::
  "'s chain_host \<Rightarrow> schema \<Rightarrow> 64 word \<Rightarrow> cval \<Rightarrow> 's \<Rightarrow> multi_index \<Rightarrow> (iterator \<times> multi_index) res" where
  "find_item H sc index_name key s mi =
     (let (e, mi1) = cend sc mi in
      if check_index_exist sc index_name then
        bind_res (has_index_db H sc s index_name key) (\<lambda>found.
          if found then
            bind_res (get_index_db H sc s index_name key) (\<lambda>seq. get_item_ptr H sc s mi1 seq)
          else Inr (e, mi1))
      else Inr (e, mi1))"

definition count :: "'s chain_host \<Rightarrow> schema \<Rightarrow> 64 word \<Rightarrow> cval \<Rightarrow> 's \<Rightarrow> nat res" where
  "count H sc index_name key s =
     (case find (\<lambda>ix. ix_name ix = index_name) (indices sc) of
        None \<Rightarrow> Inr 0
      | Some ix \<Rightarrow>
          if ix_unique ix then
            bind_res (has_index_db H sc s index_name key) (\<lambda>found. Inr (if found then 1 else 0))
          else
            let db = normal_index H (table_name sc) index_name key in
            bind_res (has_normal_index_db db s) (\<lambda>found.
              if found then get_normal_index_count_db db s else Inr 0))"

text \<open>An update may not change any key.\<close>

definition same_keys :: "schema \<Rightarrow> cval \<Rightarrow> cval \<Rightarrow> bool" where
  "same_keys sc old_obj new_obj \<longleftrightarrow>
     (\<forall>ix \<in> set (indices sc). extract_secondary_key ix old_obj = extract_secondary_key ix new_obj)"

definition store_modified ::
  "'s chain_host \<Rightarrow> schema \<Rightarrow> cval \<Rightarrow> cval \<Rightarrow> 64 word \<Rightarrow> 's \<Rightarrow> multi_index \<Rightarrow> ('s \<times> multi_index) res" where
  "store_modified H sc old_obj new_obj seq s mi =
     (let (p, mi1) = make_item mi \<lparr>item_obj = new_obj, item_seq = seq\<rparr> in
      if same_keys sc old_obj new_obj then
        bind_res (set_state_db H sc s seq new_obj) (\<lambda>s1.
          Inr (s1, mi1\<lparr>seq2item := (seq2item mi1)(seq \<mapsto> p)\<rparr>))
      else Inr (s, mi1))"

definition modify ::
  "'s chain_host \<Rightarrow> schema \<Rightarrow> iterator \<Rightarrow> (cval \<Rightarrow> cval) \<Rightarrow> 's \<Rightarrow> multi_index \<Rightarrow> ('s \<times> multi_index) res" where
  "modify H sc position constructor s mi =
     bind_res (it_deref H sc s mi position) (\<lambda>(obj, mi1).
     bind_res (item_at mi1 position) (\<lambda>i.
       store_modified H sc obj (constructor obj) (item_seq i) s mi1))"

text \<open>\<open>*position\<close> is evaluated anew for every index, in the state the loop has reached.\<close>

fun delete_indices ::
  "'s chain_host \<Rightarrow> schema \<Rightarrow> ('s \<Rightarrow> multi_index \<Rightarrow> (cval \<times> multi_index) res) \<Rightarrow> 64 word \<Rightarrow> index list \<Rightarrow> 's \<Rightarrow> multi_index \<Rightarrow>
     ('s \<times> multi_index) res" where
  "delete_indices H sc deref seq [] s mi = Inr (s, mi)"
| "delete_indices H sc deref seq (ix # ixs) s mi =
     bind_res (deref s mi) (\<lambda>(obj, mi1).
     bind_res
       (if ix_unique ix then delete_index_db H sc s (ix_name ix) (extract_secondary_key ix obj)
        else delete_normal_index_db
               (normal_index H (table_name sc) (ix_name ix) (extract_secondary_key ix obj)) seq s)
       (\<lambda>s1. delete_indices H sc deref seq ixs s1 mi1))"

definition erase_item ::
  "'s chain_host \<Rightarrow> schema \<Rightarrow> ('s \<Rightarrow> multi_index \<Rightarrow> (cval \<times> multi_index) res) \<Rightarrow> 64 word \<Rightarrow> 's \<Rightarrow> multi_index \<Rightarrow>
     ('s \<times> multi_index) res" where
  "erase_item H sc deref seq s mi =
     bind_res (delete_indices H sc deref seq (indices sc) s mi) (\<lambda>(s1, mi1).
     bind_res (delete_state_db H sc s1 seq) (\<lambda>s2.
       Inr (s2, mi1\<lparr>seq2item := (seq2item mi1)(seq := None)\<rparr>)))"

definition erase ::
  "'s chain_host \<Rightarrow> schema \<Rightarrow> iterator \<Rightarrow> 's \<Rightarrow> multi_index \<Rightarrow> ('s \<times> multi_index) res" where
  "erase H sc position s mi =
     bind_res (item_at mi position) (\<lambda>i.
       erase_item H sc (\<lambda>s mi. it_deref H sc s mi position) (item_seq i) s mi)"

text \<open>
  The same through an iterator of an ordinary index. In \<open>index_erase\<close> the iterator stands in one of the
  indices the loop takes apart, and \<open>*position\<close> reads that index again each time.
\<close>

definition index_deref ::
  "'s chain_host \<Rightarrow> schema \<Rightarrow> 's niv_ops \<Rightarrow> index_iterator \<Rightarrow> 's \<Rightarrow> multi_index \<Rightarrow> (cval \<times> multi_index) res" where
  "index_deref H sc db position s mi =
     bind_res (index_get_seq db s position) (\<lambda>seq.
     bind_res (get_item_ptr H sc s mi seq) (\<lambda>(p, mi1).
     bind_res (item_at mi1 p) (\<lambda>i. Inr (item_obj i, mi1))))"

definition index_modify ::
  "'s chain_host \<Rightarrow> schema \<Rightarrow> 's niv_ops \<Rightarrow> index_iterator \<Rightarrow> (cval \<Rightarrow> cval) \<Rightarrow> 's \<Rightarrow> multi_index \<Rightarrow>
     ('s \<times> multi_index) res" where
  "index_modify H sc db position constructor s mi =
     bind_res (index_deref H sc db position s mi) (\<lambda>(obj, mi1).
     bind_res (index_get_seq db s position) (\<lambda>seq.
       store_modified H sc obj (constructor obj) seq s mi1))"

definition index_erase ::
  "'s chain_host \<Rightarrow> schema \<Rightarrow> 's niv_ops \<Rightarrow> index_iterator \<Rightarrow> 's \<Rightarrow> multi_index \<Rightarrow> ('s \<times> multi_index) res" where
  "index_erase H sc db position s mi =
     bind_res (index_get_seq db s position) (\<lambda>seq.
       erase_item H sc (\<lambda>s mi. index_deref H sc db position s mi) seq s mi)"

end
