(* ===== verification/Multi_Table.thy ===== *)
theory Multi_Table
  imports Multi_Index
begin

text \<open>
  What \<open>MultiIndex\<close> promises: a table from sequence numbers to objects, in which no two objects agree
  in a unique index. The lemmas show that the entries in the contract state always mirror such
  a table, index by index.
\<close>

section \<open>Keys\<close>

definition key_ok :: "index \<Rightarrow> cval \<Rightarrow> bool" where
  "key_ok ix v \<longleftrightarrow> has_type (ix_type ix) v \<and> item_len v < 2 ^ 31 - 100"

definition obj_ok :: "schema \<Rightarrow> cval \<Rightarrow> bool" where
  "obj_ok sc obj \<longleftrightarrow> typed (object_type sc) obj \<and>
     (\<forall>ix \<in> set (indices sc). key_ok ix (extract_secondary_key ix obj))"

definition schema_ok :: "schema \<Rightarrow> bool" where
  "schema_ok sc \<longleftrightarrow> distinct (map ix_name (indices sc)) \<and> typed (object_type sc) (default_val (object_type sc))"

definition table_key :: "schema \<Rightarrow> cval \<Rightarrow> bool" where
  "table_key sc k \<longleftrightarrow> k = st_key (table_name sc) \<or> (\<exists>seq. k = MultiDBKey (table_name sc) seq) \<or>
     (\<exists>ix \<in> set (indices sc). \<exists>v. key_ok ix v \<and>
        (k = IndexKey (table_name sc) (ix_name ix) v \<or> (\<exists>serial. k = NormalIndexKey (table_name sc) (ix_name ix) v serial)))"

fun key_vtype :: "cty \<Rightarrow> cval \<Rightarrow> cty" where
  "key_vtype t (VStruct [a, b]) = t"
| "key_vtype t (VStruct [a, b, c, d]) = niv_type"
| "key_vtype t k = TU W64"

lemmas key_defs = st_key_def MultiDBKey_def IndexKey_def NormalIndexKey_def

lemma key_vtypes [simp]:
  "key_vtype t (st_key n) = TU W64" "key_vtype t (MultiDBKey n seq) = t"
  "key_vtype t (IndexKey n i v) = TU W64" "key_vtype t (NormalIndexKey n i v k) = niv_type"
  by (simp_all add: key_defs)

lemma key_neqs [simp]:
  "MultiDBKey t seq \<noteq> IndexKey t' i v" "MultiDBKey t seq \<noteq> NormalIndexKey t' i v k"
  "IndexKey t' i v \<noteq> MultiDBKey t seq" "NormalIndexKey t' i v k \<noteq> MultiDBKey t seq"
  "IndexKey t i v \<noteq> NormalIndexKey t' i' v' k" "NormalIndexKey t' i' v' k \<noteq> IndexKey t i v"
  "st_key n \<noteq> MultiDBKey t seq" "MultiDBKey t seq \<noteq> st_key n"
  "st_key n \<noteq> IndexKey t i v" "IndexKey t i v \<noteq> st_key n"
  "st_key n \<noteq> NormalIndexKey t i v k" "NormalIndexKey t i v k \<noteq> st_key n"
  by (simp_all add: key_defs)

lemma key_eqs [simp]:
  "MultiDBKey t seq = MultiDBKey t' seq' \<longleftrightarrow> t = t' \<and> seq = seq'"
  "IndexKey t i v = IndexKey t' i' v' \<longleftrightarrow> t = t' \<and> i = i' \<and> v = v'"
  "NormalIndexKey t i v k = NormalIndexKey t' i' v' k' \<longleftrightarrow> t = t' \<and> i = i' \<and> v = v' \<and> k = k'"
  by (auto simp: key_defs)

lemma fits_key:
  assumes "item_len v < 2 ^ 31 - 100"
  shows "fits (IndexKey t i v)"
proof -
  let ?p = "concat (map enc (map item_of [VUInt (ucast t), VUInt (ucast i), v]))"
  have p: "length ?p \<le> 18 + item_len v" using u64_len [of t] u64_len [of i] by (simp add: item_len_def)
  then have "length (enc_list ?p) \<le> length ?p + 5" using assms by (intro length_enc_list) simp
  then show ?thesis using p assms by (simp add: fits_def item_len_def IndexKey_def)
qed

lemma fits_db_key: "fits (MultiDBKey t seq)"
proof -
  let ?p = "concat (map enc (map item_of [VUInt (ucast t), VUInt (ucast seq)]))"
  have p: "length ?p \<le> 18" using u64_len [of t] u64_len [of seq] by simp
  then have "length (enc_list ?p) \<le> length ?p + 5" by (intro length_enc_list) simp
  then show ?thesis using p by (simp add: fits_def item_len_def MultiDBKey_def)
qed

lemma index_by_name:
  assumes "schema_ok sc" "ix \<in> set (indices sc)" "jx \<in> set (indices sc)" "ix_name ix = ix_name jx"
  shows "ix = jx"
  using assms by (auto simp: schema_ok_def distinct_map dest: inj_onD)

section \<open>The store of a table\<close>

locale table_store =
  fixes H :: "'s chain_host" and sc :: schema
  assumes host_ok: "chain_host_ok H" and schema: "schema_ok sc"

sublocale table_store \<subseteq> multi_store H "table_key sc" "key_vtype (object_type sc)"
proof unfold_locales
  show "chain_host_ok H" by (rule host_ok)
  show "fits k" if "table_key sc k" for k
    using that st_key_typed fits_db_key fits_key NormalIndexKey_fits
    by (auto simp: table_key_def key_ok_def typed_def)
  show "j = k" if j: "table_key sc j" and k: "table_key sc k" and e: "item_of j = item_of k" for j k
  proof -
    have val: "v = w" if "ix \<in> set (indices sc)" "jx \<in> set (indices sc)" "ix_name ix = ix_name jx"
      "key_ok ix v" "key_ok jx w" "item_of v = item_of w" for ix jx v w
    proof -
      have "ix = jx" using index_by_name [OF schema] that(1-3) .
      with that(4-) show ?thesis by (intro item_of_inj [of "ix_type ix"]) (auto simp: key_ok_def fits_def)
    qed
    have l: "item_of (VUInt x) \<noteq> Lst xs" "Lst xs \<noteq> item_of (VUInt x)" for x xs by simp_all
    note u = item_of_u64 l
    show ?thesis
      using j k e unfolding table_key_def
      by (auto simp: st_key_def MultiDBKey_def IndexKey_def NormalIndexKey_def u simp del: item_of.simps(2)
          intro: val)
  qed
qed

section \<open>Indices mirror the table\<close>

text \<open>The sequence numbers of the objects with a given key.\<close>

definition members :: "(64 word \<rightharpoonup> cval) \<Rightarrow> index \<Rightarrow> cval \<Rightarrow> 64 word set" where
  "members D ix v = {seq. \<exists>obj. D seq = Some obj \<and> extract_secondary_key ix obj = v}"

lemma members_upd:
  assumes "D seq = None"
  shows "members (D(seq \<mapsto> obj)) ix v =
    (if v = extract_secondary_key ix obj then insert seq (members D ix v) else members D ix v)"
  using assms by (auto simp: members_def)

lemma members_del:
  assumes "D seq = Some obj"
  shows "members (D(seq := None)) ix v =
    (if v = extract_secondary_key ix obj then members D ix v - {seq} else members D ix v)"
  using assms by (auto simp: members_def)

lemma members_same_key:
  assumes "D seq = Some obj" "extract_secondary_key ix new = extract_secondary_key ix obj"
  shows "members (D(seq \<mapsto> new)) ix v = members D ix v"
  using assms by (auto simp: members_def)

text \<open>What the state holds for one key of an index.\<close>

definition mirrors_key :: "schema \<Rightarrow> (cval \<rightharpoonup> cval) \<Rightarrow> index \<Rightarrow> cval \<Rightarrow> 64 word set \<Rightarrow> bool" where
  "mirrors_key sc M ix v S \<longleftrightarrow>
     (if ix_unique ix then (case M (IndexKey (table_name sc) (ix_name ix) v) of
          None \<Rightarrow> S = {}
        | Some w \<Rightarrow> \<exists>seq. w = VUInt (ucast seq) \<and> S = {seq})
      else \<exists>xs. index_blocks (table_name sc) (ix_name ix) v M xs \<and> set xs = S)"

definition mirrors :: "schema \<Rightarrow> (cval \<rightharpoonup> cval) \<Rightarrow> (64 word \<rightharpoonup> cval) \<Rightarrow> index \<Rightarrow> bool" where
  "mirrors sc M D ix \<longleftrightarrow> (\<forall>v. key_ok ix v \<longrightarrow> mirrors_key sc M ix v (members D ix v))"

definition index_keys :: "schema \<Rightarrow> index \<Rightarrow> cval set" where
  "index_keys sc ix = range (IndexKey (table_name sc) (ix_name ix)) \<union>
     (\<Union>v. range (NormalIndexKey (table_name sc) (ix_name ix) v))"

lemma index_keysI [simp]:
  "IndexKey (table_name sc) (ix_name ix) v \<in> index_keys sc ix"
  "NormalIndexKey (table_name sc) (ix_name ix) v k \<in> index_keys sc ix"
  by (auto simp: index_keys_def)

lemma mirrors_key_cong:
  assumes "M' (IndexKey (table_name sc) (ix_name ix) v) = M (IndexKey (table_name sc) (ix_name ix) v)"
    and "\<And>k. M' (NormalIndexKey (table_name sc) (ix_name ix) v k) = M (NormalIndexKey (table_name sc) (ix_name ix) v k)"
  shows "mirrors_key sc M' ix v S \<longleftrightarrow> mirrors_key sc M ix v S"
  by (simp add: mirrors_key_def index_blocks_def assms)

text \<open>An access to one key of an index leaves the other keys as they are.\<close>

lemma mirrors_change:
  assumes "mirrors sc M D ix" "mirrors_key sc M' ix v (members D' ix v)"
    and "\<And>w. w \<noteq> v \<Longrightarrow> members D' ix w = members D ix w"
    and "\<And>k. k \<noteq> IndexKey (table_name sc) (ix_name ix) v \<Longrightarrow>
      k \<notin> range (NormalIndexKey (table_name sc) (ix_name ix) v) \<Longrightarrow> M' k = M k"
  shows "mirrors sc M' D' ix"
  unfolding mirrors_def
proof (intro allI impI)
  fix w assume w: "key_ok ix w"
  show "mirrors_key sc M' ix w (members D' ix w)"
  proof (cases "w = v")
    case False
    then have "mirrors_key sc M' ix w S = mirrors_key sc M ix w S" for S
      by (intro mirrors_key_cong) (simp_all add: assms(4) image_iff)
    then show ?thesis using assms(1,3) w False by (simp add: mirrors_def)
  qed (simp add: assms(2))
qed

lemma mirrors_cong:
  "(\<And>k. k \<in> index_keys sc ix \<Longrightarrow> M' k = M k) \<Longrightarrow> mirrors sc M' D ix \<longleftrightarrow> mirrors sc M D ix"
  unfolding mirrors_def
  by (intro all_cong mirrors_key_cong) simp_all

lemma index_keys_disjoint:
  assumes "schema_ok sc" "ix \<in> set (indices sc)" "jx \<in> set (indices sc)" "ix \<noteq> jx"
  shows "index_keys sc ix \<inter> index_keys sc jx = {}"
  using assms index_by_name by (fastforce simp: index_keys_def)

lemma index_keys_other [simp]:
  "MultiDBKey t seq \<notin> index_keys sc ix" "st_key n \<notin> index_keys sc ix"
  by (auto simp: index_keys_def)

context table_store
begin

lemma normal_store:
  assumes "ix \<in> set (indices sc)" "key_ok ix v"
  shows "normal_index_store H (table_key sc) (key_vtype (object_type sc)) (table_name sc) (ix_name ix) v"
  by unfold_locales (use assms in \<open>auto simp: table_key_def\<close>)

lemma unique_key: "ix \<in> set (indices sc) \<Longrightarrow> key_ok ix v \<Longrightarrow> table_key sc (IndexKey (table_name sc) (ix_name ix) v)"
  by (auto simp: table_key_def)

lemma u64_value: "typed (TU W64) (VUInt (ucast (x :: 64 word)))"
  using u64_typed [of x] u64_len [of x] by (simp add: typed_def fits_def item_len_def)

text \<open>Adding an object to one index.\<close>

lemma add_to_index:
  assumes r: "repr s M" and ix: "ix \<in> set (indices sc)" and m: "mirrors sc M D ix"
    and key: "v = extract_secondary_key ix obj" "key_ok ix v" and new: "D seq = None" "\<forall>x \<in> dom D. x < seq"
    and unique: "ix_unique ix \<Longrightarrow> members D ix v = {}"
  shows "\<exists>s' M'. (if ix_unique ix then set_index_db H sc s (ix_name ix) seq v
      else append_normal_index_one_db (normal_index H (table_name sc) (ix_name ix) v) seq s) = Inr s' \<and>
    repr s' M' \<and> mirrors sc M' (D(seq \<mapsto> obj)) ix \<and> (\<forall>k. k \<notin> index_keys sc ix \<longrightarrow> M' k = M k)"
proof -
  have mem: "members (D(seq \<mapsto> obj)) ix v = insert seq (members D ix v)"
    "\<And>w. w \<noteq> v \<Longrightarrow> members (D(seq \<mapsto> obj)) ix w = members D ix w"
    using new(1) key(1) by (simp_all add: members_upd)
  show ?thesis
  proof (cases "ix_unique ix")
    case True
    let ?M = "M(IndexKey (table_name sc) (ix_name ix) v \<mapsto> VUInt (ucast seq))"
    obtain s' where s': "set_index_db H sc s (ix_name ix) seq v = Inr s'" "repr s' ?M"
      using multi_set [OF r unique_key [OF ix key(2)], of "VUInt (ucast seq)"] u64_value by (auto simp: set_index_db_def)
    moreover have "mirrors sc ?M (D(seq \<mapsto> obj)) ix"
      using True unique mem by (intro mirrors_change [OF m, of ?M v]) (auto simp: mirrors_key_def)
    ultimately show ?thesis using True by (intro exI [of _ s'] exI [of _ ?M]) (auto simp: index_keys_def)
  next
    case False
    obtain xs where xs: "index_blocks (table_name sc) (ix_name ix) v M xs" "set xs = members D ix v"
      using m key(2) False by (auto simp: mirrors_def mirrors_key_def)
    have "\<forall>x \<in> set xs. x < seq" using xs(2) new(2) by (auto simp: members_def)
    then obtain s' M' where s': "append_normal_index_one_db (normal_index H (table_name sc) (ix_name ix) v) seq s = Inr s'"
      "repr s' M'" "index_blocks (table_name sc) (ix_name ix) v M' (xs @ [seq])"
      "\<And>k. k \<notin> range (NormalIndexKey (table_name sc) (ix_name ix) v) \<Longrightarrow> M' k = M k"
      using normal_index_store.append_index [OF normal_store [OF ix key(2)] r xs(1)] by blast
    have "mirrors sc M' (D(seq \<mapsto> obj)) ix"
    proof (rule mirrors_change [OF m])
      show "mirrors_key sc M' ix v (members (D(seq \<mapsto> obj)) ix v)"
        using s'(3) xs(2) False unfolding mem(1) by (auto simp: mirrors_key_def)
    qed (auto simp: s'(4) mem(2))
    then show ?thesis using False s' by (intro exI [of _ s'] exI [of _ M']) (auto simp: index_keys_def)
  qed
qed

text \<open>Removing an object from one index.\<close>

lemma remove_from_index:
  assumes r: "repr s M" and ix: "ix \<in> set (indices sc)" and m: "mirrors sc M D ix"
    and obj: "D seq = Some obj" "v = extract_secondary_key ix obj" "key_ok ix v" and small: "\<forall>x \<in> dom D. unat x < 2 ^ 63"
  shows "\<exists>s' M'. (if ix_unique ix then delete_index_db H sc s (ix_name ix) v
      else delete_normal_index_db (normal_index H (table_name sc) (ix_name ix) v) seq s) = Inr s' \<and>
    repr s' M' \<and> mirrors sc M' (D(seq := None)) ix \<and> (\<forall>k. k \<notin> index_keys sc ix \<longrightarrow> M' k = M k)"
proof -
  have mem: "members (D(seq := None)) ix v = members D ix v - {seq}"
    "\<And>w. w \<noteq> v \<Longrightarrow> members (D(seq := None)) ix w = members D ix w"
    using obj by (simp_all add: members_del)
  have here: "seq \<in> members D ix v" using obj by (simp add: members_def)
  have mk: "mirrors_key sc M ix v (members D ix v)" using m obj(3) by (simp add: mirrors_def)
  show ?thesis
  proof (cases "ix_unique ix")
    case True
    let ?M = "M(IndexKey (table_name sc) (ix_name ix) v := None)"
    obtain s' where s': "delete_index_db H sc s (ix_name ix) v = Inr s'" "repr s' ?M"
      using multi_del [OF r unique_key [OF ix obj(3)]] by (auto simp: delete_index_db_def)
    have "members D ix v = {seq}" using mk here True by (auto simp: mirrors_key_def split: option.splits)
    then have "mirrors sc ?M (D(seq := None)) ix"
      using True mem by (intro mirrors_change [OF m, of ?M v]) (auto simp: mirrors_key_def)
    then show ?thesis using True s' by (intro exI [of _ s'] exI [of _ ?M]) (auto simp: index_keys_def)
  next
    case False
    obtain xs where xs: "index_blocks (table_name sc) (ix_name ix) v M xs" "set xs = members D ix v"
      using mk False by (auto simp: mirrors_key_def)
    have "seq \<in> set xs" using xs(2) here by simp
    moreover have "\<forall>x \<in> set xs. unat x < 2 ^ 63" using xs(2) small by (auto simp: members_def)
    ultimately obtain s' M' where s': "delete_normal_index_db (normal_index H (table_name sc) (ix_name ix) v) seq s = Inr s'"
      "repr s' M'" "index_blocks (table_name sc) (ix_name ix) v M' (filter (\<lambda>x. x \<noteq> seq) xs)"
      "\<And>k. k \<notin> range (NormalIndexKey (table_name sc) (ix_name ix) v) \<Longrightarrow> M' k = M k"
      using normal_index_store.delete_index [OF normal_store [OF ix obj(3)] r xs(1)] by blast
    have "mirrors sc M' (D(seq := None)) ix"
    proof (rule mirrors_change [OF m])
      show "mirrors_key sc M' ix v (members (D(seq := None)) ix v)"
        using False s'(3) set_filter [of "\<lambda>x. x \<noteq> seq" xs]
        unfolding mem(1) mirrors_key_def xs(2) [symmetric] by (auto intro!: exI [of _ "filter (\<lambda>x. x \<noteq> seq) xs"])
    qed (auto simp: s'(4) mem(2))
    then show ?thesis using False s' by (intro exI [of _ s'] exI [of _ M']) (auto simp: index_keys_def)
  qed
qed

end

end
