(* ===== verification/Multi_Ops.thy ===== *)
theory Multi_Ops
  imports Multi_Table
begin

text \<open>
  The operations of \<open>MultiIndex\<close> refine operations on a finite map from sequence numbers to objects:
  the loops over the indices, the relation between the state, the cached items and the map, and
  one lemma for every operation.
\<close>

section \<open>The loops over the indices\<close>

definition all_keys :: "schema \<Rightarrow> index list \<Rightarrow> cval set" where
  "all_keys sc ixs = (\<Union>ix \<in> set ixs. index_keys sc ix)"

lemma all_keys_simps [simp]:
  "all_keys sc [] = {}" "all_keys sc (ix # ixs) = index_keys sc ix \<union> all_keys sc ixs"
  "MultiDBKey t seq \<notin> all_keys sc ixs" "st_key n \<notin> all_keys sc ixs"
  by (auto simp: all_keys_def)

text \<open>A step on one index leaves the mirrors of the others as they are.\<close>

lemma mirrors_others:
  assumes "schema_ok sc" "set (ix # ixs) \<subseteq> set (indices sc)" "distinct (ix # ixs)"
    and "\<forall>k. k \<notin> index_keys sc ix \<longrightarrow> M' k = M k" "jx \<in> set ixs"
  shows "mirrors sc M' D jx \<longleftrightarrow> mirrors sc M D jx"
proof (rule mirrors_cong)
  fix k assume "k \<in> index_keys sc jx"
  then have "k \<notin> index_keys sc ix"
    using assms index_keys_disjoint [of sc ix jx] by auto
  then show "M' k = M k" using assms(4) by simp
qed

text \<open>A later run over other indices keeps the mirror of this one.\<close>

lemma mirrors_after:
  assumes "schema_ok sc" "set (ix # ixs) \<subseteq> set (indices sc)" "distinct (ix # ixs)"
    and "\<forall>k. k \<notin> all_keys sc ixs \<longrightarrow> M' k = M k"
  shows "mirrors sc M' D ix \<longleftrightarrow> mirrors sc M D ix"
proof (rule mirrors_cong)
  fix k assume k: "k \<in> index_keys sc ix"
  have "k \<notin> all_keys sc ixs"
  proof
    assume "k \<in> all_keys sc ixs"
    then obtain jx where "jx \<in> set ixs" "k \<in> index_keys sc jx" by (auto simp: all_keys_def)
    then show False using k assms index_keys_disjoint [of sc ix jx] by auto
  qed
  then show "M' k = M k" using assms(4) by simp
qed

context table_store
begin

lemma set_indices_ok:
  assumes "repr s M" "set ixs \<subseteq> set (indices sc)" "distinct ixs" "\<forall>ix \<in> set ixs. mirrors sc M D ix"
    and "obj_ok sc obj" "D seq = None" "\<forall>x \<in> dom D. x < seq"
    and "\<forall>ix \<in> set ixs. ix_unique ix \<longrightarrow> members D ix (extract_secondary_key ix obj) = {}"
  shows "\<exists>s' M'. set_indices H sc seq obj ixs s = Inr s' \<and> repr s' M' \<and>
    (\<forall>ix \<in> set ixs. mirrors sc M' (D(seq \<mapsto> obj)) ix) \<and> (\<forall>k. k \<notin> all_keys sc ixs \<longrightarrow> M' k = M k)"
  using assms
proof (induction ixs arbitrary: s M)
  case Nil
  then show ?case by auto
next
  case (Cons ix ixs)
  let ?v = "extract_secondary_key ix obj"
  have "key_ok ix ?v" using Cons.prems(2,5) by (auto simp: obj_ok_def)
  then obtain s1 M1 where 1: "(if ix_unique ix then set_index_db H sc s (ix_name ix) seq ?v
      else append_normal_index_one_db (normal_index H (table_name sc) (ix_name ix) ?v) seq s) = Inr s1"
    "repr s1 M1" "mirrors sc M1 (D(seq \<mapsto> obj)) ix" "\<forall>k. k \<notin> index_keys sc ix \<longrightarrow> M1 k = M k"
    using add_to_index [OF Cons.prems(1), of ix D ?v obj seq] Cons.prems by auto
  have "\<forall>jx \<in> set ixs. mirrors sc M1 D jx"
    using mirrors_others [OF schema Cons.prems(2,3) 1(4)] Cons.prems(4) by simp
  then obtain s' M' where 2: "set_indices H sc seq obj ixs s1 = Inr s'" "repr s' M'"
    "\<forall>jx \<in> set ixs. mirrors sc M' (D(seq \<mapsto> obj)) jx" "\<forall>k. k \<notin> all_keys sc ixs \<longrightarrow> M' k = M1 k"
    using Cons.IH [OF 1(2)] Cons.prems by (auto simp del: fun_upd_apply)
  have "mirrors sc M' (D(seq \<mapsto> obj)) ix"
    using mirrors_after [OF schema Cons.prems(2,3) 2(4)] 1(3) by simp
  then show ?case using 1 2 by (intro exI [of _ s'] exI [of _ M']) (auto simp del: fun_upd_apply)
qed

text \<open>Taking the indices apart; \<open>*position\<close> gives the same object every time.\<close>

lemma delete_indices_ok:
  assumes "repr s M" "set ixs \<subseteq> set (indices sc)" "distinct ixs" "\<forall>ix \<in> set ixs. mirrors sc M D ix"
    and "obj_ok sc obj" "D seq = Some obj" "\<forall>x \<in> dom D. unat x < 2 ^ 63" "\<And>s. deref s mi = Inr (obj, mi)"
  shows "\<exists>s' M'. delete_indices H sc deref seq ixs s mi = Inr (s', mi) \<and> repr s' M' \<and>
    (\<forall>ix \<in> set ixs. mirrors sc M' (D(seq := None)) ix) \<and> (\<forall>k. k \<notin> all_keys sc ixs \<longrightarrow> M' k = M k)"
  using assms
proof (induction ixs arbitrary: s M)
  case Nil
  then show ?case by auto
next
  case (Cons ix ixs)
  let ?v = "extract_secondary_key ix obj"
  have "key_ok ix ?v" using Cons.prems(2,5) by (auto simp: obj_ok_def)
  then obtain s1 M1 where 1: "(if ix_unique ix then delete_index_db H sc s (ix_name ix) ?v
      else delete_normal_index_db (normal_index H (table_name sc) (ix_name ix) ?v) seq s) = Inr s1"
    "repr s1 M1" "mirrors sc M1 (D(seq := None)) ix" "\<forall>k. k \<notin> index_keys sc ix \<longrightarrow> M1 k = M k"
    using remove_from_index [OF Cons.prems(1), of ix D seq obj ?v] Cons.prems by auto
  have "\<forall>jx \<in> set ixs. mirrors sc M1 D jx"
    using mirrors_others [OF schema Cons.prems(2,3) 1(4)] Cons.prems(4) by simp
  then obtain s' M' where 2: "delete_indices H sc deref seq ixs s1 mi = Inr (s', mi)" "repr s' M'"
    "\<forall>jx \<in> set ixs. mirrors sc M' (D(seq := None)) jx" "\<forall>k. k \<notin> all_keys sc ixs \<longrightarrow> M' k = M1 k"
    using Cons.IH [OF 1(2)] Cons.prems by (auto simp del: fun_upd_apply)
  have "mirrors sc M' (D(seq := None)) ix"
    using mirrors_after [OF schema Cons.prems(2,3) 2(4)] 1(3) by simp
  then show ?case using 1 2 Cons.prems(8) by (intro exI [of _ s'] exI [of _ M']) (auto simp del: fun_upd_apply)
qed

text \<open>The conflict test finds the objects with an equal unique key.\<close>

lemma is_conflict_ok:
  assumes "repr s M" "set ixs \<subseteq> set (indices sc)" "\<forall>ix \<in> set ixs. mirrors sc M D ix" "obj_ok sc obj"
  shows "is_conflict H sc s obj ixs =
    Inr (\<exists>ix \<in> set ixs. ix_unique ix \<and> members D ix (extract_secondary_key ix obj) \<noteq> {})"
  using assms
proof (induction ixs)
  case (Cons ix ixs)
  let ?v = "extract_secondary_key ix obj"
  have k: "key_ok ix ?v" using Cons.prems(2,4) by (auto simp: obj_ok_def)
  then have "mirrors_key sc M ix ?v (members D ix ?v)" using Cons.prems(3) by (simp add: mirrors_def)
  then have "ix_unique ix \<Longrightarrow> M (IndexKey (table_name sc) (ix_name ix) ?v) \<noteq> None \<longleftrightarrow> members D ix ?v \<noteq> {}"
    by (auto simp: mirrors_key_def split: option.splits)
  then have "ix_unique ix \<Longrightarrow> check_unique H sc s (ix_name ix) ?v = Inr (members D ix ?v \<noteq> {})"
    using multi_has [OF Cons.prems(1) unique_key [OF _ k]] Cons.prems(2) by (simp add: check_unique_def)
  then show ?case using Cons by auto
qed simp

end

section \<open>The table in the state and in memory\<close>

text \<open>The state holds the table \<open>D\<close>; \<open>c\<close> is the stored counter.\<close>

definition holds_table :: "'s chain_host \<Rightarrow> schema \<Rightarrow> 's \<Rightarrow> (64 word \<rightharpoonup> cval) \<Rightarrow> cval option \<Rightarrow> bool" where
  "holds_table H sc s D c \<longleftrightarrow> (\<exists>M. multi_repr H (table_key sc) (key_vtype (object_type sc)) s M \<and>
     (\<forall>seq. M (MultiDBKey (table_name sc) seq) = D seq) \<and> (\<forall>ix \<in> set (indices sc). mirrors sc M D ix) \<and>
     M (st_key (table_name sc)) = c)"

text \<open>Cached items hold the objects of the table.\<close>

definition items_cached :: "(64 word \<rightharpoonup> cval) \<Rightarrow> multi_index \<Rightarrow> bool" where
  "items_cached D mi \<longleftrightarrow> (\<forall>seq p. seq2item mi seq = Some p \<longrightarrow> p < length (mi_items mi) \<and>
     item_seq (mi_items mi ! p) = seq \<and> D seq = Some (item_obj (mi_items mi ! p)))"

definition table_ok :: "schema \<Rightarrow> (64 word \<rightharpoonup> cval) \<Rightarrow> 64 word \<Rightarrow> bool" where
  "table_ok sc D n \<longleftrightarrow> (\<forall>seq \<in> dom D. seq < n) \<and> (\<forall>obj \<in> ran D. obj_ok sc obj) \<and> unat n \<le> 2 ^ 63"

definition counter_is :: "schema \<Rightarrow> multi_index \<Rightarrow> 64 word \<Rightarrow> bool" where
  "counter_is sc mi n \<longleftrightarrow> st_get (mi_seq mi) = VUInt (ucast n) \<and> st_name (mi_seq mi) = table_name sc"

definition table_rel ::
  "'s chain_host \<Rightarrow> schema \<Rightarrow> 's \<Rightarrow> multi_index \<Rightarrow> (64 word \<rightharpoonup> cval) \<Rightarrow> 64 word \<Rightarrow> cval option \<Rightarrow> bool" where
  "table_rel H sc s mi D n c \<longleftrightarrow>
     holds_table H sc s D c \<and> items_cached D mi \<and> table_ok sc D n \<and> counter_is sc mi n"

text \<open>An iterator that stands at sequence number \<open>k\<close>, its item loaded or fresh.\<close>

definition stands_at :: "multi_index \<Rightarrow> iterator \<Rightarrow> 64 word \<Rightarrow> bool" where
  "stands_at mi p k \<longleftrightarrow> p < length (mi_items mi) \<and> item_seq (mi_items mi ! p) = k"

definition it_ok :: "schema \<Rightarrow> (64 word \<rightharpoonup> cval) \<Rightarrow> multi_index \<Rightarrow> iterator \<Rightarrow> 64 word \<Rightarrow> bool" where
  "it_ok sc D mi p k \<longleftrightarrow> stands_at mi p k \<and> (case seq2item mi k of
       None \<Rightarrow> item_obj (mi_items mi ! p) = default_val (object_type sc)
     | Some q \<Rightarrow> D k = Some (item_obj (mi_items mi ! p)))"

definition extends :: "multi_index \<Rightarrow> multi_index \<Rightarrow> bool" where
  "extends mi mi' \<longleftrightarrow> (\<forall>p k. stands_at mi p k \<longrightarrow> stands_at mi' p k)"

lemma extends_refl [simp]: "extends mi mi" by (simp add: extends_def)

lemma extends_trans: "extends a b \<Longrightarrow> extends b c \<Longrightarrow> extends a c" by (simp add: extends_def)

lemma counter_seq: "counter_is sc mi n \<Longrightarrow> seq_get mi = n"
  by (simp add: counter_is_def seq_get_def)

lemma counter_simps [simp]:
  "counter_is sc (mi\<lparr>mi_items := xs\<rparr>) n = counter_is sc mi n"
  "counter_is sc (mi\<lparr>seq2item := f\<rparr>) n = counter_is sc mi n"
  by (simp_all add: counter_is_def)

lemma counter_add: "counter_is sc mi n \<Longrightarrow> counter_is sc (seq_add k mi) (n + k)"
  using counter_seq [of sc mi n] by (simp add: counter_is_def seq_add_def st_assign_def st_get_def)

lemma make_item_ok:
  assumes "make_item mi it = (p, mi')"
  shows "extends mi mi'" "stands_at mi' p (item_seq it)" "mi_items mi' ! p = it" "seq2item mi' = seq2item mi"
    "items_cached D mi \<Longrightarrow> items_cached D mi'" "counter_is sc mi' n = counter_is sc mi n" "mi_seq mi' = mi_seq mi"
  using assms by (auto simp: make_item_def extends_def stands_at_def items_cached_def nth_append less_SucI)

lemma cend_ok:
  assumes "cend sc mi = (p, mi')" "counter_is sc mi n"
  shows "extends mi mi'" "stands_at mi' p n" "seq2item mi' = seq2item mi"
    "items_cached D mi \<Longrightarrow> items_cached D mi'" "counter_is sc mi' n"
  using make_item_ok [OF assms(1) [unfolded cend_def]] counter_seq [OF assms(2)] assms(2) by simp_all

lemma item_for_ok:
  assumes "item_for sc mi k = (p, mi')" "items_cached D mi"
  shows "extends mi mi'" "it_ok sc D mi' p k" "items_cached D mi'" "counter_is sc mi' n = counter_is sc mi n"
proof -
  let ?it = "\<lparr>item_obj = default_val (object_type sc), item_seq = k\<rparr>"
  have "extends mi mi' \<and> it_ok sc D mi' p k \<and> items_cached D mi' \<and> counter_is sc mi' n = counter_is sc mi n"
  proof (cases "seq2item mi k")
    case None
    then have m: "make_item mi ?it = (p, mi')" using assms(1) by (simp add: item_for_def)
    show ?thesis using make_item_ok [OF m] None assms(2) by (simp add: it_ok_def)
  next
    case (Some q)
    then have "p = q" "mi' = mi" using assms(1) by (simp_all add: item_for_def)
    then show ?thesis using Some assms(2) by (simp add: it_ok_def items_cached_def stands_at_def)
  qed
  then show "extends mi mi'" "it_ok sc D mi' p k" "items_cached D mi'" "counter_is sc mi' n = counter_is sc mi n"
    by simp_all
qed

lemma item_at_stands: "stands_at mi p k \<Longrightarrow> item_at mi p = Inr (mi_items mi ! p)"
  by (simp add: item_at_def stands_at_def)

lemma it_eq_stands: "stands_at mi p k \<Longrightarrow> stands_at mi q l \<Longrightarrow> it_eq mi p q = Inr (k = l)"
  by (simp add: it_eq_def item_at_stands) (simp add: stands_at_def)

context table_store
begin

lemma db_key [simp]: "table_key sc (MultiDBKey (table_name sc) seq)"
  by (auto simp: table_key_def)

lemma has_object: "holds_table H sc s D c \<Longrightarrow> has_state_db H sc s seq = Inr (seq \<in> dom D)"
  using multi_has [of s _ "MultiDBKey (table_name sc) seq"] by (force simp: holds_table_def has_state_db_def)

lemma get_object:
  assumes "holds_table H sc s D c" "D seq = Some obj"
  shows "get_state_db H sc s seq (default_val (object_type sc)) = Inr obj"
proof -
  obtain M where M: "repr s M" "M (MultiDBKey (table_name sc) seq) = Some obj"
    using assms by (auto simp: holds_table_def)
  show ?thesis
    using multi_get [OF M(1) db_key, of "object_type sc" seq] M(2) by (auto simp: get_state_db_def)
qed

lemma deref_ok:
  assumes "table_rel H sc s mi D n c" "it_ok sc D mi p k" "D k = Some obj"
  shows "\<exists>mi'. it_deref H sc s mi p = Inr (obj, mi') \<and> table_rel H sc s mi' D n c \<and> extends mi mi' \<and>
    it_ok sc D mi' p k \<and> (\<forall>s. it_deref H sc s mi' p = Inr (obj, mi'))"
proof (cases "seq2item mi k")
  case None
  have p: "p < length (mi_items mi)" "item_seq (mi_items mi ! p) = k" "item_obj (mi_items mi ! p) = default_val (object_type sc)"
    using assms(2) None by (simp_all add: it_ok_def stands_at_def)
  let ?mi = "mi\<lparr>mi_items := (mi_items mi)[p := (mi_items mi ! p)\<lparr>item_obj := obj\<rparr>], seq2item := (seq2item mi)(k \<mapsto> p)\<rparr>"
  have "get_state_db H sc s k (default_val (object_type sc)) = Inr obj"
    using assms by (intro get_object [where c = c and D = D]) (simp_all add: table_rel_def)
  then have "it_deref H sc s mi p = Inr (obj, ?mi)" using p None by (simp add: it_deref_def item_at_def)
  moreover have "items_cached D ?mi"
    using assms p None by (auto simp: items_cached_def table_rel_def nth_list_update)
  moreover have "extends mi ?mi" using p by (auto simp: extends_def stands_at_def nth_list_update)
  ultimately show ?thesis
    using assms(1,3) p by (intro exI [of _ ?mi]) (simp add: table_rel_def it_ok_def stands_at_def it_deref_def item_at_def)
next
  case (Some q)
  then have "it_deref H sc s mi p = Inr (obj, mi)" for s
    using assms(2,3) by (simp add: it_ok_def it_deref_def item_at_def stands_at_def)
  then show ?thesis using assms by auto
qed

end

section \<open>Operations\<close>

definition conflicts :: "schema \<Rightarrow> (64 word \<rightharpoonup> cval) \<Rightarrow> cval \<Rightarrow> bool" where
  "conflicts sc D obj \<longleftrightarrow> (\<exists>ix \<in> set (indices sc). ix_unique ix \<and> members D ix (extract_secondary_key ix obj) \<noteq> {})"

lemma mirrors_db:
  "mirrors sc (M(MultiDBKey t seq := x)) D ix \<longleftrightarrow> mirrors sc M D ix"
  "mirrors sc (M(st_key name := x)) D ix \<longleftrightarrow> mirrors sc M D ix"
  by (rule mirrors_cong; auto)+

lemma table_ok_upd:
  assumes "table_ok sc D n" "obj_ok sc obj" "unat n < 2 ^ 63"
  shows "table_ok sc (D(n \<mapsto> obj)) (n + 1)" "D n = None"
proof -
  have n: "unat (n + 1) = unat n + 1" using assms(3) by (simp add: unat_word_ariths)
  show "D n = None" using assms(1) by (force simp: table_ok_def)
  have "seq < n + 1" if "seq \<in> dom (D(n \<mapsto> obj))" for seq
  proof -
    have "seq = n \<or> seq \<in> dom D" using that by auto
    then have "seq \<le> n" using assms(1) by (auto simp: table_ok_def dom_def intro: order.strict_implies_order)
    then have "unat seq \<le> unat n" by (simp add: word_le_nat_alt)
    then show ?thesis using n by (simp add: word_less_nat_alt)
  qed
  moreover have "obj_ok sc x" if "x \<in> ran (D(n \<mapsto> obj))" for x
    using that assms(1,2) by (auto simp: table_ok_def ran_def split: if_splits)
  ultimately show "table_ok sc (D(n \<mapsto> obj)) (n + 1)" using assms(3) n by (simp add: table_ok_def)
qed

lemma table_ok_sub:
  assumes "table_ok sc D n" "dom D' \<subseteq> dom D" "\<forall>obj \<in> ran D'. obj_ok sc obj"
  shows "table_ok sc D' n"
  using assms by (auto simp: table_ok_def)

lemma ran_upd: "x \<in> ran (D(k \<mapsto> y)) \<Longrightarrow> x = y \<or> x \<in> ran D"
  by (auto simp: ran_def split: if_splits)

lemma ran_del: "x \<in> ran (D(k := None)) \<Longrightarrow> x \<in> ran D"
  by (auto simp: ran_def split: if_splits)

context table_store
begin

lemma set_object:
  assumes "repr s M" "obj_ok sc obj"
  shows "\<exists>s'. set_state_db H sc s seq obj = Inr s' \<and> repr s' (M(MultiDBKey (table_name sc) seq \<mapsto> obj))"
  using multi_set [OF assms(1) db_key [of seq], of obj] assms(2) by (simp add: set_state_db_def obj_ok_def)

lemma emplace_ok:
  assumes rel: "table_rel H sc s mi D n c" and obj: "obj = f (default_val (object_type sc))" "obj_ok sc obj"
    and small: "unat n < 2 ^ 63"
  shows "conflicts sc D obj \<Longrightarrow> \<exists>e mi'. emplace H sc f s mi = Inr ((e, False), s, mi') \<and> table_rel H sc s mi' D n c"
    and "\<not> conflicts sc D obj \<Longrightarrow> \<exists>p s' mi'. emplace H sc f s mi = Inr ((p, True), s', mi') \<and>
      table_rel H sc s' mi' (D(n \<mapsto> obj)) (n + 1) c \<and> it_ok sc (D(n \<mapsto> obj)) mi' p n \<and> seq2item mi' n = Some p"
proof -
  obtain M where M: "repr s M" "\<forall>seq. M (MultiDBKey (table_name sc) seq) = D seq"
    "\<forall>ix \<in> set (indices sc). mirrors sc M D ix" "M (st_key (table_name sc)) = c"
    using rel by (auto simp: table_rel_def holds_table_def)
  have tab: "table_ok sc D n" and cache: "items_cached D mi" and cnt: "counter_is sc mi n"
    using rel by (simp_all add: table_rel_def)
  note seq = counter_seq [OF cnt]
  obtain p mi1 where p: "make_item mi \<lparr>item_obj = obj, item_seq = n\<rparr> = (p, mi1)" by fastforce
  let ?mi2 = "seq_add 1 mi1"
  note mk = make_item_ok [OF p]
  have cnt2: "counter_is sc ?mi2 (n + 1)" "counter_is sc (seq_add (- 1) ?mi2) n"
    using counter_add [of sc mi1 n 1] counter_add [of sc ?mi2 "n + 1" "- 1"] mk(6) cnt by simp_all
  have c: "(if has_unique_index sc then is_conflict H sc s obj (indices sc) else Inr False) = Inr (conflicts sc D obj)"
    using is_conflict_ok [OF M(1) subset_refl M(3) obj(2)] by (auto simp: conflicts_def has_unique_index_def)
  have upd [simp]: "seq2item (seq_add k m) = seq2item m" "mi_items (seq_add k m) = mi_items m" for k m
    by (simp_all add: seq_add_def)
  show "\<exists>e mi'. emplace H sc f s mi = Inr ((e, False), s, mi') \<and> table_rel H sc s mi' D n c" if "conflicts sc D obj"
  proof -
    obtain e mi3 where e: "cend sc (seq_add (- 1) ?mi2) = (e, mi3)" by fastforce
    have "items_cached D (seq_add (- 1) ?mi2)" using mk(5) [OF cache] by (simp add: items_cached_def)
    then have "table_rel H sc s mi3 D n c"
      using cend_ok(4,5) [OF e cnt2(2)] rel by (simp add: table_rel_def)
    then show ?thesis using c that p e seq obj(1) [symmetric] by (simp add: emplace_def Let_def)
  qed
  show "\<exists>p s' mi'. emplace H sc f s mi = Inr ((p, True), s', mi') \<and> table_rel H sc s' mi' (D(n \<mapsto> obj)) (n + 1) c \<and>
      it_ok sc (D(n \<mapsto> obj)) mi' p n \<and> seq2item mi' n = Some p" if no: "\<not> conflicts sc D obj"
  proof -
    have "\<forall>x \<in> dom D. x < n" using tab by (simp add: table_ok_def)
    moreover have "distinct (indices sc)" using schema by (simp add: schema_ok_def distinct_map)
    ultimately obtain s1 M1 where 1: "set_indices H sc n obj (indices sc) s = Inr s1" "repr s1 M1"
      "\<forall>ix \<in> set (indices sc). mirrors sc M1 (D(n \<mapsto> obj)) ix" "\<forall>k. k \<notin> all_keys sc (indices sc) \<longrightarrow> M1 k = M k"
      using set_indices_ok [OF M(1) subset_refl _ M(3) obj(2) table_ok_upd(2) [OF tab obj(2) small]] no
      by (auto simp: conflicts_def simp del: fun_upd_apply)
    let ?M = "M1(MultiDBKey (table_name sc) n \<mapsto> obj)"
    obtain s2 where 2: "set_state_db H sc s1 n obj = Inr s2" "repr s2 ?M" using set_object [OF 1(2) obj(2)] by blast
    let ?mi = "?mi2\<lparr>seq2item := (seq2item ?mi2)(n \<mapsto> p)\<rparr>"
    have "mirrors sc ?M (D(n \<mapsto> obj)) ix" if "ix \<in> set (indices sc)" for ix
      using 1(3) that unfolding mirrors_db by simp
    then have "holds_table H sc s2 (D(n \<mapsto> obj)) c"
      using 2(2) 1(4) M(2,4) unfolding holds_table_def by (intro exI [of _ ?M]) simp
    moreover have "items_cached (D(n \<mapsto> obj)) ?mi"
      using mk(2-4) mk(5) [OF cache] by (auto simp: items_cached_def stands_at_def)
    moreover note table_ok_upd(1) [OF tab obj(2) small] cnt2(1)
    ultimately have "table_rel H sc s2 ?mi (D(n \<mapsto> obj)) (n + 1) c" by (simp add: table_rel_def)
    moreover have "it_ok sc (D(n \<mapsto> obj)) ?mi p n" using mk(2,3) by (simp add: it_ok_def stands_at_def)
    ultimately show ?thesis using c no p 1(1) 2(1) seq obj(1) [symmetric] by (simp add: emplace_def Let_def)
  qed
qed

end

context table_store
begin

lemma get_item_ptr_ok:
  assumes "table_rel H sc s mi D n c" "D k = Some obj"
  shows "\<exists>p mi'. get_item_ptr H sc s mi k = Inr (p, mi') \<and> table_rel H sc s mi' D n c \<and> extends mi mi' \<and>
    it_ok sc D mi' p k \<and> item_at mi' p = Inr \<lparr>item_obj = obj, item_seq = k\<rparr>"
proof (cases "seq2item mi k")
  case None
  obtain p mi1 where p: "make_item mi \<lparr>item_obj = obj, item_seq = k\<rparr> = (p, mi1)" by fastforce
  let ?mi = "mi1\<lparr>seq2item := (seq2item mi1)(k \<mapsto> p)\<rparr>"
  have "get_state_db H sc s k (default_val (object_type sc)) = Inr obj"
    using assms by (intro get_object [where c = c and D = D]) (simp_all add: table_rel_def)
  then have "get_item_ptr H sc s mi k = Inr (p, ?mi)" using None p by (simp add: get_item_ptr_def)
  moreover have "items_cached D ?mi"
    using make_item_ok(2-5) [OF p] assms by (auto simp: items_cached_def stands_at_def table_rel_def)
  moreover have "extends mi ?mi" using make_item_ok(1) [OF p] by (simp add: extends_def stands_at_def)
  ultimately show ?thesis
    using make_item_ok(2,3) [OF p] make_item_ok(6) [OF p, of sc n] assms
    by (intro exI [of _ p] exI [of _ ?mi]) (simp add: table_rel_def it_ok_def stands_at_def item_at_def)
next
  case (Some p)
  then have i: "p < length (mi_items mi)" "item_seq (mi_items mi ! p) = k" "item_obj (mi_items mi ! p) = obj"
    using assms by (auto simp: table_rel_def items_cached_def)
  then have "mi_items mi ! p = \<lparr>item_obj = obj, item_seq = k\<rparr>" by (cases "mi_items mi ! p") simp
  then show ?thesis using Some assms i
    by (intro exI [of _ p] exI [of _ mi]) (simp add: get_item_ptr_def it_ok_def stands_at_def item_at_def)
qed

lemma find_item_ok:
  assumes rel: "table_rel H sc s mi D n c" and ix: "ix \<in> set (indices sc)" "ix_unique ix" and v: "key_ok ix v"
  shows "members D ix v = {} \<Longrightarrow> \<exists>e mi'. find_item H sc (ix_name ix) v s mi = Inr (e, mi') \<and>
      table_rel H sc s mi' D n c \<and> stands_at mi' e n"
    and "k \<in> members D ix v \<Longrightarrow> \<exists>p mi'. find_item H sc (ix_name ix) v s mi = Inr (p, mi') \<and>
      table_rel H sc s mi' D n c \<and> it_ok sc D mi' p k"
proof -
  let ?k = "IndexKey (table_name sc) (ix_name ix) v"
  obtain M where M: "repr s M" "mirrors sc M D ix" using rel ix by (auto simp: table_rel_def holds_table_def)
  obtain e mi1 where e: "cend sc mi = (e, mi1)" by fastforce
  have cnt: "counter_is sc mi n" and cache: "items_cached D mi" using rel by (simp_all add: table_rel_def)
  have rel1: "table_rel H sc s mi1 D n c"
    using cend_ok(4,5) [OF e cnt] rel by (simp add: table_rel_def)
  have mk: "mirrors_key sc M ix v (members D ix v)" using M(2) v by (simp add: mirrors_def)
  have has: "has_index_db H sc s (ix_name ix) v = Inr (M ?k \<noteq> None)"
    using multi_has [OF M(1) unique_key [OF ix(1) v]] by (simp add: has_index_db_def)
  have ex: "check_index_exist sc (ix_name ix)" using ix(1) by (auto simp: check_index_exist_def)
  show "\<exists>e mi'. find_item H sc (ix_name ix) v s mi = Inr (e, mi') \<and> table_rel H sc s mi' D n c \<and> stands_at mi' e n"
    if "members D ix v = {}"
  proof -
    have "M ?k = None" using mk that ix(2) by (auto simp: mirrors_key_def split: option.splits)
    then show ?thesis using has e ex rel1 cend_ok(2) [OF e cnt] by (simp add: find_item_def)
  qed
  show "\<exists>p mi'. find_item H sc (ix_name ix) v s mi = Inr (p, mi') \<and> table_rel H sc s mi' D n c \<and> it_ok sc D mi' p k"
    if k: "k \<in> members D ix v"
  proof -
    have mk': "M ?k = Some (VUInt (ucast k))" using mk k ix(2) by (auto simp: mirrors_key_def split: option.splits)
    then have "get_index_db H sc s (ix_name ix) v = Inr k"
      using multi_get [OF M(1) unique_key [OF ix(1) v], of "TU W64"] by (auto simp: get_index_db_def)
    moreover obtain obj where "D k = Some obj" using k by (auto simp: members_def)
    then obtain p mi2 where "get_item_ptr H sc s mi1 k = Inr (p, mi2)" "table_rel H sc s mi2 D n c" "it_ok sc D mi2 p k"
      using get_item_ptr_ok [OF rel1] by blast
    ultimately show ?thesis using has e ex mk' by (simp add: find_item_def)
  qed
qed

lemma same_keys_refl [simp]: "same_keys sc obj obj"
  by (simp add: same_keys_def)

lemma store_new_ok:
  assumes rel: "table_rel H sc s mi D n c" and k: "D k = Some cur" "same_keys sc cur new" "obj_ok sc new"
    and p: "make_item mi \<lparr>item_obj = new, item_seq = k\<rparr> = (p, mi1)"
  shows "\<exists>s1. set_state_db H sc s k new = Inr s1 \<and>
    table_rel H sc s1 (mi1\<lparr>seq2item := (seq2item mi1)(k \<mapsto> p)\<rparr>) (D(k \<mapsto> new)) n c"
proof -
  obtain M where M: "repr s M" "\<forall>seq. M (MultiDBKey (table_name sc) seq) = D seq"
    "\<forall>ix \<in> set (indices sc). mirrors sc M D ix" "M (st_key (table_name sc)) = c"
    using rel by (auto simp: table_rel_def holds_table_def)
  have cache: "items_cached D mi1" and cnt: "counter_is sc mi1 n" and tab: "table_ok sc D n"
    using make_item_ok(5) [OF p] make_item_ok(6) [OF p, of sc n] rel by (simp_all add: table_rel_def)
  let ?M = "M(MultiDBKey (table_name sc) k \<mapsto> new)" and ?D = "D(k \<mapsto> new)"
  obtain s1 where s1: "set_state_db H sc s k new = Inr s1" "repr s1 ?M" using set_object [OF M(1) k(3)] by blast
  have "mirrors sc M ?D ix" if "ix \<in> set (indices sc)" for ix
    using M(3) that k(1,2) members_same_key [of D k cur ix new] by (simp add: same_keys_def mirrors_def)
  then have "holds_table H sc s1 ?D c"
    using s1(2) M unfolding holds_table_def by (intro exI [of _ ?M]) (simp add: mirrors_db)
  moreover have "table_ok sc ?D n"
    using tab k ran_upd [of _ D k new] by (intro table_ok_sub [OF tab]) (auto simp: table_ok_def)
  moreover have "items_cached ?D (mi1\<lparr>seq2item := (seq2item mi1)(k \<mapsto> p)\<rparr>)"
    using cache make_item_ok(2,3) [OF p] by (auto simp: items_cached_def stands_at_def)
  ultimately show ?thesis using s1(1) cnt by (simp add: table_rel_def)
qed

lemma store_modified_ok:
  assumes rel: "table_rel H sc s mi D n c" and k: "D k = Some cur" "same_keys sc cur obj" "obj_ok sc new"
  shows "\<exists>s' mi'. store_modified H sc obj new k s mi = Inr (s', mi') \<and>
    table_rel H sc s' mi' (if same_keys sc obj new then D(k \<mapsto> new) else D) n c"
proof -
  obtain p mi1 where p: "make_item mi \<lparr>item_obj = new, item_seq = k\<rparr> = (p, mi1)" by fastforce
  show ?thesis
  proof (cases "same_keys sc obj new")
    case True
    then have "same_keys sc cur new" using k(2) by (simp add: same_keys_def)
    then show ?thesis using store_new_ok [OF rel k(1) _ k(3) p] True p by (auto simp: store_modified_def)
  next
    case False
    moreover have "items_cached D mi1" "counter_is sc mi1 n"
      using make_item_ok(5) [OF p] make_item_ok(6) [OF p, of sc n] rel by (simp_all add: table_rel_def)
    ultimately show ?thesis using p rel by (simp add: store_modified_def table_rel_def)
  qed
qed

lemma modify_ok:
  assumes "table_rel H sc s mi D n c" "it_ok sc D mi p k" "D k = Some obj" "obj_ok sc (f obj)"
  shows "\<exists>s' mi'. modify H sc p f s mi = Inr (s', mi') \<and>
    table_rel H sc s' mi' (if same_keys sc obj (f obj) then D(k \<mapsto> f obj) else D) n c"
proof -
  obtain mi1 where 1: "it_deref H sc s mi p = Inr (obj, mi1)" "table_rel H sc s mi1 D n c" "it_ok sc D mi1 p k"
    using deref_ok [OF assms(1-3)] by blast
  have "item_at mi1 p = Inr (mi_items mi1 ! p)" "item_seq (mi_items mi1 ! p) = k"
    using 1(3) item_at_stands [of mi1 p k] by (simp_all add: it_ok_def stands_at_def)
  then show ?thesis using store_modified_ok [OF 1(2) assms(3) same_keys_refl assms(4)] 1(1) by (simp add: modify_def)
qed

lemma delete_indices_first:
  assumes "deref s mi = Inr (obj, mi1)" "deref s mi1 = Inr (obj, mi1)"
  shows "delete_indices H sc deref seq ixs s mi =
    (if ixs = [] then Inr (s, mi) else delete_indices H sc deref seq ixs s mi1)"
  using assms by (cases ixs) simp_all

lemma erase_ok:
  assumes rel: "table_rel H sc s mi D n c" and p: "it_ok sc D mi p k" and k: "D k = Some obj"
  shows "\<exists>s' mi'. erase H sc p s mi = Inr (s', mi') \<and> table_rel H sc s' mi' (D(k := None)) n c"
proof -
  let ?deref = "\<lambda>s mi. it_deref H sc s mi p" and ?D = "D(k := None)"
  obtain mi1 where 1: "it_deref H sc s mi p = Inr (obj, mi1)" "table_rel H sc s mi1 D n c"
    "\<And>s. it_deref H sc s mi1 p = Inr (obj, mi1)" using deref_ok [OF rel p k] by blast
  obtain M where M: "repr s M" "\<forall>seq. M (MultiDBKey (table_name sc) seq) = D seq"
    "\<forall>ix \<in> set (indices sc). mirrors sc M D ix" "M (st_key (table_name sc)) = c"
    using rel by (auto simp: table_rel_def holds_table_def)
  have tab: "table_ok sc D n" using rel by (simp add: table_rel_def)
  have small: "\<forall>x \<in> dom D. unat x < 2 ^ 63" using tab unfolding table_ok_def word_less_nat_alt by (blast intro: order.strict_trans2)
  have obj: "obj_ok sc obj" using tab k by (auto simp: table_ok_def ran_def)
  have dis: "distinct (indices sc)" using schema by (simp add: schema_ok_def distinct_map)
  obtain s1 M1 where 2: "delete_indices H sc ?deref k (indices sc) s mi1 = Inr (s1, mi1)" "repr s1 M1"
    "\<forall>ix \<in> set (indices sc). mirrors sc M1 ?D ix" "\<forall>k. k \<notin> all_keys sc (indices sc) \<longrightarrow> M1 k = M k"
    using delete_indices_ok [OF M(1) subset_refl dis M(3) obj k small, of ?deref mi1] 1(3) by blast
  define mi2 where "mi2 = (if indices sc = [] then mi else mi1)"
  have del: "delete_indices H sc ?deref k (indices sc) s mi = Inr (s1, mi2)"
    using 2(1) delete_indices_first [of ?deref, OF 1(1,3)] by (auto simp: mi2_def)
  have rel2: "table_rel H sc s mi2 D n c" using rel 1(2) by (simp add: mi2_def)
  let ?M = "M1(MultiDBKey (table_name sc) k := None)" and ?mi = "mi2\<lparr>seq2item := (seq2item mi2)(k := None)\<rparr>"
  obtain s2 where s2: "delete_state_db H sc s1 k = Inr s2" "repr s2 ?M"
    using multi_del [OF 2(2) db_key] by (auto simp: delete_state_db_def)
  have "holds_table H sc s2 ?D c"
    using s2(2) 2(3,4) M(2,4) unfolding holds_table_def by (intro exI [of _ ?M]) (simp add: mirrors_db)
  moreover have "table_ok sc ?D n"
    using tab ran_del [of _ D k] by (intro table_ok_sub [OF tab]) (auto simp: table_ok_def)
  moreover have "items_cached ?D ?mi" using rel2 by (auto simp: table_rel_def items_cached_def)
  ultimately have "table_rel H sc s2 ?mi ?D n c" using rel2 by (simp add: table_rel_def)
  moreover have "item_at mi p = Inr (mi_items mi ! p)" "item_seq (mi_items mi ! p) = k"
    using p item_at_stands [of mi p k] by (simp_all add: it_ok_def stands_at_def)
  ultimately show ?thesis using del s2(1) by (simp add: erase_def erase_item_def)
qed

end

end
