(* ===== verification/Multi_Scan.thy ===== *)
theory Multi_Scan
  imports Multi_Ops
begin

text \<open>
  Loops over a \<open>MultiIndex\<close>: with the iterators of the table, which skip the numbers of erased objects,
  and with the iterators of an ordinary index. Both end and see the objects of the table in the
  order of their sequence numbers.
\<close>

section \<open>Scanning the table\<close>

text \<open>The loop \<open>for (it = cbegin(); it != it_end; ++it)\<close> and the objects it sees.\<close>

fun scan_from ::
  "nat \<Rightarrow> 's chain_host \<Rightarrow> schema \<Rightarrow> 's \<Rightarrow> iterator \<Rightarrow> iterator \<Rightarrow> multi_index \<Rightarrow> (cval list \<times> multi_index) res" where
  "scan_from 0 H sc s it it_end mi = Inl OutOfFuel"
| "scan_from (Suc fuel) H sc s it it_end mi =
     bind_res (it_eq mi it it_end) (\<lambda>eq.
       if eq then Inr ([], mi)
       else
         bind_res (it_deref H sc s mi it) (\<lambda>(obj, mi1).
         bind_res (it_inc H sc s mi1 it) (\<lambda>(it1, mi2).
         bind_res (scan_from fuel H sc s it1 it_end mi2) (\<lambda>(objs, mi3). Inr (obj # objs, mi3)))))"

definition scan :: "'s chain_host \<Rightarrow> schema \<Rightarrow> 's \<Rightarrow> multi_index \<Rightarrow> (cval list \<times> multi_index) res" where
  "scan H sc s mi =
     bind_res (cbegin H sc s mi) (\<lambda>(it, mi1).
       let (it_end, mi2) = cend sc mi1 in scan_from (unat (seq_get mi2) + 1) H sc s it it_end mi2)"

text \<open>The sequence numbers from \<open>k\<close> on, in ascending order.\<close>

definition seqs_from :: "(64 word \<rightharpoonup> cval) \<Rightarrow> 64 word \<Rightarrow> 64 word list" where
  "seqs_from D k = sorted_list_of_set {x \<in> dom D. k \<le> x}"

definition objects :: "(64 word \<rightharpoonup> cval) \<Rightarrow> cval list" where
  "objects D = map (the \<circ> D) (sorted_list_of_set (dom D))"

text \<open>\<open>r\<close> is the first number from \<open>k\<close> on that has an object, or the end.\<close>

definition first_from :: "(64 word \<rightharpoonup> cval) \<Rightarrow> 64 word \<Rightarrow> 64 word \<Rightarrow> 64 word \<Rightarrow> bool" where
  "first_from D n k r \<longleftrightarrow> k \<le> r \<and> r \<le> n \<and> (r < n \<longrightarrow> r \<in> dom D) \<and> (\<forall>x. k \<le> x \<longrightarrow> x < r \<longrightarrow> x \<notin> dom D)"

lemma succ_word:
  fixes k n :: "64 word"
  assumes "k < n"
  shows "unat (k + 1) = unat k + 1" "k + 1 \<le> n"
proof -
  have "unat k < unat n" "unat n < 2 ^ 64" using assms unat_bound [of n] by (simp_all add: word_less_nat_alt)
  then show *: "unat (k + 1) = unat k + 1" by (simp add: unat_word_ariths)
  show "k + 1 \<le> n" unfolding word_le_nat_alt * using \<open>unat k < unat n\<close> by simp
qed

lemma less_succ_word:
  fixes k n x :: "64 word"
  assumes "k < n"
  shows "x < k + 1 \<longleftrightarrow> x \<le> k" "k + 1 \<le> x \<longleftrightarrow> k < x"
  unfolding word_le_nat_alt word_less_nat_alt succ_word(1) [OF assms] by auto

lemma seqs_from_first:
  assumes "first_from D n k r" "\<forall>x \<in> dom D. x < n"
  shows "seqs_from D k = (if r < n then r # seqs_from D (r + 1) else [])"
proof (cases "r < n")
  case True
  let ?S = "{x \<in> dom D. k \<le> x}"
  have r: "r \<in> ?S" "\<And>x. x \<in> ?S \<Longrightarrow> r \<le> x" using assms True by (auto simp: first_from_def not_less)
  then have m: "Min ?S = r" by (intro Min_eqI) auto
  have "?S - {r} = {x \<in> dom D. r + 1 \<le> x}"
    using r assms(1) less_succ_word(2) [OF True] by (auto simp: first_from_def order_le_less dest: r(2))
  then show ?thesis using sorted_list_of_set_nonempty [of ?S] r(1) True m unfolding seqs_from_def by auto
next
  case False
  then have "{x \<in> dom D. k \<le> x} = {}" using assms by (force simp: first_from_def)
  then show ?thesis using False by (simp add: seqs_from_def)
qed

lemma it_ok_cend: "cend sc mi = (e, mi') \<Longrightarrow> it_ok sc D mi p k \<Longrightarrow> it_ok sc D mi' p k"
  by (auto simp: it_ok_def stands_at_def cend_def make_item_def nth_append split: option.splits)

lemma objects_seqs: "objects D = map (the \<circ> D) (seqs_from D 0)"
  by (simp add: objects_def seqs_from_def)

context table_store
begin

lemma skip_absent_ok:
  "holds_table H sc s D c \<Longrightarrow> k \<le> n \<Longrightarrow> \<exists>r. skip_absent H sc s n k = Inr r \<and> first_from D n k r"
proof (induction "unat n - unat k" arbitrary: k rule: less_induct)
  case less
  show ?case
  proof (cases "k < n \<and> k \<notin> dom D")
    case True
    note k = less_succ_word [of k n] succ_word [of k n]
    have "unat n - unat (k + 1) < unat n - unat k" using True k(3) by (auto simp: word_less_nat_alt)
    then obtain r where r: "skip_absent H sc s n (k + 1) = Inr r" "first_from D n (k + 1) r"
      using less.hyps [of "k + 1"] less.prems True k(4) by blast
    have "first_from D n k r"
      using r(2) True k by (auto simp: first_from_def order_le_less)
    then show ?thesis using r(1) True has_object [OF less.prems(1)] by (simp add: skip_absent.simps [of _ _ _ n k])
  next
    case False
    then have "skip_absent H sc s n k = Inr k" using has_object [OF less.prems(1)] by (simp add: skip_absent.simps [of _ _ _ n k])
    moreover have "first_from D n k k" using False less.prems(2) by (auto simp: first_from_def)
    ultimately show ?thesis by blast
  qed
qed

lemma cbegin_ok:
  assumes "table_rel H sc s mi D n c"
  shows "\<exists>p mi' r. cbegin H sc s mi = Inr (p, mi') \<and> first_from D n 0 r \<and> table_rel H sc s mi' D n c \<and> it_ok sc D mi' p r"
proof -
  have c: "items_cached D mi" "counter_is sc mi n" using assms by (simp_all add: table_rel_def)
  obtain r where r: "skip_absent H sc s n 0 = Inr r" "first_from D n 0 r"
    using skip_absent_ok [of s D c 0 n] assms by (auto simp: table_rel_def)
  obtain p mi' where p: "item_for sc mi r = (p, mi')" by fastforce
  then show ?thesis
    using r item_for_ok(2,3) [OF p c(1)] item_for_ok(4) [OF p c(1), of n] assms counter_seq [OF c(2)]
    by (auto simp: cbegin_def table_rel_def)
qed

lemma inc_ok:
  assumes rel: "table_rel H sc s mi D n c" and p: "stands_at mi p k" and k: "k < n"
  shows "\<exists>q mi' r. it_inc H sc s mi p = Inr (q, mi') \<and> first_from D n (k + 1) r \<and>
    table_rel H sc s mi' D n c \<and> extends mi mi' \<and> it_ok sc D mi' q r"
proof -
  have c: "items_cached D mi" "counter_is sc mi n" "holds_table H sc s D c" and below: "\<forall>x \<in> dom D. x < n"
    using rel by (simp_all add: table_rel_def table_ok_def)
  have i: "item_at mi p = Inr (mi_items mi ! p)" "item_seq (mi_items mi ! p) = k"
    using p item_at_stands by (auto simp: stands_at_def)
  show ?thesis
  proof (cases "seq2item mi (k + 1)")
    case None
    obtain r where r: "skip_absent H sc s n (k + 1) = Inr r" "first_from D n (k + 1) r"
      using skip_absent_ok [OF c(3) succ_word(2) [OF k]] by blast
    obtain q mi' where q: "item_for sc mi r = (q, mi')" by fastforce
    then show ?thesis
      using r None less_imp_neq [OF k] i item_for_ok(1-3) [OF q c(1)] item_for_ok(4) [OF q c(1), of n] rel counter_seq [OF c(2)]
      by (auto simp: it_inc_def table_rel_def)
  next
    case (Some q)
    then have q: "stands_at mi q (k + 1)" "D (k + 1) = Some (item_obj (mi_items mi ! q))"
      using c(1) by (auto simp: items_cached_def stands_at_def)
    then have "first_from D n (k + 1) (k + 1)" using below succ_word(2) [OF k] by (auto simp: first_from_def)
    moreover have "it_ok sc D mi q (k + 1)" using q Some by (simp add: it_ok_def)
    ultimately show ?thesis using Some i k rel counter_seq [OF c(2)] by (auto simp: it_inc_def)
  qed
qed

lemma scan_from_ok:
  assumes "table_rel H sc s mi D n c" "it_ok sc D mi p r" "stands_at mi e n" "first_from D n k r" "unat n - unat r < fuel"
  shows "\<exists>mi'. scan_from fuel H sc s p e mi = Inr (map (the \<circ> D) (seqs_from D k), mi') \<and> table_rel H sc s mi' D n c"
  using assms
proof (induction fuel arbitrary: mi p r k)
  case (Suc fuel)
  note rel = Suc.prems(1) and p = Suc.prems(2) and e = Suc.prems(3) and first = Suc.prems(4)
  have below: "\<forall>x \<in> dom D. x < n" using rel by (simp add: table_rel_def table_ok_def)
  note seqs = seqs_from_first [OF first below]
  have eq: "it_eq mi p e = Inr (r = n)" using p e by (intro it_eq_stands) (simp_all add: it_ok_def)
  show ?case
  proof (cases "r < n")
    case True
    then obtain obj where obj: "D r = Some obj" using first by (auto simp: first_from_def)
    obtain mi1 where 1: "it_deref H sc s mi p = Inr (obj, mi1)" "table_rel H sc s mi1 D n c" "extends mi mi1" "it_ok sc D mi1 p r"
      using deref_ok [OF rel p obj] by blast
    obtain q mi2 r2 where 2: "it_inc H sc s mi1 p = Inr (q, mi2)" "first_from D n (r + 1) r2"
      "table_rel H sc s mi2 D n c" "extends mi1 mi2" "it_ok sc D mi2 q r2"
      using inc_ok [OF 1(2) _ True, of p] 1(4) by (auto simp: it_ok_def)
    have "r + 1 \<le> r2" using 2(2) by (simp add: first_from_def)
    then have "unat n - unat r2 < fuel"
      using Suc.prems(5) succ_word(1) [OF True] True by (simp add: word_le_nat_alt word_less_nat_alt)
    moreover have "stands_at mi2 e n" using e 1(3) 2(4) by (simp add: extends_def)
    ultimately obtain mi3 where "scan_from fuel H sc s q e mi2 = Inr (map (the \<circ> D) (seqs_from D (r + 1)), mi3)"
      "table_rel H sc s mi3 D n c" using Suc.IH [OF 2(3,5) _ 2(2)] by blast
    then show ?thesis using True eq 1(1) 2(1) obj by (simp add: seqs)
  next
    case False
    then have "r = n" using first by (simp add: first_from_def)
    then show ?thesis using eq rel by (simp add: seqs)
  qed
qed simp

lemma scan_fuel_ok:
  assumes "table_rel H sc s mi D n c" "unat n < fuel"
  shows "\<exists>it mi1 e mi2 mi3. cbegin H sc s mi = Inr (it, mi1) \<and> cend sc mi1 = (e, mi2) \<and> seq_get mi2 = n \<and>
    scan_from fuel H sc s it e mi2 = Inr (objects D, mi3) \<and> table_rel H sc s mi3 D n c"
proof -
  obtain p mi1 r where 1: "cbegin H sc s mi = Inr (p, mi1)" "first_from D n 0 r" "table_rel H sc s mi1 D n c"
    "it_ok sc D mi1 p r" using cbegin_ok [OF assms(1)] by blast
  obtain e mi2 where e: "cend sc mi1 = (e, mi2)" by fastforce
  have cnt: "counter_is sc mi1 n" using 1(3) by (simp add: table_rel_def)
  note 2 = cend_ok [OF e cnt]
  have rel: "table_rel H sc s mi2 D n c" using 2(4,5) 1(3) by (simp add: table_rel_def)
  have "unat n - unat r < fuel" using assms(2) by simp
  then obtain mi3 where "scan_from fuel H sc s p e mi2 = Inr (map (the \<circ> D) (seqs_from D 0), mi3)"
    "table_rel H sc s mi3 D n c" using scan_from_ok [OF rel it_ok_cend [OF e 1(4)] 2(2) 1(2)] by blast
  then show ?thesis using 1(1) e counter_seq [OF 2(5)] by (auto simp: objects_seqs)
qed

lemma scan_ok:
  assumes "table_rel H sc s mi D n c"
  shows "\<exists>mi'. scan H sc s mi = Inr (objects D, mi') \<and> table_rel H sc s mi' D n c"
  using scan_fuel_ok [OF assms, of "unat n + 1"] by (auto simp: scan_def simp del: scan_from.simps)

end

section \<open>Indices\<close>

text \<open>The loop \<open>for (it = index.cbegin(v); it != index.cend(v); ++it)\<close> and the objects it sees.\<close>

fun index_objects ::
  "nat \<Rightarrow> 's chain_host \<Rightarrow> schema \<Rightarrow> 's niv_ops \<Rightarrow> 's \<Rightarrow> index_iterator \<Rightarrow> multi_index \<Rightarrow> (cval list \<times> multi_index) res" where
  "index_objects 0 H sc db s it mi = Inl OutOfFuel"
| "index_objects (Suc fuel) H sc db s it mi =
     (if index_eq it index_cend then Inr ([], mi)
      else bind_res (index_deref H sc db it s mi) (\<lambda>(obj, mi1).
           bind_res (index_inc db s it) (\<lambda>it1.
           bind_res (index_objects fuel H sc db s it1 mi1) (\<lambda>(objs, mi2). Inr (obj # objs, mi2)))))"

lemma index_blocks_sorted: "index_blocks t i v M xs \<Longrightarrow> sorted_wrt (<) xs"
  by (auto simp: index_blocks_def blocks_wf_def)

context table_store
begin

lemma index_deref_ok:
  assumes "table_rel H sc s mi D n c" "index_get_seq db s it = Inr k" "D k = Some obj"
  shows "\<exists>mi'. index_deref H sc db it s mi = Inr (obj, mi') \<and> table_rel H sc s mi' D n c"
  using get_item_ptr_ok [OF assms(1,3)] assms(2) by (auto simp: index_deref_def)

lemma index_objects_ok:
  assumes "index_for fuel db s it = Inr nums" "set nums \<subseteq> dom D" "table_rel H sc s mi D n c"
  shows "\<exists>mi'. index_objects fuel H sc db s it mi = Inr (map (the \<circ> D) nums, mi') \<and> table_rel H sc s mi' D n c"
  using assms
proof (induction fuel arbitrary: it nums mi)
  case (Suc fuel)
  show ?case
  proof (cases "index_eq it index_cend")
    case False
    then obtain k it1 ks where k: "index_get_seq db s it = Inr k" "index_inc db s it = Inr it1"
      "index_for fuel db s it1 = Inr ks" "nums = k # ks"
      using Suc.prems(1) by (auto simp: bind_res_def split: sum.splits)
    obtain obj where obj: "D k = Some obj" using Suc.prems(2) k(4) by auto
    obtain mi1 where 1: "index_deref H sc db it s mi = Inr (obj, mi1)" "table_rel H sc s mi1 D n c"
      using index_deref_ok [OF Suc.prems(3) k(1) obj] by blast
    then obtain mi2 where "index_objects fuel H sc db s it1 mi1 = Inr (map (the \<circ> D) ks, mi2)" "table_rel H sc s mi2 D n c"
      using Suc.IH [OF k(3) _ 1(2)] Suc.prems(2) k(4) by auto
    then show ?thesis using False 1(1) k obj by simp
  qed (use Suc.prems in simp)
qed simp

text \<open>What the state holds for one key of an ordinary index.\<close>

lemma normal_index_members:
  assumes "table_rel H sc s mi D n c" "ix \<in> set (indices sc)" "\<not> ix_unique ix" "key_ok ix v" "unat n < fuel"
    and db: "db = normal_index H (table_name sc) (ix_name ix) v"
  shows "\<exists>xs. set xs = members D ix v \<and> sorted_wrt (<) xs \<and> has_normal_index_db db s = Inr (xs \<noteq> []) \<and>
    (xs \<noteq> [] \<longrightarrow> get_normal_index_count_db db s = Inr (length xs mod 2 ^ 32)) \<and>
    bind_res (index_cbegin db s) (index_for fuel db s) = Inr xs"
proof -
  obtain M where M: "repr s M" "mirrors sc M D ix" using assms(1,2) by (auto simp: table_rel_def holds_table_def)
  then obtain xs where xs: "index_blocks (table_name sc) (ix_name ix) v M xs" "set xs = members D ix v"
    using assms(3,4) by (auto simp: mirrors_def mirrors_key_def)
  note sorted = index_blocks_sorted [OF xs(1)]
  have "unat ` set xs \<subseteq> {..<unat n}"
    using assms(1) xs(2) by (auto simp: members_def table_rel_def table_ok_def word_less_nat_alt)
  then have "card (set xs) \<le> unat n"
    using card_inj_on_le [of unat "set xs" "{..<unat n}"] by (simp add: inj_on_def word_unat_eq_iff)
  then have "length xs < fuel"
    using sorted assms(5) by (simp add: distinct_card strict_sorted_iff)
  then show ?thesis
    using normal_index_store.read_index [OF normal_store [OF assms(2,4)] M(1) xs(1)] xs(2) sorted unfolding db by blast
qed

lemma count_ok:
  assumes "table_rel H sc s mi D n c" "ix \<in> set (indices sc)" "key_ok ix v"
  shows "count H sc (ix_name ix) v s = Inr (card (members D ix v) mod 2 ^ 32)"
proof -
  have f: "find (\<lambda>jx. ix_name jx = ix_name ix) (indices sc) = Some ix"
  proof (cases "find (\<lambda>jx. ix_name jx = ix_name ix) (indices sc)")
    case (Some jx)
    then have "jx \<in> set (indices sc)" "ix_name jx = ix_name ix" by (auto simp: find_Some_iff)
    then show ?thesis using Some index_by_name [OF schema _ assms(2)] by simp
  qed (use assms(2) in \<open>auto simp: find_None_iff\<close>)
  show ?thesis
  proof (cases "ix_unique ix")
    case True
    let ?k = "IndexKey (table_name sc) (ix_name ix) v"
    obtain M where M: "repr s M" "mirrors sc M D ix" using assms(1,2) by (auto simp: table_rel_def holds_table_def)
    then have "mirrors_key sc M ix v (members D ix v)" using assms(3) by (simp add: mirrors_def)
    then have "card (members D ix v) = (if M ?k \<noteq> None then 1 else 0)"
      using True by (auto simp: mirrors_key_def split: option.splits)
    then show ?thesis
      using multi_has [OF M(1) unique_key [OF assms(2,3)]] f True by (simp add: count_def has_index_db_def)
  next
    case False
    let ?db = "normal_index H (table_name sc) (ix_name ix) v"
    obtain xs where xs: "set xs = members D ix v" "sorted_wrt (<) xs" "has_normal_index_db ?db s = Inr (xs \<noteq> [])"
      "xs \<noteq> [] \<longrightarrow> get_normal_index_count_db ?db s = Inr (length xs mod 2 ^ 32)"
      using normal_index_members [OF assms(1,2) False assms(3) lessI refl] by blast
    then have "card (members D ix v) = length xs" by (metis distinct_card strict_sorted_iff)
    then show ?thesis using xs(3,4) f False by (cases "xs = []") (simp_all add: count_def)
  qed
qed

end

end
