(* ===== verification/Multi_Session.thy ===== *)
theory Multi_Session
  imports Multi_Scan
begin

text \<open>
  Whole sessions with a \<open>MultiIndex\<close>, from the constructor to the destructor: the calls of a contract, the
  abstract table they refine, and the table of the documentation as an instance. The last
  section shows where the class does not do what its interface suggests.
\<close>

section \<open>Calls and sessions\<close>

text \<open>
  What a contract does with a table: insert; find, count, change and erase the object with a given
  unique key; list the objects with a given ordinary key and change the first of them; go
  through the whole table. Iterators returned by \<open>find\<close> are compared with \<open>cend()\<close> before use.
\<close>

datatype mi_call =
    Call_emplace "cval \<Rightarrow> cval"
  | Call_find index cval
  | Call_count index cval
  | Call_modify index cval "cval \<Rightarrow> cval"
  | Call_erase index cval
  | Call_list index cval
  | Call_modify_first index cval "cval \<Rightarrow> cval"
  | Call_scan

datatype mi_ret = Ret_bool bool | Ret_obj "cval option" | Ret_count nat | Ret_objs "cval list"

definition lookup_it ::
  "'s chain_host \<Rightarrow> schema \<Rightarrow> index \<Rightarrow> cval \<Rightarrow> 's \<Rightarrow> multi_index \<Rightarrow> (iterator option \<times> multi_index) res" where
  "lookup_it H sc ix v s mi =
     bind_res (find_item H sc (ix_name ix) v s mi) (\<lambda>(it, mi1).
       let (e, mi2) = cend sc mi1 in
       bind_res (it_eq mi2 it e) (\<lambda>eq. Inr (if eq then None else Some it, mi2)))"

fun mi_step :: "'s chain_host \<Rightarrow> schema \<Rightarrow> mi_call \<Rightarrow> 's \<Rightarrow> multi_index \<Rightarrow> (mi_ret \<times> 's \<times> multi_index) res" where
  "mi_step H sc (Call_emplace f) s mi =
     bind_res (emplace H sc f s mi) (\<lambda>((it, ok), s1, mi1). Inr (Ret_bool ok, s1, mi1))"
| "mi_step H sc (Call_find ix v) s mi =
     bind_res (lookup_it H sc ix v s mi) (\<lambda>(r, mi1). case r of
         None \<Rightarrow> Inr (Ret_obj None, s, mi1)
       | Some it \<Rightarrow> bind_res (it_deref H sc s mi1 it) (\<lambda>(obj, mi2). Inr (Ret_obj (Some obj), s, mi2)))"
| "mi_step H sc (Call_count ix v) s mi =
     bind_res (count H sc (ix_name ix) v s) (\<lambda>k. Inr (Ret_count k, s, mi))"
| "mi_step H sc (Call_modify ix v f) s mi =
     bind_res (lookup_it H sc ix v s mi) (\<lambda>(r, mi1). case r of
         None \<Rightarrow> Inr (Ret_bool False, s, mi1)
       | Some it \<Rightarrow> bind_res (modify H sc it f s mi1) (\<lambda>(s1, mi2). Inr (Ret_bool True, s1, mi2)))"
| "mi_step H sc (Call_erase ix v) s mi =
     bind_res (lookup_it H sc ix v s mi) (\<lambda>(r, mi1). case r of
         None \<Rightarrow> Inr (Ret_bool False, s, mi1)
       | Some it \<Rightarrow> bind_res (erase H sc it s mi1) (\<lambda>(s1, mi2). Inr (Ret_bool True, s1, mi2)))"
| "mi_step H sc (Call_list ix v) s mi =
     (let db = normal_index H (table_name sc) (ix_name ix) v in
      bind_res (index_cbegin db s) (\<lambda>it.
      bind_res (index_objects (unat (seq_get mi) + 1) H sc db s it mi) (\<lambda>(objs, mi1). Inr (Ret_objs objs, s, mi1))))"
| "mi_step H sc (Call_modify_first ix v f) s mi =
     (let db = normal_index H (table_name sc) (ix_name ix) v in
      bind_res (index_cbegin db s) (\<lambda>it.
        if index_eq it index_cend then Inr (Ret_bool False, s, mi)
        else bind_res (index_modify H sc db it f s mi) (\<lambda>(s1, mi1). Inr (Ret_bool True, s1, mi1))))"
| "mi_step H sc Call_scan s mi = bind_res (scan H sc s mi) (\<lambda>(objs, mi1). Inr (Ret_objs objs, s, mi1))"

fun mi_run :: "'s chain_host \<Rightarrow> schema \<Rightarrow> mi_call list \<Rightarrow> 's \<Rightarrow> multi_index \<Rightarrow> (mi_ret list \<times> 's \<times> multi_index) res" where
  "mi_run H sc [] s mi = Inr ([], s, mi)"
| "mi_run H sc (c # cs) s mi =
     bind_res (mi_step H sc c s mi) (\<lambda>(r, s1, mi1).
     bind_res (mi_run H sc cs s1 mi1) (\<lambda>(rs, s2, mi2). Inr (r # rs, s2, mi2)))"

definition mi_session :: "'s chain_host \<Rightarrow> schema \<Rightarrow> mi_call list \<Rightarrow> 's \<Rightarrow> (mi_ret list \<times> 's) res" where
  "mi_session H sc cs s =
     bind_res (mi_ctor H sc s) (\<lambda>mi.
     bind_res (mi_run H sc cs s mi) (\<lambda>(rs, s1, mi1).
     bind_res (mi_dtor H s1 mi1) (\<lambda>s2. Inr (rs, s2))))"

fun mi_sessions :: "'s chain_host \<Rightarrow> schema \<Rightarrow> mi_call list list \<Rightarrow> 's \<Rightarrow> (mi_ret list list \<times> 's) res" where
  "mi_sessions H sc [] s = Inr ([], s)"
| "mi_sessions H sc (cs # css) s =
     bind_res (mi_session H sc cs s) (\<lambda>(rs, s1).
     bind_res (mi_sessions H sc css s1) (\<lambda>(rss, s2). Inr (rs # rss, s2)))"

text \<open>The same on an abstract table: the objects in the order of insertion, and the next number.\<close>

type_synonym tab = "(64 word \<times> cval) list \<times> 64 word"

definition matches :: "(64 word \<times> cval) list \<Rightarrow> index \<Rightarrow> cval \<Rightarrow> (64 word \<times> cval) list" where
  "matches T ix v = filter (\<lambda>(k, obj). extract_secondary_key ix obj = v) T"

definition tab_conflict :: "schema \<Rightarrow> (64 word \<times> cval) list \<Rightarrow> cval \<Rightarrow> bool" where
  "tab_conflict sc T obj \<longleftrightarrow> (\<exists>ix \<in> set (indices sc). ix_unique ix \<and> matches T ix (extract_secondary_key ix obj) \<noteq> [])"

definition tab_modify :: "schema \<Rightarrow> 64 word \<Rightarrow> cval \<Rightarrow> cval \<Rightarrow> (64 word \<times> cval) list \<Rightarrow> (64 word \<times> cval) list" where
  "tab_modify sc k obj new T = (if same_keys sc obj new then map (\<lambda>(j, x). (j, if j = k then new else x)) T else T)"

fun tab_step :: "schema \<Rightarrow> mi_call \<Rightarrow> tab \<Rightarrow> mi_ret \<times> tab" where
  "tab_step sc (Call_emplace f) (T, n) =
     (let obj = f (default_val (object_type sc)) in
      if tab_conflict sc T obj then (Ret_bool False, T, n) else (Ret_bool True, T @ [(n, obj)], n + 1))"
| "tab_step sc (Call_find ix v) (T, n) =
     (Ret_obj (case matches T ix v of [] \<Rightarrow> None | (k, obj) # _ \<Rightarrow> Some obj), T, n)"
| "tab_step sc (Call_count ix v) (T, n) = (Ret_count (length (matches T ix v) mod 2 ^ 32), T, n)"
| "tab_step sc (Call_modify ix v f) (T, n) =
     (case matches T ix v of [] \<Rightarrow> (Ret_bool False, T, n)
      | (k, obj) # _ \<Rightarrow> (Ret_bool True, tab_modify sc k obj (f obj) T, n))"
| "tab_step sc (Call_erase ix v) (T, n) =
     (case matches T ix v of [] \<Rightarrow> (Ret_bool False, T, n)
      | (k, obj) # _ \<Rightarrow> (Ret_bool True, filter (\<lambda>(j, x). j \<noteq> k) T, n))"
| "tab_step sc (Call_list ix v) (T, n) = (Ret_objs (map snd (matches T ix v)), T, n)"
| "tab_step sc (Call_modify_first ix v f) (T, n) =
     (case matches T ix v of [] \<Rightarrow> (Ret_bool False, T, n)
      | (k, obj) # _ \<Rightarrow> (Ret_bool True, tab_modify sc k obj (f obj) T, n))"
| "tab_step sc Call_scan (T, n) = (Ret_objs (map snd T), T, n)"

fun tab_run :: "schema \<Rightarrow> mi_call list \<Rightarrow> tab \<Rightarrow> mi_ret list \<times> tab" where
  "tab_run sc [] t = ([], t)"
| "tab_run sc (c # cs) t = (let (r, t1) = tab_step sc c t; (rs, t2) = tab_run sc cs t1 in (r # rs, t2))"

fun tab_runs :: "schema \<Rightarrow> mi_call list list \<Rightarrow> tab \<Rightarrow> mi_ret list list \<times> tab" where
  "tab_runs sc [] t = ([], t)"
| "tab_runs sc (cs # css) t = (let (rs, t1) = tab_run sc cs t; (rss, t2) = tab_runs sc css t1 in (rs # rss, t2))"

text \<open>
  What the calls have to respect: objects and keys of their types, \<open>find\<close> on unique indices only
  (the \<open>static_assert\<close> of the code) and index iterators on ordinary ones.
\<close>

fun mi_call_ok :: "schema \<Rightarrow> mi_call \<Rightarrow> bool" where
  "mi_call_ok sc (Call_emplace f) \<longleftrightarrow> obj_ok sc (f (default_val (object_type sc)))"
| "mi_call_ok sc (Call_find ix v) \<longleftrightarrow> ix \<in> set (indices sc) \<and> ix_unique ix \<and> key_ok ix v"
| "mi_call_ok sc (Call_count ix v) \<longleftrightarrow> ix \<in> set (indices sc) \<and> key_ok ix v"
| "mi_call_ok sc (Call_modify ix v f) \<longleftrightarrow> ix \<in> set (indices sc) \<and> ix_unique ix \<and> key_ok ix v \<and> keeps (obj_ok sc) f"
| "mi_call_ok sc (Call_erase ix v) \<longleftrightarrow> ix \<in> set (indices sc) \<and> ix_unique ix \<and> key_ok ix v"
| "mi_call_ok sc (Call_list ix v) \<longleftrightarrow> ix \<in> set (indices sc) \<and> \<not> ix_unique ix \<and> key_ok ix v"
| "mi_call_ok sc (Call_modify_first ix v f) \<longleftrightarrow>
     ix \<in> set (indices sc) \<and> \<not> ix_unique ix \<and> key_ok ix v \<and> keeps (obj_ok sc) f"
| "mi_call_ok sc Call_scan \<longleftrightarrow> True"

definition sorted_tab :: "(64 word \<times> cval) list \<Rightarrow> bool" where
  "sorted_tab T \<longleftrightarrow> sorted_wrt (<) (map fst T)"

lemma sorted_tab_distinct: "sorted_tab T \<Longrightarrow> distinct (map fst T)"
  by (simp add: sorted_tab_def strict_sorted_iff)

lemma members_map_of:
  assumes "sorted_tab T"
  shows "members (map_of T) ix v = fst ` set (matches T ix v)"
  by (force simp: members_def matches_def map_of_eq_Some_iff [OF sorted_tab_distinct [OF assms]])

lemma matches_sorted: "sorted_tab T \<Longrightarrow> sorted_wrt (<) (map fst (matches T ix v))"
  unfolding sorted_tab_def matches_def
  by (simp add: sorted_wrt_map sorted_wrt_filter)

lemma matches_values:
  assumes "sorted_tab T"
  shows "map (the \<circ> map_of T) (map fst (matches T ix v)) = map snd (matches T ix v)"
  by (auto simp: matches_def sorted_tab_distinct [OF assms])

lemma matches_nums:
  assumes "sorted_tab T" "set xs = members (map_of T) ix v" "sorted_wrt (<) xs"
  shows "xs = map fst (matches T ix v)"
  using assms members_map_of [OF assms(1), of ix v] matches_sorted [OF assms(1), of ix v]
  by (intro strict_sorted_equal) simp_all

lemma objects_map_of:
  assumes "sorted_tab T"
  shows "objects (map_of T) = map snd T"
proof -
  have "sorted_list_of_set (dom (map_of T)) = map fst T"
    using assms unfolding sorted_tab_def strict_sorted_iff dom_map_of_conv_image_fst
    by (metis list.set_map sorted_list_of_set.idem_if_sorted_distinct)
  then show ?thesis
    by (auto simp: objects_def sorted_tab_distinct [OF assms])
qed

text \<open>The changes of the abstract table as changes of the map.\<close>

lemma tab_changes:
  assumes "sorted_tab T"
  shows "map_of (filter (\<lambda>(j, x). j \<noteq> k) T) = (map_of T)(k := None)" "sorted_tab (filter (\<lambda>(j, x). j \<noteq> k) T)"
    and "map_of T k = Some obj \<Longrightarrow>
      map_of (tab_modify sc k obj new T) = (if same_keys sc obj new then (map_of T)(k \<mapsto> new) else map_of T)"
    and "sorted_tab (tab_modify sc k obj new T)"
proof -
  show "map_of (filter (\<lambda>(j, x). j \<noteq> k) T) = (map_of T)(k := None)"
    by (induction T) (auto simp: fun_eq_iff)
  show "sorted_tab (filter (\<lambda>(j, x). j \<noteq> k) T)"
    using assms by (simp add: sorted_tab_def sorted_wrt_map sorted_wrt_filter)
  have m: "map_of (map (\<lambda>(j, x). (j, if j = k then new else x)) T) = (\<lambda>i. map_option (\<lambda>x. if i = k then new else x) (map_of T i))"
    by (induction T) auto
  show "map_of (tab_modify sc k obj new T) = (if same_keys sc obj new then (map_of T)(k \<mapsto> new) else map_of T)"
    if "map_of T k = Some obj"
    using that m by (auto simp: tab_modify_def fun_eq_iff map_option_case split: option.splits)
  have *: "map fst (map (\<lambda>(j, x). (j, if j = k then new else x)) T) = map fst T" by (simp add: case_prod_beta comp_def)
  show "sorted_tab (tab_modify sc k obj new T)"
    using assms by (cases "same_keys sc obj new") (simp_all only: tab_modify_def sorted_tab_def if_True if_False *)
qed

lemma tab_append:
  assumes "sorted_tab T" "\<forall>x \<in> dom (map_of T). x < n"
  shows "map_of (T @ [(n, obj)]) = (map_of T)(n \<mapsto> obj)" "sorted_tab (T @ [(n, obj)])"
proof -
  have below: "\<forall>x \<in> fst ` set T. x < n" using assms(2) by (simp add: dom_map_of_conv_image_fst)
  then have "map_of T n = None" by (force simp: map_of_eq_None_iff)
  then show "map_of (T @ [(n, obj)]) = (map_of T)(n \<mapsto> obj)" by (auto simp: fun_eq_iff map_add_def split: option.splits)
  show "sorted_tab (T @ [(n, obj)])" using assms(1) below by (simp add: sorted_tab_def sorted_wrt_append)
qed

lemma tab_conflict_eq: "sorted_tab T \<Longrightarrow> tab_conflict sc T obj \<longleftrightarrow> conflicts sc (map_of T) obj"
  by (simp add: tab_conflict_def conflicts_def members_map_of)

lemma matches_hd:
  assumes "sorted_tab T" "matches T ix v = (k, obj) # rest"
  shows "map_of T k = Some obj" "k \<in> members (map_of T) ix v"
proof -
  have "(k, obj) \<in> set (matches T ix v)" using assms(2) by simp
  then have "(k, obj) \<in> set T" by (simp add: matches_def)
  then show "map_of T k = Some obj" using sorted_tab_distinct [OF assms(1)] by simp
  show "k \<in> members (map_of T) ix v" using assms by (simp add: members_map_of)
qed

context table_store
begin

lemma lookup_ok:
  assumes rel: "table_rel H sc s mi (map_of T) n c" and T: "sorted_tab T"
    and ix: "ix \<in> set (indices sc)" "ix_unique ix" and v: "key_ok ix v"
  shows "matches T ix v = [] \<Longrightarrow> \<exists>mi'. lookup_it H sc ix v s mi = Inr (None, mi') \<and> table_rel H sc s mi' (map_of T) n c"
    and "matches T ix v = (k, obj) # rest \<Longrightarrow> \<exists>it mi'. lookup_it H sc ix v s mi = Inr (Some it, mi') \<and>
      table_rel H sc s mi' (map_of T) n c \<and> it_ok sc (map_of T) mi' it k"
proof -
  have end_rel: "table_rel H sc s m2 (map_of T) n c" "stands_at m2 e n" "extends m1 m2"
    if "cend sc m1 = (e, m2)" "table_rel H sc s m1 (map_of T) n c" for m1 m2 e
  proof -
    have cnt: "counter_is sc m1 n" using that(2) by (simp add: table_rel_def)
    show "table_rel H sc s m2 (map_of T) n c" "stands_at m2 e n" "extends m1 m2"
      using cend_ok [OF that(1) cnt] that(2) by (simp_all add: table_rel_def)
  qed
  show "\<exists>mi'. lookup_it H sc ix v s mi = Inr (None, mi') \<and> table_rel H sc s mi' (map_of T) n c" if "matches T ix v = []"
  proof -
    have "members (map_of T) ix v = {}" using that by (simp add: members_map_of [OF T])
    then obtain it mi1 where 1: "find_item H sc (ix_name ix) v s mi = Inr (it, mi1)"
      "table_rel H sc s mi1 (map_of T) n c" "stands_at mi1 it n" using find_item_ok(1) [OF rel ix v] by blast
    obtain e mi2 where e: "cend sc mi1 = (e, mi2)" by fastforce
    have "it_eq mi2 it e = Inr True"
      using it_eq_stands [of mi2 it n e n] end_rel [OF e 1(2)] 1(3) by (simp add: extends_def)
    then show ?thesis using 1(1) e end_rel(1) [OF e 1(2)] by (simp add: lookup_it_def)
  qed
  show "\<exists>it mi'. lookup_it H sc ix v s mi = Inr (Some it, mi') \<and> table_rel H sc s mi' (map_of T) n c \<and>
      it_ok sc (map_of T) mi' it k" if m: "matches T ix v = (k, obj) # rest"
  proof -
    note k = matches_hd [OF T m]
    have "k < n" using rel k(1) by (auto simp: table_rel_def table_ok_def)
    obtain it mi1 where 1: "find_item H sc (ix_name ix) v s mi = Inr (it, mi1)"
      "table_rel H sc s mi1 (map_of T) n c" "it_ok sc (map_of T) mi1 it k" using find_item_ok(2) [OF rel ix v k(2)] by blast
    obtain e mi2 where e: "cend sc mi1 = (e, mi2)" by fastforce
    note it = it_ok_cend [OF e 1(3)]
    have "it_eq mi2 it e = Inr False"
      using it_eq_stands [of mi2 it k e n] end_rel [OF e 1(2)] it \<open>k < n\<close> by (simp add: it_ok_def)
    then show ?thesis using 1(1) e end_rel(1) [OF e 1(2)] it by (simp add: lookup_it_def)
  qed
qed

text \<open>The first position of an index, and the loop over it.\<close>

lemma index_begin_ok:
  assumes rel: "table_rel H sc s mi (map_of T) n c" and T: "sorted_tab T"
    and ix: "ix \<in> set (indices sc)" "\<not> ix_unique ix" "key_ok ix v"
    and db: "db = normal_index H (table_name sc) (ix_name ix) v"
  shows "\<exists>it. index_cbegin db s = Inr it \<and> index_for (unat n + 1) db s it = Inr (map fst (matches T ix v)) \<and>
    (index_eq it index_cend \<longleftrightarrow> matches T ix v = []) \<and>
    (matches T ix v \<noteq> [] \<longrightarrow> index_get_seq db s it = Inr (fst (hd (matches T ix v))))"
proof -
  obtain xs where xs: "set xs = members (map_of T) ix v" "sorted_wrt (<) xs"
    "bind_res (index_cbegin db s) (index_for (unat n + 1) db s) = Inr xs"
    using normal_index_members [OF rel ix _ db, of "unat n + 1"] by auto
  note nums = matches_nums [OF T xs(1,2)]
  obtain it where it: "index_cbegin db s = Inr it" "index_for (unat n + 1) db s it = Inr xs"
    using xs(3) by (auto simp: bind_res_def split: sum.splits)
  show ?thesis
  proof (cases "index_eq it index_cend")
    case True
    then show ?thesis using it nums by auto
  next
    case False
    then obtain k ks where "index_get_seq db s it = Inr k" "xs = k # ks"
      using it(2) by (auto simp: bind_res_def split: sum.splits)
    then show ?thesis using it False nums by (auto simp: hd_map simp del: index_for.simps)
  qed
qed

end

text \<open>One call, all calls, and a whole session.\<close>

definition tab_rel :: "'s chain_host \<Rightarrow> schema \<Rightarrow> 's \<Rightarrow> multi_index \<Rightarrow> tab \<Rightarrow> cval option \<Rightarrow> bool" where
  "tab_rel H sc s mi t c \<longleftrightarrow> sorted_tab (fst t) \<and> table_rel H sc s mi (map_of (fst t)) (snd t) c"

context table_store
begin

lemma objects_found:
  assumes "table_rel H sc s mi (map_of T) n c" "map_of T k = Some obj"
  shows "obj_ok sc obj"
  using assms by (auto simp: table_rel_def table_ok_def ran_def)

text \<open>Where \<open>find\<close> leads: to the end, or to the first and only match.\<close>

lemma lookup_cases:
  assumes rel: "tab_rel H sc s mi (T, n) c" and ix: "ix \<in> set (indices sc)" "ix_unique ix" "key_ok ix v"
  obtains
    (absent) mi1 where "matches T ix v = []" "lookup_it H sc ix v s mi = Inr (None, mi1)" "tab_rel H sc s mi1 (T, n) c"
  | (found) k obj rest it mi1 where "matches T ix v = (k, obj) # rest" "lookup_it H sc ix v s mi = Inr (Some it, mi1)"
      "table_rel H sc s mi1 (map_of T) n c" "it_ok sc (map_of T) mi1 it k" "map_of T k = Some obj" "obj_ok sc obj" "sorted_tab T"
proof -
  have T: "sorted_tab T" and rel: "table_rel H sc s mi (map_of T) n c" using rel by (simp_all add: tab_rel_def)
  note look = lookup_ok [OF rel T ix]
  show thesis
  proof (cases "matches T ix v")
    case Nil
    then show ?thesis using look(1) T absent by (auto simp: tab_rel_def)
  next
    case (Cons m rest)
    obtain k obj where m: "m = (k, obj)" by (cases m) auto
    note k = matches_hd [OF T Cons [unfolded m]]
    show ?thesis using look(2) [OF Cons [unfolded m]] found [OF Cons [unfolded m]] k objects_found [OF rel k(1)] T by blast
  qed
qed

lemma modify_refines:
  assumes "table_rel H sc s mi (map_of T) n c" "it_ok sc (map_of T) mi it k" "map_of T k = Some obj" "obj_ok sc (f obj)" "sorted_tab T"
  shows "\<exists>s' mi'. modify H sc it f s mi = Inr (s', mi') \<and> tab_rel H sc s' mi' (tab_modify sc k obj (f obj) T, n) c"
  using modify_ok [OF assms(1-3), of f] assms(4) tab_changes(4) [OF assms(5)]
  unfolding tab_rel_def fst_conv snd_conv tab_changes(3) [OF assms(5,3)] by blast

lemma erase_refines:
  assumes "table_rel H sc s mi (map_of T) n c" "it_ok sc (map_of T) mi it k" "map_of T k = Some obj" "sorted_tab T"
  shows "\<exists>s' mi'. erase H sc it s mi = Inr (s', mi') \<and> tab_rel H sc s' mi' (filter (\<lambda>(j, x). j \<noteq> k) T, n) c"
  using erase_ok [OF assms(1-3)] tab_changes(2) [OF assms(4)]
  unfolding tab_rel_def fst_conv snd_conv tab_changes(1) [OF assms(4)] by blast

lemma index_modify_refines:
  assumes "table_rel H sc s mi (map_of T) n c" "index_get_seq db s it = Inr k" "map_of T k = Some obj" "obj_ok sc (f obj)" "sorted_tab T"
  shows "\<exists>s' mi'. index_modify H sc db it f s mi = Inr (s', mi') \<and> tab_rel H sc s' mi' (tab_modify sc k obj (f obj) T, n) c"
proof -
  obtain mi1 where 1: "index_deref H sc db it s mi = Inr (obj, mi1)" "table_rel H sc s mi1 (map_of T) n c"
    using index_deref_ok [OF assms(1-3)] by blast
  obtain s2 mi2 where "store_modified H sc obj (f obj) k s mi1 = Inr (s2, mi2)"
    "table_rel H sc s2 mi2 (map_of (tab_modify sc k obj (f obj) T)) n c"
    using store_modified_ok [OF 1(2) assms(3) same_keys_refl assms(4)] unfolding tab_changes(3) [OF assms(5,3)] by blast
  then show ?thesis using 1(1) assms(2) tab_changes(4) [OF assms(5)] by (simp add: index_modify_def tab_rel_def)
qed

lemma step_unique:
  assumes rel: "tab_rel H sc s mi (T, n) c" and ok: "mi_call_ok sc call" and t: "tab_step sc call (T, n) = (r, t')"
    and call: "call \<in> {Call_find ix v, Call_modify ix v f, Call_erase ix v}"
  shows "\<exists>s' mi'. mi_step H sc call s mi = Inr (r, s', mi') \<and> tab_rel H sc s' mi' t' c"
proof -
  have ix: "ix \<in> set (indices sc)" "ix_unique ix" "key_ok ix v" using ok call by auto
  from rel ix show ?thesis
  proof (cases rule: lookup_cases)
    case (absent mi1)
    then show ?thesis using call t by auto
  next
    case (found k obj rest it mi1)
    note look = found(1,2) and at = found(3-5)
    consider "call = Call_find ix v" | "call = Call_modify ix v f" | "call = Call_erase ix v" using call by auto
    then show ?thesis
    proof cases
      case 1
      then show ?thesis using look deref_ok [OF at] t found(7) by (auto simp: tab_rel_def)
    next
      case 2
      then have "obj_ok sc (f obj)" using ok found(6) by (simp add: keeps_def)
      then show ?thesis using 2 look modify_refines [OF at _ found(7)] t by fastforce
    next
      case 3
      then show ?thesis using look erase_refines [OF at found(7)] t by fastforce
    qed
  qed
qed

lemma step_normal:
  assumes rel: "tab_rel H sc s mi (T, n) c" and ok: "mi_call_ok sc call" and t: "tab_step sc call (T, n) = (r, t')"
    and call: "call \<in> {Call_list ix v, Call_modify_first ix v f}"
  shows "\<exists>s' mi'. mi_step H sc call s mi = Inr (r, s', mi') \<and> tab_rel H sc s' mi' t' c"
proof -
  have T: "sorted_tab T" and r: "table_rel H sc s mi (map_of T) n c" using rel by (simp_all add: tab_rel_def)
  have ix: "ix \<in> set (indices sc)" "\<not> ix_unique ix" "key_ok ix v" using ok call by auto
  let ?db = "normal_index H (table_name sc) (ix_name ix) v" and ?m = "matches T ix v"
  obtain it where it: "index_cbegin ?db s = Inr it" "index_for (unat n + 1) ?db s it = Inr (map fst ?m)"
    "index_eq it index_cend \<longleftrightarrow> ?m = []" "?m \<noteq> [] \<longrightarrow> index_get_seq ?db s it = Inr (fst (hd ?m))"
    using index_begin_ok [OF r T ix refl] by blast
  consider "call = Call_list ix v" | "call = Call_modify_first ix v f" using call by auto
  then show ?thesis
  proof cases
    case 1
    have "set (map fst ?m) \<subseteq> dom (map_of T)" by (auto simp: matches_def dom_map_of_conv_image_fst)
    then obtain mi' where "index_objects (unat n + 1) H sc ?db s it mi = Inr (map snd ?m, mi')" "table_rel H sc s mi' (map_of T) n c"
      using index_objects_ok [OF it(2) _ r] unfolding matches_values [OF T] by blast
    moreover have "seq_get mi = n" using r by (auto simp: table_rel_def dest: counter_seq)
    ultimately show ?thesis using 1 it(1) t T by (auto simp: tab_rel_def simp del: index_objects.simps)
  next
    case 2
    show ?thesis
    proof (cases ?m)
      case Nil
      then show ?thesis using 2 it(1,3) t rel by auto
    next
      case (Cons m rest)
      obtain k obj where m: "m = (k, obj)" by (cases m) auto
      note k = matches_hd [OF T Cons [unfolded m]]
      have "index_get_seq ?db s it = Inr k" using it(4) Cons m by simp
      moreover have "obj_ok sc (f obj)" using 2 ok objects_found [OF r k(1)] by (simp add: keeps_def)
      ultimately obtain s' mi' where "index_modify H sc ?db it f s mi = Inr (s', mi')"
        "tab_rel H sc s' mi' (tab_modify sc k obj (f obj) T, n) c" using index_modify_refines [OF r _ k(1) _ T] by blast
      then show ?thesis using 2 Cons m it(1,3) t by auto
    qed
  qed
qed

end

lemma tab_step_next: "tab_step sc call t = (r, t') \<Longrightarrow> unat (snd t) < 2 ^ 63 \<Longrightarrow> unat (snd t') \<le> unat (snd t) + 1"
  by (cases "(sc, call, t)" rule: tab_step.cases)
    (auto simp: Let_def unat_word_ariths split: if_splits list.splits prod.splits)

lemma tab_run_next:
  "tab_run sc cs t = (rs, t') \<Longrightarrow> unat (snd t) + length cs \<le> 2 ^ 63 \<Longrightarrow> unat (snd t') \<le> unat (snd t) + length cs"
proof (induction cs arbitrary: t rs)
  case (Cons call cs)
  obtain r t1 where 1: "tab_step sc call t = (r, t1)" by (cases "tab_step sc call t")
  obtain rs2 where 2: "tab_run sc cs t1 = (rs2, t')" using Cons.prems(1) 1 by (auto split: prod.splits)
  have "unat (snd t1) \<le> unat (snd t) + 1" using tab_step_next [OF 1] Cons.prems(2) by simp
  then show ?case using Cons.IH [OF 2] Cons.prems(2) by simp
qed simp

text \<open>Between two sessions the state holds the table and its counter.\<close>

definition stored :: "'s chain_host \<Rightarrow> schema \<Rightarrow> 's \<Rightarrow> tab \<Rightarrow> bool" where
  "stored H sc s t \<longleftrightarrow> sorted_tab (fst t) \<and> table_ok sc (map_of (fst t)) (snd t) \<and>
     (\<exists>c. holds_table H sc s (map_of (fst t)) c \<and> (case c of None \<Rightarrow> snd t = 0 | Some w \<Rightarrow> w = VUInt (ucast (snd t))))"

context table_store
begin

lemma step_emplace:
  assumes rel: "tab_rel H sc s mi (T, n) c" and ok: "mi_call_ok sc (Call_emplace f)" and small: "unat n < 2 ^ 63"
    and t: "tab_step sc (Call_emplace f) (T, n) = (r, t')"
  shows "\<exists>s' mi'. mi_step H sc (Call_emplace f) s mi = Inr (r, s', mi') \<and> tab_rel H sc s' mi' t' c"
proof -
  let ?obj = "f (default_val (object_type sc))"
  have T: "sorted_tab T" and r: "table_rel H sc s mi (map_of T) n c" using rel by (simp_all add: tab_rel_def)
  have obj: "obj_ok sc ?obj" using ok by simp
  have below: "\<forall>x \<in> dom (map_of T). x < n" using r by (simp add: table_rel_def table_ok_def)
  note em = emplace_ok [where f = f, OF r refl obj small]
  show ?thesis
  proof (cases "conflicts sc (map_of T) ?obj")
    case True
    then show ?thesis using em(1) t T by (auto simp: tab_rel_def tab_conflict_eq)
  next
    case False
    then obtain p s' mi' where "emplace H sc f s mi = Inr ((p, True), s', mi')"
      "table_rel H sc s' mi' (map_of (T @ [(n, ?obj)])) (n + 1) c"
      using em(2) unfolding tab_append(1) [OF T below] by blast
    then show ?thesis using False t T tab_append(2) [OF T below]
      by (auto simp: tab_rel_def tab_conflict_eq Let_def simp del: map_of_append)
  qed
qed

lemma step_ok:
  assumes rel: "tab_rel H sc s mi t c" and ok: "mi_call_ok sc call" and small: "unat (snd t) < 2 ^ 63"
    and step: "tab_step sc call t = (r, t')"
  shows "\<exists>s' mi'. mi_step H sc call s mi = Inr (r, s', mi') \<and> tab_rel H sc s' mi' t' c"
proof -
  obtain T n where t: "t = (T, n)" by (cases t)
  have T: "sorted_tab T" and r: "table_rel H sc s mi (map_of T) n c" using rel t by (simp_all add: tab_rel_def)
  show ?thesis
  proof (cases call)
    case (Call_emplace f)
    then show ?thesis using step_emplace assms t by simp
  next
    case (Call_count ix v)
    have "length (matches T ix v) = card (members (map_of T) ix v)"
      using matches_sorted [OF T, of ix v] members_map_of [OF T, of ix v]
      by (metis distinct_card length_map list.set_map strict_sorted_iff)
    then show ?thesis using Call_count count_ok [OF r, of ix v] ok step rel t by auto
  next
    case Call_scan
    then show ?thesis using scan_ok [OF r] step t T by (auto simp: tab_rel_def objects_map_of)
  next
    case (Call_find ix v)
    show ?thesis by (rule step_unique [OF rel [unfolded t] ok step [unfolded t], of ix v]) (simp add: Call_find)
  next
    case (Call_modify ix v f)
    show ?thesis by (rule step_unique [OF rel [unfolded t] ok step [unfolded t], of ix v f]) (simp add: Call_modify)
  next
    case (Call_erase ix v)
    show ?thesis by (rule step_unique [OF rel [unfolded t] ok step [unfolded t], of ix v]) (simp add: Call_erase)
  next
    case (Call_list ix v)
    show ?thesis by (rule step_normal [OF rel [unfolded t] ok step [unfolded t], of ix v]) (simp add: Call_list)
  next
    case (Call_modify_first ix v f)
    show ?thesis by (rule step_normal [OF rel [unfolded t] ok step [unfolded t], of ix v f]) (simp add: Call_modify_first)
  qed
qed

lemma run_ok:
  assumes "tab_rel H sc s mi t c" "list_all (mi_call_ok sc) cs" "unat (snd t) + length cs \<le> 2 ^ 63" "tab_run sc cs t = (rs, t')"
  shows "\<exists>s' mi'. mi_run H sc cs s mi = Inr (rs, s', mi') \<and> tab_rel H sc s' mi' t' c"
  using assms
proof (induction cs arbitrary: s mi t rs)
  case (Cons call cs)
  obtain r t1 where 1: "tab_step sc call t = (r, t1)" by (cases "tab_step sc call t")
  obtain rs2 where 2: "tab_run sc cs t1 = (rs2, t')" "rs = r # rs2" using Cons.prems(4) 1 by (auto split: prod.splits)
  have small: "unat (snd t) < 2 ^ 63" using Cons.prems(3) by simp
  obtain s1 mi1 where 3: "mi_step H sc call s mi = Inr (r, s1, mi1)" "tab_rel H sc s1 mi1 t1 c"
    using step_ok [OF Cons.prems(1) _ small 1] Cons.prems(2) by auto
  have "unat (snd t1) + length cs \<le> 2 ^ 63" using tab_step_next [OF 1 small] Cons.prems(3) by simp
  then obtain s' mi' where "mi_run H sc cs s1 mi1 = Inr (rs2, s', mi')" "tab_rel H sc s' mi' t' c"
    using Cons.IH [OF 3(2) _ _ 2(1)] Cons.prems(2) by auto
  then show ?case using 2(2) 3(1) by simp
qed simp

lemma counter_key: "table_key sc (st_key (table_name sc))"
  by (simp add: table_key_def)

lemma ctor_ok:
  assumes "stored H sc s t"
  shows "\<exists>mi c. mi_ctor H sc s = Inr mi \<and> tab_rel H sc s mi t c"
proof -
  obtain c where c: "holds_table H sc s (map_of (fst t)) c" "case c of None \<Rightarrow> snd t = 0 | Some w \<Rightarrow> w = VUInt (ucast (snd t))"
    using assms by (auto simp: stored_def)
  obtain M where M: "repr s M" "M (st_key (table_name sc)) = c" using c(1) by (auto simp: holds_table_def)
  obtain k where k: "get_state (TU W64) H s (st_key (table_name sc)) (default_val (TU W64)) =
      Inr (k, case c of None \<Rightarrow> default_val (TU W64) | Some v \<Rightarrow> v)" "k = 0 \<longleftrightarrow> c = None"
    using multi_get [OF M(1) counter_key, of "TU W64"] M(2) by auto
  let ?mi = "\<lparr>mi_items = [], seq2item = Map.empty, mi_seq =
    \<lparr>st_default = default_val (TU W64), st_name = table_name sc, st_value = VUInt (ucast (snd t))\<rparr>\<rparr>"
  have "mi_ctor H sc s = Inr ?mi"
    using k c(2) by (auto simp: mi_ctor_def st_Init_def state_ops_def split: option.splits)
  moreover have "tab_rel H sc s ?mi t c"
    using assms c(1) by (simp add: tab_rel_def table_rel_def stored_def items_cached_def counter_is_def st_get_def)
  ultimately show ?thesis by blast
qed

lemma dtor_ok:
  assumes "tab_rel H sc s mi t c"
  shows "\<exists>s'. mi_dtor H s mi = Inr s' \<and> stored H sc s' t"
proof -
  have r: "table_rel H sc s mi (map_of (fst t)) (snd t) c" using assms by (simp add: tab_rel_def)
  then obtain M where M: "repr s M" "\<forall>seq. M (MultiDBKey (table_name sc) seq) = map_of (fst t) seq"
    "\<forall>ix \<in> set (indices sc). mirrors sc M (map_of (fst t)) ix" by (auto simp: table_rel_def holds_table_def)
  let ?v = "VUInt (ucast (snd t))"
  let ?M = "M(st_key (table_name sc) \<mapsto> ?v)"
  obtain s' where s': "set_state H s (st_key (table_name sc)) ?v = Inr s'" "repr s' ?M"
    using multi_set [OF M(1) counter_key, of ?v] u64_value by auto
  have "holds_table H sc s' (map_of (fst t)) (Some ?v)"
    unfolding holds_table_def using s'(2) M(2,3) by (intro exI [of _ ?M]) (simp add: mirrors_db)
  then have "stored H sc s' t" unfolding stored_def using assms r
    by (intro conjI exI [of _ "Some ?v"]) (simp_all add: tab_rel_def table_rel_def)
  moreover have "mi_dtor H s mi = Inr s'"
    using s'(1) r by (simp add: mi_dtor_def st_Flush_def state_ops_def table_rel_def counter_is_def st_get_def)
  ultimately show ?thesis by blast
qed

end

context table_store
begin

lemma session_ok:
  assumes "stored H sc s t" "list_all (mi_call_ok sc) cs" "unat (snd t) + length cs \<le> 2 ^ 63" "tab_run sc cs t = (rs, t')"
  shows "\<exists>s'. mi_session H sc cs s = Inr (rs, s') \<and> stored H sc s' t'"
proof -
  obtain mi c where 1: "mi_ctor H sc s = Inr mi" "tab_rel H sc s mi t c" using ctor_ok [OF assms(1)] by blast
  obtain s1 mi1 where 2: "mi_run H sc cs s mi = Inr (rs, s1, mi1)" "tab_rel H sc s1 mi1 t' c"
    using run_ok [OF 1(2) assms(2-4)] by blast
  then show ?thesis using 1(1) dtor_ok [OF 2(2)] by (auto simp: mi_session_def)
qed

lemma sessions_ok:
  assumes "stored H sc s t" "list_all (list_all (mi_call_ok sc)) css" "unat (snd t) + length (concat css) \<le> 2 ^ 63"
    and "tab_runs sc css t = (rss, t')"
  shows "\<exists>s'. mi_sessions H sc css s = Inr (rss, s') \<and> stored H sc s' t'"
  using assms
proof (induction css arbitrary: s t rss)
  case (Cons cs css)
  obtain rs t1 where 1: "tab_run sc cs t = (rs, t1)" by (cases "tab_run sc cs t")
  obtain rss2 where 2: "tab_runs sc css t1 = (rss2, t')" "rss = rs # rss2" using Cons.prems(4) 1 by (auto split: prod.splits)
  obtain s1 where 3: "mi_session H sc cs s = Inr (rs, s1)" "stored H sc s1 t1"
    using session_ok [OF Cons.prems(1) _ _ 1] Cons.prems(2,3) by auto
  have "unat (snd t1) + length (concat css) \<le> 2 ^ 63" using tab_run_next [OF 1] Cons.prems(3) by simp
  then obtain s' where "mi_sessions H sc css s1 = Inr (rss2, s')" "stored H sc s' t'"
    using Cons.IH [OF 3(2) _ _ 2(1)] Cons.prems(2) by auto
  then show ?case using 2(2) 3(1) by simp
qed simp

text \<open>In a stored table no two objects agree in a unique index.\<close>

lemma stored_unique:
  assumes "stored H sc s (T, n)" "ix \<in> set (indices sc)" "ix_unique ix"
  shows "distinct (map (\<lambda>(k, obj). extract_secondary_key ix obj) T)"
proof -
  obtain M where T: "sorted_tab T" "table_ok sc (map_of T) n" and M: "mirrors sc M (map_of T) ix"
    using assms by (auto simp: stored_def holds_table_def)
  have eq: "p = q" if p: "p \<in> set T" and q: "q \<in> set T" and e: "extract_secondary_key ix (snd p) = extract_secondary_key ix (snd q)" for p q
  proof -
    let ?v = "extract_secondary_key ix (snd p)"
    have m: "map_of T (fst p) = Some (snd p)" "map_of T (fst q) = Some (snd q)" using p q sorted_tab_distinct [OF T(1)] by simp_all
    then have "key_ok ix ?v" using T(2) assms(2) by (auto simp: table_ok_def obj_ok_def ran_def)
    then have "mirrors_key sc M ix ?v (members (map_of T) ix ?v)" using M by (simp add: mirrors_def)
    moreover have "fst p \<in> members (map_of T) ix ?v" "fst q \<in> members (map_of T) ix ?v" using m e by (simp_all add: members_def)
    ultimately have "fst p = fst q" using assms(3) by (auto simp: mirrors_key_def split: option.splits)
    then show ?thesis using m by (simp add: prod_eq_iff)
  qed
  have "distinct T" using sorted_tab_distinct [OF T(1)] by (simp add: distinct_map)
  moreover have "inj_on (\<lambda>(k, obj). extract_secondary_key ix obj) (set T)"
    by (intro inj_onI eq) (simp_all add: case_prod_beta)
  ultimately show ?thesis by (simp add: distinct_map)
qed

end

lemma table_storeI: "chain_host_ok H \<Longrightarrow> schema_ok sc \<Longrightarrow> table_store H sc"
  by unfold_locales

lemma stored_empty:
  assumes "\<And>k. table_key sc k \<Longrightarrow> entry_is H s k None"
  shows "stored H sc s ([], 0)"
proof -
  have "index_blocks t i v Map.empty []" for t i v
    unfolding index_blocks_def by (intro exI [of _ Map.empty] exI [of _ "[]"]) (simp add: ring_def blocks_wf_def)
  then have "mirrors sc Map.empty Map.empty ix" for ix
    by (auto simp: mirrors_def mirrors_key_def members_def intro!: exI [of _ "[]"])
  then have "holds_table H sc s Map.empty None"
    using assms unfolding holds_table_def by (intro exI [of _ Map.empty]) (simp add: multi_repr_def)
  then show ?thesis by (auto simp: stored_def sorted_tab_def table_ok_def)
qed

section \<open>The table of the documentation\<close>

text \<open>
  The example of \<open>multi_index.hpp\<close>: members with a name, an age and a sex, a unique index on the
  name and an ordinary one on the age.
\<close>

fun field :: "nat \<Rightarrow> cval \<Rightarrow> cval" where
  "field n (VStruct vs) = (if n < length vs then vs ! n else VUInt 0)"
| "field n v = VUInt 0"

definition by_name :: index where
  "by_name = \<lparr>ix_name = 11, ix_unique = True, ix_type = TString, extract_secondary_key = field 0\<rparr>"

definition by_age :: index where
  "by_age = \<lparr>ix_name = 12, ix_unique = False, ix_type = TU W8, extract_secondary_key = field 1\<rparr>"

definition by_sex :: index where
  "by_sex = \<lparr>ix_name = 13, ix_unique = False, ix_type = TU W8, extract_secondary_key = field 2\<rparr>"

definition member_schema :: "index list \<Rightarrow> schema" where
  "member_schema ixs = \<lparr>table_name = 3, object_type = TStruct [TString, TU W8, TU W8], indices = ixs\<rparr>"

definition member :: "bytes \<Rightarrow> 8 word \<Rightarrow> 8 word \<Rightarrow> cval" where
  "member name age sex = VStruct [VString name, VUInt (ucast age), VUInt (ucast sex)]"

lemmas member_defs = by_name_def by_age_def by_sex_def member_schema_def member_def

lemma member_schema_ok: "schema_ok (member_schema [by_name, by_age])" "schema_ok (member_schema [by_age, by_sex])"
  "schema_ok (member_schema [by_name])"
  by (simp_all add: schema_ok_def member_defs typed_def fits_def item_len_def enc_list_def enc_str_def rlp_head_def)

lemma u8_len: "length (enc_str (be_bytes (unat (x :: 8 word)))) \<le> 2"
proof -
  have "unat x < 256 ^ 1" using unat_bound [of x] by simp
  then have "length (be_bytes (unat x)) \<le> 1" by (simp only: length_be_bytes_le)
  then show ?thesis by (simp add: length_enc_str length_rlp_head)
qed

lemma member_keys:
  "length name < 50 \<Longrightarrow> key_ok by_name (VString name)"
  "key_ok by_age (VUInt (ucast (age :: 8 word)))" "key_ok by_sex (VUInt (ucast (sex :: 8 word)))"
  using u8_len [of age] u8_len [of sex] unat_bound [of age] unat_bound [of sex]
  by (simp_all add: key_ok_def member_defs item_len_def unat_ucast_up length_enc_str [of name] length_rlp_head)

lemma member_ok:
  assumes "length name < 50" "set ixs \<subseteq> {by_name, by_age, by_sex}"
  shows "obj_ok (member_schema ixs) (member name age sex)"
proof -
  have l: "length (enc_str name) \<le> 52" using assms(1) by (simp add: length_enc_str length_rlp_head)
  have "length (enc_list (enc_str name @ enc_str (be_bytes (unat age)) @ enc_str (be_bytes (unat sex)))) < 2 ^ 31 - 8"
    using length_enc_list [of "enc_str name @ enc_str (be_bytes (unat age)) @ enc_str (be_bytes (unat sex))"]
      l u8_len [of age] u8_len [of sex] by simp
  then have "typed (object_type (member_schema ixs)) (member name age sex)"
    using unat_bound [of age] unat_bound [of sex]
    by (simp add: member_schema_def member_def typed_def fits_def item_len_def unat_ucast_up)
  moreover have "key_ok ix (extract_secondary_key ix (member name age sex))" if "ix \<in> {by_name, by_age, by_sex}" for ix
  proof -
    have "extract_secondary_key by_name (member name age sex) = VString name"
      "extract_secondary_key by_age (member name age sex) = VUInt (ucast age)"
      "extract_secondary_key by_sex (member name age sex) = VUInt (ucast sex)" by (simp_all add: member_defs)
    then show ?thesis using that member_keys assms(1) by auto
  qed
  ultimately show ?thesis using assms(2) by (auto simp: obj_ok_def member_schema_def)
qed

interpretation members: table_store model_chain "member_schema [by_name, by_age]"
  by (intro table_storeI model_chain_ok member_schema_ok)

section \<open>What a contract may rely on\<close>

text \<open>
  C3. A \<open>MultiIndex\<close> is a table: over any sequence of sessions of a contract, each from the constructor
  to the destructor, every insertion, search by a unique key, count, listing by an ordinary key,
  update, erasure and scan returns what the abstract table returns (a list of objects in the
  order of insertion), and the state represents that table afterwards.
\<close>

theorem multi_index_refines_table:
  assumes "chain_host_ok H" "schema_ok sc" "stored H sc s t"
    and "list_all (list_all (mi_call_ok sc)) css" "unat (snd t) + length (concat css) \<le> 2 ^ 63"
  shows "\<exists>s'. mi_sessions H sc css s = Inr (fst (tab_runs sc css t), s') \<and> stored H sc s' (snd (tab_runs sc css t))"
  using table_store.sessions_ok [OF table_storeI [OF assms(1,2)] assms(3-5)] by simp

definition demo_calls :: "mi_call list list" where
  "demo_calls =
     [[Call_emplace (\<lambda>_. member [97] 10 1), Call_emplace (\<lambda>_. member [98] 10 2), Call_emplace (\<lambda>_. member [97] 30 1),
       Call_count by_age (VUInt 10)],
      [Call_list by_age (VUInt 10), Call_modify by_name (VString [98]) (\<lambda>_. member [98] 10 9),
       Call_erase by_name (VString [97]), Call_find by_name (VString [97]), Call_scan]]"

lemma demo_calls_ok: "list_all (list_all (mi_call_ok (member_schema [by_name, by_age]))) demo_calls"
proof -
  have "obj_ok (member_schema [by_name, by_age]) (member [c] age sex)" "key_ok by_name (VString [c])" for c age sex
    by (intro member_ok member_keys; simp)+
  moreover have "by_name \<in> set (indices (member_schema [by_name, by_age]))" "by_age \<in> set (indices (member_schema [by_name, by_age]))"
    "ix_unique by_name" "\<not> ix_unique by_age" by (simp_all add: member_defs)
  ultimately show ?thesis using member_keys(2) [of 10] by (simp add: demo_calls_def keeps_def)
qed

lemma demo_runs:
  "tab_runs (member_schema [by_name, by_age]) demo_calls ([], 0) =
     ([[Ret_bool True, Ret_bool True, Ret_bool False, Ret_count 2],
       [Ret_objs [member [97] 10 1, member [98] 10 2], Ret_bool True, Ret_bool True, Ret_obj None,
        Ret_objs [member [98] 10 9]]], [(1, member [98] 10 9)], 2)"
  by (simp add: demo_calls_def member_defs tab_conflict_def matches_def tab_modify_def same_keys_def)

lemma model_chain_empty: "stored model_chain sc (\<lambda>k. []) ([], 0)"
  by (intro stored_empty) (simp add: entry_is_def model_chain_def)

theorem multi_index_refines_table_witness:
  "\<exists>s'. mi_sessions model_chain (member_schema [by_name, by_age]) demo_calls (\<lambda>k. []) =
      Inr ([[Ret_bool True, Ret_bool True, Ret_bool False, Ret_count 2],
        [Ret_objs [member [97] 10 1, member [98] 10 2], Ret_bool True, Ret_bool True, Ret_obj None,
         Ret_objs [member [98] 10 9]]], s') \<and>
    stored model_chain (member_schema [by_name, by_age]) s' ([(1, member [98] 10 9)], 2)"
  using multi_index_refines_table [OF model_chain_ok member_schema_ok(1) model_chain_empty demo_calls_ok]
  unfolding demo_runs by (simp add: demo_calls_def)

text \<open>
  C11. The invariant of a unique index: whatever sequence of sessions led to the state of a table,
  no two of its objects have the same key in a unique index, the insertion order is the
  order of the sequence numbers, and every object lies below the counter.
\<close>

theorem unique_index_invariant:
  assumes "chain_host_ok H" "schema_ok sc" "stored H sc s ([], 0)" "list_all (list_all (mi_call_ok sc)) css"
    and "length (concat css) \<le> 2 ^ 63" "mi_sessions H sc css s = Inr (rss, s')" "ix \<in> set (indices sc)" "ix_unique ix"
  shows "\<exists>T n. stored H sc s' (T, n) \<and> distinct (map (\<lambda>(k, obj). extract_secondary_key ix obj) T) \<and>
    sorted_wrt (<) (map fst T) \<and> list_all (\<lambda>(k, obj). k < n \<and> obj_ok sc obj) T"
proof -
  note st = table_storeI [OF assms(1,2)]
  obtain T n where t: "snd (tab_runs sc css ([], 0)) = (T, n)" by fastforce
  have "stored H sc s' (T, n)"
    using table_store.sessions_ok [OF st assms(3,4)] assms(5,6) t by (cases "tab_runs sc css ([], 0)") auto
  moreover have "distinct (map (\<lambda>(k, obj). extract_secondary_key ix obj) T)"
    by (rule table_store.stored_unique [OF st calculation assms(7,8)])
  moreover have T: "sorted_tab T" "table_ok sc (map_of T) n" using calculation(1) by (simp_all add: stored_def)
  moreover have "k < n \<and> obj_ok sc obj" if "(k, obj) \<in> set T" for k obj
  proof -
    have "map_of T k = Some obj" using that sorted_tab_distinct [OF T(1)] by simp
    then show ?thesis using T(2) by (auto simp: table_ok_def ran_def)
  qed
  ultimately show ?thesis by (auto simp: sorted_tab_def list_all_iff)
qed

theorem unique_index_invariant_witness:
  "\<exists>s' T n. mi_sessions model_chain (member_schema [by_name, by_age]) demo_calls (\<lambda>k. []) =
      Inr (fst (tab_runs (member_schema [by_name, by_age]) demo_calls ([], 0)), s') \<and>
    stored model_chain (member_schema [by_name, by_age]) s' (T, n) \<and>
    distinct (map (\<lambda>(k, obj). extract_secondary_key by_name obj) T)"
proof -
  have l: "length (concat demo_calls) \<le> 2 ^ 63" by (simp add: demo_calls_def)
  then obtain s' where "mi_sessions model_chain (member_schema [by_name, by_age]) demo_calls (\<lambda>k. []) =
      Inr (fst (tab_runs (member_schema [by_name, by_age]) demo_calls ([], 0)), s')"
    using members.sessions_ok [OF model_chain_empty demo_calls_ok _ demo_runs] unfolding demo_runs fst_conv by auto
  moreover have "by_name \<in> set (indices (member_schema [by_name, by_age]))" "ix_unique by_name" by (simp_all add: member_defs)
  moreover note l
  ultimately show ?thesis
    using unique_index_invariant [OF model_chain_ok member_schema_ok(1) model_chain_empty demo_calls_ok] by blast
qed

text \<open>A fresh table after one insertion.\<close>

lemma one_member:
  assumes "schema_ok (member_schema ixs)" "set ixs \<subseteq> {by_name, by_age, by_sex}"
  shows "\<exists>mi p s1 mi1 c. mi_ctor model_chain (member_schema ixs) (\<lambda>k. []) = Inr mi \<and>
    emplace model_chain (member_schema ixs) (\<lambda>_. member [97] 10 1) (\<lambda>k. []) mi = Inr ((p, True), s1, mi1) \<and>
    tab_rel model_chain (member_schema ixs) s1 mi1 ([(0, member [97] 10 1)], 1) c \<and>
    it_ok (member_schema ixs) (map_of [(0, member [97] 10 1)]) mi1 p 0 \<and> seq2item mi1 0 = Some p"
proof -
  let ?sc = "member_schema ixs" and ?m = "member [97] 10 1"
  note st = table_storeI [OF model_chain_ok assms(1)]
  obtain mi c where 1: "mi_ctor model_chain ?sc (\<lambda>k. []) = Inr mi" "tab_rel model_chain ?sc (\<lambda>k. []) mi ([], 0) c"
    using table_store.ctor_ok [OF st model_chain_empty] by blast
  have r: "table_rel model_chain ?sc (\<lambda>k. []) mi Map.empty 0 c" using 1(2) by (simp add: tab_rel_def)
  have "obj_ok ?sc ?m" "\<not> conflicts ?sc Map.empty ?m" using assms(2) member_ok by (auto simp: conflicts_def members_def)
  then show ?thesis
    using table_store.emplace_ok(2) [where f = "\<lambda>_. ?m", OF st r refl] 1(1)
    by (auto simp: tab_rel_def sorted_tab_def)
qed

text \<open>
  C12. The loop over a table ends: whatever items are cached, \<open>for (it = cbegin(); it != cend(); ++it)\<close>
  leaves after at most as many rounds as the counter of the table, and has then seen every
  object exactly once, in the order of the sequence numbers.
\<close>

theorem table_scan_terminates:
  assumes "chain_host_ok H" "schema_ok sc" "table_rel H sc s mi D n c" "unat n < fuel"
  shows "\<exists>it mi1 e mi2 mi3. cbegin H sc s mi = Inr (it, mi1) \<and> cend sc mi1 = (e, mi2) \<and>
    scan_from fuel H sc s it e mi2 = Inr (map (the \<circ> D) (sorted_list_of_set (dom D)), mi3) \<and> table_rel H sc s mi3 D n c"
  using table_store.scan_fuel_ok [OF table_storeI [OF assms(1,2)] assms(3,4)] unfolding objects_def by blast

theorem table_scan_terminates_witness:
  "\<exists>mi p s1 mi1 it mi2 e mi3 mi4. mi_ctor model_chain (member_schema [by_name]) (\<lambda>k. []) = Inr mi \<and>
    emplace model_chain (member_schema [by_name]) (\<lambda>_. member [97] 10 1) (\<lambda>k. []) mi = Inr ((p, True), s1, mi1) \<and>
    cbegin model_chain (member_schema [by_name]) s1 mi1 = Inr (it, mi2) \<and> cend (member_schema [by_name]) mi2 = (e, mi3) \<and>
    scan_from 2 model_chain (member_schema [by_name]) s1 it e mi3 = Inr ([member [97] 10 1], mi4)"
proof -
  let ?sc = "member_schema [by_name]" and ?m = "member [97] 10 1"
  obtain mi p s1 mi1 c where 1: "mi_ctor model_chain ?sc (\<lambda>k. []) = Inr mi"
    "emplace model_chain ?sc (\<lambda>_. ?m) (\<lambda>k. []) mi = Inr ((p, True), s1, mi1)"
    "tab_rel model_chain ?sc s1 mi1 ([(0, ?m)], 1) c"
    using one_member [OF member_schema_ok(3)] by auto
  have rel: "table_rel model_chain ?sc s1 mi1 [0 \<mapsto> ?m] 1 c" using 1(3) by (simp add: tab_rel_def)
  have fuel: "unat (1 :: 64 word) < 2" by simp
  have objs: "map (the \<circ> [0 \<mapsto> ?m]) (sorted_list_of_set (dom [0 :: 64 word \<mapsto> ?m])) = [?m]" by simp
  from table_scan_terminates [OF model_chain_ok member_schema_ok(3) rel fuel]
  show ?thesis using 1(1,2) unfolding objs by blast
qed

section \<open>Where the class departs from its interface\<close>

text \<open>
  \<open>modify\<close> stores a new item and leaves the one its iterator points to as it was.
\<close>

lemma modify_keeps_item:
  assumes "modify H sc p f s mi = Inr (s', mi')" "p < length (mi_items mi)" "seq2item mi (item_seq (mi_items mi ! p)) = Some q"
  shows "p < length (mi_items mi')" "mi_items mi' ! p = mi_items mi ! p" "seq2item mi' (item_seq (mi_items mi ! p)) \<noteq> None"
  using assms
  by (auto simp: modify_def it_deref_def item_at_def store_modified_def make_item_def bind_res_def nth_append
      split: if_splits sum.splits)

context table_store
begin

lemma modify_twice:
  assumes rel: "table_rel H sc s mi D n c" and it: "it_ok sc D mi p k" "seq2item mi k = Some q" and k: "D k = Some obj"
    and f: "obj_ok sc (f obj)" "same_keys sc obj (f obj)" and g: "obj_ok sc (g obj)" "same_keys sc obj (g obj)"
  shows "\<exists>s1 mi1 s2 mi2. modify H sc p f s mi = Inr (s1, mi1) \<and> table_rel H sc s1 mi1 (D(k \<mapsto> f obj)) n c \<and>
    it_deref H sc s1 mi1 p = Inr (obj, mi1) \<and>
    modify H sc p g s1 mi1 = Inr (s2, mi2) \<and> table_rel H sc s2 mi2 (D(k \<mapsto> g obj)) n c"
proof -
  let ?i = "mi_items mi ! p"
  have i: "p < length (mi_items mi)" "item_seq ?i = k" "item_obj ?i = obj"
    using it k by (auto simp: it_ok_def stands_at_def)
  obtain s1 mi1 where 1: "modify H sc p f s mi = Inr (s1, mi1)" "table_rel H sc s1 mi1 (D(k \<mapsto> f obj)) n c"
    using modify_ok [OF rel it(1) k, of f] f by auto
  have p1: "p < length (mi_items mi1)" "mi_items mi1 ! p = ?i" "seq2item mi1 k \<noteq> None"
    using modify_keeps_item [OF 1(1) i(1)] it(2) i(2) by auto
  then have d: "it_deref H sc s1 mi1 p = Inr (obj, mi1)" using i by (auto simp: it_deref_def item_at_def)
  have "same_keys sc (f obj) obj" using f(2) by (simp add: same_keys_def)
  then obtain s2 mi2 where "store_modified H sc obj (g obj) k s1 mi1 = Inr (s2, mi2)"
    "table_rel H sc s2 mi2 (D(k \<mapsto> f obj, k \<mapsto> g obj)) n c"
    using store_modified_ok [OF 1(2), of k "f obj" obj "g obj"] g by (auto simp del: fun_upd_upd)
  moreover have "modify H sc p g s1 mi1 = store_modified H sc obj (g obj) k s1 mi1"
    using d p1 i by (simp add: modify_def item_at_def)
  ultimately show ?thesis using 1 d by auto
qed

text \<open>Erasing the only entry of an index through the iterator that stands on it.\<close>

lemma index_erase_last:
  assumes rel: "tab_rel H sc s mi (T, n) c" and ixs: "indices sc = A # B # rest" and A: "\<not> ix_unique A" "key_ok A v"
    and one: "matches T A v = [(k, obj)]" and db: "db = normal_index H (table_name sc) (ix_name A) v"
    and it: "index_cbegin db s = Inr it"
  shows "index_erase H sc db it s mi = Inl Oob"
proof -
  have T: "sorted_tab T" and r: "table_rel H sc s mi (map_of T) n c" using rel by (simp_all add: tab_rel_def)
  have inA: "A \<in> set (indices sc)" using ixs by simp
  note k = matches_hd [OF T one]
  have seq: "index_get_seq db s it = Inr k" and head: "ii_serial it = HEADSERIAL"
    using index_begin_ok [OF r T inA A db] it one by (auto simp: index_cbegin_def index_cend_def bind_res_def split: sum.splits if_splits)
  obtain mi1 where 1: "index_deref H sc db it s mi = Inr (obj, mi1)" using index_deref_ok [OF r seq k(1)] by blast
  obtain M where M: "repr s M" "mirrors sc M (map_of T) A" using r inA by (auto simp: table_rel_def holds_table_def)
  have v: "v = extract_secondary_key A obj" using k by (auto simp: members_def)
  have small: "\<forall>x \<in> dom (map_of T). unat x < 2 ^ 63"
    using r unfolding table_rel_def table_ok_def word_less_nat_alt by (blast intro: order.strict_trans2)
  obtain s1 M1 where 2: "delete_normal_index_db db k s = Inr s1" "repr s1 M1" "mirrors sc M1 ((map_of T)(k := None)) A"
    using remove_from_index [OF M(1) inA M(2) k(1) v A(2) small] A(1) db by auto
  have "members ((map_of T)(k := None)) A v = {}"
    using members_del [where D = "map_of T", OF k(1), of A v] members_map_of [OF T, of A v] one v by simp
  then have "index_blocks (table_name sc) (ix_name A) v M1 []"
    using 2(3) A by (auto simp: mirrors_def mirrors_key_def)
  then have "has_normal_index_db db s1 = Inr False"
    using normal_index_store.read_index(1) [OF normal_store [OF inA A(2)] 2(2)] db by simp
  then have "niv_get db s1 HEADSERIAL = Inr None" by (auto simp: has_normal_index_db_def bind_res_def split: sum.splits)
  then have "index_deref H sc db it s1 mi1 = Inl Oob"
    by (simp add: index_deref_def index_get_seq_def get_normal_index_one_db_def head niv_type_def)
  then show ?thesis using seq 1 2(1) A(1) ixs v db by (simp add: index_erase_def erase_item_def)
qed

end

text \<open>
  C19. \<open>modify\<close> does not update the item its iterator points to: after one update the iterator still
  shows the old object, and a second update through the same iterator starts from the old
  object and overwrites the first, so that \<open>f\<close> is lost.
\<close>

theorem modify_lost_update:
  assumes "chain_host_ok H" "schema_ok sc" "table_rel H sc s mi D n c" "it_ok sc D mi p k" "seq2item mi k = Some q"
    and "D k = Some obj" "obj_ok sc (f obj)" "same_keys sc obj (f obj)" "obj_ok sc (g obj)" "same_keys sc obj (g obj)"
  shows "\<exists>s1 mi1 s2 mi2. modify H sc p f s mi = Inr (s1, mi1) \<and> table_rel H sc s1 mi1 (D(k \<mapsto> f obj)) n c \<and>
    it_deref H sc s1 mi1 p = Inr (obj, mi1) \<and>
    modify H sc p g s1 mi1 = Inr (s2, mi2) \<and> table_rel H sc s2 mi2 (D(k \<mapsto> g obj)) n c"
  by (rule table_store.modify_twice [where f = f and g = g, OF table_storeI [OF assms(1,2)] assms(3-)])

theorem modify_lost_update_witness:
  "\<exists>mi p s1 mi1 s2 mi2 s3 mi3 c. mi_ctor model_chain (member_schema [by_name]) (\<lambda>k. []) = Inr mi \<and>
    emplace model_chain (member_schema [by_name]) (\<lambda>_. member [97] 10 1) (\<lambda>k. []) mi = Inr ((p, True), s1, mi1) \<and>
    modify model_chain (member_schema [by_name]) p (\<lambda>m. VStruct [field 0 m, VUInt 20, field 2 m]) s1 mi1 = Inr (s2, mi2) \<and>
    modify model_chain (member_schema [by_name]) p (\<lambda>m. VStruct [field 0 m, field 1 m, VUInt 9]) s2 mi2 = Inr (s3, mi3) \<and>
    table_rel model_chain (member_schema [by_name]) s3 mi3 [0 \<mapsto> member [97] 10 9] 1 c"
proof -
  let ?sc = "member_schema [by_name]" and ?m = "member [97] 10 1"
  let ?f = "\<lambda>m. VStruct [field 0 m, VUInt 20, field 2 m]" and ?g = "\<lambda>m. VStruct [field 0 m, field 1 m, VUInt 9]"
  have e: "?f ?m = member [97] 20 1" "?g ?m = member [97] 10 9" by (simp_all add: member_def)
  have sub: "set [by_name] \<subseteq> {by_name, by_age, by_sex}" by simp
  obtain mi p s1 mi1 c where 1: "mi_ctor model_chain ?sc (\<lambda>k. []) = Inr mi"
    "emplace model_chain ?sc (\<lambda>_. ?m) (\<lambda>k. []) mi = Inr ((p, True), s1, mi1)"
    "tab_rel model_chain ?sc s1 mi1 ([(0, ?m)], 1) c" "it_ok ?sc (map_of [(0, ?m)]) mi1 p 0" "seq2item mi1 0 = Some p"
    using one_member [OF member_schema_ok(3) sub] by blast
  have ok: "obj_ok ?sc (?f ?m)" "obj_ok ?sc (?g ?m)" unfolding e by (intro member_ok sub; simp)+
  have same: "same_keys ?sc ?m (?f ?m)" "same_keys ?sc ?m (?g ?m)" unfolding e by (simp_all add: same_keys_def member_defs)
  have rel: "table_rel model_chain ?sc s1 mi1 (map_of [(0, ?m)]) 1 c" using 1(3) by (simp add: tab_rel_def)
  from modify_lost_update [where f = ?f and g = ?g, OF model_chain_ok member_schema_ok(3) rel 1(4,5) _ ok(1) same(1) ok(2) same(2)]
  show ?thesis using 1(1,2) unfolding e by (auto 0 4)
qed

text \<open>
  C20. \<open>Index::erase\<close> evaluates \<open>*position\<close> again for every index after it has taken the object out of
  the first: when the first index is the one the iterator runs over and holds no other object with
  this key, the second evaluation reads outside the vector of an empty block.
\<close>

theorem index_erase_out_of_range:
  assumes "chain_host_ok H" "schema_ok sc" "tab_rel H sc s mi (T, n) c" "indices sc = A # B # rest" "\<not> ix_unique A"
    and "key_ok A v" "matches T A v = [(k, obj)]" "db = normal_index H (table_name sc) (ix_name A) v"
    and "index_cbegin db s = Inr it"
  shows "index_erase H sc db it s mi = Inl Oob"
  by (rule table_store.index_erase_last [OF table_storeI [OF assms(1,2)] assms(3-)])

theorem index_erase_out_of_range_witness:
  "\<exists>mi p s1 mi1 it. mi_ctor model_chain (member_schema [by_age, by_sex]) (\<lambda>k. []) = Inr mi \<and>
    emplace model_chain (member_schema [by_age, by_sex]) (\<lambda>_. member [97] 10 1) (\<lambda>k. []) mi = Inr ((p, True), s1, mi1) \<and>
    index_cbegin (normal_index model_chain 3 12 (VUInt 10)) s1 = Inr it \<and>
    index_erase model_chain (member_schema [by_age, by_sex]) (normal_index model_chain 3 12 (VUInt 10)) it s1 mi1 = Inl Oob"
proof -
  let ?sc = "member_schema [by_age, by_sex]" and ?m = "member [97] 10 1" and ?db = "normal_index model_chain 3 12 (VUInt 10)"
  obtain mi p s1 mi1 c where 1: "mi_ctor model_chain ?sc (\<lambda>k. []) = Inr mi"
    "emplace model_chain ?sc (\<lambda>_. ?m) (\<lambda>k. []) mi = Inr ((p, True), s1, mi1)"
    "tab_rel model_chain ?sc s1 mi1 ([(0, ?m)], 1) c"
    using one_member [OF member_schema_ok(2)] by auto
  have sc: "indices ?sc = [by_age, by_sex]" "\<not> ix_unique by_age" "key_ok by_age (VUInt 10)" "matches [(0, ?m)] by_age (VUInt 10) = [(0, ?m)]"
    "?db = normal_index model_chain (table_name ?sc) (ix_name by_age) (VUInt 10)" "by_age \<in> set (indices ?sc)"
    using member_keys(2) [of 10] by (simp_all add: matches_def member_defs)
  have "table_rel model_chain ?sc s1 mi1 (map_of [(0, ?m)]) 1 c" "sorted_tab [(0, ?m)]" using 1(3) by (simp_all add: tab_rel_def)
  then obtain it where it: "index_cbegin ?db s1 = Inr it"
    using table_store.index_begin_ok [OF table_storeI [OF model_chain_ok member_schema_ok(2)] _ _ sc(6,2,3,5)] by blast
  from index_erase_out_of_range [OF model_chain_ok member_schema_ok(2) 1(3) sc(1-5) it] show ?thesis using 1(1,2) it by blast
qed

end
