(* ===== verification/Contract_Name.thy ===== *)
theory Contract_Name
  imports Common
begin

unbundle bit_operations_syntax

text \<open>
  Model of \<open>platonlib/include/platon/name.hpp\<close>: names of methods and of tables as 64-bit hashes.
  The caller of a contract hashes with the constructor of \<open>Name\<close>, the dispatcher of the callee
  with \<open>name_value\<close>; the lemmas show that the two agree on strings without a NUL character.
\<close>

section \<open>Hashing\<close>

definition kOffset64 :: "64 word" where
  "kOffset64 = 14695981039346656037"

definition kPrime64 :: "64 word" where
  "kPrime64 = 1099511628211"

record Name =
  name_val :: "64 word"

text \<open>A \<open>char\<close> is signed on the target: its conversion to \<open>uint64_t\<close> extends the sign.\<close>

definition char64 :: "char \<Rightarrow> 64 word" where
  "char64 c = scast (of_char c :: 8 word)"

definition name_default :: Name where
  "name_default = \<lparr>name_val = 0\<rparr>"

definition name_of_u64 :: "64 word \<Rightarrow> Name" where
  "name_of_u64 v = \<lparr>name_val = v\<rparr>"

fun name_hash_loop :: "string \<Rightarrow> 64 word \<Rightarrow> 64 word" where
  "name_hash_loop [] hash = hash"
| "name_hash_loop (c # cs) hash = name_hash_loop cs ((hash * kPrime64) XOR char64 c)"

definition name_of_string :: "string \<Rightarrow> Name" where
  "name_of_string str = \<lparr>name_val = name_hash_loop str kOffset64\<rparr>"

definition name_raw :: "Name \<Rightarrow> 64 word" where
  "name_raw n = name_val n"

definition name_bool :: "Name \<Rightarrow> bool" where
  "name_bool n \<longleftrightarrow> name_val n \<noteq> 0"

definition name_eq :: "Name \<Rightarrow> Name \<Rightarrow> bool" where
  "name_eq a b \<longleftrightarrow> name_val a = name_val b"

definition name_ne :: "Name \<Rightarrow> Name \<Rightarrow> bool" where
  "name_ne a b \<longleftrightarrow> name_val a \<noteq> name_val b"

definition name_less :: "Name \<Rightarrow> Name \<Rightarrow> bool" where
  "name_less a b \<longleftrightarrow> name_val a < name_val b"

text \<open>
  \<open>name_value\<close> walks a NUL-terminated string; the list holds the characters in front of the
  terminator that the compiler adds to a literal.
\<close>

fun name_value :: "string \<Rightarrow> 64 word \<Rightarrow> 64 word" where
  "name_value [] last_value = last_value"
| "name_value (c # cs) last_value =
     (if c = CHR 0x00 then last_value
      else name_value cs ((kPrime64 * last_value) XOR char64 c))"

section \<open>The two hashes agree\<close>

lemma name_value_loop: "CHR 0x00 \<notin> set str \<Longrightarrow> name_value str h = name_hash_loop str h"
  by (induction str arbitrary: h) (auto simp: mult.commute)

lemma name_hash_loop_append: "name_hash_loop (a @ b) h = name_hash_loop b (name_hash_loop a h)"
  by (induction a arbitrary: h) simp_all

lemma name_value_stops: "name_value (a @ CHR 0x00 # b) h = name_value a h"
  by (induction a arbitrary: h) simp_all

text \<open>
  C37. The constructor of \<open>Name\<close>, with which a caller computes the method number, and \<open>name_value\<close>,
  with which the dispatcher compares it, give the same number for every string without a NUL
  character; a NUL ends the string for \<open>name_value\<close> only.
\<close>

theorem name_hashes_agree:
  "CHR 0x00 \<notin> set a \<Longrightarrow>
     name_value a kOffset64 = name_val (name_of_string a) \<and>
     name_value (a @ CHR 0x00 # b) kOffset64 = name_val (name_of_string a)"
  by (simp add: name_of_string_def name_value_loop name_value_stops)

theorem name_hashes_agree_witness:
  "name_value ''init'' kOffset64 = name_val (name_of_string ''init'') \<and>
   name_value (''init'' @ CHR 0x00 # ''x'') kOffset64 = name_val (name_of_string ''init'')"
  by (rule name_hashes_agree) simp

end
