(* ===== verification/Dispatcher.thy ===== *)
theory Dispatcher
  imports Storage Contract_Name
begin

unbundle bit_operations_syntax

text \<open>
  Model of \<open>platonlib/include/platon/dispatcher.hpp\<close>: what \<open>PLATON_DISPATCH\<close> generates for a
  contract. The input of the transaction is read as a list whose first item is the number of
  the method; the remaining items are fetched as its parameters, the method is run and its
  result is serialised. The lemmas show that a method is called with exactly the arguments
  that were packed for it, which inputs are rejected and how, and that no input makes the
  dispatcher read out of bounds.
\<close>

section \<open>Contracts\<close>

text \<open>
  A method with its parameter types and its body, a parameter of the model: it maps arguments and
  contract state to a result and a new state (the construction and the destruction of the contract
  object included). The two constructors are the two overloads of \<open>execute_action\<close>.
\<close>

datatype 's handler =
  Returns "cval list \<Rightarrow> 's \<Rightarrow> (cval \<times> 's) res"
| Void "cval list \<Rightarrow> 's \<Rightarrow> 's res"

record 's action =
  act_name :: string
  act_args :: "cty list"
  act_body :: "'s handler"

section \<open>Operations\<close>

text \<open>The input is copied to a fresh block, here at address 1; \<open>len\<close> is its length.\<close>

definition get_input :: "bytes \<Rightarrow> memory \<times> vector_ref" where
  "get_input input = (0 # input, vr_mk 1 (length input))"

definition get_para :: "memory \<Rightarrow> RLP \<Rightarrow> cty list \<Rightarrow> cval list res" where
  "get_para mem rlp ts =
     bind_res (itemCount mem (rlp_data rlp)) (\<lambda>c.
       if length ts \<noteq> (c + (2 ^ 32 - 1)) mod 2 ^ 32
       then Inl (Throw (''The number of method parameters does not match'' @ [CHR 0x0A]))
       else fetch_fields mem rlp 1 (member_fetchers ts mem (map default_val ts)))"

definition platon_return :: "rlp_host \<Rightarrow> cval \<Rightarrow> bytes res" where
  "platon_return h t =
     bind_res (pack_size t) (\<lambda>n.
     bind_res (stream_reserve stream_empty n) (\<lambda>rlp_stream.
     bind_res (put h rlp_stream t) stream_out))"

fun run_handler :: "rlp_host \<Rightarrow> 's handler \<Rightarrow> cval list \<Rightarrow> 's \<Rightarrow> (bytes option \<times> 's) res" where
  "run_handler h (Returns func) args s =
     bind_res (func args s) (\<lambda>(t, s'). bind_res (platon_return h t) (\<lambda>out. Inr (Some out, s')))"
| "run_handler h (Void func) args s = bind_res (func args s) (\<lambda>s'. Inr (None, s'))"

definition execute_action ::
  "rlp_host \<Rightarrow> memory \<Rightarrow> RLP \<Rightarrow> 's action \<Rightarrow> 's \<Rightarrow> (bytes option \<times> 's) res" where
  "execute_action h mem rlp a s =
     bind_res (get_para mem rlp (act_args a)) (\<lambda>args. run_handler h (act_body a) args s)"

text \<open>The chain of \<open>else if\<close> over the methods, in the order in which they are listed.\<close>

fun dispatch_chain ::
  "rlp_host \<Rightarrow> memory \<Rightarrow> RLP \<Rightarrow> 64 word \<Rightarrow> 's action list \<Rightarrow> 's \<Rightarrow> (bytes option \<times> 's) res" where
  "dispatch_chain h mem rlp method [] s = Inl (Throw (''no method to call'' @ [CHR 0x0A]))"
| "dispatch_chain h mem rlp method (a # as) s =
     (if method = name_value (act_name a) kOffset64 then execute_action h mem rlp a s
      else dispatch_chain h mem rlp method as s)"

text \<open>
  \<open>invoke\<close> on an input: the bytes handed to the host with \<open>platon_return\<close>, if any, and the state
  afterwards. A fault is an aborted transaction.
\<close>

definition invoke :: "rlp_host \<Rightarrow> 's action list \<Rightarrow> bytes \<Rightarrow> 's \<Rightarrow> (bytes option \<times> 's) res" where
  "invoke h C input s =
     (let (mem, d) = get_input input in
      bind_res (rlp_ctor mem d VeryStrict) (\<lambda>rlp.
      bind_res (rlp_index mem rlp 0) (\<lambda>(m, rlp').
      bind_res (toInt mem (rlp_data m) Strict) (\<lambda>method :: 64 word.
        if method = 0 then Inl (Throw (''invalid method'' @ [CHR 0x0A]))
        else dispatch_chain h mem rlp' method C s))))"

section \<open>Packed values\<close>

lemma platon_return_enc:
  "rlp_host_ok h \<Longrightarrow> item_len v < 2 ^ 32 \<Longrightarrow> platon_return h v = Inr (enc (item_of v))"
  by (simp add: platon_return_def pack_out)

section \<open>A well-formed call reaches its method\<close>

text \<open>The bytes of a call: the number of the method and its arguments, as one list.\<close>

definition call_item :: "64 word \<Rightarrow> cval list \<Rightarrow> rlp_item" where
  "call_item m args = Lst (map item_of (VUInt (ucast m) # args))"

lemma input_view:
  assumes "length (enc x) < 2 ^ 31 - 1"
  shows "enc_view (0 # enc x) (vr_mk 1 (length (enc x))) x"
  using assms
  by (simp add: enc_view_def wf_view_def contents_def seg_def)

lemma dispatch_chain_find:
  "dispatch_chain h mem rlp m C s =
     (case find (\<lambda>a. name_value (act_name a) kOffset64 = m) C of
        None \<Rightarrow> Inl (Throw (''no method to call'' @ [CHR 0x0A]))
      | Some a \<Rightarrow> execute_action h mem rlp a s)"
  by (induction C) auto

lemma fields_view_itemCount:
  assumes "fields_view mem r us"
  shows "itemCount mem (rlp_data r) = Inr (length us)" "length us < size_max"
proof -
  obtain p ws where "list_view mem (rlp_data r) p ws" "list_all2 (enc_view mem) ws (map item_of us)"
    "length us < size_max"
    using assms by (auto simp: fields_view_def)
  then show "itemCount mem (rlp_data r) = Inr (length us)" "length us < size_max"
    using itemCount_list_view(1) by (fastforce dest: list_all2_lengthD)+
qed

lemma get_para_count:
  assumes "fields_view mem r (x # us)"
  shows "get_para mem r ts =
    (if length ts \<noteq> length us
     then Inl (Throw (''The number of method parameters does not match'' @ [CHR 0x0A]))
     else fetch_fields mem r 1 (member_fetchers ts mem (map default_val ts)))"
proof -
  note c = fields_view_itemCount [OF assms]
  have "(length (x # us) + (2 ^ 32 - 1)) mod 2 ^ 32 = length us mod 2 ^ 32"
    by (simp add: mod_add_self2 [of _ "2 ^ 32 :: nat", symmetric] del: mod_add_self2)
  moreover have "length us mod 2 ^ 32 = length us" using c(2) by simp
  ultimately show ?thesis using c(1) by (simp add: get_para_def)
qed

lemma get_para_enc:
  assumes "fields_view mem r (x # args)" "has_types ts args"
  shows "get_para mem r ts = Inr args"
proof -
  have l: "length ts = length args" and t: "\<And>k. k < length ts \<Longrightarrow> has_type (ts ! k) (args ! k)"
    using assms(2) by (auto simp: has_types_list_all2 list_all2_conv_all_nth)
  have "fetch_fields mem r 1 (member_fetchers ts mem (map default_val ts)) = Inr (drop 1 (x # args))"
    by (rule fetch_fields_enc [OF assms(1)]) (simp_all add: l t fetch_enc member_fetchers_default)
  then show ?thesis using l by (simp add: get_para_count [OF assms(1)])
qed

text \<open>The input of a call leads into the chain of methods, with the number of the method read.\<close>

lemma invoke_call:
  assumes "length (enc (call_item m args)) < 2 ^ 31 - 1"
  obtains mem r where "fields_view mem r (VUInt (ucast m) # args)"
    "\<And>s. invoke h C (enc (call_item m args)) s =
       (if m = 0 then Inl (Throw (''invalid method'' @ [CHR 0x0A])) else dispatch_chain h mem r m C s)"
proof -
  let ?us = "VUInt (ucast m) # args" and ?bs = "enc (call_item m args)"
  let ?mem = "0 # ?bs" and ?d = "vr_mk 1 (length ?bs)"
  have ev: "enc_view ?mem ?d (Lst (map item_of ?us))"
    using input_view [OF assms] by (simp only: call_item_def)
  have ctor: "rlp_ctor ?mem ?d VeryStrict = Inr (rlp_fresh ?d)"
    using enc_view_exact(1) [OF ev] ev by (simp add: rlp_ctor_VeryStrict_Inr enc_view_def)
  obtain d0 r' where x: "rlp_index ?mem (rlp_fresh ?d) 0 = Inr (rlp_fresh d0, r')"
    "fields_view ?mem r' ?us" "enc_view ?mem d0 (item_of (?us ! 0))"
    using fields_view_index [OF fields_view_fresh [OF ev], of 0] by auto
  have "toInt ?mem d0 Strict = Inr m"
    using x(3) toInt_word_enc [of ?mem d0 m] by (simp add: unat_ucast_up)
  then have "invoke h C ?bs s = (if m = 0 then Inl (Throw (''invalid method'' @ [CHR 0x0A]))
      else dispatch_chain h ?mem r' m C s)" for s
    using ctor x(1) by (simp add: invoke_def get_input_def)
  then show thesis using that x(2) by blast
qed

section \<open>Every call is answered as specified\<close>

text \<open>
  What a contract promises its callers: the first method of that number is run on the arguments,
  and the three ways in which a call is refused.
\<close>

definition call_spec ::
  "rlp_host \<Rightarrow> 's action list \<Rightarrow> 64 word \<Rightarrow> cval list \<Rightarrow> 's \<Rightarrow> (bytes option \<times> 's) res" where
  "call_spec h C m args s =
     (if m = 0 then Inl (Throw (''invalid method'' @ [CHR 0x0A]))
      else case find (\<lambda>a. name_value (act_name a) kOffset64 = m) C of
        None \<Rightarrow> Inl (Throw (''no method to call'' @ [CHR 0x0A]))
      | Some a \<Rightarrow>
          if length (act_args a) \<noteq> length args
          then Inl (Throw (''The number of method parameters does not match'' @ [CHR 0x0A]))
          else run_handler h (act_body a) args s)"

lemma invoke_spec:
  assumes n: "length (enc (call_item m args)) < 2 ^ 31 - 1"
    and ty: "\<And>a. find (\<lambda>a. name_value (act_name a) kOffset64 = m) C = Some a \<Longrightarrow>
        length (act_args a) = length args \<Longrightarrow> has_types (act_args a) args"
  shows "invoke h C (enc (call_item m args)) s = call_spec h C m args s"
proof -
  obtain mem r where fv: "fields_view mem r (VUInt (ucast m) # args)"
    and i: "invoke h C (enc (call_item m args)) s =
       (if m = 0 then Inl (Throw (''invalid method'' @ [CHR 0x0A])) else dispatch_chain h mem r m C s)"
    using invoke_call [OF n, of h C] by metis
  have "execute_action h mem r a s = run_handler h (act_body a) args s"
    if "find (\<lambda>a. name_value (act_name a) kOffset64 = m) C = Some a" "length (act_args a) = length args" for a
    using get_para_enc [OF fv ty [OF that]] by (simp add: execute_action_def)
  then show ?thesis
    using i by (auto simp: call_spec_def dispatch_chain_find execute_action_def
        get_para_count [OF fv] split: option.splits)
qed

section \<open>No input breaks the dispatcher\<close>

lemma get_para_typed:
  assumes "list_all wf_type ts" "get_para mem r ts = Inr args"
  shows "has_types ts args"
proof -
  have "fetch_fields mem r 1 (member_fetchers ts mem (map default_val ts)) = Inr args"
    using assms(2) by (auto simp: get_para_def bind_res_eq_Inr split: if_splits)
  moreover have "\<forall>t \<in> set ts. fetch_typed t" using assms(1) fetch_has_type by (auto simp: list_all_iff)
  moreover have "has_types ts (map default_val ts)"
    using assms(1) by (auto simp: has_types_list_all2 list_all2_conv_all_nth list_all_length has_type_default)
  ultimately show ?thesis using member_fetchers_typed fetch_fields_results by blast
qed

lemma get_para_safe:
  assumes "rlp_inv mem r" "wf_view mem (rlp_data r)"
  shows "safe (get_para mem r ts)"
  unfolding get_para_def using itemCount_safe(1) [OF assms(2)]
  by (auto intro!: safe_bind fetch_fields_safe [OF assms(1)] dest!: member_fetchers_safe simp: fetch_safe)

text \<open>
  C25. Whatever bytes a transaction carries, the dispatcher neither reads out of bounds nor runs
  forever: the call ends normally or is aborted by a panic. Methods are only ever run on
  arguments of their parameter types, and need to be safe on those only.
\<close>

theorem invoke_safe:
  assumes "length input < 2 ^ 31 - 1"
    and "\<forall>a \<in> set C. list_all wf_type (act_args a) \<and>
          (\<forall>args s. has_types (act_args a) args \<longrightarrow> safe (run_handler h (act_body a) args s))"
  shows "safe (invoke h C input s)"
proof -
  let ?mem = "0 # input" and ?d = "vr_mk 1 (length input)"
  have wf: "wf_view ?mem ?d" using assms(1) by (simp add: wf_view_def)
  have chain: "safe (dispatch_chain h ?mem r m C s)" if "rlp_inv ?mem r" "rlp_data r = ?d" for r m
  proof -
    have "safe (execute_action h ?mem r a s)" if "a \<in> set C" for a
      unfolding execute_action_def
      using get_para_safe [OF \<open>rlp_inv ?mem r\<close>] wf \<open>rlp_data r = ?d\<close> assms(2) that
      by (auto intro!: safe_bind dest!: get_para_typed [rotated])
    then show ?thesis by (auto simp: dispatch_chain_find find_Some_iff split: option.splits)
  qed
  show ?thesis
    unfolding invoke_def get_input_def Let_def prod.case
  proof (rule safe_bind [OF rlp_ctor_VeryStrict_safe [OF wf]])
    fix r assume "rlp_ctor ?mem ?d VeryStrict = Inr r"
    then have "exact_view ?mem ?d \<and> r = rlp_fresh ?d"
      using rlp_ctor_VeryStrict_Inr [OF wf, of r] by simp
    then have r: "r = rlp_fresh ?d" "rlp_inv ?mem r" by (simp_all add: exact_inv)
    note ix = rlp_index_safe [OF r(2), of 0]
    have "safe (bind_res (toInt ?mem (rlp_data x) Strict) (\<lambda>m. if m = 0
        then Inl (Throw (''invalid method'' @ [CHR 0x0A])) else dispatch_chain h ?mem r' m C s))"
      if "rlp_index ?mem r 0 = Inr (x, r')" for x r'
      using ix(2) [OF that] r(1) chain
      by (auto intro!: safe_bind toInt_safe simp: exact_view_def)
    then show "safe (bind_res (rlp_index ?mem r 0) (\<lambda>(m, rlp').
        bind_res (toInt ?mem (rlp_data m) Strict) (\<lambda>method. if method = 0
          then Inl (Throw (''invalid method'' @ [CHR 0x0A])) else dispatch_chain h ?mem rlp' method C s)))"
      by (intro safe_bind [OF ix(1)]) (auto simp del: bind_res_eq_Inr)
  qed
qed

text \<open>A contract whose state is one number, with methods of both kinds.\<close>

definition demo_contract :: "nat action list" where
  "demo_contract =
     [\<lparr>act_name = ''set'', act_args = [TU W64],
       act_body = Void (\<lambda>args s. case args of [VUInt x] \<Rightarrow> Inr (unat x) | _ \<Rightarrow> Inr s)\<rparr>,
      \<lparr>act_name = ''get'', act_args = [],
       act_body = Returns (\<lambda>args s. Inr (VUInt (word_of_nat s), s))\<rparr>,
      \<lparr>act_name = ''add'', act_args = [TU W64, TU W64],
       act_body = Returns (\<lambda>args s. case args of
           [VUInt x, VUInt y] \<Rightarrow> Inr (VUInt (ucast (x + y)), Suc s) | _ \<Rightarrow> Inl (Throw ''bad call''))\<rparr>]"

lemma demo_names:
  "name_value ''set'' kOffset64 \<noteq> name_value ''add'' kOffset64"
  "name_value ''get'' kOffset64 \<noteq> name_value ''add'' kOffset64"
  "name_value ''add'' kOffset64 \<noteq> 0"
  by code_simp+

lemma demo_add:
  "find (\<lambda>a. name_value (act_name a) kOffset64 = name_value ''add'' kOffset64) demo_contract =
     Some (demo_contract ! 2)"
  "act_args (demo_contract ! 2) = [TU W64, TU W64]"
  "act_body (demo_contract ! 2) = Returns (\<lambda>args s. case args of
      [VUInt x, VUInt y] \<Rightarrow> Inr (VUInt (ucast (x + y)), Suc s) | _ \<Rightarrow> Inl (Throw ''bad call''))"
  using demo_names(1,2) by (simp_all add: demo_contract_def)

lemma length_enc_number: "length (enc (item_of (VUInt x))) \<le> 17"
proof -
  have "unat x < 256 ^ 16" using unsigned_less [of x] by simp
  then have "length (be_bytes (unat x)) \<le> 16" by (simp only: length_be_bytes_le)
  then show ?thesis by (simp add: length_enc_str length_rlp_head)
qed

theorem invoke_safe_witness: "safe (invoke model_host demo_contract [0xC1, 0x80] 5)"
proof (rule invoke_safe)
  have "item_len (VUInt x) < 2 ^ 32" for x using length_enc_number [of x] by (simp add: item_len_def)
  then show "\<forall>a \<in> set demo_contract. list_all wf_type (act_args a) \<and>
      (\<forall>args s. has_types (act_args a) args \<longrightarrow> safe (run_handler model_host (act_body a) args s))"
    by (auto simp: demo_contract_def platon_return_enc [OF model_host_ok] split: list.splits cval.splits)
qed simp

text \<open>
  C22. The dispatcher answers every well-formed call as the contract promises: the first method
  whose name has the number is run on the arguments and its value is serialised; number 0, a
  number without method and a wrong number of arguments are refused, each with its own message.
\<close>

theorem dispatch_answers_calls:
  assumes "length (enc (call_item m args)) < 2 ^ 31 - 1"
    and "\<And>a. find (\<lambda>a. name_value (act_name a) kOffset64 = m) C = Some a \<Longrightarrow>
        length (act_args a) = length args \<Longrightarrow> has_types (act_args a) args"
  shows "invoke h C (enc (call_item m args)) s = call_spec h C m args s"
  by (rule invoke_spec [OF assms])

theorem dispatch_answers_calls_witness:
  "invoke model_host demo_contract (enc (call_item (name_value ''add'' kOffset64) [VUInt 2])) 4 =
     Inl (Throw (''The number of method parameters does not match'' @ [CHR 0x0A]))"
proof -
  let ?m = "name_value ''add'' kOffset64"
  have "length (concat (map enc (map item_of [VUInt (ucast ?m), VUInt 2]))) < 56"
    using length_enc_number [of "ucast ?m"] length_enc_number [of 2] by (simp del: item_of.simps)
  then have "length (enc (call_item ?m [VUInt 2])) < 2 ^ 31 - 1"
    by (simp add: call_item_def enc_list_def length_rlp_head del: item_of.simps list.map)
  from dispatch_answers_calls [OF this, of demo_contract model_host 4] show ?thesis
    using demo_add(1,2) demo_names(3) by (simp add: call_spec_def)
qed

end
