(* ===== verification/Cross_Call.thy ===== *)
theory Cross_Call
  imports Dispatcher
begin

unbundle bit_operations_syntax

text \<open>
  Model of \<open>platonlib/include/platon/cross_call.hpp\<close>: how a contract calls another. The method
  name and the arguments are packed into one list, amounts are sent as big-endian numbers, the
  host runs the other contract, and the output it left is unpacked. The lemmas compose this
  with the dispatcher of the callee: the method runs on the very arguments of the caller, and
  the caller receives the very value it returned.
\<close>

section \<open>Packing\<close>

definition cross_call_args :: "rlp_host \<Rightarrow> string \<Rightarrow> cval list \<Rightarrow> bytes res" where
  "cross_call_args h method args =
     (let t_method = name_val (name_of_string method) in
      bind_res (appendList h stream_empty (length args + 1)) (\<lambda>stream.
      bind_res (size_puts (size_bigint size_empty (ucast t_method)) args) (\<lambda>rlps.
      bind_res (stream_reserve stream (rs_size rlps)) (\<lambda>stream.
      bind_res (append_bigint h stream (ucast t_method)) (\<lambda>stream.
      bind_res (put_all h stream args) stream_out)))))"

text \<open>
  The loop of \<open>value_to_bytes\<close>; \<open>b\<close> is one more than the index that is written next. For the value 0 the
  code takes the address of the last element of an empty vector, which C++ leaves undefined, and
  does not use it; the model has the empty result.
\<close>

function vtb_loop :: "'a::len word \<Rightarrow> bytes \<Rightarrow> nat \<Rightarrow> bytes res" where
  "vtb_loop val result b =
     (if val = 0 then Inr result
      else if b = 0 then Inl Oob
      else vtb_loop (drop_bit 8 val) (result[b - 1 := ucast val]) (b - 1))"
  by pat_completeness auto
termination by (relation "measure (\<lambda>(val, result, b). b)") auto

declare vtb_loop.simps [simp del]

definition value_to_bytes :: "'a::len word \<Rightarrow> bytes res" where
  "value_to_bytes val =
     (let byte_count = bytesRequired val in vtb_loop val (replicate byte_count 0) byte_count)"

section \<open>Calls through the host\<close>

text \<open>
  \<open>w_output\<close> is what the last callee left for \<open>platon_get_call_output\<close>. The host calls take the
  address, the packed call and the amounts, and return a status.
\<close>

record 's world =
  w_state :: 's
  w_output :: bytes

record 's call_host =
  ch_rlp :: rlp_host
  ch_call :: "bytes \<Rightarrow> bytes \<Rightarrow> bytes \<Rightarrow> bytes \<Rightarrow> 's world \<Rightarrow> 32 word \<times> 's world"
  ch_delegate_call :: "bytes \<Rightarrow> bytes \<Rightarrow> bytes \<Rightarrow> 's world \<Rightarrow> 32 word \<times> 's world"

definition platon_call_raw ::
  "'s call_host \<Rightarrow> bytes \<Rightarrow> bytes \<Rightarrow> 'v::len word \<Rightarrow> 'g::len word \<Rightarrow> 's world \<Rightarrow> (bool \<times> 's world) res" where
  "platon_call_raw H addr paras val gas w =
     bind_res (value_to_bytes val) (\<lambda>value_bytes.
     bind_res (value_to_bytes gas) (\<lambda>gas_bytes.
       let (result, w') = ch_call H addr paras value_bytes gas_bytes w in Inr (result = 0, w')))"

definition platon_delegate_call_raw ::
  "'s call_host \<Rightarrow> bytes \<Rightarrow> bytes \<Rightarrow> 'g::len word \<Rightarrow> 's world \<Rightarrow> (bool \<times> 's world) res" where
  "platon_delegate_call_raw H addr paras gas w =
     bind_res (value_to_bytes gas) (\<lambda>gas_bytes.
       let (result, w') = ch_delegate_call H addr paras gas_bytes w in Inr (result = 0, w'))"

definition get_call_output :: "cty \<Rightarrow> 's world \<Rightarrow> cval \<Rightarrow> cval res" where
  "get_call_output rt w tgt =
     (let result = w_output w; mem = 0 # result in
      bind_res (rlp_ctor mem (vr_mk 1 (length result)) VeryStrict) (\<lambda>r. fetch rt mem r tgt))"

definition platon_call ::
  "'s call_host \<Rightarrow> bytes \<Rightarrow> 'v::len word \<Rightarrow> 'g::len word \<Rightarrow> string \<Rightarrow> cval list \<Rightarrow> 's world \<Rightarrow>
   (bool \<times> 's world) res" where
  "platon_call H addr val gas method args w =
     bind_res (cross_call_args (ch_rlp H) method args) (\<lambda>paras.
     bind_res (value_to_bytes val) (\<lambda>value_bytes.
     bind_res (value_to_bytes gas) (\<lambda>gas_bytes.
       let (result, w') = ch_call H addr paras value_bytes gas_bytes w in Inr (0 = result, w'))))"

definition platon_call_with_return_value ::
  "cty \<Rightarrow> 's call_host \<Rightarrow> bytes \<Rightarrow> 'v::len word \<Rightarrow> 'g::len word \<Rightarrow> string \<Rightarrow> cval list \<Rightarrow> 's world \<Rightarrow>
   ((cval \<times> bool) \<times> 's world) res" where
  "platon_call_with_return_value rt H addr val gas method args w =
     bind_res (platon_call H addr val gas method args w) (\<lambda>(result, w').
       if \<not> result then Inr ((default_val rt, False), w')
       else bind_res (get_call_output rt w' (default_val rt)) (\<lambda>return_value.
              Inr ((return_value, True), w')))"

definition platon_delegate_call ::
  "'s call_host \<Rightarrow> bytes \<Rightarrow> 'g::len word \<Rightarrow> string \<Rightarrow> cval list \<Rightarrow> 's world \<Rightarrow> (bool \<times> 's world) res" where
  "platon_delegate_call H addr gas method args w =
     bind_res (cross_call_args (ch_rlp H) method args) (\<lambda>paras.
     bind_res (value_to_bytes gas) (\<lambda>gas_bytes.
       let (result, w') = ch_delegate_call H addr paras gas_bytes w in Inr (0 = result, w')))"

definition platon_delegate_call_with_return_value ::
  "cty \<Rightarrow> 's call_host \<Rightarrow> bytes \<Rightarrow> 'g::len word \<Rightarrow> string \<Rightarrow> cval list \<Rightarrow> 's world \<Rightarrow>
   ((cval \<times> bool) \<times> 's world) res" where
  "platon_delegate_call_with_return_value rt H addr gas method args w =
     bind_res (platon_delegate_call H addr gas method args w) (\<lambda>(result, w').
       if \<not> result then Inr ((default_val rt, False), w')
       else bind_res (get_call_output rt w' (default_val rt)) (\<lambda>return_value.
              Inr ((return_value, True), w')))"

section \<open>Amounts\<close>

lemma vtb_loop_ok:
  "vtb_loop v (replicate (bytesRequired v) 0 @ rest) (bytesRequired v) = Inr (be_bytes (unat v) @ rest)"
proof (induction v arbitrary: rest rule: bytesRequired.induct)
  case (1 v)
  show ?case
  proof (cases "v = 0")
    case True
    then show ?thesis by (simp add: vtb_loop.simps bytesRequired.simps)
  next
    case False
    let ?w = "drop_bit 8 v"
    have n: "bytesRequired v = Suc (bytesRequired ?w)" using False by (simp add: bytesRequired.simps)
    have "unat v mod 256 = unat (ucast v :: byte)" by (simp add: unsigned_ucast_eq take_bit_eq_mod)
    then have be: "be_bytes (unat v) = be_bytes (unat ?w) @ [ucast v]"
      using False by (simp add: be_bytes_pos unat_gt_0 unat_drop_byte)
    have "(replicate (Suc (bytesRequired ?w)) 0 @ rest)[bytesRequired ?w := ucast v] =
        replicate (bytesRequired ?w) 0 @ ucast v # rest"
      by (simp add: replicate_append_same [symmetric] list_update_append del: replicate_append_same)
    then show ?thesis
      using 1 [OF False, of "ucast v # rest"] False n be by (subst vtb_loop.simps) simp
  qed
qed

lemma value_to_bytes_be [simp]: "value_to_bytes v = Inr (be_bytes (unat v))"
  using vtb_loop_ok [of v "[]"] by (simp add: value_to_bytes_def Let_def)

section \<open>Caller and callee together\<close>

lemma cross_call_args_enc:
  assumes h: "rlp_host_ok h" and n: "length (enc (call_item (name_val (name_of_string m)) args)) < 2 ^ 32"
  shows "cross_call_args h m args = Inr (enc (call_item (name_val (name_of_string m)) args))"
proof -
  let ?v = "VStruct (VUInt (ucast (name_val (name_of_string m))) # args)"
  have "cross_call_args h m args = serialize h ?v"
    by (simp add: cross_call_args_def serialize_def Let_def bind_res_assoc)
  then show ?thesis
    using serialize_enc [OF h, of ?v] n by (simp add: item_len_def call_item_def)
qed

text \<open>
  What the host is relied on for: it runs the code of the callee on the input, reports whether the
  run ended normally, keeps its output, and discards the changes of an aborted run.
\<close>

definition callee_runs ::
  "rlp_host \<Rightarrow> 's action list \<Rightarrow> (bytes \<Rightarrow> 's world \<Rightarrow> 32 word \<times> 's world) \<Rightarrow> bool" where
  "callee_runs h C call \<longleftrightarrow> (\<forall>input w. case invoke h C input (w_state w) of
       Inl e \<Rightarrow> fst (call input w) \<noteq> 0 \<and> w_state (snd (call input w)) = w_state w
     | Inr (out, s') \<Rightarrow> fst (call input w) = 0 \<and> w_state (snd (call input w)) = s' \<and>
         w_output (snd (call input w)) = (case out of None \<Rightarrow> [] | Some b \<Rightarrow> b))"

lemma callee_runsD:
  assumes "callee_runs h C call"
  shows "invoke h C input (w_state w) = Inl e \<Longrightarrow>
           fst (call input w) \<noteq> 0 \<and> w_state (snd (call input w)) = w_state w"
    and "invoke h C input (w_state w) = Inr (out, s') \<Longrightarrow>
           fst (call input w) = 0 \<and> w_state (snd (call input w)) = s' \<and>
           w_output (snd (call input w)) = (case out of None \<Rightarrow> [] | Some b \<Rightarrow> b)"
  using assms [unfolded callee_runs_def, rule_format, of input w] by simp_all

lemma get_call_output_enc:
  assumes "has_type t v" "item_len v < 2 ^ 31 - 1" "w_output w = enc (item_of v)"
  shows "get_call_output t w (default_val t) = Inr v"
proof -
  have "enc_view (0 # enc (item_of v)) (vr_mk 1 (length (enc (item_of v)))) (item_of v)"
    using assms(2) by (intro input_view) (simp add: item_len_def)
  from deserialize_enc [OF assms(1) this] assms(3) show ?thesis
    by (simp add: get_call_output_def deserialize_def)
qed

text \<open>
  The shared core of calls and delegate calls: the outcome of the body of the method is the outcome
  the caller sees.
\<close>

lemma call_outcome:
  assumes h: "rlp_host_ok h" and run: "callee_runs h C call"
    and nul: "CHR 0x00 \<notin> set m" and nz: "name_value m kOffset64 \<noteq> 0"
    and a: "find (\<lambda>a. name_value (act_name a) kOffset64 = name_value m kOffset64) C = Some a"
    and body: "act_body a = Returns func" and ty: "has_types (act_args a) args"
    and n: "length (enc (call_item (name_value m kOffset64) args)) < 2 ^ 31 - 1"
  obtains input where "cross_call_args h m args = Inr input"
    "\<And>w e. func args (w_state w) = Inl e \<Longrightarrow>
       fst (call input w) \<noteq> 0 \<and> w_state (snd (call input w)) = w_state w"
    "\<And>w v s'. func args (w_state w) = Inr (v, s') \<Longrightarrow> item_len v < 2 ^ 32 \<Longrightarrow>
       fst (call input w) = 0 \<and> w_state (snd (call input w)) = s' \<and>
       w_output (snd (call input w)) = enc (item_of v)"
proof -
  let ?m = "name_value m kOffset64" let ?input = "enc (call_item ?m args)"
  have m: "name_val (name_of_string m) = ?m" by (simp add: name_of_string_def name_value_loop [OF nul])
  have "invoke h C ?input s = call_spec h C ?m args s" for s
    using invoke_spec [OF n, of C h s] a ty by simp
  then have inv: "invoke h C ?input s = run_handler h (Returns func) args s" for s
    using nz a body ty by (simp add: call_spec_def has_types_list_all2 list_all2_lengthD)
  have "cross_call_args h m args = Inr ?input"
    using cross_call_args_enc [OF h, of m args] n by (simp add: m)
  moreover have "fst (call ?input w) \<noteq> 0 \<and> w_state (snd (call ?input w)) = w_state w"
    if "func args (w_state w) = Inl e" for w e
    using callee_runsD(1) [OF run, of ?input w e] inv that by simp
  moreover have "fst (call ?input w) = 0 \<and> w_state (snd (call ?input w)) = s' \<and>
      w_output (snd (call ?input w)) = enc (item_of v)"
    if "func args (w_state w) = Inr (v, s')" "item_len v < 2 ^ 32" for w v s'
    using callee_runsD(2) [OF run, of ?input w "Some (enc (item_of v))" s'] inv that
    by (simp add: platon_return_enc [OF h])
  ultimately show thesis using that by blast
qed

text \<open>The last step of both kinds of call: the status decides whether the output is unpacked.\<close>

lemma call_outcome_value:
  assumes "rlp_host_ok h" "callee_runs h C call" "CHR 0x00 \<notin> set m" "name_value m kOffset64 \<noteq> 0"
    and "find (\<lambda>a. name_value (act_name a) kOffset64 = name_value m kOffset64) C = Some a"
    and "act_body a = Returns func" "has_types (act_args a) args"
    and "length (enc (call_item (name_value m kOffset64) args)) < 2 ^ 31 - 1"
  obtains input where "cross_call_args h m args = Inr input"
    "\<And>w fin. fin = (let (result, w') = (fst (call input w) = 0, snd (call input w)) in
         if \<not> result then Inr ((default_val rt, False), w')
         else bind_res (get_call_output rt w' (default_val rt)) (\<lambda>v. Inr ((v, True), w'))) \<Longrightarrow>
       (case func args (w_state w) of
          Inl e \<Rightarrow> \<exists>w'. fin = Inr ((default_val rt, False), w') \<and> w_state w' = w_state w
        | Inr (v, s') \<Rightarrow> has_type rt v \<and> item_len v < 2 ^ 31 - 1 \<longrightarrow>
            (\<exists>w'. fin = Inr ((v, True), w') \<and> w_state w' = s'))"
proof -
  obtain input where input: "cross_call_args h m args = Inr input"
    "\<And>w e. func args (w_state w) = Inl e \<Longrightarrow>
       fst (call input w) \<noteq> 0 \<and> w_state (snd (call input w)) = w_state w"
    "\<And>w v s'. func args (w_state w) = Inr (v, s') \<Longrightarrow> item_len v < 2 ^ 32 \<Longrightarrow>
       fst (call input w) = 0 \<and> w_state (snd (call input w)) = s' \<and>
       w_output (snd (call input w)) = enc (item_of v)"
    using call_outcome [OF assms] by blast
  show thesis
  proof (rule that [OF input(1)])
    fix w and fin :: "((cval \<times> bool) \<times> 'a world) res"
    assume fin: "fin = (let (result, w') = (fst (call input w) = 0, snd (call input w)) in
         if \<not> result then Inr ((default_val rt, False), w')
         else bind_res (get_call_output rt w' (default_val rt)) (\<lambda>v. Inr ((v, True), w')))"
    show "case func args (w_state w) of
          Inl e \<Rightarrow> \<exists>w'. fin = Inr ((default_val rt, False), w') \<and> w_state w' = w_state w
        | Inr (v, s') \<Rightarrow> has_type rt v \<and> item_len v < 2 ^ 31 - 1 \<longrightarrow>
            (\<exists>w'. fin = Inr ((v, True), w') \<and> w_state w' = s')"
    proof (cases "func args (w_state w)")
      case (Inl e)
      then show ?thesis using input(2) [of w e] fin by simp
    next
      case (Inr vs)
      obtain v s' where vs: "vs = (v, s')" by (cases vs)
      then show ?thesis
        using Inr input(3) [of w v s'] get_call_output_enc [of rt v "snd (call input w)"] fin by auto
    qed
  qed
qed

text \<open>
  C21. A cross-contract call, from the arguments of the caller to the value it gets back: the
  method of the callee runs on exactly these arguments; if it returns, the caller receives its
  value with \<open>true\<close> and its changes stay, and if it aborts, the caller receives a default value
  with \<open>false\<close> and the state is as before.
\<close>

theorem cross_call_returns:
  assumes "rlp_host_ok (ch_rlp H)"
    and "callee_runs (ch_rlp H) C (\<lambda>input. ch_call H addr input (be_bytes (unat val)) (be_bytes (unat gas)))"
    and "CHR 0x00 \<notin> set m" "name_value m kOffset64 \<noteq> 0"
    and "find (\<lambda>a. name_value (act_name a) kOffset64 = name_value m kOffset64) C = Some a"
    and "act_body a = Returns func" "has_types (act_args a) args"
    and "length (enc (call_item (name_value m kOffset64) args)) < 2 ^ 31 - 1"
  shows "case func args (w_state w) of
      Inl e \<Rightarrow> \<exists>w'. platon_call_with_return_value rt H addr val gas m args w =
          Inr ((default_val rt, False), w') \<and> w_state w' = w_state w
    | Inr (v, s') \<Rightarrow> has_type rt v \<and> item_len v < 2 ^ 31 - 1 \<longrightarrow>
        (\<exists>w'. platon_call_with_return_value rt H addr val gas m args w = Inr ((v, True), w') \<and>
              w_state w' = s')"
  apply (rule call_outcome_value [OF assms, of rt])
  subgoal premises p for input
    by (rule p(2)) (simp add: platon_call_with_return_value_def platon_call_def p(1) case_prod_beta)
  done

text \<open>
  The same for a delegate call, which sends no value.
\<close>

lemma delegate_call_returns:
  assumes "rlp_host_ok (ch_rlp H)"
    and "callee_runs (ch_rlp H) C (\<lambda>input. ch_delegate_call H addr input (be_bytes (unat gas)))"
    and "CHR 0x00 \<notin> set m" "name_value m kOffset64 \<noteq> 0"
    and "find (\<lambda>a. name_value (act_name a) kOffset64 = name_value m kOffset64) C = Some a"
    and "act_body a = Returns func" "has_types (act_args a) args"
    and "length (enc (call_item (name_value m kOffset64) args)) < 2 ^ 31 - 1"
  shows "case func args (w_state w) of
      Inl e \<Rightarrow> \<exists>w'. platon_delegate_call_with_return_value rt H addr gas m args w =
          Inr ((default_val rt, False), w') \<and> w_state w' = w_state w
    | Inr (v, s') \<Rightarrow> has_type rt v \<and> item_len v < 2 ^ 31 - 1 \<longrightarrow>
        (\<exists>w'. platon_delegate_call_with_return_value rt H addr gas m args w = Inr ((v, True), w') \<and>
              w_state w' = s')"
  apply (rule call_outcome_value [OF assms, of rt])
  subgoal premises p for input
    by (rule p(2)) (simp add: platon_delegate_call_with_return_value_def platon_delegate_call_def p(1) case_prod_beta)
  done

text \<open>A host that runs one contract at every address.\<close>

definition model_call :: "'s action list \<Rightarrow> bytes \<Rightarrow> 's world \<Rightarrow> 32 word \<times> 's world" where
  "model_call C input w = (case invoke model_host C input (w_state w) of
     Inl e \<Rightarrow> (1, w)
   | Inr (out, s') \<Rightarrow> (0, \<lparr>w_state = s', w_output = (case out of None \<Rightarrow> [] | Some b \<Rightarrow> b)\<rparr>))"

definition model_calls :: "'s action list \<Rightarrow> 's call_host" where
  "model_calls C = \<lparr>ch_rlp = model_host, ch_call = (\<lambda>addr input val gas. model_call C input),
     ch_delegate_call = (\<lambda>addr input gas. model_call C input)\<rparr>"

lemma model_call_runs: "callee_runs model_host C (model_call C)"
  by (auto simp: callee_runs_def model_call_def split: sum.splits prod.splits)

lemma demo_call_length: "length (enc (call_item (name_value ''add'' kOffset64) [VUInt 2, VUInt 3])) < 2 ^ 31 - 1"
proof -
  let ?p = "concat (map enc (map item_of (VUInt (ucast (name_value ''add'' kOffset64)) # [VUInt 2, VUInt 3])))"
  have "length ?p < 56"
    using length_enc_number [of "ucast (name_value ''add'' kOffset64)"] length_enc_number [of 2]
      length_enc_number [of 3] by (simp del: item_of.simps)
  then show ?thesis by (simp add: call_item_def enc_list_def length_rlp_head del: item_of.simps list.map)
qed

theorem cross_call_returns_witness:
  "\<exists>w'. platon_call_with_return_value (TU W64) (model_calls demo_contract) [] (0 :: 64 word) (7 :: 64 word)
      ''add'' [VUInt 2, VUInt 3] \<lparr>w_state = 4, w_output = []\<rparr> = Inr ((VUInt 5, True), w') \<and> w_state w' = 5"
proof -
  have "item_len (VUInt 5) < 2 ^ 31 - 1" using length_enc_number [of 5] by (simp add: item_len_def)
  then show ?thesis
    using cross_call_returns [of "model_calls demo_contract" demo_contract "[]" "0 :: 64 word" "7 :: 64 word"
        "''add''", OF _ _ _ demo_names(3) demo_add(1,3) _ demo_call_length,
        where w = "\<lparr>w_state = 4, w_output = []\<rparr>" and rt = "TU W64"] demo_add(2)
    by (simp add: model_calls_def model_host_ok model_call_runs)
qed

lemma delegate_call_returns_example:
  "\<exists>w'. platon_delegate_call_with_return_value (TU W64) (model_calls demo_contract) [] (7 :: 64 word)
      ''add'' [VUInt 2, VUInt 3] \<lparr>w_state = 4, w_output = []\<rparr> = Inr ((VUInt 5, True), w') \<and> w_state w' = 5"
proof -
  have "item_len (VUInt 5) < 2 ^ 31 - 1" using length_enc_number [of 5] by (simp add: item_len_def)
  then show ?thesis
    using delegate_call_returns [of "model_calls demo_contract" demo_contract "[]" "7 :: 64 word"
        "''add''", OF _ _ _ demo_names(3) demo_add(1,3) _ demo_call_length,
        where w = "\<lparr>w_state = 4, w_output = []\<rparr>" and rt = "TU W64"] demo_add(2)
    by (simp add: model_calls_def model_host_ok model_call_runs)
qed

end
