(* ===== verification/Create_Contract.thy ===== *)
theory Create_Contract
  imports Cross_Call
begin

text \<open>
  Model of \<open>platonlib/include/platon/create.hpp\<close> and \<open>destory.hpp\<close>: deploying, cloning and migrating
  contracts. The code and the packed call of \<open>init\<close> go to the host as one list behind a magic
  number. The lemmas show that the host can read both back and that the packed call reaches the
  \<open>init\<close> method of the new contract with the arguments given.
\<close>

section \<open>Operations\<close>

text \<open>What the host offers: code of a contract, deployment, cloning and migration. New addresses are results.\<close>

record 's create_host =
  cr_rlp :: rlp_host
  cr_code :: "bytes \<Rightarrow> 's \<Rightarrow> bytes"
  cr_deploy :: "bytes \<Rightarrow> bytes \<Rightarrow> bytes \<Rightarrow> 's \<Rightarrow> (32 word \<times> bytes) \<times> 's"
  cr_clone :: "bytes \<Rightarrow> bytes \<Rightarrow> bytes \<Rightarrow> bytes \<Rightarrow> 's \<Rightarrow> (32 word \<times> bytes) \<times> 's"
  cr_migrate :: "bytes \<Rightarrow> bytes \<Rightarrow> bytes \<Rightarrow> 's \<Rightarrow> (32 word \<times> bytes) \<times> 's"
  cr_clone_migrate :: "bytes \<Rightarrow> bytes \<Rightarrow> bytes \<Rightarrow> bytes \<Rightarrow> 's \<Rightarrow> (32 word \<times> bytes) \<times> 's"

definition platon_contract_code :: "'s create_host \<Rightarrow> bytes \<Rightarrow> 's \<Rightarrow> bytes" where
  "platon_contract_code H addr s =
     (let code_length = length (cr_code H addr s) in
      if code_length = 0 then [] else cr_code H addr s)"

definition magic_number :: bytes where
  "magic_number = [0x00, 0x61, 0x73, 0x6d]"

definition platon_create_contract ::
  "'s create_host \<Rightarrow> bytes \<Rightarrow> 'v::len word \<Rightarrow> 'g::len word \<Rightarrow> cval list \<Rightarrow> 's \<Rightarrow>
   ((bytes \<times> bool) \<times> 's) res" where
  "platon_create_contract H code val gas init_args s =
     bind_res (value_to_bytes val) (\<lambda>value_bytes.
     bind_res (value_to_bytes gas) (\<lambda>gas_bytes.
     bind_res (cross_call_args (cr_rlp H) ''init'' init_args) (\<lambda>init_rlp.
     bind_res (size_puts size_empty [VBytes code, VBytes init_rlp]) (\<lambda>rlps.
     bind_res (appendPrefix stream_empty magic_number) (\<lambda>stream.
     bind_res (stream_reserve stream ((rs_size rlps + 4) mod 2 ^ 32)) (\<lambda>stream.
     bind_res (appendList (cr_rlp H) stream 2) (\<lambda>stream.
     bind_res (put_all (cr_rlp H) stream [VBytes code, VBytes init_rlp]) (\<lambda>stream.
     bind_res (stream_out stream) (\<lambda>result.
       let ((r, return_address), s') = cr_deploy H result value_bytes gas_bytes s in
       Inr ((return_address, r = 0), s'))))))))))"

definition platon_create_contract_clone ::
  "'s create_host \<Rightarrow> bytes \<Rightarrow> 'v::len word \<Rightarrow> 'g::len word \<Rightarrow> cval list \<Rightarrow> 's \<Rightarrow>
   ((bytes \<times> bool) \<times> 's) res" where
  "platon_create_contract_clone H address val gas init_args s =
     bind_res (value_to_bytes val) (\<lambda>value_bytes.
     bind_res (value_to_bytes gas) (\<lambda>gas_bytes.
     bind_res (cross_call_args (cr_rlp H) ''init'' init_args) (\<lambda>init_rlp.
       let ((r, return_address), s') = cr_clone H address init_rlp value_bytes gas_bytes s in
       Inr ((return_address, r = 0), s'))))"

definition platon_migrate_contract ::
  "'s create_host \<Rightarrow> bytes \<Rightarrow> 'v::len word \<Rightarrow> 'g::len word \<Rightarrow> 's \<Rightarrow> ((bytes \<times> bool) \<times> 's) res" where
  "platon_migrate_contract H init_args val gas s =
     bind_res (value_to_bytes val) (\<lambda>value_bytes.
     bind_res (value_to_bytes gas) (\<lambda>gas_bytes.
       let ((r, addr), s') = cr_migrate H init_args value_bytes gas_bytes s in
       Inr ((addr, r = 0), s')))"

definition platon_migrate_contract_clone ::
  "'s create_host \<Rightarrow> bytes \<Rightarrow> bytes \<Rightarrow> 'v::len word \<Rightarrow> 'g::len word \<Rightarrow> 's \<Rightarrow>
   ((bytes \<times> bool) \<times> 's) res" where
  "platon_migrate_contract_clone H new_addr init_args val gas s =
     bind_res (value_to_bytes val) (\<lambda>value_bytes.
     bind_res (value_to_bytes gas) (\<lambda>gas_bytes.
       let ((r, addr), s') = cr_clone_migrate H new_addr init_args value_bytes gas_bytes s in
       Inr ((addr, r = 0), s')))"

section \<open>The deployment the host receives\<close>

lemma init_nul: "CHR 0x00 \<notin> set ''init''"
  by simp

lemma init_number: "name_val (name_of_string ''init'') = name_value ''init'' kOffset64"
  unfolding name_of_string_def name_value_loop [OF init_nul] by simp

lemma create_contract_deploys:
  fixes H :: "'s create_host"
  assumes h: "rlp_host_ok (cr_rlp H)"
    and init: "init = enc (call_item (name_value ''init'' kOffset64) args)" "length init < 2 ^ 32"
    and n: "item_len (VTuple [VBytes code, VBytes init]) + 4 < 2 ^ 32"
  shows "platon_create_contract H code val gas args s =
     (let ((r, a), s') = cr_deploy H (magic_number @ enc (item_of (VTuple [VBytes code, VBytes init])))
         (be_bytes (unat val)) (be_bytes (unat gas)) s in Inr ((a, r = 0), s'))"
proof -
  let ?v = "VTuple [VBytes code, VBytes init]"
  have call: "cross_call_args (cr_rlp H) ''init'' args = Inr init"
    using cross_call_args_enc [OF h, of "''init''" args] init by (simp add: init_number)
  obtain rlps where rlps: "size_puts size_empty [VBytes code, VBytes init] = Inr rlps"
    using size_put_total(2) [of size_empty] by (auto simp: size_wf_def size_empty_def)
  obtain r1 where r1: "appendPrefix stream_empty magic_number = Inr r1"
    "stream_rel r1 (ts_empty\<lparr>ts_prefix := magic_number\<rparr>)"
    using appendPrefix_ok [OF stream_rel_empty, of magic_number]
    by (auto simp: ts_empty_def ts_size_def magic_number_def)
  obtain r2 where r2: "stream_reserve r1 ((rs_size rlps + 4) mod 2 ^ 32) = Inr r2"
    "stream_rel r2 (ts_empty\<lparr>ts_prefix := magic_number\<rparr>)"
    using stream_reserve_ok [OF r1(2), of "(rs_size rlps + 4) mod 2 ^ 32"] by auto
  obtain r3 where r3: "put (cr_rlp H) r2 ?v = Inr r3" "stream_out r3 = Inr (magic_number @ enc (item_of ?v))"
    using put_out [OF h r2(2), of ?v] n by (auto simp: magic_number_def simp del: put.simps item_of.simps)
  have "bind_res (appendList (cr_rlp H) r2 2) (\<lambda>stream.
      bind_res (put_all (cr_rlp H) stream [VBytes code, VBytes init]) f) = f r3"
    for f :: "RLPStream \<Rightarrow> ((bytes \<times> bool) \<times> 's) res"
    using r3(1) by (simp add: bind_res_assoc [symmetric] numeral_2_eq_2 del: put_all.simps)
  then show ?thesis
    unfolding platon_create_contract_def using call rlps r1(1) r2(1) r3(2)
    by (simp del: put_all.simps size_puts.simps item_of.simps)
qed

text \<open>
  C31. Creating a contract: the host receives the magic number and a list from which it reads back
  the code and the packed call of \<open>init\<close>, with the amounts as big-endian numbers; and that call,
  dispatched by a contract with such a method, runs it on the arguments given.
\<close>

theorem create_contract_readable:
  assumes "rlp_host_ok (cr_rlp H)"
    and "init = enc (call_item (name_value ''init'' kOffset64) args)" "length init < 2 ^ 31 - 1"
    and "item_len (VTuple [VBytes code, VBytes init]) < 2 ^ 31 - 8"
  shows "\<exists>payload. platon_create_contract H code val gas args s =
       (let ((r, a), s') = cr_deploy H (magic_number @ payload) (be_bytes (unat val)) (be_bytes (unat gas)) s
        in Inr ((a, r = 0), s')) \<and>
     (\<forall>mem d. wf_view mem d \<and> contents mem d = payload \<longrightarrow>
        deserialize (TTuple [TBytes, TBytes]) mem d = Inr (VTuple [VBytes code, VBytes init])) \<and>
     (\<forall>(C :: 'c action list) cs a. find (\<lambda>a. name_value (act_name a) kOffset64 = name_value ''init'' kOffset64) C = Some a \<and>
        has_types (act_args a) args \<longrightarrow>
        invoke (cr_rlp H) C init cs = call_spec (cr_rlp H) C (name_value ''init'' kOffset64) args cs)"
proof (intro exI conjI)
  let ?v = "VTuple [VBytes code, VBytes init]"
  show "platon_create_contract H code val gas args s =
       (let ((r, a), s') = cr_deploy H (magic_number @ enc (item_of ?v)) (be_bytes (unat val)) (be_bytes (unat gas)) s
        in Inr ((a, r = 0), s'))"
    using assms(3,4) by (intro create_contract_deploys [OF assms(1,2)]) simp_all
  show "\<forall>mem d. wf_view mem d \<and> contents mem d = enc (item_of ?v) \<longrightarrow>
        deserialize (TTuple [TBytes, TBytes]) mem d = Inr ?v"
    using deserialize_enc [of "TTuple [TBytes, TBytes]" ?v] by (simp add: enc_view_def)
  show "\<forall>(C :: 'c action list) cs a. find (\<lambda>a. name_value (act_name a) kOffset64 = name_value ''init'' kOffset64) C = Some a \<and>
        has_types (act_args a) args \<longrightarrow>
        invoke (cr_rlp H) C init cs = call_spec (cr_rlp H) C (name_value ''init'' kOffset64) args cs"
  proof (intro allI impI, elim conjE)
    fix C :: "'c action list" and cs a
    assume "find (\<lambda>a. name_value (act_name a) kOffset64 = name_value ''init'' kOffset64) C = Some a"
      "has_types (act_args a) args"
    then show "invoke (cr_rlp H) C init cs = call_spec (cr_rlp H) C (name_value ''init'' kOffset64) args cs"
      unfolding assms(2) using assms(3) by (intro invoke_spec) (simp_all only: assms(2) option.inject)
  qed
qed

definition model_create :: "nat create_host" where
  "model_create = \<lparr>cr_rlp = model_host, cr_code = (\<lambda>a s. []), cr_deploy = (\<lambda>d v g s. ((0, replicate 20 1), s + 1)),
     cr_clone = (\<lambda>a d v g s. ((0, replicate 20 1), s)), cr_migrate = (\<lambda>d v g s. ((0, replicate 20 1), s)),
     cr_clone_migrate = (\<lambda>a d v g s. ((0, replicate 20 1), s))\<rparr>"

lemma init_call_length: "length (enc (call_item (name_value ''init'' kOffset64) [VUInt 2])) \<le> 40"
proof -
  let ?m = "name_value ''init'' kOffset64"
  have "length (concat (map enc (map item_of [VUInt (ucast ?m), VUInt 2]))) \<le> 34"
    using length_enc_number [of "ucast ?m"] length_enc_number [of 2] by (simp del: item_of.simps name_value.simps)
  then show ?thesis
    by (simp add: call_item_def enc_list_def length_rlp_head del: item_of.simps list.map name_value.simps)
qed

theorem create_contract_readable_witness:
  "\<exists>init payload. platon_create_contract model_create [1, 2] (0 :: 64 word) (9 :: 64 word) [VUInt 2] 5 =
       Inr ((replicate 20 1, True), 6) \<and>
     (\<forall>mem d. wf_view mem d \<and> contents mem d = payload \<longrightarrow>
        deserialize (TTuple [TBytes, TBytes]) mem d = Inr (VTuple [VBytes [1, 2], VBytes init]))"
proof -
  let ?init = "enc (call_item (name_value ''init'' kOffset64) [VUInt 2])"
  note len = init_call_length
  have "length (enc_str ?init) \<le> 42" using len by (simp add: length_enc_str length_rlp_head del: name_value.simps)
  then have "item_len (VTuple [VBytes [1, 2], VBytes ?init]) < 2 ^ 31 - 8"
    by (simp add: item_len_def enc_list_def length_rlp_head length_enc_str [of "[1, 2]"] del: name_value.simps)
  from create_contract_readable [OF _ refl _ this, of model_create "0 :: 64 word" "9 :: 64 word" 5] len
  show ?thesis by (auto simp: model_create_def model_host_ok Let_def simp del: name_value.simps)
qed

end
