(* ===== verification/Bech32.thy ===== *)
theory Bech32
  imports CDT_Prelude
begin

unbundle bit_operations_syntax

text \<open>
  Model of \<open>platonlib/include/platon/bech32.hpp\<close>: the Bech32 checksum and the regrouping of bits.
  The lemmas show that the checksum that is created verifies, for every human-readable part
  and every data part, and that regrouping eight bits to five and back is the identity.
\<close>

section \<open>Tables\<close>

definition charset :: string where
  "charset = ''qpzry9x8gf2tvdw0s3jn54khce6mua7l''"

definition charset_rev :: "int list" where
  "charset_rev = [
    -1, -1, -1, -1, -1, -1, -1, -1, -1, -1, -1, -1, -1, -1, -1, -1, -1, -1, -1,
    -1, -1, -1, -1, -1, -1, -1, -1, -1, -1, -1, -1, -1, -1, -1, -1, -1, -1, -1,
    -1, -1, -1, -1, -1, -1, -1, -1, -1, -1, 15, -1, 10, 17, 21, 20, 26, 30, 7,
    5,  -1, -1, -1, -1, -1, -1, -1, 29, -1, 24, 13, 25, 9,  8,  23, -1, 18, 22,
    31, 27, 19, -1, 1,  0,  3,  16, 11, 28, 12, 14, 6,  4,  2,  -1, -1, -1, -1,
    -1, -1, 29, -1, 24, 13, 25, 9,  8,  23, -1, 18, 22, 31, 27, 19, -1, 1,  0,
    3,  16, 11, 28, 12, 14, 6,  4,  2,  -1, -1, -1, -1, -1]"

section \<open>The checksum\<close>

definition cat :: "bytes \<Rightarrow> bytes \<Rightarrow> bytes" where
  "cat x y = x @ y"

definition polymod_step :: "32 word \<Rightarrow> byte \<Rightarrow> 32 word" where
  "polymod_step chk v =
     (let top = ucast (drop_bit 25 chk) :: 8 word;
          sel = (\<lambda>i g. (- ucast ((drop_bit i top) AND 1)) AND g :: 32 word) in
      (push_bit 5 (chk AND 0x1ffffff)) XOR ucast v XOR
      sel 0 0x3b6a57b2 XOR sel 1 0x26508e6d XOR sel 2 0x1ea119fa XOR sel 3 0x3d4233dd XOR
      sel 4 0x2a1462b3)"

definition polymod :: "bytes \<Rightarrow> 32 word" where
  "polymod vs = foldl polymod_step 1 vs"

definition expand_hrp :: "string \<Rightarrow> bytes" where
  "expand_hrp hrp =
     map (\<lambda>c. drop_bit 5 (of_char c)) hrp @ [0] @ map (\<lambda>c. (of_char c) AND 0x1f) hrp"

definition verify_checksum :: "string \<Rightarrow> bytes \<Rightarrow> bool" where
  "verify_checksum hrp vs \<longleftrightarrow> polymod (cat (expand_hrp hrp) vs) = 1"

definition create_checksum :: "string \<Rightarrow> bytes \<Rightarrow> bytes" where
  "create_checksum hrp vs =
     (let enc = cat (expand_hrp hrp) vs @ replicate 6 0;
          md = polymod enc XOR 1 in
      map (\<lambda>i. ucast ((drop_bit (5 * (5 - i)) md) AND 31)) [0..<6])"

section \<open>Regrouping of bits\<close>

text \<open>The inner \<open>while\<close> emits groups of \<open>tobits\<close> bits; \<open>acc\<close> stays below \<open>2 ^ (frombits + tobits - 1)\<close>.\<close>

function emit_groups :: "nat \<Rightarrow> nat \<Rightarrow> nat \<Rightarrow> bytes \<Rightarrow> nat \<times> bytes" where
  "emit_groups tobits acc bits out =
     (if tobits \<le> bits \<and> 0 < tobits
      then emit_groups tobits acc (bits - tobits)
             (out @ [word_of_nat ((drop_bit (bits - tobits) acc) AND (2 ^ tobits - 1))])
      else (bits, out))"
  by pat_completeness auto
termination by (relation "measure (\<lambda>(t, a, b, out). b)") auto

declare emit_groups.simps [simp del]

fun convert_loop :: "nat \<Rightarrow> nat \<Rightarrow> nat \<Rightarrow> nat \<Rightarrow> bytes \<Rightarrow> bytes \<Rightarrow> nat \<times> nat \<times> bytes" where
  "convert_loop frombits tobits acc bits out [] = (acc, bits, out)"
| "convert_loop frombits tobits acc bits out (v # vs) =
     (let acc' = ((push_bit frombits acc) OR unat v) AND (2 ^ (frombits + tobits - 1) - 1);
          (bits', out') = emit_groups tobits acc' (bits + frombits) out in
      convert_loop frombits tobits acc' bits' out' vs)"

definition convertbits :: "nat \<Rightarrow> nat \<Rightarrow> bool \<Rightarrow> bytes \<Rightarrow> bool \<times> bytes" where
  "convertbits frombits tobits pad in' =
     (let (acc, bits, out) = convert_loop frombits tobits 0 0 [] in';
          maxv = 2 ^ tobits - 1 in
      if pad then
        (True, if bits \<noteq> 0 then out @ [word_of_nat ((push_bit (tobits - bits) acc) AND maxv)] else out)
      else if frombits \<le> bits \<or> (push_bit (tobits - bits) acc) AND maxv \<noteq> 0 then (False, out)
      else (True, out))"

section \<open>The checksum is linear\<close>

definition lin :: "32 word \<Rightarrow> 32 word" where
  "lin c = polymod_step c 0"

definition sel_bit :: "bool \<Rightarrow> 32 word \<Rightarrow> 32 word" where
  "sel_bit b g = (if b then g else 0)"

lemma sel_top:
  assumes "i < 7"
  shows "(- ucast ((drop_bit i (ucast (drop_bit 25 (chk :: 32 word)) :: 8 word)) AND 1)) AND g = sel_bit (bit chk (25 + i)) (g :: 32 word)"
proof -
  have b: "bit (drop_bit i (ucast (drop_bit 25 (chk :: 32 word)) :: 8 word)) 0 = bit chk (25 + i)"
    using assms by (simp add: bit_simps del: bit_0)
  have "(drop_bit i (ucast (drop_bit 25 chk) :: 8 word)) AND 1 = (if bit chk (25 + i) then 1 else 0)"
    unfolding b [symmetric] by (simp add: and_one_eq odd_iff_mod_2_eq_one bit_0)
  then show ?thesis by (simp add: sel_bit_def)
qed

lemma polymod_step_sel:
  "polymod_step chk v = (push_bit 5 (chk AND 0x1ffffff)) XOR ucast v XOR
     sel_bit (bit chk 25) 0x3b6a57b2 XOR sel_bit (bit chk 26) 0x26508e6d XOR
     sel_bit (bit chk 27) 0x1ea119fa XOR sel_bit (bit chk 28) 0x3d4233dd XOR
     sel_bit (bit chk 29) 0x2a1462b3"
  unfolding polymod_step_def Let_def
  using sel_top [of 0 chk] sel_top [of 1 chk] sel_top [of 2 chk] sel_top [of 3 chk] sel_top [of 4 chk]
  by simp

lemma sel_bit_xor: "sel_bit (p \<noteq> q) g = sel_bit p g XOR sel_bit q g"
  by (simp add: sel_bit_def)

lemma mask25: "(c :: 32 word) AND 0x1ffffff = take_bit 25 c"
  using take_bit_eq_mask [of 25 c] by (simp add: mask_eq_exp_minus_1)

lemma step_xor:
  "polymod_step (a XOR b) v = polymod_step a 0 XOR polymod_step b v"
  unfolding polymod_step_sel mask25 bit_xor_iff sel_bit_xor take_bit_xor push_bit_xor
  by (simp add: ac_simps)

lemma foldl_step_xor:
  "foldl polymod_step (a XOR b) vs =
     foldl polymod_step a (replicate (length vs) 0) XOR foldl polymod_step b vs"
proof (induction vs arbitrary: a b)
  case (Cons v vs)
  then show ?case by (simp add: step_xor)
qed simp

lemma step_small:
  assumes "take_bit 25 c = c"
  shows "polymod_step c v = push_bit 5 c XOR ucast v"
proof -
  have "\<not> bit c n" if "25 \<le> n" for n
    using that bit_take_bit_iff [of 25 c n] assms by auto
  then show ?thesis using assms by (simp add: polymod_step_sel mask25 sel_bit_def)
qed

lemma step_30: "take_bit 30 (polymod_step c v) = polymod_step c v"
proof -
  have "take_bit 30 (push_bit 5 (take_bit 25 c)) = push_bit 5 (take_bit 25 c)"
    by (rule bit_word_eqI) (auto simp: bit_take_bit_iff bit_push_bit_iff)
  moreover have "take_bit 30 (ucast v :: 32 word) = ucast v"
    by (rule bit_word_eqI) (auto simp: bit_take_bit_iff bit_ucast_iff dest: bit_imp_le_length)
  moreover have "take_bit 30 (sel_bit b g) = sel_bit b g" if "take_bit 30 g = g" for b g
    using that by (simp add: sel_bit_def)
  ultimately show ?thesis
    unfolding polymod_step_sel mask25 take_bit_xor by (simp add: take_bit_eq_mod)
qed

text \<open>Feeding the six groups of a 30-bit word, most significant first, rebuilds the word.\<close>

lemma step_rebuild:
  assumes "take_bit 25 (drop_bit 5 x) = drop_bit 5 x"
  shows "polymod_step (drop_bit 5 x) (ucast (x AND 31)) = x"
proof -
  have "x AND 31 = take_bit 5 x"
    using take_bit_eq_mask [of 5 x] by (simp add: mask_eq_exp_minus_1)
  then have "(ucast (ucast (x AND 31) :: 8 word) :: 32 word) = take_bit 5 x"
    by (intro bit_word_eqI) (auto simp: bit_take_bit_iff bit_ucast_iff)
  moreover have "push_bit 5 (drop_bit 5 x) XOR take_bit 5 x = x"
    by (rule bit_word_eqI) (auto simp: bit_xor_iff bit_take_bit_iff bit_push_bit_iff bit_drop_bit_eq)
  ultimately show ?thesis by (simp add: step_small [OF assms])
qed

lemma take_drop_30:
  assumes "take_bit 30 (x :: 32 word) = x" "5 \<le> n"
  shows "take_bit 25 (drop_bit n x) = drop_bit n x"
proof (rule bit_word_eqI)
  fix i
  have "bit x (n + i) \<Longrightarrow> n + i < 30" using assms(1) bit_take_bit_iff [of 30 x "n + i"] by auto
  then show "bit (take_bit 25 (drop_bit n x)) i = bit (drop_bit n x) i"
    using assms(2) by (auto simp: bit_take_bit_iff bit_drop_bit_eq)
qed

lemma step_groups:
  assumes "take_bit 30 x = x"
  shows "polymod_step (drop_bit (n + 5) x) (ucast ((drop_bit n x) AND 31)) = drop_bit n x"
  using step_rebuild [of "drop_bit n x"] take_drop_30 [OF assms, of "n + 5"]
  by (simp add: add.commute)

lemma foldl_groups:
  assumes "take_bit 30 x = x"
  shows "foldl polymod_step 0 (map (\<lambda>i. ucast ((drop_bit (5 * (5 - i)) x) AND 31)) [0..<6]) = x"
proof -
  have "drop_bit 30 x = 0" using assms drop_bit_take_bit [of 30 30 x] by simp
  moreover have "[0..<6] = [0, 1, 2, 3, 4, 5 :: nat]" by (simp add: upt_rec)
  ultimately show ?thesis
    using step_groups [OF assms, of 25] step_groups [OF assms, of 20] step_groups [OF assms, of 15]
      step_groups [OF assms, of 10] step_groups [OF assms, of 5] step_groups [OF assms, of 0]
    by simp
qed

lemma polymod_30:
  assumes "vs \<noteq> []"
  shows "take_bit 30 (polymod vs) = polymod vs"
proof -
  obtain us u where "vs = us @ [u]" using assms by (metis rev_exhaust)
  then show ?thesis by (simp add: polymod_def step_30)
qed

lemma checksum_verifies: "verify_checksum hrp (cat vs (create_checksum hrp vs))"
proof -
  let ?e = "cat (expand_hrp hrp) vs"
  let ?md = "polymod (?e @ replicate 6 0) XOR 1"
  let ?cs = "create_checksum hrp vs"
  have cs: "?cs = map (\<lambda>i. ucast ((drop_bit (5 * (5 - i)) ?md) AND 31)) [0..<6]"
    by (simp add: create_checksum_def Let_def)
  have "take_bit 30 ?md = ?md" using polymod_30 [of "?e @ replicate 6 0"] by (simp add: take_bit_xor)
  then have m: "foldl polymod_step 0 ?cs = ?md" unfolding cs by (rule foldl_groups)
  have "polymod (cat (expand_hrp hrp) (cat vs ?cs)) = foldl polymod_step (polymod ?e XOR 0) ?cs"
    by (simp add: polymod_def cat_def)
  also have "\<dots> = foldl polymod_step (polymod ?e) (replicate 6 0) XOR ?md"
    unfolding foldl_step_xor m by (simp add: cs)
  also have "\<dots> = 1" by (simp add: polymod_def)
  finally show ?thesis by (simp add: verify_checksum_def)
qed

section \<open>Regrouping preserves the number\<close>

text \<open>The number a list of groups of \<open>w\<close> bits denotes.\<close>

definition group_val :: "nat \<Rightarrow> bytes \<Rightarrow> nat" where
  "group_val w vs = foldl (\<lambda>a v. a * 2 ^ w + unat v) 0 vs"

lemma group_val_simps [simp]:
  "group_val w [] = 0" "group_val w (vs @ [v]) = group_val w vs * 2 ^ w + unat v"
  by (simp_all add: group_val_def)

lemma group_val_inj:
  assumes "length xs = length ys" "list_all (\<lambda>v. unat v < 2 ^ w) xs" "list_all (\<lambda>v. unat v < 2 ^ w) ys"
    "group_val w xs = group_val w ys"
  shows "xs = ys"
  using assms
proof (induction xs arbitrary: ys rule: rev_induct)
  case (snoc x xs)
  then obtain zs z where ys: "ys = zs @ [z]" by (cases ys rule: rev_cases) auto
  have x: "unat x < 2 ^ w" "unat z < 2 ^ w" using snoc.prems ys by simp_all
  have e: "group_val w xs * 2 ^ w + unat x = group_val w zs * 2 ^ w + unat z" using snoc.prems ys by simp
  have "(group_val w xs * 2 ^ w + unat x) mod 2 ^ w = (group_val w zs * 2 ^ w + unat z) mod 2 ^ w"
    using e by simp
  then have "unat x = unat z" using x by simp
  moreover from this e have "group_val w xs = group_val w zs" by simp
  ultimately show ?case using snoc ys by (auto simp: word_unat_eq_iff)
qed simp

lemma and_mask_nat: "(n :: nat) AND (2 ^ k - 1) = n mod 2 ^ k"
  using take_bit_eq_mask [of k n] by (simp add: mask_eq_exp_minus_1 take_bit_eq_mod)

definition groups_ok :: "nat \<Rightarrow> nat \<Rightarrow> nat \<Rightarrow> bytes \<Rightarrow> nat \<Rightarrow> nat \<Rightarrow> bool" where
  "groups_ok tobits acc bits out n len \<longleftrightarrow>
     group_val tobits out * 2 ^ bits + acc mod 2 ^ bits = n \<and> tobits * length out + bits = len \<and>
     list_all (\<lambda>v. unat v < 2 ^ tobits) out"

lemma split_mod: "acc mod 2 ^ (t + b) = (acc div 2 ^ b) mod 2 ^ t * 2 ^ b + acc mod (2 ^ b :: nat)"
  by (simp add: power_add mod_mult2_eq mult.commute)

lemma emit_groups_ok:
  assumes "groups_ok tobits acc bits out n len" "0 < tobits" "tobits \<le> 8"
  shows "\<exists>bits' out'. emit_groups tobits acc bits out = (bits', out') \<and> bits' < tobits \<and>
    groups_ok tobits acc bits' out' n len"
  using assms
proof (induction tobits acc bits out rule: emit_groups.induct)
  case (1 tobits acc bits out)
  show ?case
  proof (cases "tobits \<le> bits")
    case True
    let ?b = "bits - tobits"
    let ?g = "(drop_bit ?b acc) AND (2 ^ tobits - 1)"
    have g: "?g = (acc div 2 ^ ?b) mod 2 ^ tobits" unfolding and_mask_nat drop_bit_eq_div by (rule refl)
    have "(2::nat) ^ tobits \<le> 2 ^ 8" using 1(4) by (intro power_increasing) simp_all
    moreover have lt: "?g < 2 ^ tobits" unfolding g by simp
    ultimately have u: "unat (word_of_nat ?g :: byte) = ?g" by (intro unat_byte_of_nat) simp
    have p: "(2::nat) ^ bits = 2 ^ tobits * 2 ^ ?b" using True by (simp flip: power_add)
    have "acc mod 2 ^ bits = ?g * 2 ^ ?b + acc mod 2 ^ ?b"
      using split_mod [of acc tobits ?b] True unfolding g by simp
    then have g': "groups_ok tobits acc ?b (out @ [word_of_nat ?g]) n len"
      using 1(2) True lt u p by (auto simp: groups_ok_def algebra_simps)
    show ?thesis
      using True 1(1) [OF _ g' 1(3,4)] 1(3) by (subst emit_groups.simps) simp
  next
    case False
    then show ?thesis using 1(2) by (subst emit_groups.simps) auto
  qed
qed

lemma or_low: "v < 2 ^ f \<Longrightarrow> (push_bit f acc) OR v = acc * 2 ^ f + (v :: nat)"
proof -
  assume v: "v < 2 ^ f"
  have "\<not> bit (push_bit f acc) n \<or> \<not> bit v n" for n
  proof (cases "n < f")
    case False
    then have "v < 2 ^ n" using v by (meson leI less_le_trans one_le_numeral power_increasing)
    then show ?thesis by (simp add: bit_iff_odd)
  qed (simp add: bit_push_bit_iff)
  then have "push_bit f acc + v = (push_bit f acc) OR v" by (intro disjunctive_add) simp
  then show ?thesis by (simp add: push_bit_eq_mult)
qed

lemma convert_loop_ok:
  assumes "groups_ok tobits acc bits out n len" "bits < tobits" "0 < frombits" "tobits \<le> 8"
    "list_all (\<lambda>v. unat v < 2 ^ frombits) vs"
  shows "\<exists>acc' bits' out'. convert_loop frombits tobits acc bits out vs = (acc', bits', out') \<and>
    bits' < tobits \<and>
    groups_ok tobits acc' bits' out' (foldl (\<lambda>a v. a * 2 ^ frombits + unat v) n vs)
      (len + frombits * length vs)"
  using assms
proof (induction vs arbitrary: acc bits out n len)
  case (Cons v vs)
  let ?acc = "((push_bit frombits acc) OR unat v) AND (2 ^ (frombits + tobits - 1) - 1)"
  have v: "unat v < 2 ^ frombits" using Cons.prems(5) by simp
  have a: "?acc = (acc * 2 ^ frombits + unat v) mod 2 ^ (frombits + tobits - 1)"
    using or_low [OF v, of acc] and_mask_nat by simp
  have d: "(2::nat) ^ (bits + frombits) dvd 2 ^ (frombits + tobits - 1)"
    using Cons.prems(2) by (intro le_imp_power_dvd) simp
  have "?acc mod 2 ^ (bits + frombits) = (acc * 2 ^ frombits + unat v) mod 2 ^ (bits + frombits)"
    unfolding a by (rule mod_mod_cancel [OF d])
  also have "\<dots> = acc mod 2 ^ bits * 2 ^ frombits + unat v"
    using split_mod [of "acc * 2 ^ frombits + unat v" bits frombits] v by simp
  finally have "groups_ok tobits ?acc (bits + frombits) out (n * 2 ^ frombits + unat v) (len + frombits)"
    using Cons.prems(1) by (auto simp: groups_ok_def power_add algebra_simps)
  then obtain bits' out' where e: "emit_groups tobits ?acc (bits + frombits) out = (bits', out')"
    "bits' < tobits" "groups_ok tobits ?acc bits' out' (n * 2 ^ frombits + unat v) (len + frombits)"
    using emit_groups_ok Cons.prems(2,4) by (metis less_nat_zero_code not_gr_zero)
  from Cons.IH [OF e(3,2) Cons.prems(3,4)] Cons.prems(5) e(1) show ?case
    by (simp add: Let_def algebra_simps)
qed simp

lemma convert_ok:
  assumes "list_all (\<lambda>v. unat v < 2 ^ frombits) vs" "0 < frombits" "0 < tobits" "tobits \<le> 8"
  obtains acc bits out where "convert_loop frombits tobits 0 0 [] vs = (acc, bits, out)" "bits < tobits"
    "group_val tobits out * 2 ^ bits + acc mod 2 ^ bits = group_val frombits vs"
    "tobits * length out + bits = frombits * length vs" "list_all (\<lambda>v. unat v < 2 ^ tobits) out"
  using convert_loop_ok [of tobits 0 0 "[]" 0 0 frombits vs] assms
  by (auto simp: groups_ok_def group_val_def)

lemma shift_mask:
  assumes "b \<le> t"
  shows "(push_bit (t - b) acc) AND (2 ^ t - 1) = acc mod 2 ^ b * (2 ^ (t - b) :: nat)"
  unfolding and_mask_nat push_bit_eq_mult
  using assms split_mod [of "acc * 2 ^ (t - b)" b "t - b"] by simp

text \<open>Eight bits to five, padded with zeros.\<close>

lemma convert_8_5:
  obtains y k where "convertbits 8 5 True x = (True, y)" "k < 5" "5 * length y = 8 * length x + k"
    "group_val 5 y = group_val 8 x * 2 ^ k" "list_all (\<lambda>v. unat v < 2 ^ 5) y"
proof -
  have "list_all (\<lambda>v. unat v < 2 ^ 8) x" by (simp add: list_all_iff)
  then obtain acc bits out where c: "convert_loop 8 5 0 0 [] x = (acc, bits, out)" "bits < 5"
    "group_val 5 out * 2 ^ bits + acc mod 2 ^ bits = group_val 8 x"
    "5 * length out + bits = 8 * length x" "list_all (\<lambda>v. unat v < 2 ^ 5) out"
    using convert_ok [of 8 x 5] by auto
  show thesis
  proof (cases "bits = 0")
    case True
    then have "convertbits 8 5 True x = (True, out)" using c(1) by (simp add: convertbits_def)
    then show thesis using that [of out 0] c True by simp
  next
    case False
    let ?p = "acc mod 2 ^ bits * 2 ^ (5 - bits)"
    have "acc mod 2 ^ bits < 2 ^ bits" by simp
    then have "?p < 2 ^ bits * 2 ^ (5 - bits)" by (intro mult_strict_right_mono) simp_all
    also have "\<dots> = 2 ^ 5" using c(2) by (simp flip: power_add)
    finally have p: "?p < 2 ^ 5" .
    then have u: "unat (word_of_nat ?p :: byte) = ?p" by (intro unat_byte_of_nat) simp
    have "convertbits 8 5 True x = (True, out @ [word_of_nat ?p])"
      using c(1) False shift_mask [of bits 5 acc] c(2) by (simp add: convertbits_def)
    moreover have "group_val 5 (out @ [word_of_nat ?p]) = group_val 8 x * 2 ^ (5 - bits)"
    proof -
      have "(2::nat) ^ 5 = 2 ^ bits * 2 ^ (5 - bits)" using c(2) by (simp flip: power_add)
      then have "group_val 5 (out @ [word_of_nat ?p]) =
          (group_val 5 out * 2 ^ bits + acc mod 2 ^ bits) * 2 ^ (5 - bits)"
        using u by (simp add: algebra_simps)
      then show ?thesis using c(3) by simp
    qed
    ultimately show thesis
      using that [of "out @ [word_of_nat ?p]" "5 - bits"] c(2,4,5) False p u by simp
  qed
qed

lemma convert_roundtrip:
  assumes "convertbits 8 5 True x = (True, y)"
  shows "convertbits 5 8 False y = (True, x)" "list_all (\<lambda>v. unat v < 2 ^ 5) y"
proof -
  obtain k where k: "k < 5" "5 * length y = 8 * length x + k" "group_val 5 y = group_val 8 x * 2 ^ k"
    and y: "list_all (\<lambda>v. unat v < 2 ^ 5) y"
    by (rule convert_8_5 [of x]) (use assms in auto)
  show "list_all (\<lambda>v. unat v < 2 ^ 5) y" by (rule y)
  obtain acc bits out where c: "convert_loop 5 8 0 0 [] y = (acc, bits, out)" "bits < 8"
    "group_val 8 out * 2 ^ bits + acc mod 2 ^ bits = group_val 5 y"
    "8 * length out + bits = 5 * length y"
    using convert_ok [OF y, of 8 thesis] by simp
  have "(8 * length out + bits) mod 8 = (8 * length x + k) mod 8" using c(4) k(2) by simp
  then have "bits = k" using c(2) k(1) by simp
  then have b: "bits = k" "length out = length x" using c(4) k(2) by simp_all
  have m: "(group_val 8 out * 2 ^ k + acc mod 2 ^ k) mod 2 ^ k = (group_val 8 x * 2 ^ k) mod 2 ^ k"
    using c(3) k(3) b by simp
  then have z: "acc mod 2 ^ k = 0" by simp
  then have "group_val 8 out = group_val 8 x" using c(3) k(3) b by simp
  then have "out = x" using b(2) by (intro group_val_inj [of _ _ 8]) (simp_all add: list_all_iff)
  moreover have "(push_bit (8 - bits) acc) AND (2 ^ 8 - 1) = 0"
    using shift_mask [of bits 8 acc] c(2) z b by simp
  ultimately show "convertbits 5 8 False y = (True, x)"
    using c(1) k(1) b by (simp add: convertbits_def)
qed

end
