(* ===== verification/Fixed_Hash.thy ===== *)
theory Fixed_Hash
  imports Common Bech32
begin

unbundle bit_operations_syntax

text \<open>
  Model of \<open>platonlib/include/platon/fixedhash.hpp\<close>: byte strings of a fixed length, addresses, and
  their textual forms. A \<open>FixedHash<N>\<close> is a list of \<open>N\<close> bytes. The hash function of the checksummed
  hexadecimal form is a host function and a parameter. The lemmas show that every textual
  form of an address is read back as the address, and that the comparison operators are a
  linear order.
\<close>

section \<open>Construction\<close>

definition hash_empty :: "nat \<Rightarrow> bytes" where
  "hash_empty N = replicate N 0"

text \<open>From a hash of another width: the first bytes, filled up with zeros.\<close>

definition hash_convert :: "nat \<Rightarrow> bytes \<Rightarrow> bytes" where
  "hash_convert N h = (let c = min (length h) N in take c h @ replicate (N - c) 0)"

text \<open>From an initializer list, a vector, or a pointer and a length: one loop in three overloads.\<close>

fun fill_loop :: "bytes \<Rightarrow> nat \<Rightarrow> bytes \<Rightarrow> bytes" where
  "fill_loop m i [] = m"
| "fill_loop m i (b # bs) = (if i < length m then fill_loop (m[i := b]) (Suc i) bs else m)"

definition hash_of_bytes :: "nat \<Rightarrow> bytes \<Rightarrow> bytes" where
  "hash_of_bytes N b = fill_loop (replicate N 0) 0 b"

definition hash_of_ptr :: "nat \<Rightarrow> bytes \<Rightarrow> bytes" where
  "hash_of_ptr N h =
     (let real_len = (if length h < N then length h else N) in
      take real_len h @ drop real_len (replicate N 0))"

definition hash_of_u128 :: "nat \<Rightarrow> 128 word \<Rightarrow> bytes" where
  "hash_of_u128 N u = toBigEndian u N"

definition hash_of_string :: "nat \<Rightarrow> string \<Rightarrow> bool \<Rightarrow> bytes" where
  "hash_of_string N s isHex = hash_of_bytes N (if isHex then fromHex s else asBytes s)"

definition hash_of_string_view :: "nat \<Rightarrow> string \<Rightarrow> bytes res" where
  "hash_of_string_view N s = fromHexArr s (replicate N 0) True"

section \<open>Operators\<close>

definition hash_toString :: "bytes \<Rightarrow> string" where
  "hash_toString h = ''0x'' @ toHex h ''''"

definition hash_bool :: "bytes \<Rightarrow> bool" where
  "hash_bool h = list_ex (\<lambda>b. b \<noteq> 0) h"

fun hash_less_loop :: "bytes \<Rightarrow> bytes \<Rightarrow> bool" where
  "hash_less_loop (a # as) (b # bs) = (if a < b then True else if a > b then False else hash_less_loop as bs)"
| "hash_less_loop _ _ = False"

definition hash_less :: "bytes \<Rightarrow> bytes \<Rightarrow> bool" where
  "hash_less a b = hash_less_loop a b"

definition hash_eq :: "bytes \<Rightarrow> bytes \<Rightarrow> bool" where
  "hash_eq a b = (a = b)"

definition hash_ge :: "bytes \<Rightarrow> bytes \<Rightarrow> bool" where
  "hash_ge a b = (\<not> hash_less a b)"

definition hash_le :: "bytes \<Rightarrow> bytes \<Rightarrow> bool" where
  "hash_le a b = (hash_eq a b \<or> hash_less a b)"

definition hash_gt :: "bytes \<Rightarrow> bytes \<Rightarrow> bool" where
  "hash_gt a b = (\<not> hash_le a b)"

definition hash_xor :: "bytes \<Rightarrow> bytes \<Rightarrow> bytes" where
  "hash_xor a b = map2 (\<lambda>x y. x XOR y) a b"

definition hash_or :: "bytes \<Rightarrow> bytes \<Rightarrow> bytes" where
  "hash_or a b = map2 (\<lambda>x y. x OR y) a b"

definition hash_and :: "bytes \<Rightarrow> bytes \<Rightarrow> bytes" where
  "hash_and a b = map2 (\<lambda>x y. x AND y) a b"

definition hash_not :: "bytes \<Rightarrow> bytes" where
  "hash_not a = map (\<lambda>x. NOT x) a"

definition hash_contains :: "bytes \<Rightarrow> bytes \<Rightarrow> bool" where
  "hash_contains a c = hash_eq (hash_and a c) c"

text \<open>The subscripts do not check their index.\<close>

definition hash_at :: "bytes \<Rightarrow> nat \<Rightarrow> byte res" where
  "hash_at a i = (if i < length a then Inr (a ! i) else Inl Oob)"

definition hash_set :: "bytes \<Rightarrow> nat \<Rightarrow> byte \<Rightarrow> bytes res" where
  "hash_set a i b = (if i < length a then Inr (a[i := b]) else Inl Oob)"

lemma hash_at_set: "hash_set a i b = Inr a' \<Longrightarrow> hash_at a' j = (if j = i then Inr b else hash_at a j)"
  by (auto simp: hash_set_def hash_at_def split: if_splits)

section \<open>Addresses as Bech32 text\<close>

definition encode :: "bytes \<Rightarrow> string \<Rightarrow> string" where
  "encode address hrp =
     (let vs = snd (convertbits 8 5 True address);
          checksum = create_checksum hrp vs;
          combined = cat vs checksum in
      hrp @ ''1'' @ map (\<lambda>v. charset ! unat v) combined)"

text \<open>The first loop of \<open>decode\<close>: it stops at a character that is not printable.\<close>

fun scan_case :: "string \<Rightarrow> bool \<Rightarrow> bool \<Rightarrow> bool \<times> bool \<times> bool" where
  "scan_case [] lower upper = (True, lower, upper)"
| "scan_case (c # cs) lower upper =
     (let v = of_char c :: nat;
          lower' = (lower \<or> (97 \<le> v \<and> v \<le> 122));
          upper' = (upper \<or> (65 \<le> v \<and> v \<le> 90)) in
      if v < 33 \<or> v > 126 then (False, lower', upper') else scan_case cs lower' upper')"

definition rfind :: "char \<Rightarrow> string \<Rightarrow> nat option" where
  "rfind c s =
     (if c \<in> set s then Some (length s - 1 - length (takeWhile (\<lambda>x. x \<noteq> c) (rev s))) else None)"

definition to_lower :: "char \<Rightarrow> char" where
  "to_lower c = (let v = of_char c :: nat in if 65 \<le> v \<and> v \<le> 90 then char_of (v + 32) else c)"

definition to_upper :: "char \<Rightarrow> char" where
  "to_upper c = (let v = of_char c :: nat in if 97 \<le> v \<and> v \<le> 122 then char_of (v - 32) else c)"

definition rev_at :: "char \<Rightarrow> int res" where
  "rev_at c = (if (of_char c :: nat) < length charset_rev then Inr (charset_rev ! of_char c) else Inl Oob)"

definition decode :: "string \<Rightarrow> string \<Rightarrow> (bytes \<times> bool) res" where
  "decode str_address str_hrp =
     (let (ok0, lower, upper) = scan_case str_address False False;
          ok = (ok0 \<and> \<not> (lower \<and> upper));
          fail = Inr (hash_empty 20, False) in
      case rfind (CHR ''1'') str_address of
        None \<Rightarrow> fail
      | Some pos \<Rightarrow>
          if ok \<and> length str_address \<le> 90 \<and> 1 \<le> pos \<and> pos + 7 \<le> length str_address
          then bind_res (map_res rev_at (drop (pos + 1) str_address)) (\<lambda>rs.
            let vs = map word_of_int rs;
                hrp = map to_lower (take pos str_address) in
            if list_ex (\<lambda>r. r = -1) rs then fail
            else if hrp \<noteq> str_hrp then fail
            else if verify_checksum hrp vs
            then (let (ok_convert, conv) = convertbits 5 8 False (take (length vs - 6) vs) in
                  if ok_convert \<and> 20 = length conv then Inr (hash_of_bytes 20 conv, True) else fail)
            else fail)
          else fail)"

definition net_hrp :: "bool \<Rightarrow> string" where
  "net_hrp testnet = (if testnet then ''lax'' else ''lat'')"

text \<open>\<open>str_address[0]\<close> of an empty \<open>std::string\<close> is the terminating zero.\<close>

definition make_address :: "bool \<Rightarrow> string \<Rightarrow> (bytes \<times> bool) res" where
  "make_address testnet str_address =
     (if length str_address \<ge> 2 \<and> str_address ! 0 = CHR ''0'' \<and> str_address ! 1 = CHR ''x''
      then let bytes_address = fromHex str_address in
        Inr (if 20 = length bytes_address then (hash_of_bytes 20 bytes_address, True)
             else (hash_empty 20, False))
      else decode str_address (net_hrp testnet))"

text \<open>
  The overload for a literal of exactly 42 characters, which other lengths do not compile with. It
  is passed on as a C string, up to a zero.
\<close>

definition make_address_literal :: "bool \<Rightarrow> string \<Rightarrow> (bytes \<times> bool) res" where
  "make_address_literal testnet str_address =
     (let c_str = takeWhile (\<lambda>c. c \<noteq> CHR 0x00) str_address in
      if str_address ! 0 = CHR ''0'' \<and> str_address ! 1 = CHR ''x''
      then let bytes_address = fromHex c_str in
        Inr (if 20 = length bytes_address then (hash_of_bytes 20 bytes_address, True)
             else (hash_empty 20, False))
      else decode c_str (net_hrp testnet))"

definition address_toString :: "bool \<Rightarrow> bytes \<Rightarrow> string" where
  "address_toString testnet a = encode a (net_hrp testnet)"

definition toHexString :: "bytes \<Rightarrow> string" where
  "toHexString a = ''0x'' @ toHex a ''''"

text \<open>The mixed-case form: letters are raised where the nibble of the hash is at least 8.\<close>

definition getEIP55ChecksummedAddress :: "(bytes \<Rightarrow> bytes) \<Rightarrow> string \<Rightarrow> string" where
  "getEIP55ChecksummedAddress platon_sha3 addr =
     (let s = (if take 2 addr = ''0x'' then drop 2 addr else addr) in
      if length s \<noteq> 40 \<or> list_ex (\<lambda>c. fromHexChar c = -1) s then ''''
      else let hash = hash_of_ptr 32 (platon_sha3 (asBytes s)) in
        ''0x'' @ map (\<lambda>i. let nibble = (drop_bit (4 * (1 - i mod 2)) (hash ! (i div 2))) AND 15 in
                           if unat nibble \<ge> 8 then to_upper (s ! i) else to_lower (s ! i)) [0..<40])"

definition toEthAddress :: "(bytes \<Rightarrow> bytes) \<Rightarrow> bytes \<Rightarrow> string" where
  "toEthAddress platon_sha3 a = getEIP55ChecksummedAddress platon_sha3 (toHexString a)"

section \<open>Filling\<close>

lemma fill_loop_eq:
  "i + length bs \<le> length m \<Longrightarrow> fill_loop m i bs = take i m @ bs @ drop (i + length bs) m"
proof (induction bs arbitrary: m i)
  case (Cons b bs)
  then show ?case
    by (simp add: upd_conv_take_nth_drop take_Suc_conv_app_nth add.commute)
qed simp

lemma hash_of_bytes_exact: "length b = N \<Longrightarrow> hash_of_bytes N b = b"
  by (simp add: hash_of_bytes_def fill_loop_eq)

lemma fill_loop_stop: "fill_loop m (length m) bs = m"
  by (cases bs) simp_all

lemma fill_loop_append:
  "i + length as \<le> length m \<Longrightarrow> fill_loop m i (as @ bs) = fill_loop (fill_loop m i as) (i + length as) bs"
  by (induction as arbitrary: m i) simp_all

text \<open>The overloads agree: they copy what fits and leave zeros behind it.\<close>

lemma hash_of_bytes_eq: "hash_of_bytes N b = take N b @ replicate (N - length b) 0"
proof (cases "length b \<le> N")
  case True
  then show ?thesis by (simp add: hash_of_bytes_def fill_loop_eq)
next
  case False
  have "fill_loop (replicate N 0) 0 (take N b @ drop N b) = take N b"
    using False fill_loop_append [of 0 "take N b" "replicate N 0" "drop N b"]
      fill_loop_eq [of 0 "take N b" "replicate N 0"] fill_loop_stop [of "take N b" "drop N b"]
    by (simp add: min_def)
  then show ?thesis using False by (simp add: hash_of_bytes_def)
qed

lemma hash_of_ptr_eq: "hash_of_ptr N b = hash_of_bytes N b"
  by (simp add: hash_of_ptr_def hash_of_bytes_eq)

lemma length_hash_of_bytes [simp]: "length (hash_of_bytes N b) = N"
  by (simp add: hash_of_bytes_eq)

section \<open>Hexadecimal text\<close>

lemma hexdigits_val: "n < 16 \<Longrightarrow> fromHexChar (hexdigits ! n) = int n"
proof -
  have "list_all (\<lambda>n. fromHexChar (hexdigits ! n) = int n) [0..<16]" by code_simp
  then show "n < 16 \<Longrightarrow> ?thesis" by (simp add: list_all_iff)
qed

lemma unat_low_nibble: "unat ((b :: byte) AND 15) = unat b mod 16"
proof -
  have "b AND 15 = take_bit 4 b"
    using take_bit_eq_mask [of 4 b] by (simp add: mask_eq_exp_minus_1)
  then have "unat (b AND 15) = take_bit 4 (unat b)" by (simp only: unsigned_take_bit_eq)
  then show ?thesis by (simp add: take_bit_eq_mod)
qed

lemma byte_div: "unat (b :: byte) div 16 < 16"
  using byte_less [of b] by linarith

lemma unat_high_nibble: "unat (drop_bit 4 (b :: byte) AND 15) = unat b div 16"
proof -
  have "unat (drop_bit 4 b) = unat b div 16"
    unfolding unat_drop_bit_eq by (simp add: drop_bit_eq_div)
  then show ?thesis using byte_div [of b] by (simp only: unat_low_nibble) simp
qed

lemma toHex_Cons:
  "toHex (b # bs) '''' =
     hexdigits ! (unat b div 16) # hexdigits ! (unat b mod 16) # toHex bs ''''"
  unfolding toHex_def list.map unat_high_nibble unfolding unat_low_nibble by simp

lemma fromHex_loop_toHex: "fromHex_loop (toHex bs '''') = Some bs"
proof (induction bs)
  case (Cons b bs)
  have h: "fromHexChar (hexdigits ! (unat b div 16)) = int (unat b div 16)"
    by (intro hexdigits_val byte_div)
  have l: "fromHexChar (hexdigits ! (unat b mod 16)) = int (unat b mod 16)"
    by (intro hexdigits_val) simp
  have "int (unat b div 16) * 16 + int (unat b mod 16) = int (unat b)"
    using div_mult_mod_eq [of "unat b" 16] by (metis of_nat_add of_nat_mult of_nat_numeral)
  then have "word_of_int (int (unat b div 16) * 16 + int (unat b mod 16)) = b" by (simp only: ) simp
  moreover have "int (unat b div 16) \<noteq> - 1" "int (unat b mod 16) \<noteq> - 1" by linarith+
  ultimately show ?case
    using Cons h l by (simp add: toHex_Cons Let_def del: of_nat_div of_nat_mod)
qed (simp add: toHex_def)

lemma fromHex_loop_cong:
  "map fromHexChar s = map fromHexChar t \<Longrightarrow> fromHex_loop s = fromHex_loop t"
proof (induction s arbitrary: t rule: fromHex_loop.induct)
  case (1 a b cs)
  then obtain a' b' ds where "t = a' # b' # ds" "fromHexChar a = fromHexChar a'"
    "fromHexChar b = fromHexChar b'" "map fromHexChar cs = map fromHexChar ds"
    by (auto simp: Cons_eq_map_conv)
  then show ?case using 1(1) [OF refl refl] by (simp add: Let_def)
qed (auto simp: map_eq_Cons_conv Cons_eq_map_conv)

lemma length_toHex: "length (toHex bs pre) = length pre + 2 * length bs"
  by (induction bs) (simp_all add: toHex_def)

lemma fromHex_prefixed:
  assumes "map fromHexChar s = map fromHexChar (toHex bs '''')"
  shows "fromHex (''0x'' @ s) = bs"
proof -
  have "length s = 2 * length bs" using arg_cong [OF assms, of length] by (simp add: length_toHex)
  moreover have "fromHex_loop s = Some bs" using fromHex_loop_cong [OF assms] fromHex_loop_toHex by simp
  ultimately show ?thesis by (simp add: fromHex_def hex_prefix_def)
qed

lemma toHex_hex: "c \<in> set (toHex bs '''') \<Longrightarrow> fromHexChar c \<noteq> - 1"
proof (induction bs)
  case (Cons b bs)
  have "fromHexChar (hexdigits ! (unat b div 16)) \<noteq> - 1" "fromHexChar (hexdigits ! (unat b mod 16)) \<noteq> - 1"
    using hexdigits_val [OF byte_div, of b] hexdigits_val [of "unat b mod 16"] by simp_all
  with Cons show ?case by (auto simp: toHex_Cons)
qed (simp add: toHex_def)

lemma char_val_nat: "char_val c = int (of_char c)"
  by (simp add: char_val_def of_char_def)

lemma fromHexChar_case:
  "fromHexChar (to_upper c) = fromHexChar c \<or> fromHexChar c = - 1"
  "fromHexChar (to_lower c) = fromHexChar c \<or> fromHexChar c = - 1"
  by (auto simp: fromHexChar_def char_val_nat to_upper_def to_lower_def Let_def)

section \<open>Bech32 text\<close>

lemma rfind_last: "c \<notin> set ys \<Longrightarrow> rfind c (xs @ c # ys) = Some (length xs)"
proof -
  assume "c \<notin> set ys"
  then have "takeWhile (\<lambda>x. x \<noteq> c) (rev ys @ c # rev xs) = rev ys"
    by (subst takeWhile_tail) (auto simp: takeWhile_eq_all_conv)
  then show ?thesis by (simp add: rfind_def)
qed

definition plain_char :: "char \<Rightarrow> bool" where
  "plain_char c \<longleftrightarrow> 33 \<le> (of_char c :: nat) \<and> (of_char c :: nat) \<le> 126 \<and>
     \<not> (65 \<le> (of_char c :: nat) \<and> (of_char c :: nat) \<le> 90)"

lemma scan_case_plain:
  "list_all plain_char s \<Longrightarrow> \<exists>lower'. scan_case s lower False = (True, lower', False)"
  by (induction s arbitrary: lower) (auto simp: plain_char_def Let_def)

lemma to_lower_plain: "plain_char c \<Longrightarrow> to_lower c = c"
  by (auto simp: plain_char_def to_lower_def Let_def)

lemma charset_facts:
  assumes "n < 32"
  shows "rev_at (charset ! n) = Inr (int n)" "plain_char (charset ! n)" "charset ! n \<noteq> CHR ''1''"
proof -
  have "list_all (\<lambda>n. rev_at (charset ! n) = Inr (int n) \<and> plain_char (charset ! n) \<and>
      charset ! n \<noteq> CHR ''1'') [0..<32]" by code_simp
  then show "rev_at (charset ! n) = Inr (int n)" "plain_char (charset ! n)" "charset ! n \<noteq> CHR ''1''"
    using assms by (simp_all add: list_all_iff)
qed

lemma create_checksum_props:
  "length (create_checksum hrp vs) = 6" "list_all (\<lambda>v. unat v < 32) (create_checksum hrp vs)"
proof -
  have "unat (ucast ((x :: 32 word) AND 31) :: byte) < 32" for x
  proof -
    have "x AND 31 = take_bit 5 x"
      using take_bit_eq_mask [of 5 x] by (simp add: mask_eq_exp_minus_1)
    then have "unat (ucast (x AND 31) :: byte) = take_bit 8 (take_bit 5 (unat x))"
      by (simp only: unsigned_ucast_eq unsigned_take_bit_eq) simp
    also have "\<dots> = take_bit 5 (unat x)" by (simp add: min_def)
    also have "\<dots> < 32" by (simp add: take_bit_eq_mod)
    finally show ?thesis .
  qed
  then show "length (create_checksum hrp vs) = 6" "list_all (\<lambda>v. unat v < 32) (create_checksum hrp vs)"
    by (simp_all add: create_checksum_def Let_def list_all_iff)
qed

definition hrp_ok :: "string \<Rightarrow> bool" where
  "hrp_ok hrp \<longleftrightarrow> hrp \<noteq> '''' \<and> list_all plain_char hrp \<and> length hrp \<le> 51"

lemma decode_encode:
  assumes a: "length a = 20" and h: "hrp_ok hrp"
  shows "decode (encode a hrp) hrp = Inr (a, True)"
proof -
  obtain y where y: "convertbits 8 5 True a = (True, y)" by (rule convert_8_5 [of a])
  obtain k where k: "k < 5" "5 * length y = 8 * length a + k"
    by (rule convert_8_5 [of a]) (use y in auto)
  have ylen: "length y = 32" using k a by simp
  note rt = convert_roundtrip [OF y]
  let ?cs = "create_checksum hrp y"
  let ?c = "cat y ?cs"
  let ?t = "map (\<lambda>v. charset ! unat v) ?c"
  have small: "\<forall>v \<in> set ?c. unat v < 32"
    using rt(2) create_checksum_props(2) [of hrp y] by (auto simp: cat_def list_all_iff)
  have enc: "encode a hrp = hrp @ CHR ''1'' # ?t" by (simp add: encode_def y Let_def)
  have clen: "length ?c = 38" using ylen create_checksum_props(1) by (simp add: cat_def)
  have "list_all plain_char (encode a hrp)"
    using h small charset_facts(2) by (auto simp: enc hrp_ok_def list_all_iff plain_char_def)
  then obtain l where scan: "scan_case (encode a hrp) False False = (True, l, False)"
    using scan_case_plain by blast
  have pos: "rfind (CHR ''1'') (encode a hrp) = Some (length hrp)"
  proof -
    have "charset ! unat v \<noteq> CHR ''1''" if "v \<in> set ?c" for v
      using small that charset_facts(3) [of "unat v"] by blast
    then have "CHR ''1'' \<notin> set ?t" unfolding set_map by fastforce
    then show ?thesis unfolding enc by (rule rfind_last)
  qed
  have rs: "map_res rev_at ?t = Inr (map (\<lambda>v. int (unat v)) ?c)"
    unfolding map_res_map using small charset_facts(1) by (intro map_res_Inr) simp
  have vs: "map word_of_int (map (\<lambda>v. int (unat v)) ?c) = ?c" by (simp add: comp_def)
  have low: "map to_lower hrp = hrp"
    using h by (simp add: hrp_ok_def list_all_iff to_lower_plain map_idI)
  have "1 \<le> length hrp" "length hrp \<le> 51" using h by (auto simp: hrp_ok_def Suc_leI)
  moreover have "- 1 \<notin> uint ` set vs" for vs :: bytes
  proof
    assume "- 1 \<in> uint ` set vs"
    then obtain v :: byte where "- 1 = uint v" by auto
    moreover have "0 \<le> uint v" by simp
    ultimately show False by linarith
  qed
  ultimately show ?thesis
    using scan pos rs vs low clen ylen rt(1) a checksum_verifies [of hrp y]
    by (simp add: decode_def Let_def enc list_ex_iff cat_def hash_of_bytes_exact
        create_checksum_props(1))
qed

section \<open>Checksummed hexadecimal text\<close>

lemma eip55_same_digits:
  assumes "length s = 40" "\<forall>c \<in> set s. fromHexChar c \<noteq> - 1"
  shows "\<exists>t. getEIP55ChecksummedAddress sha3 (''0x'' @ s) = ''0x'' @ t \<and>
    map fromHexChar t = map fromHexChar s"
proof -
  let ?f = "\<lambda>i. if 8 \<le> unat ((drop_bit (4 * (1 - i mod 2)) (hash_of_ptr 32 (sha3 (asBytes s)) ! (i div 2))) AND 15)
    then to_upper (s ! i) else to_lower (s ! i)"
  have "getEIP55ChecksummedAddress sha3 (''0x'' @ s) = ''0x'' @ map ?f [0..<40]"
    using assms by (simp add: getEIP55ChecksummedAddress_def list_ex_iff Let_def)
  moreover have "map fromHexChar (map ?f [0..<40]) = map fromHexChar s"
  proof (rule nth_equalityI)
    fix i assume "i < length (map fromHexChar (map ?f [0..<40]))"
    then have i: "i < 40" by simp
    then have "fromHexChar (s ! i) \<noteq> - 1" using assms by simp
    then have "fromHexChar (to_upper (s ! i)) = fromHexChar (s ! i)"
      "fromHexChar (to_lower (s ! i)) = fromHexChar (s ! i)"
      using fromHexChar_case by blast+
    with i assms(1) show "map fromHexChar (map ?f [0..<40]) ! i = map fromHexChar s ! i"
      by simp
  qed (simp add: assms(1))
  ultimately show ?thesis by blast
qed

lemma toEthAddress_digits:
  assumes "length a = 20"
  shows "\<exists>t. toEthAddress sha3 a = ''0x'' @ t \<and> map fromHexChar t = map fromHexChar (toHex a '''')"
  using eip55_same_digits [of "toHex a ''''" sha3] assms toHex_hex [of _ a]
  by (auto simp: toEthAddress_def toHexString_def length_toHex)

section \<open>What a client may rely on\<close>

text \<open>
  C5. The Bech32 text of an address is read back: for every address and every lower-case
  human-readable part of printable characters that leaves room for the data, decoding the
  encoding succeeds and gives the address. The checksum verifies, the regrouping of bits is
  undone, and no table access is out of range.
\<close>

theorem bech32_roundtrip:
  assumes "length a = 20" "hrp_ok hrp"
  shows "decode (encode a hrp) hrp = Inr (a, True)"
  by (rule decode_encode [OF assms])

theorem bech32_roundtrip_witness:
  "decode (encode (replicate 20 7) ''lat'') ''lat'' = Inr (replicate 20 7, True)"
  using bech32_roundtrip [of "replicate 20 7" "''lat''"] by (simp add: hrp_ok_def plain_char_def)

text \<open>On literals without a zero the two overloads agree.\<close>

lemma make_address_literal_eq:
  assumes "length str_address = 42" "CHR 0x00 \<notin> set str_address"
  shows "make_address_literal testnet str_address = make_address testnet str_address"
proof -
  have "takeWhile (\<lambda>c. c \<noteq> CHR 0x00) str_address = str_address" using assms(2) by (auto simp: takeWhile_eq_all_conv)
  then show ?thesis unfolding make_address_literal_def make_address_def Let_def using assms(1) by (simp only:) simp
qed

text \<open>
  C15. \<open>make_address\<close> accepts every textual form the library prints for an address, on the main and
  the test network: the Bech32 form, plain hexadecimal, and the mixed-case checksummed form,
  whatever the hash function of the host returns.
\<close>

theorem make_address_reads_all_forms:
  assumes "length a = 20"
  shows "make_address testnet (address_toString testnet a) = Inr (a, True) \<and>
    make_address testnet (toHexString a) = Inr (a, True) \<and>
    make_address testnet (toEthAddress sha3 a) = Inr (a, True)"
proof -
  have hex: "make_address testnet (''0x'' @ t) = Inr (a, True)"
    if "map fromHexChar t = map fromHexChar (toHex a '''')" for t
    using fromHex_prefixed [OF that] assms by (simp add: make_address_def hash_of_bytes_exact)
  have "make_address testnet (toHexString a) = Inr (a, True)"
    unfolding toHexString_def by (rule hex) simp
  moreover have "make_address testnet (toEthAddress sha3 a) = Inr (a, True)"
    using toEthAddress_digits [OF assms, of sha3] hex by auto
  moreover have "make_address testnet (address_toString testnet a) = Inr (a, True)"
  proof -
    have "hrp_ok (net_hrp testnet)" by (simp add: hrp_ok_def net_hrp_def plain_char_def)
    from decode_encode [OF assms this] show ?thesis
      by (simp add: make_address_def address_toString_def encode_def net_hrp_def Let_def)
  qed
  ultimately show ?thesis by simp
qed

theorem make_address_reads_all_forms_witness:
  "make_address False (address_toString False (replicate 20 255)) = Inr (replicate 20 255, True) \<and>
   make_address False (toHexString (replicate 20 255)) = Inr (replicate 20 255, True) \<and>
   make_address False (toEthAddress (\<lambda>bs. replicate 32 0xa5) (replicate 20 255)) = Inr (replicate 20 255, True)"
  by (rule make_address_reads_all_forms) simp

lemma hash_less_be_val:
  "length a = length b \<Longrightarrow> hash_less_loop a b \<longleftrightarrow> be_val a < be_val b"
proof (induction a b rule: list_induct2)
  case (Cons x xs y ys)
  have bx: "be_val xs < 256 ^ length xs" and b_y: "be_val ys < 256 ^ length xs"
    using be_val_less [of xs] be_val_less [of ys] Cons by simp_all
  consider "x < y" | "y < x" | "x = y" by (metis linorder_less_linear)
  then show ?case
  proof cases
    case 1
    then have "unat x + 1 \<le> unat y" by (simp add: word_less_nat_alt)
    then have "(unat x + 1) * 256 ^ length xs \<le> unat y * 256 ^ length xs" by (rule mult_right_mono) simp
    then have "unat x * 256 ^ length xs + be_val xs < unat y * 256 ^ length xs + be_val ys"
      using bx by (simp add: algebra_simps)
    then show ?thesis using 1 Cons by (simp add: be_val_Cons)
  next
    case 2
    then have "unat y + 1 \<le> unat x" by (simp add: word_less_nat_alt)
    then have "(unat y + 1) * 256 ^ length xs \<le> unat x * 256 ^ length xs" by (rule mult_right_mono) simp
    then have "unat y * 256 ^ length xs + be_val ys < unat x * 256 ^ length xs + be_val xs"
      using b_y by (simp add: algebra_simps)
    then show ?thesis using 2 Cons by (simp add: be_val_Cons)
  next
    case 3
    then show ?thesis using Cons by (simp add: be_val_Cons)
  qed
qed simp

lemma be_val_inj: "length a = length b \<Longrightarrow> be_val a = be_val b \<Longrightarrow> a = b"
proof (induction a b rule: list_induct2)
  case (Cons x xs y ys)
  have "be_val xs < 256 ^ length xs" "be_val ys < 256 ^ length xs"
    using be_val_less [of xs] be_val_less [of ys] Cons by simp_all
  moreover have e: "unat x * 256 ^ length xs + be_val xs = unat y * 256 ^ length xs + be_val ys"
    using Cons by (simp add: be_val_Cons)
  ultimately have "be_val xs = be_val ys"
    by (metis mod_less mod_mult_self3)
  moreover from this e have "x = y" by (simp add: word_unat_eq_iff)
  ultimately show ?case using Cons by simp
qed simp

text \<open>
  C17. The comparison operators of hashes of one width are a linear order: \<open><\<close> is irreflexive,
  transitive and total, it is the order of the big-endian numbers, and \<open><=\<close>, \<open>>=\<close> and \<open>>\<close> are its
  companions.
\<close>

theorem hash_order:
  assumes "length a = N" "length b = N" "length c = N"
  shows "\<not> hash_less a a \<and> (hash_less a b \<and> hash_less b c \<longrightarrow> hash_less a c) \<and>
    (hash_less a b \<or> hash_eq a b \<or> hash_less b a) \<and> (hash_less a b \<longleftrightarrow> be_val a < be_val b) \<and>
    (hash_le a b \<longleftrightarrow> be_val a \<le> be_val b) \<and> (hash_ge a b \<longleftrightarrow> hash_le b a) \<and> (hash_gt a b \<longleftrightarrow> hash_less b a)"
proof -
  have less: "hash_less x y \<longleftrightarrow> be_val x < be_val y" if "length x = N" "length y = N" for x y
    using that by (simp add: hash_less_def hash_less_be_val)
  have eq: "hash_eq x y \<longleftrightarrow> be_val x = be_val y" if "length x = N" "length y = N" for x y
    using that be_val_inj [of x y] by (auto simp: hash_eq_def)
  show ?thesis using assms by (auto simp: less eq hash_le_def hash_ge_def hash_gt_def)
qed

theorem hash_order_witness:
  "hash_less [1, 255] [2, 0] \<and> \<not> hash_less [2, 0] [1, 255] \<and> (hash_less [1, 255] [2, 0] \<longleftrightarrow> 511 < (512 :: nat))"
  using hash_order [of "[1, 255]" 2 "[2, 0]" "[2, 0]"]
  by (simp add: be_val_Cons hash_less_def)

end
