(* ===== verification/Exchange.thy ===== *)
theory Exchange
  imports Fixed_Hash "HOL-Library.Signed_Division"
begin

unbundle bit_operations_syntax

text \<open>
  Model of \<open>platonlib/include/platon/exchange.hpp\<close>, amounts of the currency as 128-bit numbers, and
  of the queries of \<open>chain_impl.hpp\<close> that read amounts, hashes and times from the host. The lemmas
  show what every literal operator denotes, that addition wraps while subtraction throws, and
  that amounts pass the host interface unchanged.
\<close>

section \<open>Units\<close>

datatype EnergonUnit =
  VON | kVON | mVON | gVON | microLAT | milliLAT | LAT | kLAT | mLAT | gLAT
| microLAX | milliLAX | LAX | kLAX | mLAX | gLAX

text \<open>The enumerators of the main network and, below, those of a build for the test network.\<close>

fun unit_value :: "EnergonUnit \<Rightarrow> 128 word" where
  "unit_value VON = 1"
| "unit_value kVON = 1000"
| "unit_value mVON = 1000000"
| "unit_value gVON = 1000000000"
| "unit_value microLAT = 1000000000000"
| "unit_value milliLAT = 1000000000000000"
| "unit_value LAT = 1000000000000000000"
| "unit_value kLAT = 1000000000000000000 * 1000"
| "unit_value mLAT = 1000000000000000000 * 1000 * 1000"
| "unit_value gLAT = 1000000000000000000 * 1000 * 1000 * 1000"
| "unit_value microLAX = 1000000000000"
| "unit_value milliLAX = 1000000000000000"
| "unit_value LAX = 1000000000000000000"
| "unit_value kLAX = 1000000000000000000 * 1000"
| "unit_value mLAX = 1000000000000000000 * 1000 * 1000"
| "unit_value gLAX = 1000000000000000000 * 1000 * 1000 * 1000"

section \<open>Amounts\<close>

record Energon =
  en_value :: "128 word"

definition energon_ctor :: "128 word \<Rightarrow> Energon" where
  "energon_ctor n = \<lparr>en_value = n\<rparr>"

definition energon_Get :: "Energon \<Rightarrow> 128 word" where
  "energon_Get e = en_value e"

definition energon_Bytes :: "Energon \<Rightarrow> bytes" where
  "energon_Bytes e = toBigEndian (en_value e) 32"

definition energon_Add_u128 :: "Energon \<Rightarrow> 128 word \<Rightarrow> Energon" where
  "energon_Add_u128 e v = e\<lparr>en_value := en_value e + v\<rparr>"

definition energon_Add :: "Energon \<Rightarrow> Energon \<Rightarrow> Energon" where
  "energon_Add e rhs = e\<lparr>en_value := en_value e + en_value rhs\<rparr>"

definition energon_plus_assign :: "Energon \<Rightarrow> Energon \<Rightarrow> Energon" where
  "energon_plus_assign e rhs = e\<lparr>en_value := en_value e + en_value rhs\<rparr>"

text \<open>The literal operators, in the order of the header.\<close>

definition literal_VON :: "64 word \<Rightarrow> Energon" where
  "literal_VON von = energon_ctor (ucast von)"

definition literal_kVON :: "64 word \<Rightarrow> Energon" where
  "literal_kVON kvon = energon_ctor (ucast kvon * unit_value kVON)"

definition literal_mVON :: "64 word \<Rightarrow> Energon" where
  "literal_mVON mvon = energon_ctor (ucast mvon * unit_value mVON)"

definition literal_gVON :: "64 word \<Rightarrow> Energon" where
  "literal_gVON gvon = energon_ctor (ucast gvon * unit_value gVON)"

text \<open>Of a build for the test network.\<close>

definition literal_microLAX :: "64 word \<Rightarrow> Energon" where
  "literal_microLAX microlax = energon_ctor (ucast microlax * unit_value microLAX)"

definition literal_milliLAX :: "64 word \<Rightarrow> Energon" where
  "literal_milliLAX millilax = energon_ctor (ucast millilax * unit_value milliLAX)"

definition literal_LAX :: "64 word \<Rightarrow> Energon" where
  "literal_LAX lax = energon_ctor (ucast lax * unit_value LAX)"

definition literal_kLAX :: "64 word \<Rightarrow> Energon" where
  "literal_kLAX klax = energon_ctor (ucast klax * unit_value kLAX)"

definition literal_mLAX :: "64 word \<Rightarrow> Energon" where
  "literal_mLAX mlax = energon_ctor (ucast mlax * unit_value mLAX)"

definition literal_gLAX :: "64 word \<Rightarrow> Energon" where
  "literal_gLAX glax = energon_ctor (ucast glax * unit_value gLAX)"

text \<open>Of a build for the main network.\<close>

definition literal_microLAT :: "64 word \<Rightarrow> Energon" where
  "literal_microLAT microlat = energon_ctor (ucast microlat * unit_value microLAT)"

definition literal_milliLAT :: "64 word \<Rightarrow> Energon" where
  "literal_milliLAT millilat = energon_ctor (ucast millilat * unit_value milliLAT)"

definition literal_LAT :: "64 word \<Rightarrow> Energon" where
  "literal_LAT lat = energon_ctor (ucast lat * unit_value LAT)"

definition literal_kLAT :: "64 word \<Rightarrow> Energon" where
  "literal_kLAT klat = energon_ctor (ucast klat * unit_value kLAT)"

definition literal_mLAT :: "64 word \<Rightarrow> Energon" where
  "literal_mLAT mlat = energon_ctor (ucast mlat * unit_value mLAT)"

definition literal_gLAT :: "64 word \<Rightarrow> Energon" where
  "literal_gLAT glat = energon_ctor (ucast glat * unit_value gLAT)"

definition energon_eq :: "Energon \<Rightarrow> Energon \<Rightarrow> bool" where
  "energon_eq lhs rhs \<longleftrightarrow> energon_Get lhs = energon_Get rhs"

definition energon_gt :: "Energon \<Rightarrow> Energon \<Rightarrow> bool" where
  "energon_gt lhs rhs \<longleftrightarrow> energon_Get lhs > energon_Get rhs"

definition energon_lt :: "Energon \<Rightarrow> Energon \<Rightarrow> bool" where
  "energon_lt lhs rhs \<longleftrightarrow> energon_Get lhs < energon_Get rhs"

definition energon_plus :: "Energon \<Rightarrow> Energon \<Rightarrow> Energon" where
  "energon_plus lhs rhs = energon_Add (energon_Add (energon_ctor 0) lhs) rhs"

definition energon_minus :: "Energon \<Rightarrow> Energon \<Rightarrow> Energon res" where
  "energon_minus lhs rhs =
     (if energon_lt lhs rhs then Inl (Throw ''overflow'')
      else Inr (energon_ctor (energon_Get lhs - energon_Get rhs)))"

section \<open>The host's view of amounts\<close>

text \<open>
  The functions of the chain that the wrappers call: transfers and balances, the amount of the call
  and the price of gas, times and hashes. Buffers the host fills are results here.
\<close>

record 's ledger_host =
  lh_transfer :: "bytes \<Rightarrow> bytes \<Rightarrow> 's \<Rightarrow> 32 word \<times> 's"
  lh_balance :: "bytes \<Rightarrow> 's \<Rightarrow> bytes"
  lh_call_value :: "'s \<Rightarrow> bytes"
  lh_gas_price :: "'s \<Rightarrow> bytes"
  lh_timestamp :: "'s \<Rightarrow> 64 word"
  lh_block_hash :: "64 word \<Rightarrow> 's \<Rightarrow> bytes"
  lh_coinbase :: "'s \<Rightarrow> bytes"
  lh_sha3 :: "bytes \<Rightarrow> bytes"
  lh_destroy :: "bytes \<Rightarrow> 's \<Rightarrow> 32 word \<times> 's"

definition platon_transfer :: "'s ledger_host \<Rightarrow> bytes \<Rightarrow> Energon \<Rightarrow> 's \<Rightarrow> bool \<times> 's" where
  "platon_transfer L addr amount s =
     (let bs = energon_Bytes amount; (r, s') = lh_transfer L addr bs s in (r = 0, s'))"

text \<open>A buffer of 16 bytes receives the number; a longer one overruns it.\<close>

definition read_u128 :: "bytes \<Rightarrow> 128 word res" where
  "read_u128 bs = (if length bs > 16 then Inl Oob else Inr (fromBigEndian bs))"

definition platon_gas_price :: "'s ledger_host \<Rightarrow> 's \<Rightarrow> 128 word res" where
  "platon_gas_price L s = read_u128 (lh_gas_price L s)"

definition platon_balance :: "'s ledger_host \<Rightarrow> bytes \<Rightarrow> 's \<Rightarrow> Energon res" where
  "platon_balance L addr s = bind_res (read_u128 (lh_balance L addr s)) (\<lambda>n. Inr (energon_ctor n))"

definition platon_call_value :: "'s ledger_host \<Rightarrow> 's \<Rightarrow> 128 word res" where
  "platon_call_value L s = read_u128 (lh_call_value L s)"

definition platon_unix_timestamp :: "'s ledger_host \<Rightarrow> 's \<Rightarrow> int" where
  "platon_unix_timestamp L s = sint (lh_timestamp L s) sdiv 1000"

definition platon_block_hash :: "'s ledger_host \<Rightarrow> 64 word \<Rightarrow> 's \<Rightarrow> bytes" where
  "platon_block_hash L num s = hash_of_ptr 32 (lh_block_hash L num s)"

definition platon_coinbase :: "'s ledger_host \<Rightarrow> 's \<Rightarrow> bytes" where
  "platon_coinbase L s = hash_of_ptr 20 (lh_coinbase L s)"

definition platon_sha3 :: "'s ledger_host \<Rightarrow> bytes \<Rightarrow> bytes" where
  "platon_sha3 L data = hash_of_ptr 32 (lh_sha3 L data)"

definition platon_destroy :: "'s ledger_host \<Rightarrow> bytes \<Rightarrow> 's \<Rightarrow> bool \<times> 's" where
  "platon_destroy L addr s = (let (r, s') = lh_destroy L addr s in (r = 0, s'))"

section \<open>Literals and arithmetic\<close>

lemmas energon_defs = energon_ctor_def energon_Get_def energon_Bytes_def energon_Add_def
  energon_plus_def energon_minus_def energon_lt_def

lemma energon_eqI: "unat (en_value a) = unat (en_value b) \<Longrightarrow> a = (b :: Energon)"
  by (cases a; cases b) (simp add: unsigned_word_eqI)

text \<open>What an operator denotes, and that nothing wraps up to the eighteenth power of ten.\<close>

lemma literal_value:
  fixes f :: "64 word \<Rightarrow> Energon"
  assumes "\<And>n. f n = energon_ctor (ucast n * unit_value u)" "unat (unit_value u) = 10 ^ e"
  shows "unat (energon_Get (f n)) = unat n * 10 ^ e mod 2 ^ 128"
    "e \<le> 18 \<Longrightarrow> unat (energon_Get (f n)) = unat n * 10 ^ e"
proof -
  show v: "unat (energon_Get (f n)) = unat n * 10 ^ e mod 2 ^ 128"
    by (simp add: assms energon_ctor_def energon_Get_def unat_word_ariths unat_ucast_up)
  assume "e \<le> 18"
  then have "(10 :: nat) ^ e \<le> 10 ^ 18" by (rule power_increasing) simp
  then have "unat n * 10 ^ e \<le> 2 ^ 64 * 10 ^ 18" using unat_bound [of n] by (intro mult_le_mono) simp_all
  also have "\<dots> < 2 ^ 128" by simp
  finally show "unat (energon_Get (f n)) = unat n * 10 ^ e" using v by simp
qed

lemmas literal_defs = literal_kVON_def literal_mVON_def literal_gVON_def literal_microLAX_def literal_milliLAX_def
  literal_LAX_def literal_kLAX_def literal_mLAX_def literal_gLAX_def literal_microLAT_def
  literal_milliLAT_def literal_LAT_def literal_kLAT_def literal_mLAT_def literal_gLAT_def

text \<open>An operator denotes counts of a power of ten: modulo 2^128, and exactly up to the eighteenth power.\<close>

definition literal_denotes :: "(64 word \<Rightarrow> Energon) \<Rightarrow> nat \<Rightarrow> bool" where
  "literal_denotes f e \<longleftrightarrow> (\<forall>n. unat (energon_Get (f n)) = unat n * 10 ^ e mod 2 ^ 128 \<and>
     (e \<le> 18 \<longrightarrow> unat (energon_Get (f n)) = unat n * 10 ^ e))"

lemma literal_denotesI:
  "(\<And>n. f n = energon_ctor (ucast n * unit_value u)) \<Longrightarrow> unat (unit_value u) = 10 ^ e \<Longrightarrow> literal_denotes f e"
  using literal_value [of f u e] by (simp add: literal_denotes_def)

lemma literal_denotesD:
  "literal_denotes f e \<Longrightarrow> unat (energon_Get (f n)) = unat n * 10 ^ e mod 2 ^ 128"
  by (simp add: literal_denotes_def)

text \<open>
  C35. Each of the sixteen literal operators denotes its count times the power of ten of its name (10^18
  for \<open>LAT\<close> and \<open>LAX\<close>, with the prefixes micro, milli, k, m and g a factor of a thousand apart,
  1 for \<open>VON\<close>), modulo 2^128. Up to \<open>LAT\<close> and \<open>LAX\<close> this is exact for every 64-bit count; from \<open>kLAT\<close>
  and \<open>kLAX\<close> on the product wraps when it leaves 128 bits.
\<close>

theorem literal_exact:
  "\<forall>(f, e) \<in> set [(literal_VON, 0), (literal_kVON, 3), (literal_mVON, 6), (literal_gVON, 9),
    (literal_microLAX, 12), (literal_milliLAX, 15), (literal_LAX, 18), (literal_kLAX, 21),
    (literal_mLAX, 24), (literal_gLAX, 27), (literal_microLAT, 12), (literal_milliLAT, 15),
    (literal_LAT, 18), (literal_kLAT, 21), (literal_mLAT, 24), (literal_gLAT, 27)]. literal_denotes f e"
proof -
  have "literal_denotes literal_VON 0"
    by (rule literal_denotesI [of _ VON]) (simp_all add: literal_VON_def)
  moreover have "literal_denotes literal_kVON 3" "literal_denotes literal_mVON 6" "literal_denotes literal_gVON 9"
    "literal_denotes literal_microLAX 12" "literal_denotes literal_milliLAX 15" "literal_denotes literal_LAX 18"
    "literal_denotes literal_kLAX 21" "literal_denotes literal_mLAX 24" "literal_denotes literal_gLAX 27"
    "literal_denotes literal_microLAT 12" "literal_denotes literal_milliLAT 15" "literal_denotes literal_LAT 18"
    "literal_denotes literal_kLAT 21" "literal_denotes literal_mLAT 24" "literal_denotes literal_gLAT 27"
    by (rule literal_denotesI, rule literal_defs, simp)+
  ultimately show ?thesis by simp
qed

theorem literal_exact_witness:
  "unat (energon_Get (literal_kVON 5)) = 5000 \<and> unat (energon_Get (literal_milliLAT 6)) = 6000000000000000 \<and>
   unat (energon_Get (literal_gLAX 1000000000000)) = 10 ^ 39 mod 2 ^ 128"
proof -
  have "literal_denotes literal_kVON 3" "literal_denotes literal_milliLAT 15" "literal_denotes literal_gLAX 27"
    using literal_exact by simp_all
  note d = this [THEN literal_denotesD]
  show ?thesis using d(1) [of 5] d(2) [of 6] d(3) [of 1000000000000] by simp
qed

text \<open>
  C36. Addition wraps silently at 128 bits and subtraction throws instead of wrapping: subtracting a
  summand gives the other one back exactly when the addition did not overflow, and throws
  otherwise.
\<close>

theorem energon_minus_plus:
  "energon_minus (energon_plus a b) b =
     (if unat (en_value a) + unat (en_value b) < 2 ^ 128 then Inr a else Inl (Throw ''overflow''))"
proof -
  let ?a = "unat (en_value a)" and ?b = "unat (en_value b)"
  have s: "unat (en_value (energon_plus a b)) = (?a + ?b) mod 2 ^ 128"
    by (simp add: energon_defs unat_word_ariths)
  have lt: "energon_lt (energon_plus a b) b \<longleftrightarrow> (?a + ?b) mod 2 ^ 128 < ?b"
    using s by (simp add: energon_lt_def energon_Get_def word_less_nat_alt)
  show ?thesis
  proof (cases "?a + ?b < 2 ^ 128")
    case True
    then show ?thesis using lt by (auto simp: energon_minus_def energon_defs intro: energon_eqI)
  next
    case False
    have "?a < 2 ^ 128" "?b < 2 ^ 128" using unat_bound [of "en_value a"] unat_bound [of "en_value b"] by simp_all
    then have "(?a + ?b) mod 2 ^ 128 = ?a + ?b - 2 ^ 128" using False by (simp add: mod_if)
    then have "energon_lt (energon_plus a b) b" using lt \<open>?a < 2 ^ 128\<close> False by simp
    then show ?thesis using False by (simp add: energon_minus_def)
  qed
qed

section \<open>Transfers and balances\<close>

text \<open>
  What passes the interface of the host: the recipient and the amount as 32 bytes, most significant
  first, and back a balance of at most 16 bytes. What a transfer does to balances is the host's.
\<close>

lemma transfer_passes_amount:
  "\<exists>bs. length bs = 32 \<and> be_val bs = unat (en_value amount) \<and>
     platon_transfer L to amount s = (fst (lh_transfer L to bs s) = 0, snd (lh_transfer L to bs s))"
  using unat_bound [of "en_value amount"]
  by (intro exI [of _ "energon_Bytes amount"])
    (simp add: energon_Bytes_def be_val_toBigEndian platon_transfer_def Let_def split: prod.split)

lemma platon_balance_ok:
  assumes "lh_balance L a s = be_bytes n" "n < 2 ^ 128"
  shows "platon_balance L a s = Inr (energon_ctor (word_of_nat n))"
proof -
  have "n < 256 ^ 16" using assms(2) by simp
  then have "length (be_bytes n) \<le> 16" by (simp only: length_be_bytes_le)
  then show ?thesis
    using assms(1) by (simp add: platon_balance_def read_u128_def fromBigEndian_be_val)
qed

end
