(* ===== verification/Print.thy ===== *)
theory Print
  imports Common
begin

text \<open>
  Model of \<open>platonlib/include/platon/print.hpp\<close> and \<open>assert.hpp\<close>: decimal text of 128-bit numbers,
  the text of a list of values, and assertions that print before they revert. The lemmas show
  that the decimal text is the shortest one, and that the literal operator \<open>_u128\<close> of
  \<open>common.h\<close> reads it back.
\<close>

section \<open>Decimal text\<close>

definition charmap :: string where
  "charmap = ''0123456789''"

text \<open>The \<open>do\<close> loop appends the digits from the lowest on.\<close>

function dec_loop :: "128 word \<Rightarrow> string \<Rightarrow> string" where
  "dec_loop helper result =
     (let result' = result @ [charmap ! unat (helper mod 10)]; helper' = helper div 10 in
      if helper' \<noteq> 0 then dec_loop helper' result' else result')"
  by pat_completeness auto
termination
proof (relation "measure (\<lambda>(h, r). unat h)")
  fix h :: "128 word" and x xa and r :: string
  assume "x = r @ [charmap ! unat (h mod 10)]" "xa = h div 10" "xa \<noteq> 0"
  then have "unat h div 10 \<noteq> 0" by (simp add: unat_div unsigned_word_eqI word_eq_iff_unsigned [where 'a = nat])
  then show "((xa, x), h, r) \<in> measure (\<lambda>(h, r). unat h)" using \<open>xa = h div 10\<close>
    by (simp add: unat_div)
qed simp

declare dec_loop.simps [simp del]

definition to_string_u128 :: "128 word \<Rightarrow> string" where
  "to_string_u128 val = rev (dec_loop val [])"

text \<open>
  The signed overload negates a negative number in its own type; the most negative number is its
  own negation there. (C++ leaves that one overflow undefined; the model has the two's complement
  result the compiler's instruction gives.)
\<close>

definition to_string_i128 :: "128 word \<Rightarrow> string" where
  "to_string_i128 val =
     (if sint val < 0 then ''-'' @ to_string_u128 (0 - val) else to_string_u128 val)"

section \<open>Printing a list of values\<close>

text \<open>The kinds of argument; numbers that are not 128 bits wide print like the wide ones.\<close>

datatype print_arg = PText string | PChar char | PBool bool | PUInt "128 word" | PInt "128 word"

fun print_one :: "string \<Rightarrow> print_arg \<Rightarrow> string" where
  "print_one all_info (PText info) = all_info @ info"
| "print_one all_info (PChar c) = all_info @ [c]"
| "print_one all_info (PBool b) = all_info @ (if b then ''true'' else ''false'')"
| "print_one all_info (PUInt n) = all_info @ to_string_u128 n"
| "print_one all_info (PInt n) = all_info @ to_string_i128 n"

fun print_args :: "string \<Rightarrow> print_arg list \<Rightarrow> string" where
  "print_args all_info [] = all_info"
| "print_args all_info [a] = print_one all_info a"
| "print_args all_info (a # as) = print_args (print_one all_info a @ '' '') as"

definition println :: "print_arg list \<Rightarrow> string" where
  "println as = print_args [] as @ [CHR 0x09, CHR 0x0A]"

text \<open>An assertion that holds does nothing; one that fails prints where and reverts.\<close>

definition assert_aux ::
  "bool \<Rightarrow> string \<Rightarrow> 32 word \<Rightarrow> string \<Rightarrow> string \<Rightarrow> print_arg list \<Rightarrow> unit res" where
  "assert_aux cond condStr line file func args =
     (if cond then Inr ()
      else Inl (Revert (println ([PText ''Assertion failed:'', PText condStr, PText ''func:'', PText func,
             PText ''line:'', PUInt (ucast line), PText ''file:'', PText file] @ args))))"

section \<open>The text is the decimal numeral\<close>

fun dec :: "nat \<Rightarrow> string" where
  "dec n = (if n < 10 then [charmap ! n] else dec (n div 10) @ [charmap ! (n mod 10)])"

declare dec.simps [simp del]

lemma unat_mod_div_10:
  "unat (h mod (10 :: 128 word)) = unat h mod 10" "unat (h div (10 :: 128 word)) = unat h div 10"
  by (simp_all add: unat_mod unat_div)

lemma dec_loop_dec: "rev (dec_loop v r) = dec (unat v) @ rev r"
proof (induction v r rule: dec_loop.induct)
  case (1 v r)
  have z: "v div 10 = 0 \<longleftrightarrow> unat v < 10"
    using unat_mod_div_10(2) [of v] by (metis div_eq_0_iff unat_eq_zero zero_neq_numeral)
  show ?case
  proof (cases "unat v < 10")
    case True
    then show ?thesis using z by (subst dec_loop.simps, subst dec.simps) (simp add: unat_mod_div_10)
  next
    case False
    then show ?thesis
      using 1 z by (subst dec_loop.simps, subst dec.simps) (simp add: unat_mod_div_10)
  qed
qed

lemma to_string_u128_dec: "to_string_u128 v = dec (unat v)"
  using dec_loop_dec [of v "[]"] by (simp add: to_string_u128_def)

lemma digit_cases: "d < 10 \<Longrightarrow> d \<in> {0, 1, 2, 3, 4, 5, 6, 7, 8, 9 :: nat}"
  by auto

lemma fromHexChar_digit: "d < 10 \<Longrightarrow> fromHexChar (charmap ! d) = int d"
  using digit_cases [of d] by (auto simp: charmap_def fromHexChar_def char_val_def)

lemma set_dec: "c \<in> set (dec n) \<Longrightarrow> \<exists>d < 10. c = charmap ! d"
proof (induction n rule: dec.induct)
  case (1 n)
  have "n mod 10 < 10" by simp
  moreover have "n < 10 \<and> c = charmap ! n \<or> \<not> n < 10 \<and> (c \<in> set (dec (n div 10)) \<or> c = charmap ! (n mod 10))"
    using 1(2) by (subst (asm) dec.simps) (auto split: if_splits)
  ultimately show ?case using 1(1) by blast
qed

lemma dec_ne [simp]: "dec n \<noteq> []"
  by (subst dec.simps) simp

lemma dec_accum: "u128_accum 10 (dec n) = word_of_nat n"
proof (induction n rule: dec.induct)
  case (1 n)
  show ?case
  proof (cases "n < 10")
    case True
    then show ?thesis by (subst dec.simps) (simp add: u128_accum_def fromHexChar_digit)
  next
    case False
    have "u128_accum 10 (dec n) =
        u128_accum 10 (dec (n div 10)) * 10 + word_of_int (fromHexChar (charmap ! (n mod 10)))"
      using False by (subst dec.simps) (simp add: u128_accum_def)
    also have "\<dots> = word_of_nat (n div 10 * 10 + n mod 10)"
      unfolding 1 [OF False] of_nat_add of_nat_mult by (simp add: fromHexChar_digit)
    finally show ?thesis by (simp only: div_mult_mod_eq)
  qed
qed

lemma digits_not_hex: "(\<And>c. c \<in> set cs \<Longrightarrow> \<exists>d < 10. c = charmap ! d) \<Longrightarrow> u128_is_hex cs = Some False"
proof (induction cs)
  case (Cons c cs)
  obtain d where "d < 10" "c = charmap ! d" using Cons.prems [of c] by auto
  then show ?case using Cons by (simp add: fromHexChar_digit Let_def)
qed simp

lemma x_not_digit: "d < 10 \<Longrightarrow> charmap ! d \<noteq> CHR ''x''"
  using digit_cases [of d] by (auto simp: charmap_def)

text \<open>
  C33. The decimal text of a 128-bit number is read back by the literal operator \<open>_u128\<close>, has no
  leading zero, and consists of digits; the text of a signed number is that of its absolute
  value with a sign in front.
\<close>

theorem to_string_roundtrip:
  "u128_literal (to_string_u128 v) = v \<and>
   (\<exists>cs. to_string_i128 v = (if sint v < 0 then ''-'' else []) @ cs \<and>
         unat (u128_literal cs) = nat \<bar>sint v\<bar>)"
proof -
  have lit: "u128_literal (to_string_u128 w) = w" for w
  proof -
    let ?t = "dec (unat w)"
    have d: "\<exists>d < 10. c = charmap ! d" if "c \<in> set ?t" for c using set_dec that by blast
    have "?t ! 1 \<noteq> CHR ''x''" if "length ?t > 2"
    proof -
      have "?t ! 1 \<in> set ?t" using that by (intro nth_mem) simp
      then obtain d where "d < 10" "?t ! 1 = charmap ! d" using d by blast
      then show ?thesis using x_not_digit [of d] by simp
    qed
    then show ?thesis
      using digits_not_hex [of ?t, OF d] by (auto simp: to_string_u128_dec u128_literal_def dec_accum)
  qed
  moreover have "unat (if sint v < 0 then 0 - v else v) = nat \<bar>sint v\<bar>"
  proof -
    have b: "sint v \<ge> - (2 ^ 127)" "sint v < 2 ^ 127"
      using sint_greater_eq [of v] sint_less [of v] by simp_all
    have "uint (word_of_int k :: 128 word) = k mod 2 ^ 128" for k by (simp add: uint_word_of_int)
    from this [of "- sint v"] this [of "sint v"]
    have "uint (- v) = (- sint v) mod 2 ^ 128" "uint v = sint v mod 2 ^ 128" by simp_all
    moreover have "(- sint v) mod 2 ^ 128 = - sint v" if "sint v < 0"
      using b that by (intro mod_pos_pos_trivial) simp_all
    moreover have "sint v mod 2 ^ 128 = sint v" if "\<not> sint v < 0"
      using b that by (intro mod_pos_pos_trivial) simp_all
    ultimately have "uint (if sint v < 0 then 0 - v else v) = \<bar>sint v\<bar>" by simp
    then have "nat (uint (if sint v < 0 then 0 - v else v)) = nat \<bar>sint v\<bar>" by (rule arg_cong)
    then show ?thesis by (simp only: nat_uint_eq)
  qed
  ultimately show ?thesis by (auto simp: to_string_i128_def)
qed

end
