(* ===== verification/Event.thy ===== *)
theory Event
  imports Storage
begin

text \<open>
  Model of \<open>platonlib/include/platon/event.hpp\<close>: the macros that number the parameters of an event
  function, the conversion of a topic to at most 32 bytes, and the functions that hand topics and
  data to the host. The lemmas show what the macros expand to, and that the log entry is the RLP
  list of the name and the topics beside the RLP list of the arguments, from which an observer
  reads the arguments back.
\<close>

section \<open>Macros\<close>

text \<open>
  A macro argument is a token: the dummy in front, an argument of the caller, or a number of the
  padding list. The selectors return the parameter \<open>N\<close> behind a fixed number of parameters.
\<close>

datatype tok = Dummy | Param string | Num nat

fun tok_num :: "tok \<Rightarrow> nat" where
  "tok_num (Num n) = n"
| "tok_num _ = 0"

definition ARG_COUNT :: "string list \<Rightarrow> nat" where
  "ARG_COUNT args = tok_num ((Dummy # map Param args @ map Num (rev [0..<11])) ! 11)"

definition ARG_POS :: "nat \<Rightarrow> string list \<Rightarrow> nat" where
  "ARG_POS tot args =
     (if tot = 1 then 1 else tok_num ((Dummy # map Param args @ map Num [2..<Suc tot]) ! tot))"

text \<open>\<open>params\<close>\<open>k\<close> lists the names \<open>arg\<close>\<open>N\<close>, \<open>func\<close>\<open>k\<close> the declarations of type and name.\<close>

fun params :: "nat \<Rightarrow> nat \<Rightarrow> nat \<Rightarrow> string list \<Rightarrow> nat list" where
  "params 0 N tot args = []"
| "params (Suc 0) N tot args = [N]"
| "params (Suc (Suc k)) N tot args = N # params (Suc k) (ARG_POS tot (tl args)) tot (tl args)"

fun funcs :: "nat \<Rightarrow> nat \<Rightarrow> nat \<Rightarrow> string list \<Rightarrow> (string \<times> nat) list" where
  "funcs 0 N tot args = []"
| "funcs (Suc 0) N tot args = [(hd args, N)]"
| "funcs (Suc (Suc k)) N tot args =
     (hd args, N) # funcs (Suc k) (ARG_POS tot (tl args)) tot (tl args)"

definition PA_F :: "string list \<Rightarrow> nat list" where
  "PA_F args = params (ARG_COUNT args) 1 (ARG_COUNT args) args"

definition VA_F :: "string list \<Rightarrow> (string \<times> nat) list" where
  "VA_F args = funcs (ARG_COUNT args) 1 (ARG_COUNT args) args"

section \<open>Topics\<close>

text \<open>\<open>sha3\<close> is the hash function of the host.\<close>

definition event_bytes_data_convert :: "(bytes \<Rightarrow> bytes) \<Rightarrow> bytes \<Rightarrow> bytes" where
  "event_bytes_data_convert sha3 result = (if length result \<le> 32 then result else sha3 result)"

definition event_other_data_convert :: "rlp_host \<Rightarrow> (bytes \<Rightarrow> bytes) \<Rightarrow> cval \<Rightarrow> bytes res" where
  "event_other_data_convert h sha3 data =
     bind_res (bind_res (pack_size data) (\<lambda>n. bind_res (stream_reserve stream_empty n) (\<lambda>stream.
       bind_res (put h stream data) stream_out)))
     (\<lambda>rlp_result. Inr (if length rlp_result > 32 then sha3 rlp_result else rlp_result))"

fun is_data_number :: "cty \<Rightarrow> bool" where
  "is_data_number TBool = True"
| "is_data_number (TU w) = True"
| "is_data_number (TI w) = True"
| "is_data_number TFloat = True"
| "is_data_number TDouble = True"
| "is_data_number _ = False"

text \<open>The types with an overload that takes the raw bytes: byte sequences, hashes and strings.\<close>

fun is_byte :: "cty \<Rightarrow> bool" where
  "is_byte (TU W8) = True"
| "is_byte (TI W8) = True"
| "is_byte _ = False"

fun is_byte_data :: "cty \<Rightarrow> bool" where
  "is_byte_data TBytes = True"
| "is_byte_data TString = True"
| "is_byte_data (THash n) = True"
| "is_byte_data (TArray n t) = is_byte t"
| "is_byte_data (TVector t) = is_byte t"
| "is_byte_data (TList t) = is_byte t"
| "is_byte_data _ = False"

fun elem_byte :: "cval \<Rightarrow> byte" where
  "elem_byte (VUInt x) = ucast x"
| "elem_byte (VInt x) = ucast x"
| "elem_byte _ = 0"

fun data_bytes :: "cval \<Rightarrow> bytes" where
  "data_bytes (VBytes bs) = bs"
| "data_bytes (VString bs) = bs"
| "data_bytes (VHash bs) = bs"
| "data_bytes (VSeq vs) = map elem_byte vs"
| "data_bytes _ = []"

definition dispatch_convert :: "rlp_host \<Rightarrow> (bytes \<Rightarrow> bytes) \<Rightarrow> cty \<Rightarrow> cval \<Rightarrow> bytes res" where
  "dispatch_convert h sha3 t one_data =
     (if is_byte_data t then Inr (event_bytes_data_convert sha3 (data_bytes one_data))
      else event_other_data_convert h sha3 one_data)"

definition event_data_convert :: "rlp_host \<Rightarrow> (bytes \<Rightarrow> bytes) \<Rightarrow> cty \<times> cval \<Rightarrow> cval res" where
  "event_data_convert h sha3 = (\<lambda>(t, data).
     if is_data_number t then Inr data
     else bind_res (dispatch_convert h sha3 t data) (\<lambda>bs. Inr (VBytes bs)))"

section \<open>Emitting\<close>

definition event_args :: "rlp_host \<Rightarrow> RLPStream \<Rightarrow> cval list \<Rightarrow> RLPStream res" where
  "event_args h stream args =
     bind_res (pack_size (VTuple args)) (\<lambda>n.
     bind_res (stream_reserve stream n) (\<lambda>stream. put h stream (VTuple args)))"

text \<open>An event as the host receives it: topics and data.\<close>

definition emit_event :: "rlp_host \<Rightarrow> cval list \<Rightarrow> (bytes \<times> bytes) res" where
  "emit_event h args =
     bind_res (event_args h stream_empty args) (\<lambda>stream.
     bind_res (stream_out stream) (\<lambda>topic_data. Inr ([], topic_data)))"

definition emit_event0 ::
  "rlp_host \<Rightarrow> (bytes \<Rightarrow> bytes) \<Rightarrow> string \<Rightarrow> cval list \<Rightarrow> (bytes \<times> bytes) res" where
  "emit_event0 h sha3 name args =
     bind_res (appendList h stream_empty 1) (\<lambda>stream.
     bind_res (event_data_convert h sha3 (TString, VString (asBytes name))) (\<lambda>event_sign.
     bind_res (pack_size event_sign) (\<lambda>n.
     bind_res (stream_reserve stream n) (\<lambda>stream.
     bind_res (put h stream event_sign) (\<lambda>stream.
     bind_res (stream_out stream) (\<lambda>topic_data.
     bind_res (event_args h stream_empty args) (\<lambda>args_stream.
     bind_res (stream_out args_stream) (\<lambda>args_data. Inr (topic_data, args_data)))))))))"

definition emit_event1 ::
  "rlp_host \<Rightarrow> (bytes \<Rightarrow> bytes) \<Rightarrow> string \<Rightarrow> cty \<times> cval \<Rightarrow> cval list \<Rightarrow> (bytes \<times> bytes) res" where
  "emit_event1 h sha3 name topic args =
     bind_res (appendList h stream_empty 2) (\<lambda>stream.
     bind_res (event_data_convert h sha3 (TString, VString (asBytes name))) (\<lambda>event_sign.
     bind_res (event_data_convert h sha3 topic) (\<lambda>topic1_data.
     bind_res (size_puts size_empty [event_sign, topic1_data]) (\<lambda>rlps.
     bind_res (stream_reserve stream (rs_size rlps)) (\<lambda>stream.
     bind_res (put_all h stream [event_sign, topic1_data]) (\<lambda>stream.
     bind_res (stream_out stream) (\<lambda>topic_data.
     bind_res (event_args h stream_empty args) (\<lambda>args_stream.
     bind_res (stream_out args_stream) (\<lambda>rlp_data. Inr (topic_data, rlp_data))))))))))"

definition emit_event2 ::
  "rlp_host \<Rightarrow> (bytes \<Rightarrow> bytes) \<Rightarrow> string \<Rightarrow> cty \<times> cval \<Rightarrow> cty \<times> cval \<Rightarrow> cval list \<Rightarrow>
   (bytes \<times> bytes) res" where
  "emit_event2 h sha3 name topic1 topic2 args =
     bind_res (appendList h stream_empty 3) (\<lambda>stream.
     bind_res (event_data_convert h sha3 (TString, VString (asBytes name))) (\<lambda>event_sign.
     bind_res (event_data_convert h sha3 topic1) (\<lambda>topic1_data.
     bind_res (event_data_convert h sha3 topic2) (\<lambda>topic2_data.
     bind_res (size_puts size_empty [event_sign, topic1_data, topic2_data]) (\<lambda>rlps.
     bind_res (stream_reserve stream (rs_size rlps)) (\<lambda>stream.
     bind_res (put_all h stream [event_sign, topic1_data, topic2_data]) (\<lambda>stream.
     bind_res (stream_out stream) (\<lambda>topic_data.
     bind_res (event_args h stream_empty args) (\<lambda>args_stream.
     bind_res (stream_out args_stream) (\<lambda>rlp_data. Inr (topic_data, rlp_data)))))))))))"

definition emit_event3 ::
  "rlp_host \<Rightarrow> (bytes \<Rightarrow> bytes) \<Rightarrow> string \<Rightarrow> cty \<times> cval \<Rightarrow> cty \<times> cval \<Rightarrow> cty \<times> cval \<Rightarrow> cval list \<Rightarrow>
   (bytes \<times> bytes) res" where
  "emit_event3 h sha3 name topic1 topic2 topic3 args =
     bind_res (appendList h stream_empty 4) (\<lambda>stream.
     bind_res (event_data_convert h sha3 (TString, VString (asBytes name))) (\<lambda>event_sign.
     bind_res (event_data_convert h sha3 topic1) (\<lambda>topic1_data.
     bind_res (event_data_convert h sha3 topic2) (\<lambda>topic2_data.
     bind_res (event_data_convert h sha3 topic3) (\<lambda>topic3_data.
     bind_res (size_puts size_empty [event_sign, topic1_data, topic2_data, topic3_data]) (\<lambda>rlps.
     bind_res (stream_reserve stream (rs_size rlps)) (\<lambda>stream.
     bind_res (put_all h stream [event_sign, topic1_data, topic2_data, topic3_data]) (\<lambda>stream.
     bind_res (stream_out stream) (\<lambda>topic_data.
     bind_res (event_args h stream_empty args) (\<lambda>args_stream.
     bind_res (stream_out args_stream) (\<lambda>rlp_data. Inr (topic_data, rlp_data))))))))))))"

text \<open>The function an event macro declares, by its number of topics; there are macros for up to three.\<close>

fun emit_eventN ::
  "rlp_host \<Rightarrow> (bytes \<Rightarrow> bytes) \<Rightarrow> string \<Rightarrow> (cty \<times> cval) list \<Rightarrow> cval list \<Rightarrow> (bytes \<times> bytes) res" where
  "emit_eventN h sha3 name [] args = emit_event0 h sha3 name args"
| "emit_eventN h sha3 name [t1] args = emit_event1 h sha3 name t1 args"
| "emit_eventN h sha3 name [t1, t2] args = emit_event2 h sha3 name t1 t2 args"
| "emit_eventN h sha3 name [t1, t2, t3] args = emit_event3 h sha3 name t1 t2 t3 args"
| "emit_eventN h sha3 name _ args = Inl (Throw ''no such macro'')"

section \<open>What the macros expand to\<close>

lemma nth_nums:
  "i < n \<Longrightarrow> map Num (rev [0..<n]) ! i = Num (n - 1 - i)"
  "i < n \<Longrightarrow> map Num [2..<2 + n] ! i = Num (2 + i)"
  by (simp_all add: rev_nth nth_map [of i "[2..<2 + n]"] del: upt_Suc upt.simps add_2_eq_Suc)

lemma ARG_COUNT_length:
  assumes "length args \<le> 10"
  shows "ARG_COUNT args = length args"
proof -
  have "(Dummy # map Param args @ xs) ! 11 = xs ! (10 - length args)" for xs
    using assms by (simp add: nth_append)
  then show ?thesis
    unfolding ARG_COUNT_def using nth_nums(1) [of "10 - length args" 11] assms by simp
qed

lemma ARG_POS_length:
  assumes "args \<noteq> []" "length args < tot"
  shows "ARG_POS tot args = Suc (tot - length args)"
proof -
  obtain n where n: "tot = Suc n" "1 \<le> n" using assms by (cases tot) (auto simp: Suc_le_eq)
  have "(Dummy # map Param args @ xs) ! tot = xs ! (n - length args)" for xs
    using assms n by (simp add: nth_append)
  moreover have "map Num [2..<Suc tot] ! (n - length args) = Num (2 + (n - length args))"
    using nth_nums(2) [of "n - length args" n] assms n by (simp add: Suc_diff_le del: nth_map)
  ultimately show ?thesis using assms n unfolding ARG_POS_def by (simp add: Suc_diff_le)
qed

lemma params_upt:
  "length args = k \<Longrightarrow> k \<le> tot \<Longrightarrow> params k (Suc (tot - k)) tot args = [Suc (tot - k)..<Suc tot]"
proof (induction k "Suc (tot - k)" tot args rule: params.induct)
  case (3 k tot args)
  have "tl args \<noteq> []" "length (tl args) < tot" using 3(2,3) by (cases args; auto)+
  then have pos: "ARG_POS tot (tl args) = Suc (tot - Suc k)"
    using 3(2) by (simp add: ARG_POS_length)
  have "Suc (tot - Suc k) = Suc (Suc (tot - Suc (Suc k)))" using 3(3) by simp
  then show ?case using 3 pos by (simp add: upt_conv_Cons)
qed (auto simp: upt_conv_Cons)

lemma funcs_params: "length args = k \<Longrightarrow> funcs k N tot args = zip args (params k N tot args)"
proof (induction k N tot args rule: funcs.induct)
  case (3 k N tot args)
  then show ?case by (cases args) auto
next
  case (2 N tot args)
  then show ?case by (cases args) auto
qed simp

text \<open>
  Up to ten parameters an event macro numbers them in order: the generated function declares
  the parameters \<open>arg1\<close>, \<open>arg2\<close>, \<open>\<dots>\<close> with the given types, and passes each of them on, once and
  in order.
\<close>

lemma event_macro_params:
  assumes "length types \<le> 10"
  shows "VA_F types = zip types [1..<Suc (length types)] \<and> PA_F types = [1..<Suc (length types)]"
proof -
  have "params (length types) 1 (length types) types = [1..<Suc (length types)]"
    using params_upt [of types "length types" "length types"] by simp
  then show ?thesis
    using assms by (simp add: VA_F_def PA_F_def ARG_COUNT_length funcs_params)
qed

section \<open>What the log holds\<close>

text \<open>The topic a value is logged as.\<close>

definition topic_of :: "(bytes \<Rightarrow> bytes) \<Rightarrow> cty \<times> cval \<Rightarrow> cval" where
  "topic_of sha3 = (\<lambda>(t, v).
     if is_data_number t then v
     else let raw = (if is_byte_data t then data_bytes v else enc (item_of v))
          in VBytes (if length raw \<le> 32 then raw else sha3 raw))"

lemma event_data_convert_ok:
  assumes "rlp_host_ok h" "is_byte_data t \<or> item_len v < 2 ^ 32"
  shows "event_data_convert h sha3 (t, v) = Inr (topic_of sha3 (t, v))"
  using pack_out [OF assms(1)] assms(2)
  by (auto simp: event_data_convert_def topic_of_def dispatch_convert_def event_other_data_convert_def
      event_bytes_data_convert_def Let_def)

lemma event_args_out:
  assumes "rlp_host_ok h" "item_len (VTuple args) < 2 ^ 32"
  shows "bind_res (event_args h stream_empty args) stream_out = Inr (enc (item_of (VTuple args)))"
  using pack_out [OF assms] by (simp add: event_args_def bind_res_assoc del: put.simps item_of.simps)

text \<open>All overloads pack the topics as the members of a class are packed.\<close>

lemma topics_out:
  assumes "rlp_host_ok h" "item_len (VStruct vs) < 2 ^ 32"
  shows "bind_res (appendList h stream_empty (length vs)) (\<lambda>stream.
      bind_res (size_puts size_empty vs) (\<lambda>rlps.
      bind_res (stream_reserve stream (rs_size rlps)) (\<lambda>stream.
      bind_res (put_all h stream vs) stream_out))) = Inr (enc (Lst (map item_of vs)))"
  using serialize_enc [OF assms] by (simp add: serialize_def bind_res_assoc del: size_puts.simps)

lemma number_len:
  assumes "has_type t v" "is_data_number t"
  shows "item_len v \<le> 33"
proof -
  have str: "length (enc_str (be_bytes n)) \<le> 33" if "n < 2 ^ 128" for n
  proof -
    have "n < 256 ^ 16" using that by simp
    then have "length (be_bytes n) \<le> 16" by (simp only: length_be_bytes_le)
    then show ?thesis by (simp add: length_enc_str length_rlp_head)
  qed
  have "unat (x :: 32 word) < 2 ^ 128" "unat (y :: 64 word) < 2 ^ 128" "unat (z :: 128 word) < 2 ^ 128" for x y z
    using unat_bound [of x] unat_bound [of y] unat_bound [of z] by simp_all
  then show ?thesis
    using assms str [of "unat (_ :: 128 word)"] str [of "unat (_ :: 64 word)"] str [of "unat (_ :: 32 word)"] str [of 0] str [of 1]
    by (cases t; cases v) (auto simp: item_len_def)
qed

lemma topic_len:
  assumes "has_type t v" "\<And>b. length (sha3 b) = 32"
  shows "item_len (topic_of sha3 (t, v)) \<le> 33"
    and "is_data_number t \<or> (\<exists>bs. topic_of sha3 (t, v) = VBytes bs \<and> length bs \<le> 32)"
proof -
  have "length (enc_str bs) \<le> 33" if "length bs \<le> 32" for bs :: bytes
    using that by (simp add: length_enc_str length_rlp_head)
  then show "item_len (topic_of sha3 (t, v)) \<le> 33"
    using number_len [OF assms(1)] assms(2) by (auto simp: topic_of_def item_len_def Let_def)
  show "is_data_number t \<or> (\<exists>bs. topic_of sha3 (t, v) = VBytes bs \<and> length bs \<le> 32)"
    using assms(2) by (auto simp: topic_of_def Let_def)
qed

text \<open>
  The name of an event is its first topic. The five functions write the topics and the arguments in
  the same way.
\<close>

abbreviation all_topics :: "(bytes \<Rightarrow> bytes) \<Rightarrow> string \<Rightarrow> (cty \<times> cval) list \<Rightarrow> cval list" where
  "all_topics sha3 name topics \<equiv> map (topic_of sha3) ((TString, VString (asBytes name)) # topics)"

lemma log_entry:
  assumes "rlp_host_ok h" "item_len (VStruct vs) < 2 ^ 32" "item_len (VTuple args) < 2 ^ 32" "n = length vs"
  shows "bind_res (appendList h stream_empty n) (\<lambda>stream.
      bind_res (size_puts size_empty vs) (\<lambda>rlps.
      bind_res (stream_reserve stream (rs_size rlps)) (\<lambda>stream.
      bind_res (put_all h stream vs) (\<lambda>stream.
      bind_res (stream_out stream) (\<lambda>topic_data.
      bind_res (event_args h stream_empty args) (\<lambda>args_stream.
      bind_res (stream_out args_stream) (\<lambda>rlp_data. Inr (topic_data, rlp_data)))))))) =
    Inr (enc (Lst (map item_of vs)), enc (item_of (VTuple args)))" (is "?lhs = _")
proof -
  let ?fin = "\<lambda>topic_data. bind_res (bind_res (event_args h stream_empty args) stream_out)
      (\<lambda>rlp_data. Inr (topic_data, rlp_data))"
  have "?lhs = bind_res (bind_res (appendList h stream_empty (length vs)) (\<lambda>stream.
      bind_res (size_puts size_empty vs) (\<lambda>rlps.
      bind_res (stream_reserve stream (rs_size rlps)) (\<lambda>stream.
      bind_res (put_all h stream vs) stream_out)))) ?fin"
    unfolding assms(4) bind_res_assoc ..
  then show ?thesis unfolding topics_out [OF assms(1,2)] event_args_out [OF assms(1,3)] by simp
qed

lemma emit_eventN_ok:
  assumes h: "rlp_host_ok h" and len: "length topics \<le> 3"
    and ty: "\<And>t v. (t, v) \<in> set topics \<Longrightarrow> item_len v < 2 ^ 32"
    and st: "item_len (VStruct (all_topics sha3 name topics)) < 2 ^ 32"
    and args: "item_len (VTuple args) < 2 ^ 32"
  shows "emit_eventN h sha3 name topics args =
    Inr (enc (Lst (map item_of (all_topics sha3 name topics))), enc (item_of (VTuple args)))"
proof -
  note log = log_entry [OF h st args]
  note raw = put.simps put_all.simps size_puts.simps size_put.simps item_of.simps
  have name: "event_data_convert h sha3 (TString, VString b) = Inr (topic_of sha3 (TString, VString b))" for b
    by (rule event_data_convert_ok [OF h]) simp
  have topic: "event_data_convert h sha3 x = Inr (topic_of sha3 x)" if "x \<in> set topics" for x
    using that event_data_convert_ok [OF h, of "fst x" "snd x"] ty [of "fst x" "snd x"] by simp
  consider "topics = []" | a where "topics = [a]" | a b where "topics = [a, b]" | a b c where "topics = [a, b, c]"
    using len by (auto simp: le_Suc_eq numeral_eq_Suc length_Suc_conv)
  then show ?thesis
  proof cases
    case 1
    have "emit_event0 h sha3 name args =
      bind_res (appendList h stream_empty 1) (\<lambda>stream.
      bind_res (size_puts size_empty [topic_of sha3 (TString, VString (asBytes name))]) (\<lambda>rlps.
      bind_res (stream_reserve stream (rs_size rlps)) (\<lambda>stream.
      bind_res (put_all h stream [topic_of sha3 (TString, VString (asBytes name))]) (\<lambda>stream.
      bind_res (stream_out stream) (\<lambda>topic_data.
      bind_res (event_args h stream_empty args) (\<lambda>args_stream.
      bind_res (stream_out args_stream) (\<lambda>rlp_data. Inr (topic_data, rlp_data))))))))"
      by (simp add: emit_event0_def name pack_size_def bind_res_assoc del: put.simps size_put.simps)
    then show ?thesis using 1 log [of 1] by (simp del: raw)
  next
    case (2 a)
    then show ?thesis using log [of 2] topic by (simp add: emit_event1_def name del: raw)
  next
    case (3 a b)
    then show ?thesis using log [of 3] topic by (simp add: emit_event2_def name del: raw)
  next
    case (4 a b c)
    then show ?thesis using log [of 4] topic by (simp add: emit_event3_def name del: raw)
  qed
qed

lemma all_topics_len:
  assumes "length topics \<le> 3" "\<And>t v. (t, v) \<in> set topics \<Longrightarrow> has_type t v" "\<And>b. length (sha3 b) = 32"
  shows "item_len (VStruct (all_topics sha3 name topics)) < 2 ^ 32"
proof -
  let ?vs = "all_topics sha3 name topics"
  have "item_len v \<le> 33" if "v \<in> set ?vs" for v
    using that topic_len(1) [of _ _ sha3, OF _ assms(3)] assms(2) by fastforce
  moreover have "sum_list (map item_len xs) \<le> length xs * 33" if "\<And>v. v \<in> set xs \<Longrightarrow> item_len v \<le> 33" for xs
    using sum_list_mono [of xs item_len "\<lambda>_. 33"] that by (simp add: sum_list_triv)
  ultimately have "sum_list (map item_len ?vs) \<le> length ?vs * 33" by blast
  also have "\<dots> \<le> 132" using assms(1) by simp
  finally have "length (concat (map enc (map item_of ?vs))) \<le> 132"
    by (simp only: length_concat map_map o_def item_len_def)
  moreover have "length (enc_list p) \<le> length p + 5" if "length p \<le> 132" for p :: bytes
    using that length_be_bytes_le [of "length p" 4] by (simp add: enc_list_def length_rlp_head)
  ultimately have "length (enc_list (concat (map enc (map item_of ?vs)))) \<le> 132 + 5" by fastforce
  then show ?thesis by (simp add: item_len_def)
qed

text \<open>
  C27. An event reaches the log readable: the topics are the RLP list of the name and the topics,
  numbers as they are and everything else cut to at most 32 bytes (short data as it is, longer
  data hashed), and an observer who knows the types reads the arguments back from the data.
\<close>

theorem event_readable:
  assumes "rlp_host_ok h" "\<forall>b. length (sha3 b) = 32" "length topics \<le> 3"
    and "\<forall>(t, v) \<in> set topics. has_type t v \<and> item_len v < 2 ^ 32"
    and "has_types ts args" "item_len (VTuple args) < 2 ^ 31"
  shows "\<exists>db. emit_eventN h sha3 name topics args =
      Inr (enc (Lst (map item_of (all_topics sha3 name topics))), db) \<and>
    (\<forall>mem d. wf_view mem d \<and> contents mem d = db \<longrightarrow> deserialize (TTuple ts) mem d = Inr (VTuple args)) \<and>
    (\<forall>(t, v) \<in> set ((TString, VString (asBytes name)) # topics). is_data_number t \<or>
       (\<exists>bs. topic_of sha3 (t, v) = VBytes bs \<and> length bs \<le> 32))"
proof -
  have ty: "has_type t v" "item_len v < 2 ^ 32" if "(t, v) \<in> set topics" for t v
    using assms(4) that by auto
  have "emit_eventN h sha3 name topics args =
      Inr (enc (Lst (map item_of (all_topics sha3 name topics))), enc (item_of (VTuple args)))"
    using assms(6) all_topics_len [OF assms(3) ty(1), of sha3 name] assms(2)
    by (intro emit_eventN_ok [OF assms(1,3) ty(2)]) simp_all
  moreover have "deserialize (TTuple ts) mem d = Inr (VTuple args)"
    if "wf_view mem d" "contents mem d = enc (item_of (VTuple args))" for mem d
    using deserialize_enc [of "TTuple ts" "VTuple args" mem d] that assms(5) by (simp add: enc_view_def)
  moreover have "\<forall>(t, v) \<in> set ((TString, VString (asBytes name)) # topics). is_data_number t \<or>
       (\<exists>bs. topic_of sha3 (t, v) = VBytes bs \<and> length bs \<le> 32)"
  proof (clarify)
    fix t v assume "(t, v) \<in> set ((TString, VString (asBytes name)) # topics)"
      and n: "\<nexists>bs. topic_of sha3 (t, v) = VBytes bs \<and> length bs \<le> 32"
    then have "has_type t v" using ty(1) by auto
    then show "is_data_number t" using topic_len(2) [of t v sha3] assms(2) n by blast
  qed
  ultimately show ?thesis by blast
qed

theorem event_readable_witness:
  "\<exists>db. emit_eventN model_host (\<lambda>b. replicate 32 7) ''transfer'' [(TU W64, VUInt 3)] [VBool True] =
      Inr (enc (Lst (map item_of (all_topics (\<lambda>b. replicate 32 7) ''transfer'' [(TU W64, VUInt 3)]))), db) \<and>
    (\<forall>mem d. wf_view mem d \<and> contents mem d = db \<longrightarrow>
       deserialize (TTuple [TBool]) mem d = Inr (VTuple [VBool True])) \<and>
    (\<forall>(t, v) \<in> set ((TString, VString (asBytes ''transfer'')) # [(TU W64, VUInt 3)]). is_data_number t \<or>
       (\<exists>bs. topic_of (\<lambda>b. replicate 32 7) (t, v) = VBytes bs \<and> length bs \<le> 32))"
proof (rule event_readable [OF model_host_ok])
  show "\<forall>(t, v) \<in> set [(TU W64, VUInt 3)]. has_type t v \<and> item_len v < 2 ^ 32"
    using number_len [of "TU W64" "VUInt 3"] by simp
  show "item_len (VTuple [VBool True]) < 2 ^ 31"
    by (simp add: item_len_def enc_str_def enc_list_def rlp_head_def be_bytes.simps)
qed simp_all

end
