(* ===== verification/Authority.thy ===== *)
theory Authority
  imports Storage_Type Fixed_Hash Contract_Name
begin

text \<open>
  Model of \<open>platonlib/include/platon/authority.hpp\<close>: the owner of a contract, kept in a storage
  variable, and whitelists of addresses. The lemmas show that the owner that was set is the one
  that is found, what becomes of a text that is no address, and that a whitelist is a set of
  addresses that persists from one call of the contract to the next.
\<close>

section \<open>Who calls\<close>

text \<open>The addresses the host reports for a call: its caller, the origin of the transaction, the contract.\<close>

record call_env =
  env_caller :: bytes
  env_origin :: bytes
  env_address :: bytes

definition platon_caller :: "call_env \<Rightarrow> bytes" where
  "platon_caller e = env_caller e"

definition platon_origin :: "call_env \<Rightarrow> bytes" where
  "platon_origin e = env_origin e"

definition platon_address :: "call_env \<Rightarrow> bytes" where
  "platon_address e = env_address e"

section \<open>The owner\<close>

definition owner_name :: "64 word" where
  "owner_name = name_val (name_of_string ''platonowner'')"

definition set_owner ::
  "'s store_ops \<Rightarrow> bool \<Rightarrow> call_env \<Rightarrow> string \<Rightarrow> 's \<Rightarrow> 's res" where
  "set_owner ops testnet e address s =
     bind_res (if address = [] then Inr (platon_caller e)
               else bind_res (make_address testnet address) (\<lambda>(a, ok).
                      Inr (if ok then a else hash_empty 20))) (\<lambda>platon_addr.
     bind_res (st_scope ops (default_val (THash 20)) owner_name (default_val (THash 20))
                 (\<lambda>_. VHash platon_addr) s) (\<lambda>(_, s'). Inr s'))"

definition owner :: "'s store_ops \<Rightarrow> 's \<Rightarrow> (cval \<times> 's) res" where
  "owner ops s =
     st_scope ops (default_val (THash 20)) owner_name (default_val (THash 20)) (\<lambda>v. v) s"

definition is_owner ::
  "'s store_ops \<Rightarrow> bool \<Rightarrow> call_env \<Rightarrow> string \<Rightarrow> 's \<Rightarrow> (bool \<times> 's) res" where
  "is_owner ops testnet e addr s =
     bind_res (if addr = [] then Inr (platon_origin e)
               else bind_res (make_address testnet addr) (\<lambda>(a, ok).
                      Inr (if ok then a else hash_empty 20))) (\<lambda>platon_addr.
     bind_res (st_scope ops (default_val (THash 20)) owner_name (default_val (THash 20)) (\<lambda>v. v) s)
       (\<lambda>(v, s'). Inr (v = VHash platon_addr, s')))"

section \<open>Whitelists\<close>

text \<open>
  A whitelist is a storage variable of type \<open>std::set<Address>\<close>. Lookup and removal in the set go by
  equivalence under \<open>operator<\<close>.
\<close>

definition wl_Add_addr :: "StorageType \<Rightarrow> bytes \<Rightarrow> StorageType" where
  "wl_Add_addr w addr = w\<lparr>st_value := VSeq (set_insert (VHash addr) (seq_elems (st_self w)))\<rparr>"

definition wl_Add :: "bool \<Rightarrow> StorageType \<Rightarrow> string \<Rightarrow> StorageType res" where
  "wl_Add testnet w addr =
     bind_res (make_address testnet addr) (\<lambda>(a, ok). Inr (if ok then wl_Add_addr w a else w))"

definition wl_Delete_addr :: "StorageType \<Rightarrow> bytes \<Rightarrow> StorageType" where
  "wl_Delete_addr w addr =
     w\<lparr>st_value := VSeq (filter (\<lambda>x. less_cval x (VHash addr) \<or> less_cval (VHash addr) x)
                           (seq_elems (st_self w)))\<rparr>"

definition wl_Delete :: "bool \<Rightarrow> StorageType \<Rightarrow> string \<Rightarrow> StorageType res" where
  "wl_Delete testnet w addr =
     bind_res (make_address testnet addr) (\<lambda>(a, ok). Inr (if ok then wl_Delete_addr w a else w))"

definition wl_Exists_addr :: "StorageType \<Rightarrow> bytes \<Rightarrow> bool" where
  "wl_Exists_addr w addr \<longleftrightarrow>
     list_ex (\<lambda>x. \<not> less_cval x (VHash addr) \<and> \<not> less_cval (VHash addr) x) (seq_elems (st_self w))"

definition wl_Exists :: "bool \<Rightarrow> StorageType \<Rightarrow> string \<Rightarrow> bool res" where
  "wl_Exists testnet w addr =
     bind_res (make_address testnet addr) (\<lambda>(a, ok). Inr (ok \<and> wl_Exists_addr w a))"

text \<open>A client: the calls on one object between its construction and its destruction.\<close>

datatype wl_call =
  WAdd string | WAddAddr bytes | WDelete string | WDeleteAddr bytes | WExists string | WExistsAddr bytes

fun wl_step :: "bool \<Rightarrow> StorageType \<Rightarrow> wl_call \<Rightarrow> (bool list \<times> StorageType) res" where
  "wl_step testnet w (WAdd t) = bind_res (wl_Add testnet w t) (\<lambda>w'. Inr ([], w'))"
| "wl_step testnet w (WAddAddr a) = Inr ([], wl_Add_addr w a)"
| "wl_step testnet w (WDelete t) = bind_res (wl_Delete testnet w t) (\<lambda>w'. Inr ([], w'))"
| "wl_step testnet w (WDeleteAddr a) = Inr ([], wl_Delete_addr w a)"
| "wl_step testnet w (WExists t) = bind_res (wl_Exists testnet w t) (\<lambda>b. Inr ([b], w))"
| "wl_step testnet w (WExistsAddr a) = Inr ([wl_Exists_addr w a], w)"

fun wl_run :: "bool \<Rightarrow> StorageType \<Rightarrow> wl_call list \<Rightarrow> (bool list \<times> StorageType) res" where
  "wl_run testnet w [] = Inr ([], w)"
| "wl_run testnet w (c # cs) =
     bind_res (wl_step testnet w c) (\<lambda>(o1, w').
     bind_res (wl_run testnet w' cs) (\<lambda>(os, w''). Inr (o1 @ os, w'')))"

definition wl_session ::
  "'s store_ops \<Rightarrow> bool \<Rightarrow> 64 word \<Rightarrow> wl_call list \<Rightarrow> 's \<Rightarrow> (bool list \<times> 's) res" where
  "wl_session ops testnet name cs s =
     bind_res (st_Init ops (VSeq []) s name (VSeq [])) (\<lambda>w.
     bind_res (wl_run testnet w cs) (\<lambda>(os, w').
     bind_res (st_Flush ops s w') (\<lambda>s'. Inr (os, s'))))"

section \<open>Texts of addresses\<close>

lemma length_charset_rev: "length charset_rev = 128"
  by (simp add: charset_rev_def)

lemma scan_case_ascii: "scan_case cs l u = (True, l', u') \<Longrightarrow> c \<in> set cs \<Longrightarrow> (of_char c :: nat) \<le> 126"
  by (induction cs l u rule: scan_case.induct) (auto simp: Let_def split: if_splits)

lemma decode_total: "\<exists>a ok. decode str hrp = Inr (a, ok) \<and> length a = 20"
proof -
  obtain ok0 l u where scan: "scan_case str False False = (ok0, l, u)" by (cases "scan_case str False False")
  have rev: "\<exists>rs. map_res rev_at (drop n str) = Inr rs" if ok0 for n
  proof -
    have "rev_at c = Inr (charset_rev ! of_char c)" if "c \<in> set (drop n str)" for c
      using scan_case_ascii [of str False False l u c] scan \<open>ok0\<close> that in_set_dropD [OF that]
      by (auto simp: rev_at_def length_charset_rev)
    then show ?thesis using map_res_Inr [of "drop n str" rev_at "\<lambda>c. charset_rev ! of_char c"] by blast
  qed
  show ?thesis
  proof (cases "rfind (CHR ''1'') str")
    case None
    then show ?thesis by (auto simp: decode_def scan hash_empty_def)
  next
    case (Some pos)
    show ?thesis
    proof (cases ok0)
      case True
      then obtain rs where "map_res rev_at (drop (Suc pos) str) = Inr rs" using rev by blast
      then show ?thesis
        by (auto simp: decode_def scan Some hash_empty_def Let_def split: prod.splits)
    next
      case False
      then show ?thesis by (auto simp: decode_def scan Some hash_empty_def)
    qed
  qed
qed

lemma make_address_total: "\<exists>a ok. make_address testnet str = Inr (a, ok) \<and> length a = 20"
  using decode_total by (auto simp: make_address_def hash_empty_def Let_def)

text \<open>The address a text stands for: a text that is no address stands for the zero address.\<close>

definition text_addr :: "bool \<Rightarrow> bytes \<Rightarrow> string \<Rightarrow> bytes" where
  "text_addr testnet dflt t =
     (if t = [] then dflt
      else case make_address testnet t of
        Inl e \<Rightarrow> hash_empty 20
      | Inr (a, ok) \<Rightarrow> if ok then a else hash_empty 20)"

lemma text_addr_res:
  "(if t = [] then Inr dflt
    else bind_res (make_address testnet t) (\<lambda>(a, ok). Inr (if ok then a else hash_empty 20))) =
   Inr (text_addr testnet dflt t)"
  using make_address_total [of testnet t] by (auto simp: text_addr_def)

lemma length_text_addr: "length dflt = 20 \<Longrightarrow> length (text_addr testnet dflt t) = 20"
  using make_address_total [of testnet t] by (auto simp: text_addr_def hash_empty_def)

section \<open>The owner that was set is the owner\<close>

lemma hash_typed: "length a = 20 \<Longrightarrow> typed (THash 20) (VHash a)"
  by (simp add: typed_def fits_def item_len_def length_enc_str length_rlp_head)

lemma zero_local: "local_ok (THash 20) (default_val (THash 20))" "typed (THash 20) (default_val (THash 20))"
  using hash_typed [of "replicate 20 0"] by (simp_all add: local_ok_def)

abbreviation owner_holds :: "'s chain_host \<Rightarrow> 's \<Rightarrow> cval option \<Rightarrow> bool" where
  "owner_holds H \<equiv> cell_holds H (THash 20) owner_name"

definition current_owner :: "cval option \<Rightarrow> cval" where
  "current_owner c = (case c of None \<Rightarrow> VHash (replicate 20 0) | Some v \<Rightarrow> v)"

lemma owner_scope:
  assumes "chain_host_ok H" "owner_holds H s c"
  shows "\<exists>s'. owner (state_ops (THash 20) H) s = Inr (current_owner c, s') \<and>
      owner_holds H s' (Some (current_owner c)) \<and> cell_frame H owner_name s s'"
    and "\<exists>s'. is_owner (state_ops (THash 20) H) testnet e t s =
        Inr (current_owner c = VHash (text_addr testnet (env_origin e) t), s') \<and>
      owner_holds H s' (Some (current_owner c)) \<and> cell_frame H owner_name s s'"
proof -
  have c: "current_owner c = (case c of None \<Rightarrow> default_val (THash 20) | Some v \<Rightarrow> v)"
    by (simp add: current_owner_def split: option.splits)
  note cell = state_cellI [OF assms(1)]
  have "typed (THash 20) (current_owner c)" by (rule state_cell.variable_Init(2) [OF cell assms(2) zero_local c])
  then obtain s' where s': "st_scope (state_ops (THash 20) H) (default_val (THash 20)) owner_name
      (default_val (THash 20)) (\<lambda>v. v) s = Inr (current_owner c, s')"
    "owner_holds H s' (Some (current_owner c)) \<and> cell_frame H owner_name s s'"
    using state_cell.variable_scope [OF cell assms(2) zero_local c, of "\<lambda>v. v"] by blast
  then show "\<exists>s'. owner (state_ops (THash 20) H) s = Inr (current_owner c, s') \<and>
      owner_holds H s' (Some (current_owner c)) \<and> cell_frame H owner_name s s'"
    by (simp add: owner_def)
  show "\<exists>s'. is_owner (state_ops (THash 20) H) testnet e t s =
        Inr (current_owner c = VHash (text_addr testnet (env_origin e) t), s') \<and>
      owner_holds H s' (Some (current_owner c)) \<and> cell_frame H owner_name s s'"
    using s' unfolding is_owner_def platon_origin_def text_addr_res by simp
qed

lemma set_owner_scope:
  assumes "chain_host_ok H" "owner_holds H s c" "length (env_caller e) = 20"
  shows "\<exists>s'. set_owner (state_ops (THash 20) H) testnet e t s = Inr s' \<and>
    owner_holds H s' (Some (VHash (text_addr testnet (env_caller e) t))) \<and> cell_frame H owner_name s s'"
proof -
  have "typed (THash 20) (VHash (text_addr testnet (env_caller e) t))"
    using assms(3) by (intro hash_typed length_text_addr)
  then obtain v s' where "st_scope (state_ops (THash 20) H) (default_val (THash 20)) owner_name
      (default_val (THash 20)) (\<lambda>_. VHash (text_addr testnet (env_caller e) t)) s = Inr (v, s')"
    "owner_holds H s' (Some (VHash (text_addr testnet (env_caller e) t)))" "cell_frame H owner_name s s'"
    using state_cell.variable_scope [OF state_cellI [OF assms(1)] assms(2) zero_local refl,
        of "\<lambda>_. VHash (text_addr testnet (env_caller e) t)"] by blast
  then show ?thesis
    unfolding set_owner_def platon_caller_def text_addr_res by simp
qed

text \<open>
  C32. The owner protocol: after \<open>set_owner\<close> with a text, \<open>owner\<close> returns the address of the text (the
  caller for the empty text), and \<open>is_owner\<close> of any later call with any text is true exactly
  when that text stands for the same address (the origin for the empty text). A text that is
  no address stands for the zero address in both. Of the state before only the entry of the owner
  is assumed to be an address if there is one, and the three functions touch no other key.
\<close>

theorem owner_protocol:
  assumes "chain_host_ok H" "owner_holds H s c" "length (env_caller e) = 20"
  shows "\<exists>s1. set_owner (state_ops (THash 20) H) testnet e t s = Inr s1 \<and> cell_frame H owner_name s s1 \<and>
    (\<exists>s2. owner (state_ops (THash 20) H) s1 = Inr (VHash (text_addr testnet (env_caller e) t), s2) \<and>
       cell_frame H owner_name s1 s2) \<and>
    (\<forall>e' t'. \<exists>s3. is_owner (state_ops (THash 20) H) testnet e' t' s1 =
       Inr (text_addr testnet (env_caller e) t = text_addr testnet (env_origin e') t', s3) \<and>
       cell_frame H owner_name s1 s3)"
proof -
  let ?v = "VHash (text_addr testnet (env_caller e) t)"
  obtain s1 where s1: "set_owner (state_ops (THash 20) H) testnet e t s = Inr s1"
    "owner_holds H s1 (Some ?v)" "cell_frame H owner_name s s1"
    using set_owner_scope [OF assms] by blast
  have "current_owner (Some ?v) = ?v" by (simp add: current_owner_def)
  then show ?thesis using s1(1,3) owner_scope [OF assms(1) s1(2)] by fastforce
qed

theorem owner_protocol_witness:
  "\<exists>s1. set_owner (state_ops (THash 20) model_chain) False \<lparr>env_caller = replicate 20 3, env_origin = replicate 20 4,
      env_address = replicate 20 5\<rparr> [] (\<lambda>k. []) = Inr s1 \<and> cell_frame model_chain owner_name (\<lambda>k. []) s1 \<and>
    (\<exists>s2. owner (state_ops (THash 20) model_chain) s1 = Inr (VHash (replicate 20 3), s2) \<and>
       cell_frame model_chain owner_name s1 s2) \<and>
    (\<forall>e' t'. \<exists>s3. is_owner (state_ops (THash 20) model_chain) False e' t' s1 =
       Inr (replicate 20 3 = text_addr False (env_origin e') t', s3) \<and> cell_frame model_chain owner_name s1 s3)"
  using owner_protocol [OF model_chain_ok cell_empty, of "\<lparr>env_caller = replicate 20 3,
      env_origin = replicate 20 4, env_address = replicate 20 5\<rparr>" False "[]"]
  by (simp add: text_addr_def)

text \<open>
  C40. On a contract whose owner was never set, \<open>is_owner\<close> of a text that is no address is true: both
  are taken for the zero address.
\<close>

theorem is_owner_accepts_garbage:
  assumes "chain_host_ok H" "owner_holds H s None"
    and "make_address testnet t = Inr (a, False)" "t \<noteq> []"
  shows "\<exists>s'. is_owner (state_ops (THash 20) H) testnet e t s = Inr (True, s')"
  using owner_scope(2) [OF assms(1,2), of testnet e t] assms(3,4)
  by (auto simp: current_owner_def text_addr_def hash_empty_def)

theorem is_owner_accepts_garbage_witness:
  "\<exists>s'. is_owner (state_ops (THash 20) model_chain) False \<lparr>env_caller = [], env_origin = [], env_address = []\<rparr>
      ''nobody'' (\<lambda>k. []) = Inr (True, s')"
proof (rule is_owner_accepts_garbage [OF model_chain_ok cell_empty])
  show "make_address False ''nobody'' = Inr (hash_empty 20, False)"
    by (simp add: make_address_def decode_def rfind_def)
qed simp_all

section \<open>A whitelist is a persistent set\<close>

text \<open>The specification: a set of addresses; a text that is no address is ignored.\<close>

definition addr_of :: "bool \<Rightarrow> string \<Rightarrow> bytes option" where
  "addr_of testnet t = (case make_address testnet t of
     Inl e \<Rightarrow> None | Inr (a, ok) \<Rightarrow> if ok then Some a else None)"

fun wl_spec :: "bool \<Rightarrow> bytes set \<Rightarrow> wl_call \<Rightarrow> bool list \<times> bytes set" where
  "wl_spec testnet A (WAdd t) = ([], case addr_of testnet t of None \<Rightarrow> A | Some a \<Rightarrow> insert a A)"
| "wl_spec testnet A (WAddAddr a) = ([], insert a A)"
| "wl_spec testnet A (WDelete t) = ([], case addr_of testnet t of None \<Rightarrow> A | Some a \<Rightarrow> A - {a})"
| "wl_spec testnet A (WDeleteAddr a) = ([], A - {a})"
| "wl_spec testnet A (WExists t) = ([case addr_of testnet t of None \<Rightarrow> False | Some a \<Rightarrow> a \<in> A], A)"
| "wl_spec testnet A (WExistsAddr a) = ([a \<in> A], A)"

fun wl_spec_run :: "bool \<Rightarrow> bytes set \<Rightarrow> wl_call list \<Rightarrow> bool list \<times> bytes set" where
  "wl_spec_run testnet A [] = ([], A)"
| "wl_spec_run testnet A (c # cs) =
     (let (o1, A1) = wl_spec testnet A c; (os, A2) = wl_spec_run testnet A1 cs in (o1 @ os, A2))"

fun wl_call_ok :: "wl_call \<Rightarrow> bool" where
  "wl_call_ok (WAddAddr a) = (length a = 20)"
| "wl_call_ok (WDeleteAddr a) = (length a = 20)"
| "wl_call_ok (WExistsAddr a) = (length a = 20)"
| "wl_call_ok _ = True"

text \<open>The variable holds the set: a sorted list of the addresses in it.\<close>

definition wl_holds :: "cval \<Rightarrow> bytes set \<Rightarrow> bool" where
  "wl_holds v A \<longleftrightarrow> has_type (TSet (THash 20)) v \<and> set (seq_elems v) = VHash ` A"

lemma wl_holdsD:
  assumes "wl_holds v A"
  obtains vs where "v = VSeq vs" "list_all (has_type (THash 20)) vs" "sorted_wrt less_cval vs" "set vs = VHash ` A"
  using assms by (cases v) (auto simp: wl_holds_def seq_elems_def)

lemma less_cval_irrefl: "\<not> less_cval a a"
  using less_cval_asym(1) by blast

lemma hash_equiv:
  assumes "has_type (THash 20) x" "length a = 20"
  shows "(less_cval x (VHash a) \<or> less_cval (VHash a) x) \<longleftrightarrow> x \<noteq> VHash a"
  using less_cval_total [of "THash 20" x "VHash a"] assms less_cval_irrefl [of x] by (auto simp del: less_cval.simps)

lemma wl_Add_addr_ok:
  assumes "wl_holds (st_value w) A" "length a = 20"
  shows "wl_holds (st_value (wl_Add_addr w a)) (insert a A)"
proof -
  obtain vs where vs: "st_value w = VSeq vs" "list_all (has_type (THash 20)) vs" "set vs = VHash ` A"
    using wl_holdsD [OF assms(1)] by metis
  have "less_cval (VHash a) y \<or> less_cval y (VHash a) \<or> VHash a = y" if "y \<in> set vs" for y
    using hash_equiv [of y a] vs(2) that assms(2) by (auto simp: list_all_iff)
  then have "set (set_insert (VHash a) vs) = insert (VHash a) (set vs)" by (rule set_set_insert)
  moreover have "has_type (TSet (THash 20)) (VSeq (fold set_insert [VHash a] vs))"
    using assms vs(1) by (intro fetch_set_typed) (simp_all add: wl_holds_def del: has_type.simps(11))
  ultimately show ?thesis using vs(1,3) by (simp add: wl_holds_def wl_Add_addr_def st_self_def seq_elems_def)
qed

lemma wl_Delete_addr_ok:
  assumes "wl_holds (st_value w) A" "length a = 20"
  shows "wl_holds (st_value (wl_Delete_addr w a)) (A - {a})"
proof -
  obtain vs where vs: "st_value w = VSeq vs" "list_all (has_type (THash 20)) vs" "sorted_wrt less_cval vs"
    "set vs = VHash ` A" using wl_holdsD [OF assms(1)] .
  have "filter (\<lambda>x. less_cval x (VHash a) \<or> less_cval (VHash a) x) vs = filter (\<lambda>x. x \<noteq> VHash a) vs"
    using vs(2) hash_equiv [OF _ assms(2)] by (intro filter_cong) (auto simp: list_all_iff)
  then have v: "st_value (wl_Delete_addr w a) = VSeq (filter (\<lambda>x. x \<noteq> VHash a) vs)"
    using vs(1) by (simp add: wl_Delete_addr_def st_self_def seq_elems_def)
  have "list_all (has_type (THash 20)) (filter (\<lambda>x. x \<noteq> VHash a) vs)"
    using vs(2) by (auto simp: list_all_iff)
  moreover have "sorted_wrt less_cval (filter (\<lambda>x. x \<noteq> VHash a) vs)"
    using vs(3) by (rule sorted_wrt_filter)
  ultimately show ?thesis using vs(4) by (auto simp: wl_holds_def v seq_elems_def)
qed

lemma wl_Exists_addr_ok:
  assumes "wl_holds (st_value w) A" "length a = 20"
  shows "wl_Exists_addr w a \<longleftrightarrow> a \<in> A"
proof -
  obtain vs where vs: "st_value w = VSeq vs" "list_all (has_type (THash 20)) vs" "set vs = VHash ` A"
    using wl_holdsD [OF assms(1)] by metis
  have "(\<not> less_cval x (VHash a) \<and> \<not> less_cval (VHash a) x) \<longleftrightarrow> x = VHash a" if "x \<in> set vs" for x
    using hash_equiv [of x a] vs(2) that assms(2) by (auto simp: list_all_iff)
  then have "wl_Exists_addr w a \<longleftrightarrow> VHash a \<in> set vs"
    using vs(1) by (auto simp: wl_Exists_addr_def st_self_def seq_elems_def list_ex_iff)
  then show ?thesis using vs(3) by auto
qed

lemma make_address_addr_of:
  "make_address testnet t = Inr (a, ok) \<Longrightarrow> addr_of testnet t = (if ok then Some a else None)"
  by (simp add: addr_of_def)

lemma wl_step_ok:
  assumes "wl_holds (st_value w) A" "wl_call_ok c" "wl_spec testnet A c = (obs, A')"
  shows "\<exists>w'. wl_step testnet w c = Inr (obs, w') \<and> wl_holds (st_value w') A' \<and> st_name w' = st_name w"
proof -
  have ma: "\<exists>a ok. make_address testnet t = Inr (a, ok) \<and> length a = 20 \<and>
      addr_of testnet t = (if ok then Some a else None)" for t
    using make_address_total [of testnet t] make_address_addr_of by blast
  note ops = wl_Add_addr_ok [OF assms(1)] wl_Delete_addr_ok [OF assms(1)] wl_Exists_addr_ok [OF assms(1)]
  have nm: "st_name (wl_Add_addr w a) = st_name w" "st_name (wl_Delete_addr w a) = st_name w" for a
    by (simp_all add: wl_Add_addr_def wl_Delete_addr_def)
  show ?thesis
  proof (cases c)
    case (WAdd t)
    then show ?thesis using ma [of t] assms(1,3) ops nm by (auto simp: wl_Add_def split: if_splits)
  next
    case (WDelete t)
    then show ?thesis using ma [of t] assms(1,3) ops nm by (auto simp: wl_Delete_def split: if_splits)
  next
    case (WExists t)
    then show ?thesis using ma [of t] assms(1,3) ops by (auto simp: wl_Exists_def split: if_splits)
  qed (use assms ops nm in auto)
qed

lemma wl_run_ok:
  assumes "wl_holds (st_value w) A" "list_all wl_call_ok cs" "wl_spec_run testnet A cs = (obs, A')"
  shows "\<exists>w'. wl_run testnet w cs = Inr (obs, w') \<and> wl_holds (st_value w') A' \<and> st_name w' = st_name w"
  using assms
proof (induction cs arbitrary: w A obs)
  case (Cons c cs)
  obtain o1 A1 where o1: "wl_spec testnet A c = (o1, A1)" by (cases "wl_spec testnet A c")
  obtain os where os: "wl_spec_run testnet A1 cs = (os, A')" "obs = o1 @ os"
    using Cons.prems(3) o1 by (auto split: prod.splits)
  obtain w1 where w1: "wl_step testnet w c = Inr (o1, w1)" "wl_holds (st_value w1) A1" "st_name w1 = st_name w"
    using wl_step_ok [OF Cons.prems(1) _ o1] Cons.prems(2) by auto
  obtain w2 where "wl_run testnet w1 cs = Inr (os, w2)" "wl_holds (st_value w2) A'" "st_name w2 = st_name w1"
    using Cons.IH [OF w1(2) _ os(1)] Cons.prems(2) by auto
  then show ?case using w1 os(2) by simp
qed auto

lemma wl_holds_fits:
  assumes "wl_holds v A" "finite A" "card A \<le> 100000000"
  shows "typed (TSet (THash 20)) v"
proof -
  obtain vs where vs: "v = VSeq vs" "list_all (has_type (THash 20)) vs" "sorted_wrt less_cval vs"
    "set vs = VHash ` A" using wl_holdsD [OF assms(1)] .
  have "distinct vs" using vs(3) by (induction vs) (auto simp: less_cval_irrefl)
  moreover have "card (set vs) = card A" unfolding vs(4) by (intro card_image) (simp add: inj_on_def)
  ultimately have n: "length vs = card A" using distinct_card by fastforce
  have "length (enc (item_of x)) = 21" if "x \<in> set vs" for x
    using vs(2) that by (cases x) (auto simp: list_all_iff length_enc_str length_rlp_head)
  then have "length (concat (map enc (map item_of vs))) = 21 * length vs"
    by (induction vs) auto
  then have p: "length (concat (map enc (map item_of vs))) \<le> 2100000000" using n assms(3) by simp
  moreover have "length (enc_list p) \<le> length p + 5" if "length p \<le> 2100000000" for p :: bytes
    using that length_be_bytes_le [of "length p" 4] by (simp add: enc_list_def length_rlp_head)
  ultimately have "length (enc_list (concat (map enc (map item_of vs)))) \<le> 2100000000 + 5" by fastforce
  then show ?thesis
    using assms(1) vs(1) by (simp add: typed_def fits_def item_len_def wl_holds_def del: has_type.simps(11))
qed

lemma wl_spec_card:
  assumes "finite A" "wl_spec_run testnet A cs = (obs, A')"
  shows "finite A' \<and> card A' \<le> card A + length cs"
  using assms
proof (induction cs arbitrary: A obs)
  case (Cons c cs)
  obtain o1 A1 where o1: "wl_spec testnet A c = (o1, A1)" by (cases "wl_spec testnet A c")
  then obtain os where "wl_spec_run testnet A1 cs = (os, A')" using Cons.prems(2) by (auto split: prod.splits)
  moreover have "finite A1 \<and> card A1 \<le> Suc (card A)"
    using o1 Cons.prems(1) card_insert_le_m1 [of "Suc (card A)" A] card_Diff1_le [of A]
    by (cases c) (auto split: option.splits simp: card_insert_if intro: le_SucI)
  ultimately show ?case using Cons.IH [of A1 os] by simp
qed simp

text \<open>
  C26. A whitelist refines a set of addresses: a session of any calls on a whitelist object answers
  \<open>Exists\<close> as the set does, and its destructor leaves exactly the resulting set in the contract
  state, for the next session to start from. Texts that are no addresses change nothing, and no
  other key of the state is touched, nor anything assumed of it.
\<close>

theorem whitelist_refines_set:
  assumes "chain_host_ok H" "cell_holds H (TSet (THash 20)) name s c"
    and "wl_holds (case c of None \<Rightarrow> VSeq [] | Some v \<Rightarrow> v) A"
    and "list_all wl_call_ok cs" "wl_spec_run testnet A cs = (obs, A')"
    and "finite A" "card A + length cs \<le> 100000000"
  shows "\<exists>s' v. wl_session (state_ops (TSet (THash 20)) H) testnet name cs s = Inr (obs, s') \<and>
    cell_holds H (TSet (THash 20)) name s' (Some v) \<and> wl_holds v A' \<and> cell_frame H name s s'"
proof -
  let ?v = "case c of None \<Rightarrow> VSeq [] | Some v \<Rightarrow> v"
  have d: "typed (TSet (THash 20)) (VSeq [])"
    by (simp add: typed_def fits_def item_len_def enc_list_def rlp_head_def)
  then have g: "local_ok (TSet (THash 20)) (VSeq [])" by (simp add: local_ok_def)
  note cell = state_cellI [OF assms(1)]
  let ?w = "\<lparr>st_default = VSeq [], st_name = name, st_value = ?v\<rparr>"
  have init: "st_Init (state_ops (TSet (THash 20)) H) (VSeq []) s name (VSeq []) = Inr ?w"
    by (rule state_cell.variable_Init(1) [OF cell assms(2) g d refl])
  obtain w' where w': "wl_run testnet ?w cs = Inr (obs, w')" "wl_holds (st_value w') A'" "st_name w' = name"
    using wl_run_ok [of ?w A cs testnet obs A'] assms(3-5) by auto
  have "typed (TSet (THash 20)) (st_value w')"
    using wl_holds_fits [OF w'(2)] wl_spec_card [OF assms(6,5)] assms(7) by simp
  then obtain s' where "st_Flush (state_ops (TSet (THash 20)) H) s w' = Inr s'"
    "cell_holds H (TSet (THash 20)) name s' (Some (st_value w'))" "cell_frame H name s s'"
    using state_cell.variable_Flush [OF cell assms(2) w'(3)] by blast
  then show ?thesis using init w' by (auto simp: wl_session_def)
qed

theorem whitelist_refines_set_witness:
  "\<exists>s' v. wl_session (state_ops (TSet (THash 20)) model_chain) False 9
      [WAddAddr (replicate 20 1), WExistsAddr (replicate 20 1), WExistsAddr (replicate 20 2)] (\<lambda>k. [])
      = Inr ([True, False], s') \<and>
    cell_holds model_chain (TSet (THash 20)) 9 s' (Some v) \<and> wl_holds v {replicate 20 1} \<and>
    cell_frame model_chain 9 (\<lambda>k. []) s'"
  by (rule whitelist_refines_set [OF model_chain_ok cell_empty, where A = "{}"])
    (simp_all add: wl_holds_def seq_elems_def replicate_eq_replicate)

end
