(* ===== verification/Linear_Memory.thy ===== *)
theory Linear_Memory
  imports CDT_Prelude
begin

unbundle bit_operations_syntax

text \<open>
  The linear memory of a WebAssembly module, as the two allocators of \<open>platonlib/malloc\<close> see it: its
  size in pages, what the engine allows it to grow to, its bytes, and 32-bit numbers in it.
\<close>

section \<open>Linear memory\<close>

text \<open>
  \<open>hp_pages\<close> is the size of linear memory in pages of 64 KiB, \<open>hp_limit\<close> the size the engine allows.
  \<open>memory.grow\<close> returns the size before, or \<open>-1\<close> when it is refused.
\<close>

record linear =
  hp_pages :: nat
  hp_limit :: nat
  hp_bytes :: "nat \<Rightarrow> byte"

definition memory_grow :: "'a linear_scheme \<Rightarrow> 32 word \<Rightarrow> 32 word \<times> 'a linear_scheme" where
  "memory_grow h n =
     (if hp_pages h + unat n \<le> hp_limit h
      then (word_of_nat (hp_pages h), h\<lparr>hp_pages := hp_pages h + unat n\<rparr>)
      else (- 1, h))"

definition in_memory :: "'a linear_scheme \<Rightarrow> nat \<Rightarrow> nat \<Rightarrow> bool" where
  "in_memory h p n \<longleftrightarrow> p + n \<le> hp_pages h * 65536"

text \<open>A 32-bit number in memory, lowest byte first; copying and filling of ranges.\<close>

definition put_u32 :: "'a linear_scheme \<Rightarrow> 32 word \<Rightarrow> 32 word \<Rightarrow> 'a linear_scheme res" where
  "put_u32 h p v =
     (if in_memory h (unat p) 4
      then Inr (h\<lparr>hp_bytes := (\<lambda>a. if unat p \<le> a \<and> a < unat p + 4
                                   then ucast (drop_bit (8 * (a - unat p)) v) else hp_bytes h a)\<rparr>)
      else Inl Oob)"

definition get_u32 :: "'a linear_scheme \<Rightarrow> 32 word \<Rightarrow> 32 word res" where
  "get_u32 h p =
     (if in_memory h (unat p) 4
      then Inr (word_of_nat (unat (hp_bytes h (unat p)) + 2 ^ 8 * unat (hp_bytes h (unat p + 1)) +
                 2 ^ 16 * unat (hp_bytes h (unat p + 2)) + 2 ^ 24 * unat (hp_bytes h (unat p + 3))))
      else Inl Oob)"

definition mem_fill :: "'a linear_scheme \<Rightarrow> 32 word \<Rightarrow> byte \<Rightarrow> nat \<Rightarrow> 'a linear_scheme res" where
  "mem_fill h p v n =
     (if in_memory h (unat p) n
      then Inr (h\<lparr>hp_bytes := (\<lambda>a. if unat p \<le> a \<and> a < unat p + n then v else hp_bytes h a)\<rparr>)
      else Inl Oob)"

definition mem_copy :: "'a linear_scheme \<Rightarrow> 32 word \<Rightarrow> 32 word \<Rightarrow> nat \<Rightarrow> 'a linear_scheme res" where
  "mem_copy h dst src n =
     (if in_memory h (unat dst) n \<and> in_memory h (unat src) n
      then Inr (h\<lparr>hp_bytes := (\<lambda>a. if unat dst \<le> a \<and> a < unat dst + n
                                   then hp_bytes h (a - unat dst + unat src) else hp_bytes h a)\<rparr>)
      else Inl Oob)"

section \<open>Numbers in memory\<close>

lemma four_bytes:
  fixes v :: nat
  assumes "v < 2 ^ 32"
  shows "v mod 256 + 2 ^ 8 * (v div 2 ^ 8 mod 256) + 2 ^ 16 * (v div 2 ^ 16 mod 256) +
           2 ^ 24 * (v div 2 ^ 24) = v"
proof -
  define a b c where "a = v div 256" and "b = a div 256" and "c = b div 256"
  have "v div 2 ^ 8 = a" "v div 2 ^ 16 = b" "v div 2 ^ 24 = c"
    by (simp_all add: a_def b_def c_def div_mult2_eq [symmetric])
  moreover have "c < 256"
    using assms by (simp add: a_def b_def c_def div_mult2_eq [symmetric] div_less_iff_less_mult)
  moreover have "v mod 256 + 256 * a = v" "a mod 256 + 256 * b = a" "b mod 256 + 256 * c = b"
    by (simp_all add: a_def b_def c_def)
  ultimately show ?thesis by simp
qed

lemma unat_byte_at: "unat (ucast (drop_bit k (v :: 32 word)) :: byte) = unat v div 2 ^ k mod 256"
  unfolding unsigned_ucast_eq unat_drop_bit_eq unfolding drop_bit_eq_div take_bit_eq_mod by simp

lemma get_put_u32:
  assumes "put_u32 h p v = Inr h'"
  shows "get_u32 h' p = Inr v"
proof -
  have "unat v < 2 ^ 32" using unat_bound [of v] by simp
  note four = four_bytes [OF this]
  have top: "unat v div 2 ^ 24 mod 256 = unat v div 2 ^ 24"
    using \<open>unat v < 2 ^ 32\<close> by (simp add: div_less_iff_less_mult)
  define byte where "byte i = (ucast (drop_bit (8 * i) v) :: byte)" for i
  have val: "unat (byte 0) + 2 ^ 8 * unat (byte 1) + 2 ^ 16 * unat (byte 2) + 2 ^ 24 * unat (byte 3) = unat v"
    using four top unfolding byte_def unat_byte_at by (simp del: mod_less)
  from assms have "in_memory h' (unat p) 4" "hp_bytes h' (unat p) = byte 0" "hp_bytes h' (unat p + 1) = byte 1"
    "hp_bytes h' (unat p + 2) = byte 2" "hp_bytes h' (unat p + 3) = byte 3"
    by (auto simp: put_u32_def in_memory_def byte_def split: if_splits)
  then show ?thesis unfolding get_u32_def by (simp only: val) simp
qed

lemma get_u32_frame:
  assumes "get_u32 h p = Inr v" "hp_pages h \<le> hp_pages h'"
    and "\<And>a. unat p \<le> a \<Longrightarrow> a < unat p + 4 \<Longrightarrow> hp_bytes h' a = hp_bytes h a"
  shows "get_u32 h' p = Inr v"
proof -
  have "hp_pages h * 65536 \<le> hp_pages h' * 65536" using assms(2) by simp
  with assms(1) show ?thesis
    by (auto simp: get_u32_def in_memory_def assms(3) split: if_splits)
qed

section \<open>Blocks\<close>

text \<open>Blocks are pairs of address and size; their bytes, and what leaves these bytes alone.\<close>

definition taken_bytes :: "(nat \<times> nat) set \<Rightarrow> nat set" where
  "taken_bytes L = (\<Union>(q, s) \<in> L. {q..<q + s})"

lemma taken_bytes_simps [simp]: "taken_bytes {} = {}" "taken_bytes (insert (q, s) L) = {q..<q + s} \<union> taken_bytes L"
  "taken_bytes (L \<union> K) = taken_bytes L \<union> taken_bytes K"
  by (auto simp: taken_bytes_def)

lemma taken_bytes_iff: "a \<in> taken_bytes L \<longleftrightarrow> (\<exists>q s. (q, s) \<in> L \<and> q \<le> a \<and> a < q + s)"
  unfolding taken_bytes_def by force

definition preserves :: "(nat \<times> nat) set \<Rightarrow> 'a linear_scheme \<Rightarrow> 'b linear_scheme \<Rightarrow> bool" where
  "preserves L h h' \<longleftrightarrow> (\<forall>a \<in> taken_bytes L. hp_bytes h' a = hp_bytes h a)"

lemma preserves_trans: "preserves L h h1 \<Longrightarrow> preserves L h1 h2 \<Longrightarrow> preserves L h h2"
  by (simp add: preserves_def)

end
