(* ===== verification/Simple_Malloc.thy ===== *)
theory Simple_Malloc
  imports Linear_Memory
begin

unbundle bit_operations_syntax

text \<open>
  Model of \<open>platonlib/malloc/simple_malloc.cpp\<close>: the bump allocator every contract is linked with.
  Blocks are cut from the end of the heap, each behind a header of eight bytes that holds its
  size, and WebAssembly memory is grown page by page. The lemmas show, over every sequence of
  calls and of writes by the client, that live blocks are aligned, inside memory and disjoint,
  and that allocation never touches them; and what happens when memory cannot grow.
\<close>

section \<open>The allocator\<close>

record dsheap = linear +
  hp_heap :: "32 word"
  hp_last_ptr :: "32 word"
  hp_next_page :: "32 word"

definition align :: "32 word \<Rightarrow> 8 word \<Rightarrow> 32 word" where
  "align p align_amt = (p + ucast align_amt - 1) AND NOT (ucast align_amt - 1)"

definition dsmalloc_ctor :: "32 word \<Rightarrow> nat \<Rightarrow> nat \<Rightarrow> (nat \<Rightarrow> byte) \<Rightarrow> dsheap" where
  "dsmalloc_ctor heap_base pages limit bytes =
     (let heap = align heap_base 8 in
      \<lparr>hp_pages = pages, hp_limit = limit, hp_bytes = bytes,
       hp_heap = heap, hp_last_ptr = heap, hp_next_page = word_of_nat pages\<rparr>)"

definition dsmalloc :: "dsheap \<Rightarrow> 32 word \<Rightarrow> 8 word \<Rightarrow> (32 word \<times> dsheap) res" where
  "dsmalloc h sz align_amt =
     (if sz = 0 then Inr (0, h)
      else
        let align_size = align 4 align_amt;
            real_size = sz + align_size;
            ret = hp_last_ptr h;
            last_ptr = align (hp_last_ptr h + real_size) align_amt;
            pages_to_alloc = drop_bit 16 real_size;
            next_page = hp_next_page h + pages_to_alloc;
            more = push_bit 16 next_page \<le> last_ptr;
            next_page' = (if more then next_page + 1 else next_page);
            pages_to_alloc' = (if more then pages_to_alloc + 1 else pages_to_alloc);
            h1 = h\<lparr>hp_last_ptr := last_ptr, hp_next_page := next_page'\<rparr>;
            (alloc_result, h2) = (if pages_to_alloc' > 0 then memory_grow h1 pages_to_alloc' else (1, h1)) in
        if pages_to_alloc' > 0 \<and> alloc_result = 0 then Inl (Throw ''failed to allocate pages'')
        else bind_res (put_u32 h2 ret sz) (\<lambda>h3. Inr (ret + align_size, h3)))"

definition malloc :: "dsheap \<Rightarrow> 32 word \<Rightarrow> (32 word \<times> dsheap) res" where
  "malloc h sz = dsmalloc h sz 8"

definition calloc :: "dsheap \<Rightarrow> 32 word \<Rightarrow> 32 word \<Rightarrow> (32 word \<times> dsheap) res" where
  "calloc h cnt sz =
     bind_res (dsmalloc h (cnt * sz) 8) (\<lambda>(p, h1).
       if p \<noteq> 0 then bind_res (mem_fill h1 p 0 (unat (cnt * sz))) (\<lambda>h2. Inr (p, h2))
       else Inr (0, h1))"

definition realloc :: "dsheap \<Rightarrow> 32 word \<Rightarrow> 32 word \<Rightarrow> (32 word \<times> dsheap) res" where
  "realloc h p sz =
     (if sz = 0 \<or> p = 0 then Inr (0, h)
      else bind_res (get_u32 h (p - 8)) (\<lambda>copy_size.
        if sz \<le> copy_size then Inr (p, h)
        else bind_res (dsmalloc h sz 8) (\<lambda>(new_alloc, h1).
             bind_res (mem_copy h1 new_alloc p (unat copy_size)) (\<lambda>h2. Inr (new_alloc, h2)))))"

definition free :: "dsheap \<Rightarrow> 32 word \<Rightarrow> dsheap" where
  "free h p = h"

section \<open>Alignment\<close>

lemma unat_mult_div_8: "unat (x div 8 * 8 :: 32 word) = unat x div 8 * 8"
proof -
  have "unat x div 8 * 8 \<le> unat x" by simp
  also have "\<dots> < 2 ^ 32" using unat_bound [of x] by simp
  finally show ?thesis by (simp add: unat_word_ariths unat_div)
qed

lemma and_minus_8: "x AND - 8 = (x div 8 * 8 :: 32 word)"
proof -
  have "x AND NOT (mask 3) = push_bit 3 (drop_bit 3 x)"
    by (rule bit_word_eqI) (auto simp: bit_simps)
  then show ?thesis by (simp add: mask_eq_exp_minus_1 push_bit_eq_mult drop_bit_eq_div)
qed

lemma align_4: "align 4 8 = 8"
  by (simp add: align_def)

lemma unat_align:
  assumes "unat p + 7 < 2 ^ 32"
  shows "unat (align p 8) = (unat p + 7) div 8 * 8"
proof -
  have "unat (7 + p) = unat p + 7" using assms by (simp add: unat_word_ariths)
  then show ?thesis by (simp add: align_def and_minus_8 unat_mult_div_8)
qed

lemma unat_align_bounds:
  assumes "unat p + 7 < 2 ^ 32"
  shows "unat p \<le> unat (align p 8)" "unat (align p 8) \<le> unat p + 7" "8 dvd unat (align p 8)"
  unfolding unat_align [OF assms] by simp_all

section \<open>One allocation\<close>

text \<open>
  The invariant of the allocator: it counts the pages as the engine does, and the end of the heap
  is aligned and inside memory. \<open>room\<close> says that the engine grants the pages an allocation
  asks for.
\<close>

definition heap_inv :: "dsheap \<Rightarrow> bool" where
  "heap_inv h \<longleftrightarrow> 0 < hp_pages h \<and> hp_limit h < 65536 \<and> hp_pages h \<le> hp_limit h \<and> hp_next_page h = word_of_nat (hp_pages h) \<and>
     8 dvd unat (hp_last_ptr h) \<and> unat (hp_last_ptr h) \<le> hp_pages h * 65536"

definition room :: "dsheap \<Rightarrow> 32 word \<Rightarrow> bool" where
  "room h sz \<longleftrightarrow> hp_pages h + (unat sz + 8) div 65536 < hp_limit h"

definition rounded :: "32 word \<Rightarrow> nat" where
  "rounded sz = (unat sz + 15) div 8 * 8"

lemma rounded_bounds: "unat sz + 8 \<le> rounded sz" "8 dvd rounded sz"
  unfolding rounded_def by simp_all

lemma rounded_pages: "rounded sz \<le> ((unat sz + 8) div 65536 + 1) * 65536"
proof -
  define q where "q = (unat sz + 8) div 65536"
  have "unat sz + 8 < q * 65536 + 65536" by (simp add: q_def dividend_less_times_div)
  then have "unat sz + 15 < ((q + 1) * 8192 + 1) * 8" by simp
  then have "(unat sz + 15) div 8 < (q + 1) * 8192 + 1" by (simp add: div_less_iff_less_mult)
  then show ?thesis by (simp add: rounded_def flip: q_def)
qed

lemma heap_inv_ctor:
  assumes "unat heap_base + 7 < 2 ^ 32" "unat (align heap_base 8) \<le> pages * 65536"
    and "0 < pages" "pages \<le> limit" "limit < 65536"
  shows "heap_inv (dsmalloc_ctor heap_base pages limit bytes)"
  using assms unat_align_bounds(3) [OF assms(1)] by (simp add: heap_inv_def dsmalloc_ctor_def Let_def)

text \<open>The machine arithmetic of one allocation, with nothing wrapping around.\<close>

lemma alloc_arith:
  fixes h :: dsheap
  assumes inv: "heap_inv h" and room: "room h sz"
  defines "k \<equiv> (unat sz + 8) div 65536"
  shows "unat (sz + 8) = unat sz + 8"
    and "unat (align (hp_last_ptr h + (sz + 8)) 8) = unat (hp_last_ptr h) + rounded sz"
    and "drop_bit 16 (sz + 8) = word_of_nat k"
    and "unat (push_bit 16 (word_of_nat (hp_pages h + k) :: 32 word)) = (hp_pages h + k) * 65536"
    and "unat (hp_last_ptr h + 8) = unat (hp_last_ptr h) + 8"
    and "k + 1 < 65536"
proof -
  let ?L = "unat (hp_last_ptr h)"
  have k: "hp_pages h + k + 1 \<le> 65535" and L: "?L \<le> hp_pages h * 65536" "8 dvd ?L"
    using inv room by (simp_all add: heap_inv_def room_def k_def)
  have sz: "unat sz + 8 < (k + 1) * 65536" unfolding k_def by (simp add: dividend_less_times_div)
  show real: "unat (sz + 8) = unat sz + 8" using sz k by (simp add: unat_word_ariths)
  have "(hp_pages h + k + 1) * 65536 \<le> 65535 * 65536" using k by (intro mult_le_mono1)
  then have bound: "?L + unat sz + 8 < 65535 * 65536" using sz L(1) by (simp add: algebra_simps)
  then have sum: "unat (hp_last_ptr h + (sz + 8)) = ?L + unat sz + 8"
    unfolding unat_word_ariths real by simp
  have "(?L + unat sz + 8 + 7) div 8 * 8 = ?L + rounded sz"
  proof -
    from L(2) obtain m where "?L + unat sz + 8 + 7 = (unat sz + 15) + m * 8" "?L = m * 8" by (auto elim!: dvdE)
    then show ?thesis by (simp only: rounded_def div_mult_self1) simp
  qed
  then show "unat (align (hp_last_ptr h + (sz + 8)) 8) = ?L + rounded sz"
    using bound by (subst unat_align) (simp_all add: sum)
  show "drop_bit 16 (sz + 8) = word_of_nat k"
  proof (rule word_unat_eq_iff [THEN iffD2])
    have "unat (drop_bit 16 (sz + 8)) = k"
      unfolding unat_drop_bit_eq real k_def unfolding drop_bit_eq_div by simp
    then show "unat (drop_bit 16 (sz + 8)) = unat (word_of_nat k :: 32 word)"
      using k by (simp add: unat_of_nat)
  qed
  show "unat (push_bit 16 (word_of_nat (hp_pages h + k) :: 32 word)) = (hp_pages h + k) * 65536"
    using k by (simp add: push_bit_eq_mult unat_word_ariths unat_of_nat)
  show "unat (hp_last_ptr h + 8) = ?L + 8" using bound by (simp add: unat_word_ariths)
  show "k + 1 < 65536" using k by simp
qed

text \<open>
  The pages an allocation asks for, and that they suffice: the end of the heap after it is still
  inside memory.
\<close>

definition grown :: "dsheap \<Rightarrow> 32 word \<Rightarrow> nat" where
  "grown h sz =
     (let k = (unat sz + 8) div 65536 in
      if (hp_pages h + k) * 65536 \<le> unat (hp_last_ptr h) + rounded sz then k + 1 else k)"

lemma grown_bounds:
  assumes "heap_inv h" "room h sz"
  shows "hp_pages h + grown h sz \<le> hp_limit h" "grown h sz < 65536"
    "unat (hp_last_ptr h) + rounded sz \<le> (hp_pages h + grown h sz) * 65536"
proof -
  show "hp_pages h + grown h sz \<le> hp_limit h" "grown h sz < 65536"
    using assms by (simp_all add: grown_def room_def heap_inv_def Let_def)
  show "unat (hp_last_ptr h) + rounded sz \<le> (hp_pages h + grown h sz) * 65536"
    using assms(1) rounded_pages [of sz] by (auto simp: grown_def heap_inv_def Let_def)
qed

lemma malloc_step_eq:
  fixes h :: dsheap
  assumes inv: "heap_inv h" and room: "room h sz" and "sz \<noteq> 0"
  shows "malloc h sz =
    bind_res (put_u32 (h\<lparr>hp_last_ptr := align (hp_last_ptr h + (sz + 8)) 8,
                         hp_next_page := word_of_nat (hp_pages h + grown h sz),
                         hp_pages := hp_pages h + grown h sz\<rparr>) (hp_last_ptr h) sz)
      (\<lambda>h'. Inr (hp_last_ptr h + 8, h'))"
proof -
  note ar = alloc_arith [OF inv room]
  let ?k = "(unat sz + 8) div 65536"
  have P: "hp_next_page h = word_of_nat (hp_pages h)" "0 < hp_pages h" "hp_pages h < 65536"
    using inv by (simp_all add: heap_inv_def)
  have P0: "(word_of_nat (hp_pages h) :: 32 word) \<noteq> 0"
    using P(2,3) by (simp add: word_unat_eq_iff unat_of_nat)
  have more: "push_bit 16 (word_of_nat (hp_pages h) + word_of_nat ?k) \<le> align (hp_last_ptr h + (sz + 8)) 8
      \<longleftrightarrow> (hp_pages h + ?k) * 65536 \<le> unat (hp_last_ptr h) + rounded sz"
    unfolding word_le_nat_alt ar(2) of_nat_add [symmetric] ar(4) ..
  define c where "c \<longleftrightarrow> (hp_pages h + ?k) * 65536 \<le> unat (hp_last_ptr h) + rounded sz"
  have g: "grown h sz = (if c then ?k + 1 else ?k)" by (simp add: grown_def c_def Let_def)
  have np: "(if c then word_of_nat (hp_pages h) + word_of_nat ?k + 1 else word_of_nat (hp_pages h) + word_of_nat ?k)
      = (word_of_nat (hp_pages h + grown h sz) :: 32 word)"
    by (simp add: g)
  have al: "(if c then word_of_nat ?k + 1 else word_of_nat ?k) = (word_of_nat (grown h sz) :: 32 word)"
    by (simp add: g)
  have un: "unat (word_of_nat (grown h sz) :: 32 word) = grown h sz"
    using grown_bounds(2) [OF inv room] by (simp add: unat_of_nat)
  have grow: "\<And>h1. hp_pages h1 = hp_pages h \<Longrightarrow> hp_limit h1 = hp_limit h \<Longrightarrow>
     (if (word_of_nat (grown h sz) :: 32 word) > 0 then memory_grow h1 (word_of_nat (grown h sz)) else (1, h1)) =
     (if (word_of_nat (grown h sz) :: 32 word) > 0 then word_of_nat (hp_pages h) else 1,
      h1\<lparr>hp_pages := hp_pages h + grown h sz\<rparr>)"
    using grown_bounds(1) [OF inv room]
    by (auto simp: memory_grow_def un word_less_nat_alt simp flip: word_neq_0_conv)
  show ?thesis
    unfolding malloc_def dsmalloc_def Let_def align_4 ar(3) P(1) more c_def [symmetric] np al
    using assms(3) P0 by (simp add: grow)
qed

lemma malloc_spec:
  assumes inv: "heap_inv h" and room: "room h sz" and "sz \<noteq> 0"
  obtains h' where "malloc h sz = Inr (hp_last_ptr h + 8, h')" "heap_inv h'"
    "unat (hp_last_ptr h + 8) = unat (hp_last_ptr h) + 8"
    "unat (hp_last_ptr h') = unat (hp_last_ptr h) + rounded sz"
    "hp_heap h' = hp_heap h" "hp_pages h \<le> hp_pages h'" "hp_limit h' = hp_limit h"
    "get_u32 h' (hp_last_ptr h) = Inr sz" "hp_pages h' \<le> hp_pages h + (unat sz + 8) div 65536 + 1"
    "\<And>a. a < unat (hp_last_ptr h) \<or> unat (hp_last_ptr h) + 8 \<le> a \<Longrightarrow> hp_bytes h' a = hp_bytes h a"
proof -
  let ?h = "h\<lparr>hp_last_ptr := align (hp_last_ptr h + (sz + 8)) 8,
      hp_next_page := word_of_nat (hp_pages h + grown h sz), hp_pages := hp_pages h + grown h sz\<rparr>"
  note g = grown_bounds [OF inv room] and ar = alloc_arith [OF inv room]
  have "in_memory ?h (unat (hp_last_ptr h)) 4"
    using g(3) rounded_bounds(1) [of sz] by (simp add: in_memory_def)
  moreover define h' where "h' = ?h\<lparr>hp_bytes := (\<lambda>a. if unat (hp_last_ptr h) \<le> a \<and> a < unat (hp_last_ptr h) + 4
        then ucast (drop_bit (8 * (a - unat (hp_last_ptr h))) sz) else hp_bytes ?h a)\<rparr>"
  ultimately have put: "put_u32 ?h (hp_last_ptr h) sz = Inr h'"
    unfolding put_u32_def h'_def by (simp only: if_True)
  have fields: "hp_heap h' = hp_heap h" "hp_limit h' = hp_limit h" "hp_pages h' = hp_pages h + grown h sz"
      "hp_last_ptr h' = hp_last_ptr ?h" "hp_next_page h' = hp_next_page ?h"
    and bytes: "hp_bytes h' = (\<lambda>a. if unat (hp_last_ptr h) \<le> a \<and> a < unat (hp_last_ptr h) + 4
        then ucast (drop_bit (8 * (a - unat (hp_last_ptr h))) sz) else hp_bytes h a)"
    by (simp_all add: h'_def cong: if_cong)
  show thesis
  proof (rule that)
    show "malloc h sz = Inr (hp_last_ptr h + 8, h')" by (simp only: malloc_step_eq [OF assms] put bind_res_Inr)
    show last: "unat (hp_last_ptr h') = unat (hp_last_ptr h) + rounded sz" by (simp add: fields ar(2))
    show "heap_inv h'"
      using inv g rounded_bounds(2) [of sz] unfolding heap_inv_def last by (simp add: fields ar(2))
    show "hp_pages h' \<le> hp_pages h + (unat sz + 8) div 65536 + 1" by (simp add: fields grown_def Let_def)
  qed (auto simp: fields ar(5) get_put_u32 [OF put] bytes)
qed

section \<open>Runs of the program\<close>

text \<open>
  A state is the heap together with the blocks the client owns. Beside the calls of the interface
  the client may write any byte of a block it owns.
\<close>

type_synonym block = "32 word \<times> 32 word"

inductive alloc_step :: "dsheap \<times> block list \<Rightarrow> dsheap \<times> block list \<Rightarrow> bool" where
  step_malloc: "sz \<noteq> 0 \<Longrightarrow> room h sz \<Longrightarrow> malloc h sz = Inr (p, h') \<Longrightarrow> alloc_step (h, bs) (h', (p, sz) # bs)"
| step_calloc: "cnt * sz \<noteq> 0 \<Longrightarrow> room h (cnt * sz) \<Longrightarrow> calloc h cnt sz = Inr (p, h') \<Longrightarrow>
    alloc_step (h, bs) (h', (p, cnt * sz) # bs)"
| step_realloc: "(p, n) \<in> set bs \<Longrightarrow> sz \<noteq> 0 \<Longrightarrow> room h sz \<Longrightarrow> realloc h p sz = Inr (q, h') \<Longrightarrow>
    alloc_step (h, bs) (h', if q = p then bs else (q, sz) # filter (\<lambda>b. b \<noteq> (p, n)) bs)"
| step_free: "(p, n) \<in> set bs \<Longrightarrow> free h p = h' \<Longrightarrow> alloc_step (h, bs) (h', filter (\<lambda>b. b \<noteq> (p, n)) bs)"
| step_write: "(p, n) \<in> set bs \<Longrightarrow> i < unat n \<Longrightarrow>
    alloc_step (h, bs) (h\<lparr>hp_bytes := (hp_bytes h)(unat p + i := v)\<rparr>, bs)"

inductive alloc_reach :: "dsheap \<Rightarrow> dsheap \<times> block list \<Rightarrow> bool" for h0 where
  reach_start: "alloc_reach h0 (h0, [])"
| reach_step: "alloc_reach h0 s \<Longrightarrow> alloc_step s s' \<Longrightarrow> alloc_reach h0 s'"

inductive_cases alloc_stepE: "alloc_step (h, bs) s'"

text \<open>A block with its header occupies the addresses from eight below its pointer to its end.\<close>

definition block_ok :: "dsheap \<Rightarrow> block \<Rightarrow> bool" where
  "block_ok h b \<longleftrightarrow> (case b of (p, n) \<Rightarrow>
     8 dvd unat p \<and> unat (hp_heap h) + 8 \<le> unat p \<and> unat p + unat n \<le> unat (hp_last_ptr h) \<and>
     get_u32 h (p - 8) = Inr n)"

definition apart :: "block \<Rightarrow> block \<Rightarrow> bool" where
  "apart b c \<longleftrightarrow> unat (fst b) + unat (snd b) + 8 \<le> unat (fst c) \<or> unat (fst c) + unat (snd c) + 8 \<le> unat (fst b)"

definition blocks_ok :: "dsheap \<times> block list \<Rightarrow> bool" where
  "blocks_ok s \<longleftrightarrow> heap_inv (fst s) \<and> unat (hp_heap (fst s)) \<le> unat (hp_last_ptr (fst s)) \<and>
     (\<forall>b\<in>set (snd s). block_ok (fst s) b) \<and> sorted_wrt apart (snd s)"

lemma unat_minus_8: "8 \<le> unat p \<Longrightarrow> unat (p - 8 :: 32 word) = unat p - 8"
  by (simp add: unat_sub word_le_nat_alt)

lemma block_ok_frame:
  assumes "block_ok h (p, n)" "hp_heap h' = hp_heap h" "unat (hp_last_ptr h) \<le> unat (hp_last_ptr h')"
    and "hp_pages h \<le> hp_pages h'"
    and "\<And>a. unat p - 8 \<le> a \<Longrightarrow> a < unat p - 4 \<Longrightarrow> hp_bytes h' a = hp_bytes h a"
  shows "block_ok h' (p, n)"
proof -
  from assms(1) have p: "8 \<le> unat p" "get_u32 h (p - 8) = Inr n" by (auto simp: block_ok_def)
  have "get_u32 h' (p - 8) = Inr n"
    using p(1) by (intro get_u32_frame [OF p(2) assms(4)] assms(5)) (simp_all add: unat_minus_8)
  with assms(1-3) show ?thesis by (auto simp: block_ok_def)
qed

lemma apart_sym: "apart b c = apart c b"
  by (auto simp: apart_def)

lemma sorted_wrt_apart:
  assumes "sorted_wrt apart bs" "b \<in> set bs" "c \<in> set bs" "b \<noteq> c"
  shows "apart b c"
  using assms by (induction bs) (auto simp: apart_sym)

text \<open>A fresh block keeps every block there was.\<close>

lemma blocks_ok_malloc:
  assumes ok: "blocks_ok (h, bs)" and "sz \<noteq> 0" "room h sz" "malloc h sz = Inr (p, h')"
  shows "blocks_ok (h', (p, sz) # bs)" "p = hp_last_ptr h + 8"
    "\<And>a. a < unat (hp_last_ptr h) \<or> unat (hp_last_ptr h) + 8 \<le> a \<Longrightarrow> hp_bytes h' a = hp_bytes h a"
    "unat p + unat sz \<le> hp_pages h' * 65536" "unat p = unat (hp_last_ptr h) + 8" "hp_pages h \<le> hp_pages h'"
proof -
  from ok have inv: "heap_inv h" and hl: "unat (hp_heap h) \<le> unat (hp_last_ptr h)"
    and bs: "\<And>b. b \<in> set bs \<Longrightarrow> block_ok h b" "sorted_wrt apart bs" by (auto simp: blocks_ok_def)
  obtain h'' where m: "malloc h sz = Inr (hp_last_ptr h + 8, h'')" "heap_inv h''"
    "unat (hp_last_ptr h + 8) = unat (hp_last_ptr h) + 8"
    "unat (hp_last_ptr h'') = unat (hp_last_ptr h) + rounded sz"
    "hp_heap h'' = hp_heap h" "hp_pages h \<le> hp_pages h''"
    "get_u32 h'' (hp_last_ptr h) = Inr sz"
    "\<And>a. a < unat (hp_last_ptr h) \<or> unat (hp_last_ptr h) + 8 \<le> a \<Longrightarrow> hp_bytes h'' a = hp_bytes h a"
    by (rule malloc_spec [OF inv assms(3,2)]) blast
  from m(1) assms(4) have e: "h'' = h'" "p = hp_last_ptr h + 8" by simp_all
  note m = m [unfolded e(1)] and r = rounded_bounds [of sz]
  show "p = hp_last_ptr h + 8" by fact
  show p: "unat p = unat (hp_last_ptr h) + 8" using m(3) by (simp add: e(2))
  show "\<And>a. a < unat (hp_last_ptr h) \<or> unat (hp_last_ptr h) + 8 \<le> a \<Longrightarrow> hp_bytes h' a = hp_bytes h a"
    by (rule m(8))
  show "hp_pages h \<le> hp_pages h'" by fact
  show "unat p + unat sz \<le> hp_pages h' * 65536"
    using m(2,4) r(1) p by (simp add: heap_inv_def)
  have new: "block_ok h' (p, sz)"
    using inv hl r m(4,5,7) by (simp add: block_ok_def p heap_inv_def) (simp add: e(2))
  have old: "block_ok h' (q, n) \<and> apart (p, sz) (q, n)" if "(q, n) \<in> set bs" for q n
  proof
    from bs(1) [OF that] have b: "unat (hp_heap h) + 8 \<le> unat q" "unat q + unat n \<le> unat (hp_last_ptr h)"
      by (auto simp: block_ok_def)
    show "apart (p, sz) (q, n)" using b by (simp add: apart_def p)
    show "block_ok h' (q, n)"
      using b by (intro block_ok_frame [OF bs(1) [OF that]] m(8) disjI1) (simp_all add: m)
  qed
  show "blocks_ok (h', (p, sz) # bs)"
    using m(2,4,5) hl new old bs(2) by (auto simp: blocks_ok_def)
qed

lemma blocks_ok_write:
  assumes ok: "blocks_ok (h, bs)" and mem: "(p, n) \<in> set bs"
    and f: "\<And>a. a < unat p \<or> unat p + unat n \<le> a \<Longrightarrow> f a = hp_bytes h a"
  shows "blocks_ok (h\<lparr>hp_bytes := f\<rparr>, bs)"
proof -
  have "block_ok (h\<lparr>hp_bytes := f\<rparr>) (q, m)" if q: "(q, m) \<in> set bs" for q m
  proof -
    from ok q have b: "block_ok h (q, m)" by (auto simp: blocks_ok_def)
    have "apart (p, n) (q, m) \<or> (p, n) = (q, m)"
      using sorted_wrt_apart [of bs] ok mem q by (auto simp: blocks_ok_def)
    then have hd: "a < unat p \<or> unat p + unat n \<le> a" if "unat q - 8 \<le> a" "a < unat q - 4" for a
      using that by (auto simp: apart_def)
    show ?thesis using hd by (intro block_ok_frame [OF b]) (simp_all add: f)
  qed
  with ok show ?thesis by (auto simp: blocks_ok_def heap_inv_def)
qed

lemma blocks_ok_filter:
  assumes "blocks_ok (h, b # bs)"
  shows "blocks_ok (h, b # filter P bs)"
  using assms by (auto simp: blocks_ok_def sorted_wrt_filter)

lemma blocks_ok_drop: "blocks_ok (h, bs) \<Longrightarrow> blocks_ok (h, filter P bs)"
  by (auto simp: blocks_ok_def sorted_wrt_filter)

lemma blocks_ok_calloc:
  assumes ok: "blocks_ok (h, bs)" and "cnt * sz \<noteq> 0" "room h (cnt * sz)" "calloc h cnt sz = Inr (p, h')"
  shows "blocks_ok (h', (p, cnt * sz) # bs)"
proof -
  from assms(4) obtain q h1 where m: "malloc h (cnt * sz) = Inr (q, h1)"
    by (auto simp: calloc_def malloc_def bind_res_eq_Inr)
  note b = blocks_ok_malloc [OF ok assms(2,3) m]
  have "q \<noteq> 0" using b(5) by (metis add_is_0 unat_0 zero_neq_numeral)
  then have e: "p = q" "h' = h1\<lparr>hp_bytes := (\<lambda>a. if unat q \<le> a \<and> a < unat q + unat (cnt * sz) then 0
      else hp_bytes h1 a)\<rparr>"
    using assms(4) m by (auto simp: calloc_def malloc_def mem_fill_def split: if_splits)
  show ?thesis unfolding e by (rule blocks_ok_write [OF b(1)]) auto
qed

text \<open>
  Growing a block copies it into a fresh one. The block there was, and every other block, keeps
  its contents.
\<close>

lemma realloc_grows:
  assumes ok: "blocks_ok (h, bs)" and mem: "(p, n) \<in> set bs" and "room h sz" "n < sz"
  obtains q h' where "realloc h p sz = Inr (q, h')" "blocks_ok (h', (q, sz) # bs)" "q \<noteq> p"
    "unat q = unat (hp_last_ptr h) + 8"
    "\<And>i. i < unat n \<Longrightarrow> hp_bytes h' (unat q + i) = hp_bytes h (unat p + i)"
    "\<And>a. a < unat (hp_last_ptr h) \<Longrightarrow> hp_bytes h' a = hp_bytes h a"
    "unat q + unat sz \<le> hp_pages h' * 65536"
proof -
  from ok mem have b: "block_ok h (p, n)" and inv: "heap_inv h" by (auto simp: blocks_ok_def)
  then have p: "p \<noteq> 0" "unat p + unat n \<le> unat (hp_last_ptr h)" "get_u32 h (p - 8) = Inr n" "8 \<le> unat p"
    by (auto simp: block_ok_def)
  from \<open>n < sz\<close> have sz: "sz \<noteq> 0" "unat n < unat sz" by (auto simp: word_less_nat_alt)
  obtain q h1 where m: "malloc h sz = Inr (q, h1)" by (rule malloc_spec [OF inv assms(3) sz(1)]) auto
  note f = blocks_ok_malloc [OF ok sz(1) assms(3) m]
  define g where "g a = (if unat q \<le> a \<and> a < unat q + unat n then hp_bytes h1 (a - unat q + unat p)
      else hp_bytes h1 a)" for a
  have "hp_pages h * 65536 \<le> hp_pages h1 * 65536" using f(6) by simp
  then have "unat p + unat n \<le> hp_pages h1 * 65536"
    using p(2) inv unfolding heap_inv_def by linarith
  with f(4) sz(2) have copy: "mem_copy h1 q p (unat n) = Inr (h1\<lparr>hp_bytes := g\<rparr>)"
    by (simp add: mem_copy_def in_memory_def g_def [abs_def])
  show thesis
  proof (rule that)
    show "realloc h p sz = Inr (q, h1\<lparr>hp_bytes := g\<rparr>)"
      using m p sz \<open>n < sz\<close> copy by (simp add: realloc_def malloc_def not_le [symmetric])
    show "blocks_ok (h1\<lparr>hp_bytes := g\<rparr>, (q, sz) # bs)"
      using sz(2) by (intro blocks_ok_write [OF f(1), of q sz]) (auto simp: g_def)
    show "q \<noteq> p" using p(2) f(5) by auto
    show "unat q = unat (hp_last_ptr h) + 8" by (rule f(5))
    show "hp_bytes (h1\<lparr>hp_bytes := g\<rparr>) (unat q + i) = hp_bytes h (unat p + i)" if "i < unat n" for i
      using that p(2) f(3) [of "unat p + i"] by (simp add: g_def add.commute)
    show "hp_bytes (h1\<lparr>hp_bytes := g\<rparr>) a = hp_bytes h a" if "a < unat (hp_last_ptr h)" for a
      using that f(3,5) by (simp add: g_def)
    show "unat q + unat sz \<le> hp_pages (h1\<lparr>hp_bytes := g\<rparr>) * 65536" using f(4) by simp
  qed
qed

lemma realloc_stays:
  assumes ok: "blocks_ok (h, bs)" and mem: "(p, n) \<in> set bs" and "sz \<noteq> 0" "sz \<le> n"
  shows "realloc h p sz = Inr (p, h)"
proof -
  from ok mem have "block_ok h (p, n)" by (auto simp: blocks_ok_def)
  then have "p \<noteq> 0" "get_u32 h (p - 8) = Inr n" by (auto simp: block_ok_def)
  with assms(3,4) show ?thesis by (simp add: realloc_def)
qed

lemma blocks_ok_realloc:
  assumes ok: "blocks_ok (h, bs)" and mem: "(p, n) \<in> set bs" and "sz \<noteq> 0" "room h sz"
    and r: "realloc h p sz = Inr (q, h')"
  shows "blocks_ok (h', if q = p then bs else (q, sz) # filter (\<lambda>b. b \<noteq> (p, n)) bs)"
proof (cases "sz \<le> n")
  case True
  then show ?thesis using realloc_stays [OF ok mem assms(3)] r ok by simp
next
  case False
  then have "n < sz" by simp
  then obtain q' h'' where "realloc h p sz = Inr (q', h'')" "blocks_ok (h'', (q', sz) # bs)" "q' \<noteq> p"
    by (rule realloc_grows [OF ok mem assms(4)])
  with r show ?thesis by (simp add: blocks_ok_filter)
qed

lemma alloc_step_ok:
  assumes "alloc_step (h, bs) (h', bs')" "blocks_ok (h, bs)"
  shows "blocks_ok (h', bs')"
  using assms(1)
proof cases
  case (step_malloc sz p)
  then show ?thesis using blocks_ok_malloc(1) [OF assms(2)] by simp
next
  case (step_calloc cnt sz p)
  then show ?thesis using blocks_ok_calloc [OF assms(2)] by simp
next
  case (step_realloc p n sz q)
  then show ?thesis using blocks_ok_realloc [OF assms(2)] by simp
next
  case (step_free p n)
  then show ?thesis using blocks_ok_drop [OF assms(2)] by (simp add: free_def)
next
  case (step_write p n i v)
  show ?thesis unfolding step_write(1,2) by (rule blocks_ok_write [OF assms(2) step_write(3)]) (use step_write(4) in auto)
qed

lemma alloc_reach_ok:
  assumes "alloc_reach h0 s" "blocks_ok (h0, [])"
  shows "blocks_ok s"
  using assms(1)
proof induction
  case (reach_step s s')
  then show ?case using alloc_step_ok [of "fst s" "snd s" "fst s'" "snd s'"] by simp
qed (rule assms(2))

text \<open>
  The layout the linker and the engine promise: the heap starts inside the memory the module
  declares, and a module has fewer than 65536 pages.
\<close>

definition module_ok :: "32 word \<Rightarrow> nat \<Rightarrow> nat \<Rightarrow> bool" where
  "module_ok heap_base pages limit \<longleftrightarrow>
     0 < pages \<and> pages \<le> limit \<and> limit < 65536 \<and> unat heap_base + 7 \<le> pages * 65536"

lemma blocks_ok_ctor:
  assumes "module_ok heap_base pages limit"
  shows "blocks_ok (dsmalloc_ctor heap_base pages limit bytes, [])"
proof -
  from assms have h: "unat heap_base + 7 < 2 ^ 32" "unat heap_base + 7 \<le> pages * 65536"
    by (simp_all add: module_ok_def)
  have "unat (align heap_base 8) \<le> pages * 65536" using unat_align_bounds(2) [OF h(1)] h(2) by linarith
  then show ?thesis
    using heap_inv_ctor [OF h(1)] assms by (simp add: blocks_ok_def module_ok_def) (simp add: dsmalloc_ctor_def Let_def)
qed

section \<open>Properties\<close>

text \<open>
  C23. Whatever a contract does through \<open>malloc\<close>, \<open>calloc\<close>, \<open>realloc\<close>, \<open>free\<close> and by writing into its
  own blocks, as long as the engine grants the memory it asks for: the blocks it owns start at
  multiples of eight, lie above the static data and inside linear memory, keep their size in
  their header, and no two of them overlap, headers included.
\<close>

theorem malloc_blocks_disjoint:
  assumes "module_ok heap_base pages limit"
    and "alloc_reach (dsmalloc_ctor heap_base pages limit bytes) (h, bs)"
  shows "(\<forall>(p, n) \<in> set bs. 8 dvd unat p \<and> unat (hp_heap h) + 8 \<le> unat p \<and> in_memory h (unat p) (unat n) \<and>
      get_u32 h (p - 8) = Inr n) \<and>
    sorted_wrt (\<lambda>b c. {unat (fst b) - 8 ..< unat (fst b) + unat (snd b)} \<inter>
      {unat (fst c) - 8 ..< unat (fst c) + unat (snd c)} = {}) bs"
proof -
  have ok: "blocks_ok (h, bs)" by (rule alloc_reach_ok [OF assms(2) blocks_ok_ctor [OF assms(1)]])
  then have b: "\<And>b. b \<in> set bs \<Longrightarrow> block_ok h b" "unat (hp_last_ptr h) \<le> hp_pages h * 65536" "sorted_wrt apart bs"
    by (simp_all add: blocks_ok_def heap_inv_def)
  have "sorted_wrt (\<lambda>b c. {unat (fst b) - 8 ..< unat (fst b) + unat (snd b)} \<inter>
      {unat (fst c) - 8 ..< unat (fst c) + unat (snd c)} = {}) bs"
    using b(3) by (rule sorted_wrt_mono_rel [rotated]) (auto simp: apart_def)
  moreover have "\<forall>(p, n) \<in> set bs. 8 dvd unat p \<and> unat (hp_heap h) + 8 \<le> unat p \<and>
      in_memory h (unat p) (unat n) \<and> get_u32 h (p - 8) = Inr n"
    using b(1,2) by (fastforce simp: block_ok_def in_memory_def)
  ultimately show ?thesis by simp
qed

lemma start_malloc:
  assumes "module_ok heap_base pages limit" "sz \<noteq> 0" "pages + (unat sz + 8) div 65536 < limit"
  obtains p h where "alloc_reach (dsmalloc_ctor heap_base pages limit bytes) (h, [(p, sz)])"
    "unat p = unat (align heap_base 8) + 8" "hp_pages h \<le> pages + (unat sz + 8) div 65536 + 1" "hp_limit h = limit"
proof -
  let ?h = "dsmalloc_ctor heap_base pages limit bytes"
  have inv: "heap_inv ?h" using blocks_ok_ctor [OF assms(1)] by (simp add: blocks_ok_def)
  have r: "room ?h sz" using assms(3) by (simp add: room_def dsmalloc_ctor_def Let_def)
  obtain h where m: "malloc ?h sz = Inr (hp_last_ptr ?h + 8, h)"
    and p: "unat (hp_last_ptr ?h + 8) = unat (hp_last_ptr ?h) + 8"
      "hp_pages h \<le> hp_pages ?h + (unat sz + 8) div 65536 + 1" "hp_limit h = hp_limit ?h"
    by (rule malloc_spec [OF inv r assms(2)]) blast
  show thesis
  proof (rule that)
    show "alloc_reach ?h (h, [(hp_last_ptr ?h + 8, sz)])"
      using reach_step [OF reach_start step_malloc [OF assms(2) r m]] .
    show "unat (hp_last_ptr ?h + 8) = unat (align heap_base 8) + 8" using p(1) by (simp add: dsmalloc_ctor_def Let_def)
    show "hp_pages h \<le> pages + (unat sz + 8) div 65536 + 1" using p(2) by (simp add: dsmalloc_ctor_def Let_def)
    show "hp_limit h = limit" using p(3) by (simp add: dsmalloc_ctor_def Let_def)
  qed
qed

lemma module_ok_example: "module_ok 69637 2 64"
  by (simp add: module_ok_def)

theorem malloc_blocks_disjoint_witness:
  "\<exists>p h. alloc_reach (dsmalloc_ctor 69637 2 64 (\<lambda>_. 0)) (h, [(p, 1000)]) \<and> unat p = 69648 \<and>
     in_memory h (unat p) 1000 \<and> get_u32 h (p - 8) = Inr 1000"
proof -
  obtain p h where r: "alloc_reach (dsmalloc_ctor 69637 2 64 (\<lambda>_. 0)) (h, [(p, 1000)])"
    and p: "unat p = unat (align 69637 8) + 8"
    by (rule start_malloc [OF module_ok_example, of 1000 "\<lambda>_. 0"]) auto
  moreover have "unat (align 69637 8) = 69640" by (simp add: unat_align)
  ultimately show ?thesis using malloc_blocks_disjoint [OF module_ok_example r] by (intro exI [of _ p] exI [of _ h]) simp
qed

text \<open>
  C29. \<open>realloc\<close> on a block the contract owns, to a size other than 0 for which the engine grants the
  memory, returns a block of the size asked for that holds the contents of the old one, as far as both reach, and leaves the contents of every other block
  as they were.
\<close>

theorem realloc_keeps_contents:
  assumes "module_ok heap_base pages limit"
    and "alloc_reach (dsmalloc_ctor heap_base pages limit bytes) (h, bs)"
    and "(p, n) \<in> set bs" "sz \<noteq> 0" "room h sz"
  shows "\<exists>q h'. realloc h p sz = Inr (q, h') \<and> in_memory h' (unat q) (unat sz) \<and>
     (\<forall>i < min (unat n) (unat sz). hp_bytes h' (unat q + i) = hp_bytes h (unat p + i)) \<and>
     (\<forall>(r, m) \<in> set bs. \<forall>i < unat m. hp_bytes h' (unat r + i) = hp_bytes h (unat r + i))"
proof -
  note ok = alloc_reach_ok [OF assms(2) blocks_ok_ctor [OF assms(1)]]
  have b: "unat r + unat m \<le> unat (hp_last_ptr h)" if "(r, m) \<in> set bs" for r m
    using ok that by (auto simp: blocks_ok_def block_ok_def)
  show ?thesis
  proof (cases "sz \<le> n")
    case True
    moreover have "unat (hp_last_ptr h) \<le> hp_pages h * 65536" using ok by (simp add: blocks_ok_def heap_inv_def)
    ultimately show ?thesis
      using realloc_stays [OF ok assms(3,4)] b [OF assms(3)] by (auto simp: in_memory_def word_le_nat_alt)
  next
    case False
    then have "n < sz" by simp
    then obtain q h' where "realloc h p sz = Inr (q, h')" "unat q + unat sz \<le> hp_pages h' * 65536"
      and c: "\<And>i. i < unat n \<Longrightarrow> hp_bytes h' (unat q + i) = hp_bytes h (unat p + i)"
      "\<And>a. a < unat (hp_last_ptr h) \<Longrightarrow> hp_bytes h' a = hp_bytes h a"
      by (rule realloc_grows [OF ok assms(3,5)]) blast
    moreover have "hp_bytes h' (unat r + i) = hp_bytes h (unat r + i)" if "(r, m) \<in> set bs" "i < unat m" for r m i
      using b [OF that(1)] that(2) by (intro c(2)) simp
    ultimately show ?thesis
      by (intro exI [of _ q] exI [of _ h']) (auto simp: in_memory_def)
  qed
qed

theorem realloc_keeps_contents_witness:
  "\<exists>p h q h'. alloc_reach (dsmalloc_ctor 69637 2 64 (\<lambda>_. 0)) (h, [(p, 10)]) \<and> room h 200000 \<and>
     realloc h p 200000 = Inr (q, h') \<and> in_memory h' (unat q) 200000 \<and>
     (\<forall>i < 10. hp_bytes h' (unat q + i) = hp_bytes h (unat p + i))"
proof -
  obtain p h where r: "alloc_reach (dsmalloc_ctor 69637 2 64 (\<lambda>_. 0)) (h, [(p, 10)])"
    and "hp_pages h \<le> 3" "hp_limit h = 64"
    by (rule start_malloc [OF module_ok_example, of 10 "\<lambda>_. 0"]) auto
  then have "room h 200000" by (simp add: room_def)
  moreover from realloc_keeps_contents [OF module_ok_example r, of p 10 200000] this
  obtain q h' where "realloc h p 200000 = Inr (q, h')" "in_memory h' (unat q) (unat (200000 :: 32 word))"
    "\<forall>i < min (unat (10 :: 32 word)) (unat (200000 :: 32 word)). hp_bytes h' (unat q + i) = hp_bytes h (unat p + i)"
    by auto
  ultimately show ?thesis using r by (intro exI [of _ p] exI [of _ h] exI [of _ q] exI [of _ h']) simp
qed

text \<open>The number of pages an allocation asks the engine for, in the arithmetic of the code.\<close>

definition pages_asked :: "dsheap \<Rightarrow> 32 word \<Rightarrow> 32 word" where
  "pages_asked h sz =
     (let real_size = sz + 8; last_ptr = align (hp_last_ptr h + real_size) 8; pages = drop_bit 16 real_size in
      if push_bit 16 (hp_next_page h + pages) \<le> last_ptr then pages + 1 else pages)"

lemma malloc_refused:
  assumes "sz \<noteq> 0" "hp_pages h \<le> hp_limit h" "hp_limit h < hp_pages h + unat (pages_asked h sz)"
  shows "malloc h sz =
    bind_res (put_u32 (h\<lparr>hp_last_ptr := align (hp_last_ptr h + (sz + 8)) 8,
                         hp_next_page := hp_next_page h + pages_asked h sz\<rparr>) (hp_last_ptr h) sz)
      (\<lambda>h'. Inr (hp_last_ptr h + 8, h'))"
proof -
  have pos: "0 < pages_asked h sz" using assms(2,3) by (simp add: word_less_nat_alt)
  have grow: "memory_grow h1 (pages_asked h sz) = (- 1, h1)" if "hp_pages h1 = hp_pages h" "hp_limit h1 = hp_limit h" for h1 :: dsheap
    using assms(3) that by (simp add: memory_grow_def)
  define c where "c \<longleftrightarrow> push_bit 16 (hp_next_page h + drop_bit 16 (sz + 8)) \<le> align (hp_last_ptr h + (sz + 8)) 8"
  have a: "pages_asked h sz = (if c then drop_bit 16 (sz + 8) + 1 else drop_bit 16 (sz + 8))"
    by (simp add: pages_asked_def c_def Let_def)
  then have np: "(if c then hp_next_page h + drop_bit 16 (sz + 8) + 1 else hp_next_page h + drop_bit 16 (sz + 8)) =
      hp_next_page h + pages_asked h sz" by simp
  show ?thesis
    unfolding malloc_def dsmalloc_def Let_def align_4 c_def [symmetric] np a [symmetric]
    using assms(1) pos by (simp add: grow)
qed

text \<open>
  C38. When the engine refuses to grow memory, the allocator does not notice, whatever the size of the
  request and in every state that satisfies its invariant: \<open>memory.grow\<close> returns \<open>-1\<close> and the code tests
  for \<open>0\<close>. \<open>malloc\<close> returns the block behind the end of the heap in the memory there is, which lies
  inside memory exactly when it happens to fit there; the count of pages is wrong from then on.
  Only when not even the header fits is storing it out of bounds. "failed to allocate pages" is
  never thrown.
\<close>

theorem malloc_oom_unchecked:
  assumes "heap_inv h" "sz \<noteq> 0" "hp_limit h < hp_pages h + unat (pages_asked h sz)"
  shows "if unat (hp_last_ptr h) + 4 \<le> hp_pages h * 65536
    then \<exists>h'. malloc h sz = Inr (hp_last_ptr h + 8, h') \<and> hp_pages h' = hp_pages h \<and>
      hp_next_page h' \<noteq> word_of_nat (hp_pages h') \<and>
      (in_memory h' (unat (hp_last_ptr h + 8)) (unat sz) \<longleftrightarrow> unat (hp_last_ptr h) + 8 + unat sz \<le> hp_pages h * 65536)
    else malloc h sz = Inl Oob"
proof -
  have inv: "hp_pages h \<le> hp_limit h" "hp_limit h < 65536" "hp_next_page h = word_of_nat (hp_pages h)"
      "unat (hp_last_ptr h) \<le> hp_pages h * 65536"
    using assms(1) by (simp_all add: heap_inv_def)
  have "hp_pages h * 65536 \<le> 65535 * 65536" using inv(1,2) by (intro mult_le_mono1) simp
  then have L8: "unat (hp_last_ptr h + 8) = unat (hp_last_ptr h) + 8" using inv(4) by (simp add: unat_word_ariths)
  have "pages_asked h sz \<noteq> 0" using assms(3) inv(1) by auto
  then show ?thesis
    unfolding malloc_refused [OF assms(2) inv(1) assms(3)] by (auto simp: put_u32_def in_memory_def L8 inv(3))
qed

definition full_heap :: dsheap where
  "full_heap = dsmalloc_ctor 131000 2 2 (\<lambda>_. 0)"

theorem malloc_oom_unchecked_witness:
  "(\<exists>h'. malloc full_heap 100 = Inr (131008, h') \<and> \<not> in_memory h' 131008 100) \<and>
   (\<exists>h'. malloc full_heap 60 = Inr (131008, h') \<and> in_memory h' 131008 60)"
proof -
  have a: "align 131000 8 = 131000" "align 131108 8 = 131112" "align 131068 8 = 131072" by (simp_all add: align_def)
  have f: "hp_last_ptr full_heap = 131000" "hp_pages full_heap = 2" "hp_limit full_heap = 2"
    "hp_next_page full_heap = 2"
    by (simp_all add: full_heap_def dsmalloc_ctor_def a Let_def)
  have inv: "heap_inv full_heap" by (simp add: heap_inv_def f)
  have "pages_asked full_heap 100 = 1" "pages_asked full_heap 60 = 1"
    by (simp_all add: pages_asked_def f a Let_def push_bit_eq_mult drop_bit_eq_div)
  then show ?thesis
    using malloc_oom_unchecked [OF inv, of 100] malloc_oom_unchecked [OF inv, of 60] by (auto simp: f)
qed

end
