(* ===== verification/Memory_Manager.thy ===== *)
theory Memory_Manager
  imports Linear_Memory
begin

unbundle bit_operations_syntax

text \<open>
  Model of \<open>platonlib/malloc/malloc.cpp\<close>, the memory manager that the bump allocator replaced in the
  build. Heap areas (the static one, then areas from \<open>sbrk\<close>) are chains of blocks, each behind a
  marker of four bytes with its size and, in the highest bit, whether it is allocated. Areas are
  cut from the front; once memory is exhausted, free blocks are merged and reused.
\<close>

section \<open>Blocks\<close>

abbreviation size_marker :: "32 word" where
  "size_marker \<equiv> 4"

definition alloc_memory_mask :: "32 word" where
  "alloc_memory_mask = push_bit 31 1"

record buffer_ptr =
  bp_ptr :: "32 word"
  bp_size :: "32 word"
  bp_heap_end :: "32 word"

definition bp_open :: "'a linear_scheme \<Rightarrow> 32 word \<Rightarrow> 32 word \<Rightarrow> buffer_ptr res" where
  "bp_open h ptr heap_end =
     bind_res (get_u32 h (ptr - size_marker)) (\<lambda>m.
       Inr \<lparr>bp_ptr = ptr, bp_size = m AND NOT alloc_memory_mask, bp_heap_end = heap_end\<rparr>)"

definition bp_set_size :: "'a linear_scheme \<Rightarrow> buffer_ptr \<Rightarrow> 32 word \<Rightarrow> (buffer_ptr \<times> 'a linear_scheme) res" where
  "bp_set_size h b val =
     bind_res (get_u32 h (bp_ptr b - size_marker)) (\<lambda>m.
       let memory_state = m AND alloc_memory_mask in
       bind_res (put_u32 h (bp_ptr b - size_marker) (val OR memory_state)) (\<lambda>h1. Inr (b\<lparr>bp_size := val\<rparr>, h1)))"

definition bp_make :: "'a linear_scheme \<Rightarrow> 32 word \<Rightarrow> 32 word \<Rightarrow> 32 word \<Rightarrow> (buffer_ptr \<times> 'a linear_scheme) res" where
  "bp_make h ptr buff_size heap_end =
     bp_set_size h \<lparr>bp_ptr = ptr, bp_size = buff_size, bp_heap_end = heap_end\<rparr> buff_size"

definition bp_end :: "buffer_ptr \<Rightarrow> 32 word" where
  "bp_end b = bp_ptr b + bp_size b"

text \<open>The null pointer is 0.\<close>

definition next_ptr :: "buffer_ptr \<Rightarrow> 32 word" where
  "next_ptr b = (let next = bp_end b + size_marker in if bp_heap_end b \<le> next then 0 else next)"

definition mark_alloc :: "'a linear_scheme \<Rightarrow> buffer_ptr \<Rightarrow> 'a linear_scheme res" where
  "mark_alloc h b =
     bind_res (get_u32 h (bp_ptr b - size_marker)) (\<lambda>m. put_u32 h (bp_ptr b - size_marker) (m OR alloc_memory_mask))"

definition mark_free :: "'a linear_scheme \<Rightarrow> buffer_ptr \<Rightarrow> 'a linear_scheme res" where
  "mark_free h b =
     bind_res (get_u32 h (bp_ptr b - size_marker)) (\<lambda>m. put_u32 h (bp_ptr b - size_marker) (m AND NOT alloc_memory_mask))"

definition is_alloc :: "'a linear_scheme \<Rightarrow> buffer_ptr \<Rightarrow> bool res" where
  "is_alloc h b = bind_res (get_u32 h (bp_ptr b - size_marker)) (\<lambda>m. Inr (m AND alloc_memory_mask \<noteq> 0))"

text \<open>
  How far the free memory behind a block reaches. Every round adds at least the marker, so the
  wanted size is enough fuel as long as the sum does not wrap.
\<close>

fun merge_loop :: "nat \<Rightarrow> 'a linear_scheme \<Rightarrow> 32 word \<Rightarrow> 32 word \<Rightarrow> 32 word \<Rightarrow> 32 word \<Rightarrow> 32 word res" where
  "merge_loop 0 h ptr heap_end needed_size possible_size = Inl OutOfFuel"
| "merge_loop (Suc fuel) h ptr heap_end needed_size possible_size =
     (if possible_size < needed_size \<and> ptr + possible_size < heap_end then
        bind_res (get_u32 h (ptr + possible_size)) (\<lambda>next_mem_flag_size.
          if next_mem_flag_size AND alloc_memory_mask \<noteq> 0 then Inr possible_size
          else merge_loop fuel h ptr heap_end needed_size
                 (possible_size + ((next_mem_flag_size AND NOT alloc_memory_mask) + size_marker)))
      else Inr possible_size)"

definition merge_contiguous ::
  "'a linear_scheme \<Rightarrow> buffer_ptr \<Rightarrow> 32 word \<Rightarrow> bool \<Rightarrow> (bool \<times> buffer_ptr \<times> 'a linear_scheme) res" where
  "merge_contiguous h b needed_size all_or_nothing =
     (if all_or_nothing \<and> bp_heap_end b - bp_ptr b < needed_size then Inr (False, b, h)
      else bind_res (merge_loop (unat needed_size + 1) h (bp_ptr b) (bp_heap_end b) needed_size (bp_size b)) (\<lambda>possible_size.
        if all_or_nothing \<and> possible_size < needed_size then Inr (False, b, h)
        else
          let new_size = (if possible_size < needed_size then possible_size else needed_size) in
          bind_res (bp_set_size h b new_size) (\<lambda>(b1, h1).
          bind_res
            (if needed_size < possible_size then
               let freed_size = possible_size - needed_size - size_marker in
               bind_res (bp_make h1 (bp_ptr b + needed_size + size_marker) freed_size (bp_heap_end b)) (\<lambda>(freed_remainder, h2).
                 mark_free h2 freed_remainder)
             else Inr h1)
            (\<lambda>h3. Inr (new_size = needed_size, b1, h3)))))"

section \<open>Areas\<close>

record heap_area =
  ha_heap_size :: "32 word"
  ha_heap :: "32 word"
  ha_offset :: "32 word"

definition ha_empty :: heap_area where
  "ha_empty = \<lparr>ha_heap_size = 0, ha_heap = 0, ha_offset = 0\<rparr>"

definition ha_init :: "heap_area \<Rightarrow> 32 word \<Rightarrow> 32 word \<Rightarrow> heap_area" where
  "ha_init a mem_heap sz = a\<lparr>ha_heap_size := sz, ha_heap := mem_heap\<rparr>"

definition ha_is_init :: "heap_area \<Rightarrow> bool" where
  "ha_is_init a \<longleftrightarrow> ha_heap a \<noteq> 0"

abbreviation ha_end :: "heap_area \<Rightarrow> 32 word" where
  "ha_end a \<equiv> ha_heap a + ha_heap_size a"

definition is_in_heap :: "heap_area \<Rightarrow> 32 word \<Rightarrow> bool" where
  "is_in_heap a ptr \<longleftrightarrow> ha_heap a + size_marker \<le> ptr \<and> ptr < ha_end a"

definition is_capacity_remaining :: "heap_area \<Rightarrow> bool" where
  "is_capacity_remaining a \<longleftrightarrow> ha_offset a + size_marker < ha_heap_size a"

definition ha_malloc ::
  "'a linear_scheme \<Rightarrow> heap_area \<Rightarrow> 32 word \<Rightarrow> (32 word \<times> heap_area \<times> 'a linear_scheme) res" where
  "ha_malloc h a sz =
     (let used_up_size = ha_offset a + sz + size_marker in
      if ha_heap_size a < used_up_size then Inr (0, a, h)
      else bind_res (bp_make h (ha_heap a + (ha_offset a + size_marker)) sz (ha_end a)) (\<lambda>(new_buff, h1).
           let a1 = a\<lparr>ha_offset := ha_offset a + (sz + size_marker)\<rparr> in
           bind_res (mark_alloc h1 new_buff) (\<lambda>h2. Inr (bp_ptr new_buff, a1, h2))))"

fun freed_loop :: "nat \<Rightarrow> 'a linear_scheme \<Rightarrow> heap_area \<Rightarrow> 32 word \<Rightarrow> 32 word \<Rightarrow> (32 word \<times> 'a linear_scheme) res" where
  "freed_loop 0 h a sz current = Inl OutOfFuel"
| "freed_loop (Suc fuel) h a sz current =
     (if current = 0 then Inr (0, h)
      else bind_res (bp_open h current (ha_end a)) (\<lambda>b.
           bind_res (is_alloc h b) (\<lambda>taken.
             if taken then freed_loop fuel h a sz (next_ptr b)
             else bind_res (merge_contiguous h b sz False) (\<lambda>(enough, b1, h1).
                  if enough then bind_res (mark_alloc h1 b1) (\<lambda>h2. Inr (current, h2))
                  else freed_loop fuel h1 a sz (next_ptr b1)))))"

definition malloc_from_freed :: "'a linear_scheme \<Rightarrow> heap_area \<Rightarrow> 32 word \<Rightarrow> (32 word \<times> 'a linear_scheme) res" where
  "malloc_from_freed h a sz = freed_loop (unat (ha_heap_size a) + 1) h a sz (ha_heap a + size_marker)"

text \<open>The resized pointer or 0, the original size of the block, the area, and the memory.\<close>

definition realloc_in_place ::
  "'a linear_scheme \<Rightarrow> heap_area \<Rightarrow> 32 word \<Rightarrow> 32 word \<Rightarrow> (32 word \<times> 32 word \<times> heap_area \<times> 'a linear_scheme) res" where
  "realloc_in_place h a ptr sz =
     bind_res (bp_open h ptr (ha_end a)) (\<lambda>orig_buffer.
       let orig_ptr_size = bp_size orig_buffer; orig_buffer_end = bp_end orig_buffer in
       if ha_end a < orig_buffer_end then Inr (0, 0, a, h)
       else if ha_end a - sz < ptr then Inr (0, orig_ptr_size, a, h)
       else if sz < orig_ptr_size then
         bind_res (bp_make h (ptr + sz + size_marker) (orig_ptr_size - sz) (ha_end a)) (\<lambda>(excess_to_free, h1).
         bind_res (mark_free h1 excess_to_free) (\<lambda>h2. Inr (ptr, orig_ptr_size, a, h2)))
       else if orig_buffer_end = ha_heap a + ha_offset a then
         bind_res (bp_set_size h orig_buffer sz) (\<lambda>(b1, h1).
           Inr (ptr, orig_ptr_size, a\<lparr>ha_offset := ha_offset a + (sz - orig_ptr_size)\<rparr>, h1))
       else if sz = orig_ptr_size then Inr (ptr, orig_ptr_size, a, h)
       else bind_res (merge_contiguous h orig_buffer sz True) (\<lambda>(enough, b1, h1).
            if \<not> enough then Inr (0, orig_ptr_size, a, h1)
            else bind_res (mark_alloc h1 b1) (\<lambda>h2. Inr (ptr, orig_ptr_size, a, h2))))"

definition ha_free :: "'a linear_scheme \<Rightarrow> heap_area \<Rightarrow> 32 word \<Rightarrow> 'a linear_scheme res" where
  "ha_free h a ptr = bind_res (bp_open h ptr (ha_end a)) (\<lambda>to_free. mark_free h to_free)"

definition cleanup_remaining :: "'a linear_scheme \<Rightarrow> heap_area \<Rightarrow> (heap_area \<times> 'a linear_scheme) res" where
  "cleanup_remaining h a =
     (if ha_offset a = ha_heap_size a then Inr (a, h)
      else
        let sz = ha_heap_size a - ha_offset a - size_marker in
        bind_res (bp_make h (ha_heap a + (ha_offset a + size_marker)) sz (ha_end a)) (\<lambda>(new_buff, h1).
        let a1 = a\<lparr>ha_offset := ha_heap_size a\<rparr> in
        bind_res (mark_free h1 new_buff) (\<lambda>h2. Inr (a1, h2))))"

definition expand_memory :: "heap_area \<Rightarrow> 32 word \<Rightarrow> 32 word \<Rightarrow> bool \<times> heap_area" where
  "expand_memory a exp_mem sz =
     (if ha_end a \<noteq> exp_mem then (False, a) else (True, a\<lparr>ha_heap_size := ha_heap_size a + sz\<rparr>))"

section \<open>The manager\<close>

text \<open>
  \<open>mm_initial_heap\<close> is the address of the static array \<open>_initial_heap\<close>; \<open>sb_initialized\<close> and \<open>sb_bytes\<close> are
  the static variables of \<open>sbrk\<close>.
\<close>

record manager = linear +
  mm_initial_heap :: "32 word"
  mm_heaps :: "heap_area list"
  mm_heaps_actual_size :: nat
  mm_active_heap :: nat
  mm_active_free_heap :: nat
  sb_initialized :: bool
  sb_bytes :: "32 word"

definition initial_heap_size :: "32 word" where
  "initial_heap_size = 8192"

definition heaps_size :: nat where
  "heaps_size = 16"

definition sbrk :: "manager \<Rightarrow> 32 word \<Rightarrow> 32 word \<times> manager" where
  "sbrk m num_bytes0 =
     (let m1 = (if sb_initialized m then m
                else m\<lparr>sb_bytes := word_of_nat (hp_pages m) * 65536, sb_initialized := True\<rparr>) in
      if 0x7FFFFFFF < num_bytes0 then (- 1, m1)
      else
        let prev_num_bytes = sb_bytes m1;
            current_pages = word_of_nat (hp_pages m1);
            num_bytes = (num_bytes0 + 7) AND NOT 7;
            num_desired_pages = drop_bit 16 (sb_bytes m1 + num_bytes + 65536 - 1);
            m2 = (if current_pages < num_desired_pages then snd (memory_grow m1 (num_desired_pages - current_pages)) else m1) in
        if current_pages < num_desired_pages \<and> num_desired_pages \<noteq> word_of_nat (hp_pages m2) then (- 1, m2)
        else (prev_num_bytes, m2\<lparr>sb_bytes := sb_bytes m2 + num_bytes\<rparr>))"

definition heap_at :: "manager \<Rightarrow> nat \<Rightarrow> heap_area res" where
  "heap_at m i = (if i < length (mm_heaps m) then Inr (mm_heaps m ! i) else Inl Oob)"

definition set_heap :: "manager \<Rightarrow> nat \<Rightarrow> heap_area \<Rightarrow> manager res" where
  "set_heap m i a = (if i < length (mm_heaps m) then Inr (m\<lparr>mm_heaps := (mm_heaps m)[i := a]\<rparr>) else Inl Oob)"

definition cleanup_active :: "manager \<Rightarrow> manager res" where
  "cleanup_active m =
     bind_res (heap_at m (mm_active_heap m)) (\<lambda>a.
     bind_res (cleanup_remaining m a) (\<lambda>(a1, m1). set_heap m1 (mm_active_heap m1) a1))"

text \<open>The index of the next area, or \<open>None\<close> for the null pointer.\<close>

definition next_active_heap :: "manager \<Rightarrow> (nat option \<times> manager) res" where
  "next_active_heap m =
     (let (current_memory_size, m1) = sbrk m 0 in
      if current_memory_size <s 0 then Inr (None, m1)
      else
        let heap_adj =
              (if current_memory_size mod 65536 \<le> 65536 - 1024
               then current_memory_size + 65536 - current_memory_size mod 65536 - current_memory_size
               else current_memory_size + 131072 - current_memory_size mod 131072 - current_memory_size);
            (new_memory_start, m2) = sbrk m1 heap_adj in
        if new_memory_start = - 1 then
          bind_res (cleanup_active m2) (\<lambda>m3.
            let active = mm_active_heap m3 + 1 in
            Inr (None, m3\<lparr>mm_active_heap := active, mm_heaps_actual_size := active\<rparr>))
        else
          bind_res (heap_at m2 (mm_active_heap m2)) (\<lambda>current_memory.
            let (expanded, a1) = expand_memory current_memory new_memory_start heap_adj in
            if expanded then
              bind_res (set_heap m2 (mm_active_heap m2) a1) (\<lambda>m3. Inr (Some (mm_active_heap m3), m3))
            else
              bind_res (cleanup_active m2) (\<lambda>m3.
                let active = mm_active_heap m3 + 1; m4 = m3\<lparr>mm_active_heap := active\<rparr> in
                bind_res (heap_at m4 active) (\<lambda>next.
                bind_res (set_heap m4 active (ha_init next new_memory_start heap_adj)) (\<lambda>m5.
                  Inr (Some active, m5))))))"

definition adjust_to_mem_block :: "32 word \<Rightarrow> 32 word" where
  "adjust_to_mem_block sz =
     (let remainder = (sz + size_marker) AND 7 in if 0 < remainder then sz + (8 - remainder) else sz)"

text \<open>
  The loop over the active areas. Every round that does not end it takes at least a page of 64 KiB
  or what is left of one from \<open>sbrk\<close>, which is bounded by the address space: 65537 rounds suffice.
\<close>

fun malloc_loop :: "nat \<Rightarrow> manager \<Rightarrow> 32 word \<Rightarrow> nat option \<Rightarrow> (32 word \<times> manager) res" where
  "malloc_loop 0 m sz current = Inl OutOfFuel"
| "malloc_loop (Suc fuel) m sz current =
     (case current of
        None \<Rightarrow> Inr (0, m)
      | Some i \<Rightarrow>
          bind_res (heap_at m i) (\<lambda>a.
          bind_res (ha_malloc m a sz) (\<lambda>(buffer, a1, m1).
          bind_res (set_heap m1 i a1) (\<lambda>m2.
            if buffer \<noteq> 0 then Inr (buffer, m2)
            else bind_res (next_active_heap m2) (\<lambda>(current1, m3). malloc_loop fuel m3 sz current1)))))"

text \<open>The loop over the areas for a freed block, once around from \<open>_active_free_heap\<close>.\<close>

fun free_heap_loop :: "nat \<Rightarrow> manager \<Rightarrow> 32 word \<Rightarrow> nat \<Rightarrow> (32 word \<times> manager) res" where
  "free_heap_loop 0 m sz end_free_heap = Inl OutOfFuel"
| "free_heap_loop (Suc fuel) m sz end_free_heap =
     bind_res (heap_at m (mm_active_free_heap m)) (\<lambda>a.
     bind_res (malloc_from_freed m a sz) (\<lambda>(buffer, m1).
       if buffer \<noteq> 0 then Inr (buffer, m1)
       else
         let next = mm_active_free_heap m1 + 1;
             m2 = m1\<lparr>mm_active_free_heap := (if next = mm_heaps_actual_size m1 then 0 else next)\<rparr> in
         if mm_active_free_heap m2 \<noteq> end_free_heap then free_heap_loop fuel m2 sz end_free_heap
         else Inr (0, m2)))"

definition mm_malloc :: "manager \<Rightarrow> 32 word \<Rightarrow> (32 word \<times> manager) res" where
  "mm_malloc m size0 =
     (if size0 = 0 then Inr (0, m)
      else
        let m1 = (if mm_heaps_actual_size m = 0 then m\<lparr>mm_heaps_actual_size := heaps_size\<rparr> else m);
            sz = adjust_to_mem_block size0 in
        bind_res
          (if mm_active_heap m1 < mm_heaps_actual_size m1 then
             bind_res (heap_at m1 (mm_active_heap m1)) (\<lambda>start_heap.
               if mm_active_heap m1 = 0 \<and> \<not> ha_is_init start_heap
               then bind_res (set_heap m1 0 (ha_init start_heap (mm_initial_heap m1) initial_heap_size)) (\<lambda>m2.
                      Inr (Some (mm_active_heap m2), m2))
               else Inr (Some (mm_active_heap m1), m1))
           else Inr (None, m1))
          (\<lambda>(current, m2).
        bind_res (malloc_loop 65537 m2 sz current) (\<lambda>(buffer, m3).
          if buffer = 0 then free_heap_loop (mm_heaps_actual_size m3 + 1) m3 sz (mm_active_free_heap m3)
          else Inr (buffer, m3))))"

text \<open>The area a pointer lies in.\<close>

fun find_heap :: "heap_area list \<Rightarrow> nat \<Rightarrow> 32 word \<Rightarrow> nat option" where
  "find_heap [] i ptr = None"
| "find_heap (a # as) i ptr =
     (if \<not> ha_is_init a then None else if is_in_heap a ptr then Some i else find_heap as (i + 1) ptr)"

definition heap_of :: "manager \<Rightarrow> 32 word \<Rightarrow> nat option" where
  "heap_of m ptr = find_heap (take (mm_heaps_actual_size m) (mm_heaps m)) 0 ptr"

definition mm_free :: "manager \<Rightarrow> 32 word \<Rightarrow> manager res" where
  "mm_free m ptr =
     (if ptr = 0 then Inr m
      else case heap_of m ptr of
        None \<Rightarrow> Inr m
      | Some i \<Rightarrow> bind_res (heap_at m i) (\<lambda>a. ha_free m a ptr))"

definition mm_realloc :: "manager \<Rightarrow> 32 word \<Rightarrow> 32 word \<Rightarrow> (32 word \<times> manager) res" where
  "mm_realloc m ptr size0 =
     (if size0 = 0 then bind_res (mm_free m ptr) (\<lambda>m1. Inr (0, m1))
      else
        let sz = adjust_to_mem_block size0 in
        bind_res
          (case (if ptr \<noteq> 0 then heap_of m ptr else None) of
             None \<Rightarrow> Inr (0, 0, m)
           | Some i \<Rightarrow>
               bind_res (heap_at m i) (\<lambda>a.
               bind_res (realloc_in_place m a ptr sz) (\<lambda>(realloc_ptr, orig_ptr_size, a1, m1).
               bind_res (set_heap m1 i a1) (\<lambda>m2. Inr (realloc_ptr, orig_ptr_size, m2)))))
          (\<lambda>(realloc_ptr, orig_ptr_size, m1).
            if realloc_ptr \<noteq> 0 then Inr (realloc_ptr, m1)
            else
              bind_res (mm_malloc m1 sz) (\<lambda>(new_alloc, m2).
                if new_alloc = 0 then Inr (0, m2)
                else
                  let copy_size = (if sz < orig_ptr_size then sz else orig_ptr_size) in
                  if 0 < copy_size then
                    bind_res (mem_copy m2 new_alloc ptr (unat copy_size)) (\<lambda>m3.
                    bind_res (mm_free m3 ptr) (\<lambda>m4. Inr (new_alloc, m4)))
                  else Inr (new_alloc, m2))))"

definition mm_calloc :: "manager \<Rightarrow> 32 word \<Rightarrow> 32 word \<Rightarrow> (32 word \<times> manager) res" where
  "mm_calloc m cnt sz =
     bind_res (mm_malloc m (cnt * sz)) (\<lambda>(ptr, m1).
     bind_res (mem_fill m1 ptr 0 (unat (cnt * sz))) (\<lambda>m2. Inr (ptr, m2)))"

definition mm_ctor :: "nat \<Rightarrow> nat \<Rightarrow> (nat \<Rightarrow> byte) \<Rightarrow> 32 word \<Rightarrow> manager" where
  "mm_ctor pages limit bytes initial_heap =
     \<lparr>hp_pages = pages, hp_limit = limit, hp_bytes = bytes, mm_initial_heap = initial_heap,
      mm_heaps = replicate heaps_size ha_empty, mm_heaps_actual_size = 0, mm_active_heap = 0,
      mm_active_free_heap = 0, sb_initialized = False, sb_bytes = 0\<rparr>"

end
