(* ===== verification/Heap_Blocks.thy ===== *)
theory Heap_Blocks
  imports Memory_Manager
begin

unbundle bit_operations_syntax

text \<open>
  The areas of the memory manager as chains of blocks: what each operation on an area does to the
  list of its blocks, and which bytes it touches. Addresses are natural numbers here, and \<open>adr\<close>
  takes them to the machine; the memory is assumed to be below 2 GiB, as the manager itself does.
\<close>

named_theorems adr_simps

section \<open>Addresses\<close>

definition adr :: "nat \<Rightarrow> 32 word" where
  "adr n = word_of_nat n"

lemma unat_adr [adr_simps]: "n < 4294967296 \<Longrightarrow> unat (adr n) = n"
  by (simp add: adr_def unat_of_nat)

lemma adr_unat [simp]: "adr (unat w) = w"
  by (simp add: adr_def)

lemma adr_0 [adr_simps]: "n < 4294967296 \<Longrightarrow> (adr n = 0) = (n = 0)"
  by (metis unat_adr adr_unat unat_0)

lemma adr_less [adr_simps]: "a < 4294967296 \<Longrightarrow> b < 4294967296 \<Longrightarrow> (adr a < adr b) = (a < b)"
  by (simp add: word_less_nat_alt unat_adr)

lemma adr_le [adr_simps]: "a < 4294967296 \<Longrightarrow> b < 4294967296 \<Longrightarrow> (adr a \<le> adr b) = (a \<le> b)"
  by (simp add: word_le_nat_alt unat_adr)

lemma adr_eq [adr_simps]: "a < 4294967296 \<Longrightarrow> b < 4294967296 \<Longrightarrow> (adr a = adr b) = (a = b)"
  by (metis unat_adr)

lemma adr_plus [adr_simps]: "adr a + adr b = adr (a + b)"
  by (simp add: adr_def)

lemma adr_plus_numeral [adr_simps]: "adr a + numeral k = adr (a + numeral k)"
  by (simp add: adr_def)

lemma adr_minus [adr_simps]: "b \<le> a \<Longrightarrow> adr a - adr b = adr (a - b)"
  by (simp add: adr_def)

lemma adr_minus_numeral [adr_simps]: "numeral k \<le> a \<Longrightarrow> adr a - numeral k = adr (a - numeral k)"
  by (simp add: adr_def)

section \<open>Markers\<close>

definition marker :: "nat \<Rightarrow> bool \<Rightarrow> 32 word" where
  "marker s taken = adr s OR (if taken then alloc_memory_mask else 0)"

lemma bit_mask_31: "bit alloc_memory_mask n \<longleftrightarrow> n = 31"
  unfolding alloc_memory_mask_def bit_push_bit_iff by (auto simp: bit_1_iff)

lemma bit_adr: "bit (adr s) n \<longleftrightarrow> n < 32 \<and> bit s n"
  by (simp add: adr_def bit_of_nat_iff)

lemma bit_31_small:
  fixes s :: nat
  assumes "s < 2147483648"
  shows "\<not> bit s 31"
proof -
  have "s div 2 ^ 31 = 0" using assms by simp
  then show ?thesis by (simp add: bit_iff_odd)
qed

lemma bit_marker: "s < 2147483648 \<Longrightarrow> bit (marker s t) n \<longleftrightarrow> n < 32 \<and> (bit s n \<or> (t \<and> n = 31))"
  by (auto simp: marker_def bit_or_iff bit_mask_31 bit_adr)

lemma marker_size [adr_simps]:
  assumes "s < 2147483648"
  shows "marker s t AND NOT alloc_memory_mask = adr s"
  using assms bit_31_small [OF assms]
  by (intro bit_word_eqI) (auto simp: bit_and_iff bit_not_iff bit_marker bit_mask_31 bit_adr)

lemma marker_taken [adr_simps]:
  assumes "s < 2147483648"
  shows "(marker s t AND alloc_memory_mask = 0) = (\<not> t)"
proof -
  have "marker s t AND alloc_memory_mask = (if t then alloc_memory_mask else 0)"
    using bit_31_small [OF assms]
    by (intro bit_word_eqI) (auto simp: bit_and_iff bit_marker [OF assms] bit_mask_31)
  moreover have "alloc_memory_mask \<noteq> 0" using bit_mask_31 [of 31] by force
  ultimately show ?thesis by simp
qed

lemma marker_alloc [adr_simps]:
  assumes "s < 2147483648"
  shows "(adr s OR (m AND alloc_memory_mask)) OR alloc_memory_mask = marker s True"
    and "marker s t OR alloc_memory_mask = marker s True"
  by (intro bit_word_eqI; auto simp: bit_or_iff bit_and_iff bit_marker [OF assms] bit_mask_31 bit_adr)+

lemma marker_free [adr_simps]:
  assumes "s < 2147483648"
  shows "(adr s OR (m AND alloc_memory_mask)) AND NOT alloc_memory_mask = marker s False"
  using bit_31_small [OF assms]
  by (intro bit_word_eqI) (auto simp: bit_or_iff bit_and_iff bit_not_iff bit_marker [OF assms] bit_mask_31
      bit_adr)

lemma marker_False: "marker s False = adr s"
  by (simp add: marker_def)

lemma marker_resize [adr_simps]:
  assumes "s < 2147483648" "k < 2147483648"
  shows "adr k OR (marker s t AND alloc_memory_mask) = marker k t"
  using bit_31_small [OF assms(1)] bit_31_small [OF assms(2)]
  by (intro bit_word_eqI) (auto simp: bit_or_iff bit_and_iff bit_marker [OF assms(1)] bit_marker [OF assms(2)]
      bit_mask_31 bit_adr)

section \<open>Writing a marker\<close>

definition poke :: "'a linear_scheme \<Rightarrow> nat \<Rightarrow> 32 word \<Rightarrow> 'a linear_scheme" where
  "poke h p v = h\<lparr>hp_bytes := (\<lambda>a. if p \<le> a \<and> a < p + 4 then ucast (drop_bit (8 * (a - p)) v) else hp_bytes h a)\<rparr>"

abbreviation below_2gb :: "'a linear_scheme \<Rightarrow> bool" where
  "below_2gb h \<equiv> hp_pages h < 32768"

lemma put_u32_adr:
  "p + 4 \<le> hp_pages h * 65536 \<Longrightarrow> p < 4294967296 \<Longrightarrow> put_u32 h (adr p) v = Inr (poke h p v)"
  by (simp add: put_u32_def in_memory_def unat_adr poke_def cong: if_cong)

lemma poke_sel [simp]:
  "hp_pages (poke h p v) = hp_pages h" "hp_limit (poke h p v) = hp_limit h"
  "a < p \<or> p + 4 \<le> a \<Longrightarrow> hp_bytes (poke h p v) a = hp_bytes h a"
  by (auto simp: poke_def)

lemma poke_poke [simp]: "poke (poke h p v) p w = poke h p w"
  by (simp add: poke_def cong: if_cong)

lemma get_poke_same:
  assumes "p + 4 \<le> hp_pages h * 65536" "p < 4294967296"
  shows "get_u32 (poke h p v) (adr p) = Inr v"
  using get_put_u32 [of h "adr p" v] put_u32_adr [OF assms] by blast

lemma get_poke_other:
  assumes "q < 4294967296" "q + 4 \<le> p \<or> p + 4 \<le> q"
  shows "get_u32 (poke h p v) (adr q) = get_u32 h (adr q)"
proof -
  have "hp_bytes (poke h p v) (q + i) = hp_bytes h (q + i)" if "i < 4" for i
    using assms(2) that by (intro poke_sel) auto
  from this [of 0] this [of 1] this [of 2] this [of 3] show ?thesis
    using assms(1) by (simp add: get_u32_def in_memory_def unat_adr)
qed

lemma get_u32_bytes:
  assumes "q < 4294967296" "hp_pages h' = hp_pages h"
    and "\<And>a. q \<le> a \<Longrightarrow> a < q + 4 \<Longrightarrow> hp_bytes h' a = hp_bytes h a"
  shows "get_u32 h' (adr q) = get_u32 h (adr q)"
  using assms by (simp add: get_u32_def in_memory_def unat_adr)

text \<open>A block at \<open>p\<close> is its marker there and the memory behind it.\<close>

definition buf :: "nat \<Rightarrow> nat \<Rightarrow> nat \<Rightarrow> buffer_ptr" where
  "buf p s e = \<lparr>bp_ptr = adr (p + 4), bp_size = adr s, bp_heap_end = adr e\<rparr>"

lemma buf_sel [simp]: "bp_ptr (buf p s e) = adr (p + 4)" "bp_size (buf p s e) = adr s" "bp_heap_end (buf p s e) = adr e"
  "(buf p s e)\<lparr>bp_size := adr k\<rparr> = buf p k e"
  by (simp_all add: buf_def)

lemma bp_open_adr:
  "get_u32 h (adr p) = Inr (marker s t) \<Longrightarrow> s < 2147483648 \<Longrightarrow> bp_open h (adr (p + 4)) (adr e) = Inr (buf p s e)"
  by (simp add: bp_open_def adr_simps buf_def)

lemma is_alloc_adr:
  "get_u32 h (adr p) = Inr (marker s t) \<Longrightarrow> s < 2147483648 \<Longrightarrow> is_alloc h (buf p k e) = Inr t"
  by (simp add: is_alloc_def adr_simps)

lemma get_u32_ok: "p + 4 \<le> hp_pages h * 65536 \<Longrightarrow> p < 4294967296 \<Longrightarrow> \<exists>m. get_u32 h (adr p) = Inr m"
  by (simp add: get_u32_def in_memory_def unat_adr)

lemma bp_set_size_adr:
  assumes "get_u32 h (adr p) = Inr (marker s t)" "p + 4 \<le> hp_pages h * 65536" "p < 4294967296"
    and "s < 2147483648" "k < 2147483648"
  shows "bp_set_size h (buf p j e) (adr k) = Inr (buf p k e, poke h p (marker k t))"
  using assms by (simp add: bp_set_size_def adr_simps put_u32_adr)

lemma mark_free_adr:
  assumes "get_u32 h (adr p) = Inr m" "p + 4 \<le> hp_pages h * 65536" "p < 4294967296"
  shows "mark_free h (buf p k e) = Inr (poke h p (m AND NOT alloc_memory_mask))"
  using assms by (simp add: mark_free_def adr_simps put_u32_adr)

lemma mark_alloc_adr:
  assumes "get_u32 h (adr p) = Inr m" "p + 4 \<le> hp_pages h * 65536" "p < 4294967296"
  shows "mark_alloc h (buf p k e) = Inr (poke h p (m OR alloc_memory_mask))"
  using assms by (simp add: mark_alloc_def adr_simps put_u32_adr)

text \<open>A new block, over whatever the memory held.\<close>

lemma bp_make_adr:
  assumes "p + 4 \<le> hp_pages h * 65536" "p < 4294967296" "s < 2147483648"
  obtains h1 where "bp_make h (adr (p + 4)) (adr s) (adr e) = Inr (buf p s e, h1)"
    "mark_alloc h1 (buf p s e) = Inr (poke h p (marker s True))"
    "mark_free h1 (buf p s e) = Inr (poke h p (marker s False))"
proof -
  obtain m where m: "get_u32 h (adr p) = Inr m" using get_u32_ok assms by blast
  let ?h = "poke h p (adr s OR (m AND alloc_memory_mask))"
  have "bp_make h (adr (p + 4)) (adr s) (adr e) = Inr (buf p s e, ?h)"
    using assms by (simp add: bp_make_def bp_set_size_def adr_simps m put_u32_adr buf_def)
  moreover have "mark_alloc ?h (buf p s e) = Inr (poke h p (marker s True))"
    "mark_free ?h (buf p s e) = Inr (poke h p (marker s False))"
    using assms mark_alloc_adr [of ?h p] mark_free_adr [of ?h p] by (simp_all add: get_poke_same adr_simps)
  ultimately show thesis using that by blast
qed

section \<open>Chains of blocks\<close>

type_synonym chunk = "nat \<times> bool"

fun extent :: "chunk list \<Rightarrow> nat" where
  "extent [] = 0"
| "extent ((s, t) # bs) = 4 + s + extent bs"

fun chain :: "'a linear_scheme \<Rightarrow> nat \<Rightarrow> chunk list \<Rightarrow> bool" where
  "chain h p [] \<longleftrightarrow> True"
| "chain h p ((s, t) # bs) \<longleftrightarrow> get_u32 h (adr p) = Inr (marker s t) \<and> chain h (p + 4 + s) bs"

text \<open>The bytes of the markers, the bytes of the allocated blocks, and these blocks.\<close>

fun headers :: "nat \<Rightarrow> chunk list \<Rightarrow> nat set" where
  "headers p [] = {}"
| "headers p ((s, t) # bs) = {p..<p + 4} \<union> headers (p + 4 + s) bs"

fun live :: "nat \<Rightarrow> chunk list \<Rightarrow> (nat \<times> nat) set" where
  "live p [] = {}"
| "live p ((s, t) # bs) = (if t then {(p + 4, s)} else {}) \<union> live (p + 4 + s) bs"

lemma extent_append [simp]: "extent (xs @ ys) = extent xs + extent ys"
  by (induction xs rule: extent.induct) auto

lemma chain_append [simp]: "chain h p (xs @ ys) \<longleftrightarrow> chain h p xs \<and> chain h (p + extent xs) ys"
  by (induction xs arbitrary: p rule: extent.induct) (auto simp: add.assoc)

lemma live_append [simp]: "live p (xs @ ys) = live p xs \<union> live (p + extent xs) ys"
  by (induction xs arbitrary: p rule: extent.induct) (auto simp: add.assoc)

lemma headers_append [simp]: "headers p (xs @ ys) = headers p xs \<union> headers (p + extent xs) ys"
  by (induction xs arbitrary: p rule: extent.induct) (auto simp: add.assoc)

lemma headers_range: "a \<in> headers p bs \<Longrightarrow> p \<le> a \<and> a < p + extent bs"
  by (induction bs arbitrary: p rule: extent.induct) force+

lemma live_range: "(q, s) \<in> live p bs \<Longrightarrow> p + 4 \<le> q \<and> q + s \<le> p + extent bs"
  by (induction bs arbitrary: p rule: extent.induct) (fastforce split: if_splits)+

lemma taken_bytes_live_range: "a \<in> taken_bytes (live p bs) \<Longrightarrow> p + 4 \<le> a \<and> a < p + extent bs"
  using live_range by (fastforce simp: taken_bytes_def)

lemma taken_bytes_headers: "a \<in> taken_bytes (live p bs) \<Longrightarrow> a \<notin> headers p bs"
proof (induction bs arbitrary: p rule: extent.induct)
  case (2 s t bs)
  show ?case
  proof (cases "a \<in> taken_bytes (live (p + 4 + s) bs)")
    case True
    with 2 taken_bytes_live_range [OF True] show ?thesis by auto
  next
    case False
    with 2 headers_range [of a "p + 4 + s" bs] show ?thesis by (fastforce split: if_splits)
  qed
qed simp

lemma live_disjoint:
  "(q, s) \<in> live p bs \<Longrightarrow> (r, k) \<in> live p bs \<Longrightarrow> q \<noteq> r \<Longrightarrow> q + s \<le> r \<or> r + k \<le> q"
proof (induction bs arbitrary: p rule: extent.induct)
  case (2 s' t bs)
  then show ?case
    using live_range [of q s "p + 4 + s'" bs] live_range [of r k "p + 4 + s'" bs] by (auto split: if_splits)
qed simp

lemma live_functional: "(q, s) \<in> live p bs \<Longrightarrow> (q, k) \<in> live p bs \<Longrightarrow> s = k"
proof (induction bs arbitrary: p rule: extent.induct)
  case (2 s' t bs)
  then show ?case
    using live_range [of q s "p + 4 + s'" bs] live_range [of q k "p + 4 + s'" bs] by (auto split: if_splits)
qed simp

lemma live_split:
  "(q, s) \<in> live p bs \<Longrightarrow> \<exists>xs ys. bs = xs @ (s, True) # ys \<and> q = p + extent xs + 4"
proof (induction bs arbitrary: p rule: extent.induct)
  case (2 s' t bs)
  show ?case
  proof (cases "(q, s) \<in> live (p + 4 + s') bs")
    case True
    then obtain xs ys where "bs = xs @ (s, True) # ys" "q = p + 4 + s' + extent xs + 4" using 2 by blast
    then show ?thesis by (intro exI [of _ "(s', t) # xs"] exI [of _ ys]) simp
  next
    case False
    with 2 show ?thesis by (intro exI [of _ "[]"] exI [of _ bs]) (auto split: if_splits)
  qed
qed simp

lemma chain_frame:
  assumes "chain h p bs" "hp_pages h' = hp_pages h" "p + extent bs < 4294967296"
    and "\<And>a. a \<in> headers p bs \<Longrightarrow> hp_bytes h' a = hp_bytes h a"
  shows "chain h' p bs"
  using assms
proof (induction bs arbitrary: p rule: extent.induct)
  case (2 s t bs)
  then have "get_u32 h' (adr p) = get_u32 h (adr p)" by (intro get_u32_bytes) auto
  with 2 show ?case by auto
qed simp

lemma chain_cong:
  assumes "hp_pages h' = hp_pages h" "hp_bytes h' = hp_bytes h"
  shows "chain h' p bs \<longleftrightarrow> chain h p bs"
proof -
  have "get_u32 h' = get_u32 h" using assms by (simp add: get_u32_def in_memory_def fun_eq_iff)
  then show ?thesis by (induction bs arbitrary: p rule: extent.induct) auto
qed

lemma chain_poke [simp]:
  assumes "q + 4 \<le> p \<or> p + extent bs \<le> q" "p + extent bs < 4294967296"
  shows "chain (poke h q v) p bs \<longleftrightarrow> chain h p bs"
proof -
  have same: "hp_bytes (poke h q v) a = hp_bytes h a" if "a \<in> headers p bs" for a
    using headers_range [OF that] assms(1) by (intro poke_sel) auto
  show ?thesis
    using chain_frame [of h p bs "poke h q v"] chain_frame [of "poke h q v" p bs h] same assms(2) by auto
qed

section \<open>What an operation may change\<close>

definition edits :: "nat set \<Rightarrow> 'a linear_scheme \<Rightarrow> 'a linear_scheme \<Rightarrow> bool" where
  "edits A h h' \<longleftrightarrow> (\<exists>f. h' = h\<lparr>hp_bytes := f\<rparr> \<and> (\<forall>a. a \<in> A \<or> f a = hp_bytes h a))"

lemma edits_refl [simp]: "edits A h h"
  unfolding edits_def by (intro exI [of _ "hp_bytes h"]) simp

lemma edits_poke: "{p..<p + 4} \<subseteq> A \<Longrightarrow> edits A h (poke h p v)"
  unfolding edits_def poke_def by (intro exI conjI refl) (auto split: if_splits)

lemma edits_trans: "edits A h h1 \<Longrightarrow> edits A h1 h2 \<Longrightarrow> edits A h h2"
  unfolding edits_def by fastforce

lemma edits_mono: "edits A h h' \<Longrightarrow> A \<subseteq> B \<Longrightarrow> edits B h h'"
  unfolding edits_def by blast

lemma edits_sel:
  assumes "edits A h h'"
  shows "hp_pages h' = hp_pages h" "hp_limit h' = hp_limit h" "a \<notin> A \<Longrightarrow> hp_bytes h' a = hp_bytes h a"
  using assms by (auto simp: edits_def)

lemma chain_edits:
  assumes "edits A h h'" "chain h p bs" "p + extent bs < 4294967296" "A \<inter> headers p bs = {}"
  shows "chain h' p bs"
  using assms(2) edits_sel(1) [OF assms(1)] assms(3)
  by (rule chain_frame) (use edits_sel(3) [OF assms(1)] assms(4) in blast)

section \<open>An area\<close>

definition area :: "nat \<Rightarrow> nat \<Rightarrow> nat \<Rightarrow> heap_area" where
  "area H N T = \<lparr>ha_heap_size = adr N, ha_heap = adr H, ha_offset = adr T\<rparr>"

lemma area_sel [simp]: "ha_heap_size (area H N T) = adr N" "ha_heap (area H N T) = adr H" "ha_offset (area H N T) = adr T"
  "(area H N T)\<lparr>ha_offset := adr U\<rparr> = area H N U" "(area H N T)\<lparr>ha_heap_size := adr M\<rparr> = area H M T"
  by (simp_all add: area_def)

definition aligned :: "chunk list \<Rightarrow> bool" where
  "aligned bs \<longleftrightarrow> list_all (\<lambda>(s, t). s mod 8 = 4) bs"

lemma aligned_simps [simp]: "aligned []" "aligned ((s, t) # bs) \<longleftrightarrow> s mod 8 = 4 \<and> aligned bs"
  "aligned (xs @ ys) \<longleftrightarrow> aligned xs \<and> aligned ys"
  by (auto simp: aligned_def)

lemma aligned_extent: "aligned bs \<Longrightarrow> extent bs mod 8 = 0"
proof (induction bs rule: extent.induct)
  case (2 s t bs)
  then have "s mod 8 = 4" "extent bs mod 8 = 0" by auto
  then have "(4 + s + extent bs) mod 8 = 0" by presburger
  then show ?case by simp
qed simp

definition area_ok :: "'a linear_scheme \<Rightarrow> nat \<Rightarrow> nat \<Rightarrow> chunk list \<Rightarrow> bool" where
  "area_ok h H N bs \<longleftrightarrow> chain h H bs \<and> aligned bs \<and> extent bs \<le> N \<and> 0 < H \<and> N mod 8 = 0 \<and> H + N \<le> hp_pages h * 65536"

lemma area_bounds:
  assumes "area_ok h H N bs" "below_2gb h"
  shows "H + N < 2147483648" "extent bs \<le> N" "0 < H"
  using assms unfolding area_ok_def by auto

lemma area_gap:
  assumes "area_ok h H N bs" "extent bs \<noteq> N"
  shows "extent bs + 8 \<le> N" "(N - extent bs - 4) mod 8 = 4"
proof -
  have "aligned bs" "N mod 8 = 0" "extent bs \<le> N" using assms(1) by (simp_all add: area_ok_def)
  then have "8 dvd extent bs" "8 dvd N" "extent bs < N"
    using aligned_extent [of bs] assms(2) by (simp_all add: mod_eq_0_iff_dvd)
  then have "8 dvd N - extent bs" "0 < N - extent bs" by (simp_all add: dvd_diff_nat)
  then obtain k where "N - extent bs = 8 * Suc k" by (metis dvdE gr0_implies_Suc mult_0_right neq0_conv)
  then have N: "N = extent bs + 8 * Suc k" by simp
  then show "extent bs + 8 \<le> N" by simp
  from N have "N - extent bs - 4 = 4 + 8 * k" by simp
  then show "(N - extent bs - 4) mod 8 = 4" by simp
qed

lemma area_edits:
  assumes "area_ok h H N bs" "edits A h h'" "A \<inter> headers H bs = {}" "below_2gb h"
  shows "area_ok h' H N bs"
proof -
  have "chain h' H bs"
    using area_bounds [OF assms(1,4)] assms(1,3) by (intro chain_edits [OF assms(2)]) (auto simp: area_ok_def)
  then show ?thesis using assms(1) edits_sel(1) [OF assms(2)] by (simp add: area_ok_def)
qed

text \<open>Cutting a block from the front of what is left.\<close>

lemma ha_malloc_at:
  assumes "H + N < 2147483648" "H + N \<le> hp_pages h * 65536" "T + s + 4 \<le> N"
  shows "ha_malloc h (area H N T) (adr s) = Inr (adr (H + T + 4), area H N (T + s + 4), poke h (H + T) (marker s True))"
proof -
  have mem: "H + T + 4 \<le> hp_pages h * 65536" "H + T < 4294967296" "s < 2147483648" using assms by auto
  obtain h1 where make: "bp_make h (adr (H + T + 4)) (adr s) (adr (H + N)) = Inr (buf (H + T) s (H + N), h1)"
    "mark_alloc h1 (buf (H + T) s (H + N)) = Inr (poke h (H + T) (marker s True))"
    using bp_make_adr [OF mem] by metis
  show ?thesis using assms make by (simp add: ha_malloc_def Let_def adr_simps add.assoc)
qed

lemma ha_malloc_fits:
  assumes ok: "area_ok h H N bs" "below_2gb h" and s: "s mod 8 = 4" "extent bs + s + 4 \<le> N"
  defines "h' \<equiv> poke h (H + extent bs) (marker s True)"
  shows "ha_malloc h (area H N (extent bs)) (adr s) =
           Inr (adr (H + extent bs + 4), area H N (extent bs + s + 4), h')"
    and "area_ok h' H N (bs @ [(s, True)])"
proof -
  note b = area_bounds [OF ok]
  have mem: "H + N \<le> hp_pages h * 65536" using ok(1) unfolding area_ok_def by simp
  show "ha_malloc h (area H N (extent bs)) (adr s) = Inr (adr (H + extent bs + 4), area H N (extent bs + s + 4), h')"
    unfolding h'_def using b(1) mem s(2) by (rule ha_malloc_at)
  show "area_ok h' H N (bs @ [(s, True)])"
    using ok(1) b s mem unfolding h'_def area_ok_def by (simp add: get_poke_same)
qed

lemma ha_malloc_full:
  assumes "area_ok h H N bs" "below_2gb h" "N < extent bs + s + 4" "s < 2147483640"
  shows "ha_malloc h (area H N (extent bs)) (adr s) = Inr (0, area H N (extent bs), h)"
  using area_bounds [OF assms(1,2)] assms(3,4) by (simp add: ha_malloc_def Let_def adr_simps)

text \<open>What is left of an area becomes a free block.\<close>

definition topped_up :: "nat \<Rightarrow> chunk list \<Rightarrow> chunk list" where
  "topped_up N bs = (if extent bs = N then bs else bs @ [(N - extent bs - 4, False)])"

lemma live_topped_up [simp]: "live p (topped_up N bs) = live p bs"
  by (simp add: topped_up_def)

lemma cleanup_remaining_ok:
  assumes ok: "area_ok h H N bs" "below_2gb h"
  obtains h' where "cleanup_remaining h (area H N (extent bs)) = Inr (area H N N, h')"
    "edits {H + extent bs..<H + N} h h'" "area_ok h' H N (topped_up N bs)" "extent (topped_up N bs) = N"
proof (cases "extent bs = N")
  case True
  with ok that [of h] show ?thesis by (simp add: cleanup_remaining_def topped_up_def)
next
  case False
  note b = area_bounds [OF ok] and gap = area_gap [OF ok(1) False]
  define s where "s = N - extent bs - 4"
  have mem: "H + extent bs + 4 \<le> hp_pages h * 65536" "H + extent bs < 4294967296" "s < 2147483648"
    using ok(1) b gap unfolding area_ok_def s_def by auto
  let ?h = "poke h (H + extent bs) (marker s False)"
  obtain h1 where make: "bp_make h (adr (H + extent bs + 4)) (adr s) (adr (H + N)) = Inr (buf (H + extent bs) s (H + N), h1)"
    "mark_free h1 (buf (H + extent bs) s (H + N)) = Inr ?h"
    using bp_make_adr [OF mem] by metis
  show ?thesis
  proof (rule that)
    show "cleanup_remaining h (area H N (extent bs)) = Inr (area H N N, ?h)"
      using b gap make False by (simp add: cleanup_remaining_def Let_def adr_simps add.assoc s_def)
    show "edits {H + extent bs..<H + N} h ?h" using gap by (intro edits_poke) auto
    show "area_ok ?h H N (topped_up N bs)"
      using ok(1) b gap mem False unfolding area_ok_def topped_up_def by (simp add: get_poke_same s_def [symmetric]) (simp add: s_def)
    show "extent (topped_up N bs) = N" using gap False by (simp add: topped_up_def)
  qed
qed

text \<open>A block is freed by its marker alone.\<close>

lemma chain_remark:
  assumes "chain h p (xs @ (s, t) # ys)" "p + extent (xs @ (s, t) # ys) < 4294967296"
    and "p + extent xs + 4 \<le> hp_pages h * 65536"
  shows "chain (poke h (p + extent xs) (marker s t')) p (xs @ (s, t') # ys)"
  using assms by (simp add: get_poke_same add.assoc)

lemma ha_free_ok:
  assumes ok: "area_ok h H N (xs @ (s, t) # ys)" "below_2gb h"
  defines "h' \<equiv> poke h (H + extent xs) (marker s False)"
  shows "ha_free h (area H N T) (adr (H + extent xs + 4)) = Inr h'"
    and "area_ok h' H N (xs @ (s, False) # ys)"
proof -
  note b = area_bounds [OF ok]
  from ok(1) have at: "get_u32 h (adr (H + extent xs)) = Inr (marker s t)" by (simp add: area_ok_def)
  from ok b have mem: "H + extent xs + 4 \<le> hp_pages h * 65536" "H + extent xs < 4294967296" "s < 2147483648"
    by (auto simp: area_ok_def)
  have open': "bp_open h (adr (H + extent xs + 4)) (adr H + adr N) = Inr (buf (H + extent xs) s (H + N))"
    using bp_open_adr [OF at mem(3)] by (simp add: adr_plus)
  have "marker s t AND NOT alloc_memory_mask = marker s False" using mem(3) by (simp add: adr_simps marker_False)
  then show "ha_free h (area H N T) (adr (H + extent xs + 4)) = Inr h'"
    using mark_free_adr [OF at mem(1,2)] by (simp add: ha_free_def open' h'_def)
  show "area_ok h' H N (xs @ (s, False) # ys)"
    using ok(1) b chain_remark [of h H xs s t ys False] mem unfolding area_ok_def h'_def by (simp add: add.assoc)
qed

section \<open>Merging free blocks\<close>

text \<open>
  The specification of the search for a freed block: a free block absorbs the free blocks behind
  it until it is large enough, and the first large enough one is taken, its end split off again.
\<close>

fun absorb :: "nat \<Rightarrow> nat \<Rightarrow> chunk list \<Rightarrow> nat \<times> chunk list" where
  "absorb n s [] = (s, [])"
| "absorb n s ((k, t) # bs) = (if s < n \<and> \<not> t then absorb n (s + k + 4) bs else (s, (k, t) # bs))"

definition split_rest :: "nat \<Rightarrow> nat \<Rightarrow> chunk list" where
  "split_rest n s = (if n < s then [(s - n - 4, False)] else [])"

lemma absorb_split:
  "absorb n s bs = (s', rest) \<Longrightarrow>
     \<exists>ys. bs = ys @ rest \<and> s' = s + extent ys \<and> (\<forall>(k, t) \<in> set ys. \<not> t)"
proof (induction n s bs rule: absorb.induct)
  case (2 n s k t bs)
  show ?case
  proof (cases "s < n \<and> \<not> t")
    case True
    with 2 obtain ys where "bs = ys @ rest" "s' = s + k + 4 + extent ys" "\<forall>(k, t) \<in> set ys. \<not> t" by auto
    with True show ?thesis by (intro exI [of _ "(k, t) # ys"]) auto
  next
    case False
    with 2 show ?thesis by (intro exI [of _ "[]"]) auto
  qed
qed simp

lemma absorb_length: "absorb n s bs = (s', rest) \<Longrightarrow> length rest \<le> length bs"
  using absorb_split by fastforce

lemma live_free: "\<forall>(k, t) \<in> set ys. \<not> t \<Longrightarrow> live p ys = {}"
  by (induction ys arbitrary: p rule: extent.induct) auto

function (sequential) fit :: "nat \<Rightarrow> nat \<Rightarrow> chunk list \<Rightarrow> nat option \<times> chunk list" where
  "fit p n [] = (None, [])"
| "fit p n ((s, True) # bs) = (let (r, bs') = fit (p + 4 + s) n bs in (r, (s, True) # bs'))"
| "fit p n ((s, False) # bs) =
     (let (s', rest) = absorb n s bs in
      if n \<le> s' then (Some (p + 4), (n, True) # split_rest n s' @ rest)
      else let (r, bs') = fit (p + 4 + s') n rest in (r, (s', False) # bs'))"
  by pat_completeness auto
termination
proof (relation "measure (\<lambda>(p, n, bs). length bs)", goal_cases)
  case (3 p n s bs x s' rest)
  then show ?case using absorb_length [of n s bs s' rest] by simp
qed auto

lemma extent_split_rest: "n \<le> s \<Longrightarrow> n mod 8 = 4 \<Longrightarrow> s mod 8 = 4 \<Longrightarrow> n + extent (split_rest n s) = s"
  and aligned_split_rest: "n \<le> s \<Longrightarrow> n mod 8 = 4 \<Longrightarrow> s mod 8 = 4 \<Longrightarrow> aligned (split_rest n s)"
proof -
  assume a: "n \<le> s" "n mod 8 = 4" "s mod 8 = 4"
  then have "8 dvd s - n" using mod_eq_dvd_iff_nat [of n s 8] by simp
  then obtain k where k: "s - n = 8 * k" by (elim dvdE)
  show "n + extent (split_rest n s) = s" using a k by (auto simp: split_rest_def)
  show "aligned (split_rest n s)"
  proof (cases k)
    case (Suc j)
    with k have "s - n - 4 = 4 + 8 * j" by simp
    then show ?thesis by (simp add: split_rest_def)
  qed (use a k in \<open>simp add: split_rest_def\<close>)
qed

lemma live_split_rest [simp]: "live p (split_rest n s) = {}"
  by (simp add: split_rest_def)

lemma absorb_aligned:
  assumes "absorb n s bs = (s', rest)" "aligned ((s, t) # bs)"
  shows "s' mod 8 = 4" "aligned rest"
proof -
  obtain ys where ys: "bs = ys @ rest" "s' = s + extent ys" using absorb_split [OF assms(1)] by blast
  with assms(2) have "s mod 8 = 4" "extent ys mod 8 = 0" "aligned rest" using aligned_extent [of ys] by auto
  with ys(2) show "s' mod 8 = 4" "aligned rest" by presburger+
qed

text \<open>The search keeps the allocated blocks and adds the one it found.\<close>

lemma fit_ok:
  assumes "fit p n bs = (r, bs')" "aligned bs" "n mod 8 = 4"
  shows "extent bs' = extent bs \<and> aligned bs' \<and>
         live p bs' = (case r of None \<Rightarrow> {} | Some q \<Rightarrow> {(q, n)}) \<union> live p bs \<and>
         (\<forall>q. r = Some q \<longrightarrow> {q..<q + n} \<inter> taken_bytes (live p bs) = {} \<and> q \<notin> fst ` live p bs \<and> p + 4 \<le> q \<and> q + n \<le> p + extent bs)"
  using assms
proof (induction p n bs arbitrary: r bs' rule: fit.induct)
  case (2 p n s bs)
  obtain r1 bs1 where f: "fit (p + 4 + s) n bs = (r1, bs1)" by fastforce
  with 2 have [simp]: "r = r1" "bs' = (s, True) # bs1" by auto
  have al: "aligned bs" "s mod 8 = 4" using 2(3) by auto
  note IH = 2(1) [OF f al(1) 2(4)]
  show ?case
  proof (cases r1)
    case (Some q)
    with IH have q: "p + 4 + s + 4 \<le> q" "{q..<q + n} \<inter> taken_bytes (live (p + 4 + s) bs) = {}"
      "q \<notin> fst ` live (p + 4 + s) bs" "q + n \<le> p + 4 + s + extent bs" by auto
    then have "{q..<q + n} \<inter> {p + 4..<p + 4 + s} = {}" "q \<noteq> p + 4" by auto
    with q IH Some al(2) show ?thesis by (simp add: Int_Un_distrib insert_commute)
  qed (use IH al(2) in simp)
next
  case (3 p n s bs)
  obtain s' rest where a: "absorb n s bs = (s', rest)" by fastforce
  obtain ys where ys: "bs = ys @ rest" "s' = s + extent ys" "\<forall>(k, t) \<in> set ys. \<not> t"
    using absorb_split [OF a] by blast
  note al = absorb_aligned [OF a 3(3)]
  have live: "live p ((s, False) # bs) = live (p + 4 + s') rest"
    using ys live_free [OF ys(3)] by (simp add: add.assoc)
  show ?case
  proof (cases "n \<le> s'")
    case True
    with 3 a have [simp]: "r = Some (p + 4)" "bs' = (n, True) # split_rest n s' @ rest" by auto
    have sp: "n + extent (split_rest n s') = s'" "aligned (split_rest n s')"
      using extent_split_rest [OF True 3(4) al(1)] aligned_split_rest [OF True 3(4) al(1)] by auto
    have pos: "p + 4 + n + extent (split_rest n s') = p + 4 + s'" using sp(1) by simp
    have range: "p + 4 + s' + 4 \<le> q" if "(q, k) \<in> live (p + 4 + s') rest" for q k using live_range [OF that] by simp
    then have disj: "{p + 4..<p + 4 + n} \<inter> taken_bytes (live (p + 4 + s') rest) = {}" "p + 4 \<notin> fst ` live (p + 4 + s') rest"
      using True by (fastforce simp: taken_bytes_def)+
    have "live p bs' = insert (p + 4, n) (live (p + 4 + s') rest)" by (simp add: pos)
    then show ?thesis unfolding live using sp disj al 3(4) by (simp add: ys(1,2))
  next
    case False
    obtain r1 bs1 where f: "fit (p + 4 + s') n rest = (r1, bs1)" by fastforce
    with 3 a False have [simp]: "r = r1" "bs' = (s', False) # bs1" by auto
    note IH = 3(1) [OF a [symmetric] refl False f al(2) 3(4)]
    show ?thesis unfolding live using IH al(1) ys by auto
  qed
qed simp

text \<open>The search fails only when no free block is large enough.\<close>

lemma size_extent: "(k, t) \<in> set bs \<Longrightarrow> k < extent bs"
  by (induction bs rule: extent.induct) auto

lemma fit_none: "fit p n bs = (None, bs') \<Longrightarrow> (k, False) \<in> set bs \<Longrightarrow> k < n"
proof (induction p n bs arbitrary: bs' rule: fit.induct)
  case (2 p n s bs)
  then show ?case by (auto split: prod.splits)
next
  case (3 p n s bs)
  obtain s' rest where ab: "absorb n s bs = (s', rest)" by fastforce
  with 3(2) have lt: "s' < n" by (auto split: if_splits)
  obtain r1 bs1 where f: "fit (p + 4 + s') n rest = (r1, bs1)" by fastforce
  obtain ys where ys: "bs = ys @ rest" "s' = s + extent ys" using absorb_split [OF ab] by blast
  have "r1 = None" using 3(2) ab lt f by simp
  with f have IH: "(k, False) \<in> set rest \<Longrightarrow> k < n" using 3(1) [OF ab [symmetric] refl] lt by simp
  moreover have "k < n" if "(k, False) \<in> set ys" using size_extent [OF that] ys(2) lt by simp
  ultimately show ?case using 3(3) ys lt by auto
qed simp

text \<open>Merging makes free blocks larger.\<close>

lemma fit_room: "fit p n bs = (None, bs') \<Longrightarrow> (k, False) \<in> set bs \<Longrightarrow> \<exists>k' \<ge> k. (k', False) \<in> set bs'"
proof (induction p n bs arbitrary: bs' rule: fit.induct)
  case (2 p n s bs)
  then show ?case by (fastforce split: prod.splits)
next
  case (3 p n s bs)
  obtain s' rest where ab: "absorb n s bs = (s', rest)" by fastforce
  with 3(2) have lt: "s' < n" by (auto split: if_splits)
  obtain r1 bs1 where f: "fit (p + 4 + s') n rest = (r1, bs1)" by fastforce
  obtain ys where ys: "bs = ys @ rest" "s' = s + extent ys" using absorb_split [OF ab] by blast
  have eq: "r1 = None" "bs' = (s', False) # bs1" using 3(2) ab lt f by auto
  consider "k = s \<or> (k, False) \<in> set ys" | "(k, False) \<in> set rest" using 3(3) ys by auto
  then show ?case
  proof cases
    case 1
    then have "k \<le> s'" using size_extent [of k False ys] ys(2) by auto
    with eq(2) show ?thesis by auto
  next
    case 2
    then have "\<exists>k' \<ge> k. (k', False) \<in> set bs1" using 3(1) [OF ab [symmetric] refl] lt f eq(1) by simp
    with eq(2) show ?thesis by auto
  qed
qed simp

section \<open>The search in memory\<close>

lemma merge_loop_absorb:
  assumes "chain h (p + 4 + s) bs" "p + 4 + s + extent bs < 2147483648" "n < 2147483648" "n - s < fuel"
  shows "merge_loop fuel h (adr (p + 4)) (adr (p + 4 + s + extent bs)) (adr n) (adr s) = Inr (adr (fst (absorb n s bs)))"
  using assms
proof (induction n s bs arbitrary: fuel rule: absorb.induct)
  case (1 n s)
  then show ?case by (cases fuel) (auto simp: adr_simps)
next
  case (2 n s k t bs)
  obtain fuel' where [simp]: "fuel = Suc fuel'" using 2(5) by (cases fuel) auto
  from 2(2,3) have at: "get_u32 h (adr (p + 4 + s)) = Inr (marker k t)" and k: "k < 2147483648" by auto
  define E where "E = p + 4 + s + extent ((k, t) # bs)"
  have conds: "(adr s < adr n) = (s < n)" "adr (p + 4 + s) < adr E" "adr (p + 4) + adr s = adr (p + 4 + s)"
    using 2(3,4) by (simp_all add: adr_simps E_def)
  have sum: "adr s + (adr k + size_marker) = adr (s + k + 4)" by (simp add: adr_simps add.assoc)
  have step: "merge_loop fuel h (adr (p + 4)) (adr E) (adr n) (adr s) =
      (if s < n then if t then Inr (adr s) else merge_loop fuel' h (adr (p + 4)) (adr E) (adr n) (adr (s + k + 4))
       else Inr (adr s))"
    by (simp add: conds at marker_taken [OF k] marker_size [OF k] sum)
  show ?case
  proof (cases "s < n \<and> \<not> t")
    case True
    then have "merge_loop fuel' h (adr (p + 4)) (adr (p + 4 + (s + k + 4) + extent bs)) (adr n) (adr (s + k + 4)) =
        Inr (adr (fst (absorb n (s + k + 4) bs)))"
      using 2(2,3,4,5) by (intro 2(1)) (auto simp: ac_simps)
    moreover have "p + 4 + (s + k + 4) + extent bs = E" by (simp add: E_def)
    ultimately show ?thesis using True unfolding E_def [symmetric] step by simp
  next
    case False
    then show ?thesis unfolding E_def [symmetric] step by auto
  qed
qed

text \<open>
  What merging writes: the new size in the marker of the block, and the marker of a remainder. It
  reports whether the block has reached the size.
\<close>

definition merged :: "'a linear_scheme \<Rightarrow> nat \<Rightarrow> nat \<Rightarrow> nat \<Rightarrow> bool \<Rightarrow> 'a linear_scheme" where
  "merged h p n s t =
     (let h1 = poke h p (marker (min s n) t) in if n < s then poke h1 (p + 4 + n) (marker (s - n - 4) False) else h1)"

lemma merge_contiguous_absorb:
  assumes ch: "chain h p ((s, t) # bs)" and e: "e = p + 4 + s + extent bs" "e < 2147483648" "e \<le> hp_pages h * 65536"
    and n: "n < 2147483648" "n < s' \<longrightarrow> n + 4 \<le> s'"
    and a: "absorb n s bs = (s', rest)" and sel: "all_or_nothing \<longrightarrow> n \<le> s'"
  shows "merge_contiguous h (buf p s e) (adr n) all_or_nothing = Inr (n \<le> s', buf p (min s' n) e, merged h p n s' t)"
proof -
  obtain ys where ys: "bs = ys @ rest" "s' = s + extent ys" using absorb_split [OF a] by blast
  then have le: "p + 4 + s' \<le> e" using e by simp
  have loop: "merge_loop (unat (adr n) + 1) h (adr (p + 4)) (adr e) (adr n) (adr s) = Inr (adr s')"
    using merge_loop_absorb [of h p s bs n "unat (adr n) + 1"] ch e n(1) a by (simp add: unat_adr add.assoc)
  have size: "bp_set_size h (buf p s e) (adr (min s' n)) = Inr (buf p (min s' n) e, poke h p (marker (min s' n) t))"
    using ch e le n(1) by (intro bp_set_size_adr [where s = s]) auto
  have new: "(if s' < n then adr s' else adr n) = adr (min s' n)" "(adr n < adr s') = (n < s')"
    "(adr (min s' n) = adr n) = (n \<le> s')" "(adr s' < adr n) = (s' < n)"
    using le e n(1) by (auto simp: adr_simps min_def)
  have enough: "\<not> (all_or_nothing \<and> adr e - adr (p + 4) < adr n)" "\<not> (all_or_nothing \<and> s' < n)"
    using sel le e n(1) by (auto simp: adr_simps)
  show ?thesis
  proof (cases "n < s'")
    case True
    let ?h = "poke h p (marker (min s' n) t)"
    have "4 \<le> s' - n" using True n(2) by simp
    then have rest: "p + 4 + n + 4 \<le> hp_pages ?h * 65536" "p + 4 + n < 4294967296" "s' - n - 4 < 2147483648"
      and sub: "adr s' - adr n - size_marker = adr (s' - n - 4)"
      using le e True by (auto simp: adr_simps)
    obtain h1 where make: "bp_make ?h (adr (p + 4 + n + 4)) (adr (s' - n - 4)) (adr e) = Inr (buf (p + 4 + n) (s' - n - 4) e, h1)"
      "mark_free h1 (buf (p + 4 + n) (s' - n - 4) e) = Inr (poke ?h (p + 4 + n) (marker (s' - n - 4) False))"
      using bp_make_adr [OF rest] by metis
    have ptr: "adr (p + 4) + adr n + size_marker = adr (p + 4 + n + 4)" by (simp only: adr_simps)
    show ?thesis
      using enough True
      by (simp only: merge_contiguous_def buf_sel loop bind_res_Inr new Let_def size split_conv sub ptr make merged_def
          if_True if_False less_imp_le)
  next
    case False
    then show ?thesis
      using enough
      by (simp only: merge_contiguous_def buf_sel loop bind_res_Inr new Let_def size split_conv merged_def
          if_True if_False)
  qed
qed

definition cursor :: "nat \<Rightarrow> chunk list \<Rightarrow> 32 word" where
  "cursor p bs = (if bs = [] then 0 else adr (p + 4))"

lemma next_ptr_cursor:
  assumes "e = p + 4 + s + extent bs" "e < 2147483648" "aligned bs"
  shows "next_ptr (buf p s e) = cursor (p + 4 + s) bs"
proof (cases bs)
  case (Cons b bs1)
  with assms(3) have "4 < extent bs" by (cases b) auto
  with assms Cons show ?thesis by (auto simp: next_ptr_def bp_end_def Let_def adr_simps cursor_def)
qed (use assms in \<open>auto simp: next_ptr_def bp_end_def Let_def adr_simps cursor_def\<close>)

lemma get_u32_edits:
  assumes "edits A h h'" "{p..<p + 4} \<inter> A = {}" "p < 4294967296"
  shows "get_u32 h' (adr p) = get_u32 h (adr p)"
proof (rule get_u32_bytes [OF assms(3) edits_sel(1) [OF assms(1)]])
  fix a
  assume "p \<le> a" "a < p + 4"
  with assms(2) have "a \<notin> A" by auto
  then show "hp_bytes h' a = hp_bytes h a" by (rule edits_sel(3) [OF assms(1)])
qed

text \<open>The block that the search takes, with its remainder.\<close>

lemma take_merged:
  assumes ch: "chain h (p + 4 + s) rest" and al: "n \<le> s" "n mod 8 = 4" "s mod 8 = 4"
    and mem: "p + 4 + s + extent rest \<le> hp_pages h * 65536" "p + 4 + s + extent rest < 2147483648"
  obtains h' where "mark_alloc (merged h p n s False) (buf p n e) = Inr h'"
    "chain h' p ((n, True) # split_rest n s @ rest)" "edits {p..<p + 4 + s} h h'"
proof -
  note sp = extent_split_rest [OF al]
  let ?h = "merged h p n s False" and ?h' = "poke (merged h p n s False) p (marker n True)"
  have pages: "hp_pages ?h = hp_pages h" by (simp add: merged_def Let_def)
  have at: "get_u32 ?h (adr p) = Inr (marker n False)"
    using al(1) mem sp by (auto simp: merged_def Let_def get_poke_same get_poke_other)
  have alloc: "mark_alloc ?h (buf p n e) = Inr ?h'"
    using mark_alloc_adr [OF at] pages mem al(1) by (simp add: marker_alloc)
  have eds: "edits {p..<p + 4 + s} h ?h'"
  proof (rule edits_trans [OF _ edits_poke])
    show "edits {p..<p + 4 + s} h ?h"
    proof (cases "n < s")
      case True
      with sp have "n + 8 \<le> s \<or> n + 4 \<le> s" by (simp add: split_rest_def)
      with True show ?thesis unfolding merged_def Let_def
        by (simp, intro edits_trans [OF edits_poke edits_poke]) (use sp in \<open>auto simp: split_rest_def\<close>)
    next
      case False
      then show ?thesis by (simp add: merged_def Let_def edits_poke)
    qed
  qed auto
  have rest: "chain ?h' (p + 4 + s) rest"
    by (rule chain_edits [OF eds ch]) (use mem headers_range in fastforce)+
  have "get_u32 ?h' (adr (p + 4 + n)) = Inr (marker (s - n - 4) False)" if "n < s"
    using that mem al(1) sp by (simp add: merged_def Let_def get_poke_same get_poke_other split_rest_def)
  then have "chain ?h' p ((n, True) # split_rest n s @ rest)"
    using rest sp mem al(1) pages by (auto simp: split_rest_def get_poke_same add.assoc simp del: chain_poke)
  with alloc eds show thesis using that by blast
qed

text \<open>
  The loop is the specified search. It changes only bytes of its part of the area that are not in
  an allocated block.
\<close>

definition rest_ok :: "'a linear_scheme \<Rightarrow> nat \<Rightarrow> chunk list \<Rightarrow> nat \<Rightarrow> bool" where
  "rest_ok h p bs e \<longleftrightarrow> chain h p bs \<and> aligned bs \<and> p + extent bs = e \<and> e < 2147483648 \<and> e \<le> hp_pages h * 65536"

definition searches :: "nat \<Rightarrow> 'a linear_scheme \<Rightarrow> heap_area \<Rightarrow> nat \<Rightarrow> nat \<Rightarrow> chunk list \<Rightarrow> nat \<Rightarrow> bool" where
  "searches fuel h a n p bs e \<longleftrightarrow>
     (\<exists>h'. freed_loop fuel h a (adr n) (cursor p bs) = Inr (case fst (fit p n bs) of None \<Rightarrow> 0 | Some q \<Rightarrow> adr q, h') \<and>
           chain h' p (snd (fit p n bs)) \<and> edits ({p..<e} - taken_bytes (live p bs)) h h')"

lemma searchesI:
  assumes "fit p n bs = (r, bs')" "freed_loop fuel h a (adr n) (cursor p bs) = Inr (case r of None \<Rightarrow> 0 | Some q \<Rightarrow> adr q, h')"
    and "chain h' p bs'" "edits ({p..<e} - taken_bytes (live p bs)) h h'"
  shows "searches fuel h a n p bs e"
  using assms unfolding searches_def by auto

lemma rest_head:
  assumes "rest_ok h p ((s, t) # bs) e"
  shows "get_u32 h (adr p) = Inr (marker s t)" "s < 2147483648" "adr (p + 4) \<noteq> 0" "s mod 8 = 4" "rest_ok h (p + 4 + s) bs e"
    "next_ptr (buf p s e) = cursor (p + 4 + s) bs"
proof -
  show "get_u32 h (adr p) = Inr (marker s t)" "s < 2147483648" "adr (p + 4) \<noteq> 0" "s mod 8 = 4" "rest_ok h (p + 4 + s) bs e"
    using assms by (auto simp: rest_ok_def adr_0)
  show "next_ptr (buf p s e) = cursor (p + 4 + s) bs"
    using assms by (intro next_ptr_cursor) (auto simp: rest_ok_def)
qed

text \<open>An allocated block is passed over.\<close>

lemma freed_skip:
  assumes ok: "rest_ok h p ((s, True) # bs) e" "ha_end a = adr e" and IH: "searches fuel h a n (p + 4 + s) bs e"
  shows "searches (Suc fuel) h a n p ((s, True) # bs) e"
proof -
  note hd = rest_head [OF ok(1)]
  obtain r bs1 where f: "fit (p + 4 + s) n bs = (r, bs1)" by fastforce
  with IH obtain h' where h': "freed_loop fuel h a (adr n) (cursor (p + 4 + s) bs) = Inr (case r of None \<Rightarrow> 0 | Some q \<Rightarrow> adr q, h')"
    "chain h' (p + 4 + s) bs1" "edits ({p + 4 + s..<e} - taken_bytes (live (p + 4 + s) bs)) h h'"
    unfolding searches_def by auto
  show ?thesis
  proof (rule searchesI)
    show "fit p n ((s, True) # bs) = (r, (s, True) # bs1)" using f by simp
    show "freed_loop (Suc fuel) h a (adr n) (cursor p ((s, True) # bs)) = Inr (case r of None \<Rightarrow> 0 | Some q \<Rightarrow> adr q, h')"
      using hd(3,6) ok(2) h'(1) by (simp add: cursor_def bp_open_adr [OF hd(1,2)] is_alloc_adr [OF hd(1,2)])
    have "get_u32 h' (adr p) = get_u32 h (adr p)"
      by (rule get_u32_edits [OF h'(3)]) (use ok(1) in \<open>auto simp: rest_ok_def\<close>)
    then show "chain h' p ((s, True) # bs1)" using h'(2) hd(1) by simp
    show "edits ({p..<e} - taken_bytes (live p ((s, True) # bs))) h h'" by (rule edits_mono [OF h'(3)]) auto
  qed
qed

text \<open>A free block, with the free blocks behind it.\<close>

lemma freed_merges:
  assumes ok: "rest_ok h p ((s, False) # bs) e" "ha_end a = adr e" "n mod 8 = 4" "n < 2147483648" and ab: "absorb n s bs = (s', rest)"
  shows "freed_loop (Suc fuel) h a (adr n) (cursor p ((s, False) # bs)) =
      (if n \<le> s' then bind_res (mark_alloc (merged h p n s' False) (buf p (min s' n) e)) (\<lambda>h2. Inr (adr (p + 4), h2))
       else freed_loop fuel (merged h p n s' False) a (adr n) (next_ptr (buf p (min s' n) e)))"
    and "e = p + 4 + s' + extent rest" "chain h (p + 4 + s') rest" "s' mod 8 = 4" "aligned rest"
    and "live p ((s, False) # bs) = live (p + 4 + s') rest"
proof -
  note hd = rest_head [OF ok(1)]
  from ok(1) have r: "chain h p ((s, False) # bs)" "aligned ((s, False) # bs)" "p + extent ((s, False) # bs) = e"
    "e < 2147483648" "e \<le> hp_pages h * 65536" unfolding rest_ok_def by blast+
  obtain ys where ys: "bs = ys @ rest" "s' = s + extent ys" "\<forall>(k, t) \<in> set ys. \<not> t"
    using absorb_split [OF ab] by blast
  note al = absorb_aligned [OF ab r(2)]
  show "s' mod 8 = 4" "aligned rest" by (rule al)+
  show "e = p + 4 + s' + extent rest" "chain h (p + 4 + s') rest" using r(1,3) ys by (auto simp: add.assoc)
  show "live p ((s, False) # bs) = live (p + 4 + s') rest" using ys live_free [OF ys(3)] by (simp add: add.assoc)
  have gap: "n < s' \<longrightarrow> n + 4 \<le> s'" using extent_split_rest [of n s'] ok(3) al(1) by (auto simp: split_rest_def)
  have "merge_contiguous h (buf p s e) (adr n) False = Inr (n \<le> s', buf p (min s' n) e, merged h p n s' False)"
    using r ok(4) gap ab by (intro merge_contiguous_absorb [where rest = rest]) auto
  then show "freed_loop (Suc fuel) h a (adr n) (cursor p ((s, False) # bs)) =
      (if n \<le> s' then bind_res (mark_alloc (merged h p n s' False) (buf p (min s' n) e)) (\<lambda>h2. Inr (adr (p + 4), h2))
       else freed_loop fuel (merged h p n s' False) a (adr n) (next_ptr (buf p (min s' n) e)))"
    using ok(2) hd(3) by (simp add: cursor_def bp_open_adr [OF hd(1,2)] is_alloc_adr [OF hd(1,2)])
qed

lemma freed_take:
  assumes ok: "rest_ok h p ((s, False) # bs) e" "ha_end a = adr e" "n mod 8 = 4" "n < 2147483648" and ab: "absorb n s bs = (s', rest)"
    and enough: "n \<le> s'"
  shows "searches (Suc fuel) h a n p ((s, False) # bs) e"
proof -
  note m = freed_merges [OF ok ab]
  have mem: "e < 2147483648" "e \<le> hp_pages h * 65536" using ok(1) by (simp_all add: rest_ok_def)
  obtain h' where h': "mark_alloc (merged h p n s' False) (buf p n e) = Inr h'"
    "chain h' p ((n, True) # split_rest n s' @ rest)" "edits {p..<p + 4 + s'} h h'"
    using take_merged [OF m(3) enough ok(3) m(4)] m(2) mem by blast
  show ?thesis
  proof (rule searchesI)
    show "fit p n ((s, False) # bs) = (Some (p + 4), (n, True) # split_rest n s' @ rest)" using ab enough by simp
    show "freed_loop (Suc fuel) h a (adr n) (cursor p ((s, False) # bs)) =
        Inr (case Some (p + 4) of None \<Rightarrow> 0 | Some q \<Rightarrow> adr q, h')"
      using h'(1) enough unfolding m(1) by (simp add: min_absorb2)
    show "chain h' p ((n, True) # split_rest n s' @ rest)" by (rule h'(2))
    show "edits ({p..<e} - taken_bytes (live p ((s, False) # bs))) h h'"
      unfolding m(6) by (rule edits_mono [OF h'(3)]) (use m(2) taken_bytes_live_range in fastforce)
  qed
qed

lemma freed_pass:
  assumes ok: "rest_ok h p ((s, False) # bs) e" "ha_end a = adr e" "n mod 8 = 4" "n < 2147483648" and ab: "absorb n s bs = (s', rest)"
    and small: "s' < n" and IH: "searches fuel (poke h p (marker s' False)) a n (p + 4 + s') rest e"
  shows "searches (Suc fuel) h a n p ((s, False) # bs) e"
proof -
  note m = freed_merges [OF ok ab]
  have mem: "e < 2147483648" "e \<le> hp_pages h * 65536" using ok(1) by (simp_all add: rest_ok_def)
  let ?h = "poke h p (marker s' False)"
  obtain r bs1 where f: "fit (p + 4 + s') n rest = (r, bs1)" by fastforce
  with IH obtain h' where h': "freed_loop fuel ?h a (adr n) (cursor (p + 4 + s') rest) = Inr (case r of None \<Rightarrow> 0 | Some q \<Rightarrow> adr q, h')"
    "chain h' (p + 4 + s') bs1" "edits ({p + 4 + s'..<e} - taken_bytes (live (p + 4 + s') rest)) ?h h'"
    unfolding searches_def by auto
  show ?thesis
  proof (rule searchesI)
    show "fit p n ((s, False) # bs) = (r, (s', False) # bs1)" using ab small f by simp
    have "merged h p n s' False = ?h" "min s' n = s'" using small by (simp_all add: merged_def)
    moreover have "next_ptr (buf p s' e) = cursor (p + 4 + s') rest" using m(2,5) mem(1) by (intro next_ptr_cursor) auto
    ultimately show "freed_loop (Suc fuel) h a (adr n) (cursor p ((s, False) # bs)) = Inr (case r of None \<Rightarrow> 0 | Some q \<Rightarrow> adr q, h')"
      using h'(1) small unfolding m(1) by simp
    have "get_u32 h' (adr p) = get_u32 ?h (adr p)" by (rule get_u32_edits [OF h'(3)]) (use m(2) mem in auto)
    then show "chain h' p ((s', False) # bs1)" using h'(2) m(2) mem by (simp add: get_poke_same)
    have "edits ({p..<e} - taken_bytes (live (p + 4 + s') rest)) h ?h"
      by (rule edits_poke) (use m(2) taken_bytes_live_range in fastforce)
    moreover have "edits ({p..<e} - taken_bytes (live (p + 4 + s') rest)) ?h h'" by (rule edits_mono [OF h'(3)]) auto
    ultimately show "edits ({p..<e} - taken_bytes (live p ((s, False) # bs))) h h'" unfolding m(6) by (rule edits_trans)
  qed
qed

lemma freed_loop_fit:
  assumes "rest_ok h p bs e" "n mod 8 = 4" "n < 2147483648" "length bs < fuel" "ha_end a = adr e"
  shows "searches fuel h a n p bs e"
  using assms
proof (induction p n bs arbitrary: h fuel rule: fit.induct)
  case (1 p n)
  then show ?case by (cases fuel) (auto simp: searches_def cursor_def)
next
  case (2 p n s bs)
  then obtain f where "fuel = Suc f" by (cases fuel) auto
  with 2 rest_head(5) [OF 2(2)] show ?case by (auto intro!: freed_skip)
next
  case (3 p n s bs)
  then obtain f where f: "fuel = Suc f" by (cases fuel) auto
  obtain s' rest where ab: "absorb n s bs = (s', rest)" by fastforce
  note m = freed_merges [OF 3(2,6,3,4) ab]
  show ?case
  proof (cases "n \<le> s'")
    case True
    then show ?thesis using freed_take [OF 3(2,6,3,4) ab] f by simp
  next
    case False
    let ?h = "poke h p (marker s' False)"
    have "rest_ok ?h (p + 4 + s') rest e" using m(2,3,5) 3(2) by (simp add: rest_ok_def)
    moreover have "length rest < f" using absorb_length [OF ab] 3(5) f by simp
    ultimately have "searches f ?h a n (p + 4 + s') rest e"
      using 3(1) [OF ab [symmetric] refl False] 3(3,4,6) by blast
    then show ?thesis using freed_pass [OF 3(2,6,3,4) ab] False f by simp
  qed
qed

lemma length_extent: "length bs \<le> extent bs"
  by (induction bs rule: extent.induct) auto

lemma malloc_from_freed_fit:
  assumes ok: "area_ok h H N bs" "below_2gb h" and full: "extent bs = N" "0 < N"
    and n: "n mod 8 = 4" "n < 2147483648" and f: "fit H n bs = (r, bs')"
  obtains h' where "malloc_from_freed h (area H N N) (adr n) = Inr (case r of None \<Rightarrow> 0 | Some q \<Rightarrow> adr q, h')"
    "area_ok h' H N bs'" "edits ({H..<H + N} - taken_bytes (live H bs)) h h'" "extent bs' = N"
proof -
  note b = area_bounds [OF ok]
  from ok(1) have area: "chain h H bs" "aligned bs" "H + N \<le> hp_pages h * 65536" "N mod 8 = 0" by (simp_all add: area_ok_def)
  have cur: "cursor H bs = adr (H + 4)" using full by (auto simp: cursor_def)
  have "length bs < unat (adr N) + 1" using length_extent [of bs] full(1) b by (simp add: unat_adr)
  moreover have "rest_ok h H bs (H + N)" using area b full(1) by (simp add: rest_ok_def)
  ultimately have "searches (unat (adr N) + 1) h (area H N N) n H bs (H + N)"
    using n by (intro freed_loop_fit) (simp_all add: adr_plus)
  then obtain h' where h': "malloc_from_freed h (area H N N) (adr n) = Inr (case r of None \<Rightarrow> 0 | Some q \<Rightarrow> adr q, h')"
    "chain h' H bs'" "edits ({H..<H + N} - taken_bytes (live H bs)) h h'"
    using f unfolding malloc_from_freed_def area_sel adr_plus_numeral searches_def cur by auto
  moreover have "extent bs' = N" "aligned bs'" using fit_ok [OF f area(2) n(1)] full(1) by auto
  ultimately show thesis
    using that area(3,4) b edits_sel(1) [OF h'(3)] by (auto simp: area_ok_def)
qed

end
