(* ===== verification/Heap_Realloc.thy ===== *)
theory Heap_Realloc
  imports Heap_Blocks
begin

unbundle bit_operations_syntax

text \<open>
  \<open>memory::realloc_in_place\<close> of \<open>malloc.cpp\<close>: the last block of an area grows into what is left of it,
  a smaller size leaves the blocks as they are, and a block before a freed one can grow over memory
  that the area hands out again.
\<close>

section \<open>Branches that keep the blocks\<close>

lemma realloc_open:
  assumes ok: "area_ok h H N (xs @ (s, True) # ys)" "below_2gb h" and n: "extent xs + 4 + n \<le> N"
  shows "realloc_in_place h (area H N T) (adr (H + extent xs + 4)) (adr n) =
     (if n < s then
        bind_res (bp_make h (adr (H + extent xs + 4 + n + 4)) (adr (s - n)) (adr (H + N))) (\<lambda>(excess_to_free, h1).
        bind_res (mark_free h1 excess_to_free) (\<lambda>h2. Inr (adr (H + extent xs + 4), adr s, area H N T, h2)))
      else if adr (H + extent xs + 4 + s) = adr (H + T) then
        bind_res (bp_set_size h (buf (H + extent xs) s (H + N)) (adr n)) (\<lambda>(b1, h1).
          Inr (adr (H + extent xs + 4), adr s, (area H N T)\<lparr>ha_offset := adr T + (adr n - adr s)\<rparr>, h1))
      else if n = s then Inr (adr (H + extent xs + 4), adr s, area H N T, h)
      else bind_res (merge_contiguous h (buf (H + extent xs) s (H + N)) (adr n) True) (\<lambda>(enough, b1, h1).
           if \<not> enough then Inr (0, adr s, area H N T, h1)
           else bind_res (mark_alloc h1 b1) (\<lambda>h2. Inr (adr (H + extent xs + 4), adr s, area H N T, h2))))"
proof -
  note b = area_bounds [OF ok]
  have at: "get_u32 h (adr (H + extent xs)) = Inr (marker s True)" and s: "s < 2147483648" "extent xs + 4 + s \<le> N"
    using ok(1) b by (auto simp: area_ok_def)
  note opened = bp_open_adr [OF at s(1), of "H + N"]
  have fin: "\<not> adr (H + N) < adr (H + extent xs + 4) + adr s" "\<not> adr (H + N) - adr n < adr (H + extent xs + 4)"
    using b s n by (simp_all add: adr_simps)
  have cmp: "(adr n < adr s) = (n < s)" "(adr n = adr s) = (n = s)" using b s n by (simp_all add: adr_simps)
  have add: "adr (H + extent xs + 4) + adr n + size_marker = adr (H + extent xs + 4 + n + 4)"
    "adr (H + extent xs + 4) + adr s = adr (H + extent xs + 4 + s)" by (simp_all only: adr_plus adr_plus_numeral)
  have sub: "n < s \<Longrightarrow> adr s - adr n = adr (s - n)" by (simp add: adr_minus)
  show ?thesis
    unfolding realloc_in_place_def area_sel adr_plus [of H N] opened bind_res_Inr Let_def bp_end_def buf_sel add(1)
    using fin sub by (simp add: cmp add(2) adr_plus)
qed

text \<open>The last block takes more of the area, or is refused.\<close>

lemma realloc_last:
  assumes ok: "area_ok h H N (xs @ [(s, True)])" "below_2gb h" and n: "n mod 8 = 4" "s \<le> n" "extent xs + 4 + n \<le> N"
  defines "h' \<equiv> poke h (H + extent xs) (marker n True)"
  shows "realloc_in_place h (area H N (extent (xs @ [(s, True)]))) (adr (H + extent xs + 4)) (adr n) =
           Inr (adr (H + extent xs + 4), adr s, area H N (extent (xs @ [(n, True)])), h')"
    and "area_ok h' H N (xs @ [(n, True)])"
proof -
  note b = area_bounds [OF ok]
  have at: "get_u32 h (adr (H + extent xs)) = Inr (marker s True)" and s: "s < 2147483648"
    and mem: "H + extent xs + 4 \<le> hp_pages h * 65536" "H + extent xs < 4294967296" "n < 2147483648"
    using ok(1) b n by (auto simp: area_ok_def)
  have "adr (extent (xs @ [(s, True)])) + (adr n - adr s) = adr (extent (xs @ [(n, True)]))"
    using n(2) by (simp add: adr_minus adr_plus)
  then show "realloc_in_place h (area H N (extent (xs @ [(s, True)]))) (adr (H + extent xs + 4)) (adr n) =
      Inr (adr (H + extent xs + 4), adr s, area H N (extent (xs @ [(n, True)])), h')"
    using realloc_open [OF ok n(3), of "extent (xs @ [(s, True)])"] n(2) bp_set_size_adr [OF at mem(1,2) s mem(3)]
    by (simp add: h'_def add.assoc)
  show "area_ok h' H N (xs @ [(n, True)])"
    using ok(1) b n mem unfolding h'_def area_ok_def by (simp add: get_poke_same)
qed

text \<open>
  A smaller size writes a marker for the excess inside the block, but not the size of the block: the
  blocks of the area, and so the memory that can be allocated, stay as they were.
\<close>

lemma realloc_shrinks_nothing:
  assumes ok: "area_ok h H N (xs @ (s, True) # ys)" "below_2gb h" and n: "n + 8 \<le> s"
  shows "\<exists>h'. realloc_in_place h (area H N T) (adr (H + extent xs + 4)) (adr n) =
                Inr (adr (H + extent xs + 4), adr s, area H N T, h') \<and> area_ok h' H N (xs @ (s, True) # ys)"
proof -
  note b = area_bounds [OF ok]
  let ?q = "H + extent xs + 4"
  have s: "extent xs + 4 + s \<le> N" "H + N \<le> hp_pages h * 65536" using ok(1) by (auto simp: area_ok_def)
  have mem: "?q + n + 4 \<le> hp_pages h * 65536" "?q + n < 4294967296" "s - n < 2147483648" using s b n by auto
  let ?h = "poke h (?q + n) (marker (s - n) False)"
  obtain h1 where make: "bp_make h (adr (?q + n + 4)) (adr (s - n)) (adr (H + N)) = Inr (buf (?q + n) (s - n) (H + N), h1)"
    "mark_free h1 (buf (?q + n) (s - n) (H + N)) = Inr ?h"
    using bp_make_adr [OF mem] by metis
  have "{?q + n..<?q + n + 4} \<inter> headers H (xs @ (s, True) # ys) = {}"
    using n headers_range [of _ H xs] headers_range [of _ "?q + s" ys] by fastforce
  then have "area_ok ?h H N (xs @ (s, True) # ys)" using area_edits [OF ok(1) edits_poke _ ok(2)] by blast
  moreover have "realloc_in_place h (area H N T) (adr ?q) (adr n) = Inr (adr ?q, adr s, area H N T, ?h)"
    using realloc_open [OF ok, of n T] n s(1) make by simp
  ultimately show ?thesis by blast
qed

section \<open>Growing over memory that is handed out again\<close>

text \<open>Untouched memory reads as free blocks of size 0.\<close>

lemma zero_chain:
  assumes "\<And>a. p \<le> a \<Longrightarrow> a < p + 4 * j \<Longrightarrow> hp_bytes h a = 0" "p + 4 * j \<le> hp_pages h * 65536" "p + 4 * j < 4294967296"
  shows "chain h p (replicate j (0, False))"
  using assms
proof (induction j arbitrary: p)
  case (Suc j)
  have "hp_bytes h (p + i) = 0" if "i < 4" for i using that by (intro Suc.prems(1)) auto
  from this [of 0] this [of 1] this [of 2] this [of 3] have "get_u32 h (adr p) = Inr 0"
    using Suc.prems(2,3) by (simp add: get_u32_def in_memory_def unat_adr)
  then have "get_u32 h (adr p) = Inr (marker 0 False)" by (simp add: marker_False adr_def)
  moreover have "chain h (p + 4) (replicate j (0, False))" using Suc.prems by (intro Suc.IH) auto
  ultimately show ?case by simp
qed simp

lemma extent_zeros [simp]: "extent (replicate j (0, False)) = 4 * j"
  by (induction j) auto

lemma absorb_zeros: "i \<le> j \<Longrightarrow> absorb (s + 4 * i) s (replicate j (0, False)) = (s + 4 * i, replicate (j - i) (0, False))"
proof (induction i arbitrary: s j)
  case 0
  then show ?case by (cases j) auto
next
  case (Suc i)
  then obtain j' where "j = Suc j'" by (cases j) auto
  with Suc.IH [of j' "s + 4"] Suc.prems show ?case by (simp add: add.assoc add.commute [of 4])
qed

lemma merge_over_zeros:
  assumes ok: "area_ok h H N (xs @ [(s, True), (k, False)])" "below_2gb h"
    and zero: "\<And>a. H + extent (xs @ [(s, True), (k, False)]) \<le> a \<Longrightarrow> a < H + N \<Longrightarrow> hp_bytes h a = 0"
    and n: "n mod 8 = 4" "s + k + 4 < n" "extent xs + 4 + n \<le> N"
  shows "merge_contiguous h (buf (H + extent xs) s (H + N)) (adr n) True =
           Inr (True, buf (H + extent xs) n (H + N), poke h (H + extent xs) (marker n True))"
proof -
  note b = area_bounds [OF ok]
  let ?T = "extent (xs @ [(s, True), (k, False)])"
  from ok(1) have m8: "s mod 8 = 4" "k mod 8 = 4" "?T mod 8 = 0" "N mod 8 = 0" "?T \<le> N" "H + N \<le> hp_pages h * 65536"
    using aligned_extent [of "xs @ [(s, True), (k, False)]"] by (simp_all add: area_ok_def)
  then have "4 dvd N - ?T" by (intro dvd_diff_nat) (auto simp: mod_eq_0_iff_dvd dest: dvd_trans [of 4 8])
  then obtain j where j: "N = ?T + 4 * j" using m8(5) by (metis dvdE le_add_diff_inverse)
  have "(s + k + 4) mod 8 = 4" using m8(1,2) by presburger
  then have "8 dvd n - (s + k + 4)" using n(1,2) mod_eq_dvd_iff_nat [of "s + k + 4" n 8] by simp
  then have "4 dvd n - (s + k + 4)" by (rule dvd_trans [rotated]) simp
  then obtain i where i: "n = s + k + 4 + 4 * i" using n(2) by (metis dvdE le_add_diff_inverse less_imp_le)
  then have ij: "i \<le> j" using n(3) j by simp
  have "chain h (H + ?T) (replicate j (0, False))"
    using zero j m8(6) b by (intro zero_chain) auto
  then have ch: "chain h (H + extent xs) ((s, True) # (k, False) # replicate j (0, False))"
    using ok(1) by (simp add: area_ok_def add.assoc)
  have "absorb n s ((k, False) # replicate j (0, False)) = (n, replicate (j - i) (0, False))"
    using absorb_zeros [OF ij, of "s + k + 4"] n(2) i by simp
  moreover have "H + N = H + extent xs + 4 + s + extent ((k, False) # replicate j (0, False))" using j by simp
  ultimately have "merge_contiguous h (buf (H + extent xs) s (H + N)) (adr n) True =
      Inr (n \<le> n, buf (H + extent xs) (min n n) (H + N), merged h (H + extent xs) n n True)"
    using b m8(6) n(3) by (intro merge_contiguous_absorb [OF ch]) auto
  then show ?thesis by (simp add: merged_def)
qed

text \<open>
  C39. \<open>realloc\<close> of \<open>malloc.cpp\<close> can hand out memory twice. When a block is followed by a freed block
  that is the last one cut from its area, and the rest of the area is untouched, a request that is
  larger than both succeeds in place, because the untouched memory reads as free blocks of size 0.
  The offset of the area does not move, so that the next block cut from the area lies inside the
  block that was resized.
\<close>

theorem realloc_overlaps:
  assumes "area_ok h H N (xs @ [(s, True), (k, False)])" "below_2gb h"
    and "\<And>a. H + extent (xs @ [(s, True), (k, False)]) \<le> a \<Longrightarrow> a < H + N \<Longrightarrow> hp_bytes h a = 0"
    and "n mod 8 = 4" "s + k + 4 < n" "extent xs + 4 + n \<le> N"
    and "extent (xs @ [(s, True), (k, False)]) + t + 4 \<le> N"
  defines "q \<equiv> H + extent xs + 4" and "T \<equiv> extent (xs @ [(s, True), (k, False)])"
  shows "\<exists>h1 h2 r. realloc_in_place h (area H N T) (adr q) (adr n) = Inr (adr q, adr s, area H N T, h1) \<and>
           ha_malloc h1 (area H N T) (adr t) = Inr (adr r, area H N (T + t + 4), h2) \<and> q \<le> r \<and> r < q + n"
proof -
  note b = area_bounds [OF assms(1,2)]
  have mem: "H + N \<le> hp_pages h * 65536" "s mod 8 = 4" "k mod 8 = 4" using assms(1) by (simp_all add: area_ok_def)
  let ?h = "poke h (H + extent xs) (marker n True)"
  have n: "n < 2147483648" "H + extent xs + 4 \<le> hp_pages h * 65536" "H + extent xs < 4294967296" using b mem assms(6) by auto
  have at: "get_u32 ?h (adr (H + extent xs)) = Inr (marker n True)" using n(2,3) by (rule get_poke_same)
  have "mark_alloc ?h (buf (H + extent xs) n (H + N)) = Inr ?h"
    using mark_alloc_adr [OF at] n by (simp add: marker_alloc)
  moreover have "adr (H + extent xs + 4 + s) \<noteq> adr (H + T)" "s < n" using b assms(5) by (auto simp: adr_eq T_def)
  ultimately have "realloc_in_place h (area H N T) (adr q) (adr n) = Inr (adr q, adr s, area H N T, ?h)"
    using realloc_open [OF assms(1,2,6), of T] merge_over_zeros [OF assms(1-6)] by (simp add: q_def)
  moreover have "ha_malloc ?h (area H N T) (adr t) = Inr (adr (H + T + 4), area H N (T + t + 4), poke ?h (H + T) (marker t True))"
    using b mem(1) assms(7) by (intro ha_malloc_at) (auto simp: T_def)
  moreover have "(s + k + 4) mod 8 = 4" using mem(2,3) by presburger
  then have "8 dvd n - (s + k + 4)" using assms(4,5) mod_eq_dvd_iff_nat [of "s + k + 4" n 8] by simp
  then have "8 \<le> n - (s + k + 4)" using assms(5) by (intro dvd_imp_le) auto
  then have "q \<le> H + T + 4" "H + T + 4 < q + n" by (auto simp: q_def T_def)
  ultimately show ?thesis by blast
qed

theorem realloc_overlaps_witness:
  "\<exists>h1 h2 r. realloc_in_place (poke (poke \<lparr>hp_pages = 1, hp_limit = 16, hp_bytes = \<lambda>_. 0\<rparr> 1024 (marker 4 True)) 1032 (marker 4 False))
       (area 1024 8192 16) (adr 1028) (adr 20) = Inr (adr 1028, adr 4, area 1024 8192 16, h1) \<and>
     ha_malloc h1 (area 1024 8192 16) (adr 4) = Inr (adr r, area 1024 8192 24, h2) \<and> 1028 \<le> r \<and> r < 1028 + (20 :: nat)"
proof -
  let ?z = "\<lparr>hp_pages = 1, hp_limit = 16, hp_bytes = \<lambda>_. 0\<rparr>"
  let ?h = "poke (poke ?z 1024 (marker 4 True)) 1032 (marker 4 False)"
  have "area_ok ?h 1024 8192 ([] @ [(4, True), (4, False)])"
    by (simp add: area_ok_def get_poke_same get_poke_other)
  moreover have "hp_bytes ?h a = 0" if "1024 + extent ([] @ [(4, True), (4, False)]) \<le> a" "a < 1024 + 8192" for a
    using that by simp
  ultimately show ?thesis using realloc_overlaps [of ?h 1024 8192 "[]" 4 4 20 4] by simp
qed

section \<open>Requests near 4 GiB\<close>

text \<open>Rounding up wraps around: the three largest sizes are served with a block of four bytes.\<close>

lemma malloc_wraps: "mm_malloc m (- 1) = mm_malloc m 4" "mm_malloc m (- 2) = mm_malloc m 4" "mm_malloc m (- 3) = mm_malloc m 4"
proof -
  have "adjust_to_mem_block (- 1) = 4" "adjust_to_mem_block (- 2) = 4" "adjust_to_mem_block (- 3) = 4" "adjust_to_mem_block 4 = 4"
    by (simp_all add: adjust_to_mem_block_def)
  then show "mm_malloc m (- 1) = mm_malloc m 4" "mm_malloc m (- 2) = mm_malloc m 4" "mm_malloc m (- 3) = mm_malloc m 4"
    by (simp_all only: mm_malloc_def) simp_all
qed

text \<open>
  The sum of offset, size and marker wraps around too: four bytes less and the area returns a
  pointer without moving its offset, so that the next block is at the same address.
\<close>

lemma ha_malloc_wraps:
  assumes "H + N < 2147483648" "H + N \<le> hp_pages h * 65536" "T + t + 4 \<le> N"
  shows "\<exists>h1 h2. ha_malloc h (area H N T) (- 4) = Inr (adr (H + T + 4), area H N T, h1) \<and>
                 ha_malloc h1 (area H N T) (adr t) = Inr (adr (H + T + 4), area H N (T + t + 4), h2)"
proof -
  have mem: "H + T + 4 \<le> hp_pages h * 65536" "H + T < 4294967296" using assms by auto
  obtain w where w: "get_u32 h (adr (H + T)) = Inr w" using get_u32_ok [OF mem] by blast
  let ?v = "(- 4) OR (w AND alloc_memory_mask)"
  let ?h = "poke (poke h (H + T) ?v) (H + T) (?v OR alloc_memory_mask)"
  have "\<not> adr N < adr T + - 4 + size_marker" using assms by (simp add: adr_simps)
  then have "ha_malloc h (area H N T) (- 4) = Inr (adr (H + T + 4), area H N T, ?h)"
    using mem by (simp add: ha_malloc_def bp_make_def bp_set_size_def mark_alloc_def Let_def adr_simps add.assoc
        w put_u32_adr get_poke_same)
  moreover have "ha_malloc ?h (area H N T) (adr t) = Inr (adr (H + T + 4), area H N (T + t + 4), poke ?h (H + T) (marker t True))"
    using assms by (intro ha_malloc_at) simp_all
  ultimately show ?thesis by blast
qed

end
