(* ===== verification/Heap_Client.thy ===== *)
theory Heap_Client
  imports Linear_Memory
begin

text \<open>
  Programs that use an allocator: sequences of \<open>malloc\<close>, \<open>free\<close> and writes to the blocks they own. The
  locale \<open>block_allocator\<close> is what such a program relies on; from it follows that the program runs as
  if it had a list of private blocks.
\<close>

section \<open>Sessions\<close>

text \<open>
  The client keeps the pointers of its blocks with the sizes it asked for, and names a block by its
  position.
\<close>

datatype heap_call = Malloc "32 word" | Free nat | Store nat nat byte

type_synonym 'h client = "'h \<times> (nat \<times> nat) list"

text \<open>An allocator is a pair of functions on linear memory with some state of its own.\<close>

type_synonym 'h alloc_fun = "'h \<Rightarrow> 32 word \<Rightarrow> (32 word \<times> 'h) res"
type_synonym 'h release_fun = "'h \<Rightarrow> 32 word \<Rightarrow> 'h res"

definition without :: "nat \<Rightarrow> 'a list \<Rightarrow> 'a list" where
  "without i xs = take i xs @ drop (Suc i) xs"

fun heap_step ::
  "'s linear_scheme alloc_fun \<Rightarrow> 's linear_scheme release_fun \<Rightarrow> 's linear_scheme client \<Rightarrow> heap_call \<Rightarrow>
   's linear_scheme client res" where
  "heap_step alloc release (m, L) (Malloc n) =
     bind_res (alloc m n) (\<lambda>(p, m1). Inr (m1, if p = 0 then L else L @ [(unat p, unat n)]))"
| "heap_step alloc release (m, L) (Free i) =
     (if i < length L then bind_res (release m (word_of_nat (fst (L ! i)))) (\<lambda>m1. Inr (m1, without i L)) else Inr (m, L))"
| "heap_step alloc release (m, L) (Store i k b) =
     (if i < length L \<and> k < snd (L ! i) then Inr (m\<lparr>hp_bytes := (hp_bytes m)(fst (L ! i) + k := b)\<rparr>, L) else Inr (m, L))"

fun heap_run ::
  "'s linear_scheme alloc_fun \<Rightarrow> 's linear_scheme release_fun \<Rightarrow> 's linear_scheme client \<Rightarrow> heap_call list \<Rightarrow>
   's linear_scheme client res" where
  "heap_run alloc release c [] = Inr c"
| "heap_run alloc release c (x # xs) = bind_res (heap_step alloc release c x) (\<lambda>c1. heap_run alloc release c1 xs)"

text \<open>The size that a call asks for.\<close>

fun request :: "heap_call \<Rightarrow> nat" where
  "request (Malloc n) = unat n"
| "request (Free i) = 0"
| "request (Store i k b) = 0"

text \<open>The blocks as the client sees them: their contents, in the order of allocation.\<close>

definition block_bytes :: "'a linear_scheme \<Rightarrow> nat \<times> nat \<Rightarrow> byte list" where
  "block_bytes h b = map (\<lambda>k. hp_bytes h (fst b + k)) [0..<snd b]"

inductive blocks_step :: "byte list list \<Rightarrow> heap_call \<Rightarrow> byte list list \<Rightarrow> bool" where
  fails: "blocks_step bs (Malloc n) bs"
| allocates: "length b = unat n \<Longrightarrow> 0 < unat n \<Longrightarrow> blocks_step bs (Malloc n) (bs @ [b])"
| frees: "i < length bs \<Longrightarrow> blocks_step bs (Free i) (without i bs)"
| ignores: "\<not> i < length bs \<Longrightarrow> blocks_step bs (Free i) bs"
| stores: "i < length bs \<Longrightarrow> k < length (bs ! i) \<Longrightarrow> blocks_step bs (Store i k x) (bs[i := (bs ! i)[k := x]])"
| outside: "\<not> (i < length bs \<and> k < length (bs ! i)) \<Longrightarrow> blocks_step bs (Store i k x) bs"

inductive blocks_run :: "byte list list \<Rightarrow> heap_call list \<Rightarrow> byte list list \<Rightarrow> bool" where
  no_calls: "blocks_run bs [] bs"
| calls: "blocks_step bs x bs1 \<Longrightarrow> blocks_run bs1 xs bs2 \<Longrightarrow> blocks_run bs (x # xs) bs2"

text \<open>A program that owns the bytes of its blocks finds them unchanged.\<close>

lemma block_bytes_preserves:
  assumes "preserves P h h'" "(q, s) \<in> P" "k \<le> s"
  shows "block_bytes h' (q, k) = block_bytes h (q, k)"
proof -
  have "hp_bytes h' (q + i) = hp_bytes h (q + i)" if "i < k" for i
    using assms that by (auto simp: preserves_def taken_bytes_def)
  then show ?thesis by (simp add: block_bytes_def)
qed

lemma set_without: "distinct xs \<Longrightarrow> i < length xs \<Longrightarrow> set (without i xs) = set xs - {xs ! i}"
  by (induction xs arbitrary: i) (auto simp: without_def nth_Cons split: nat.splits)

lemma distinct_without: "i < length xs \<Longrightarrow> distinct xs \<Longrightarrow> distinct (without i xs)"
  by (subst (asm) (2) id_take_nth_drop [of i xs]) (auto simp: without_def)

lemma map_without: "map f (without i xs) = without i (map f xs)"
  by (simp add: without_def take_map drop_map)

text \<open>The block of the manager behind a block of the client.\<close>

lemma covered:
  assumes "\<forall>(q, k) \<in> set L. \<exists>s \<ge> k. (q, s) \<in> P" "b \<in> set L"
  obtains s where "snd b \<le> s" "(fst b, s) \<in> P"
  using assms by (cases b) auto

lemma fst_without:
  assumes "\<And>k. (q, k) \<in> P \<Longrightarrow> k = s"
  shows "fst ` (P - {(q, s)}) = fst ` P - {q}"
proof
  show "fst ` (P - {(q, s)}) \<subseteq> fst ` P - {q}"
  proof
    fix x
    assume "x \<in> fst ` (P - {(q, s)})"
    then obtain y where y: "x = fst y" "y \<in> P - {(q, s)}" by (rule imageE)
    then have k: "(x, snd y) \<in> P" "(x, snd y) \<noteq> (q, s)" by auto
    then have "x \<noteq> q" using assms [of "snd y"] by blast
    moreover have "x \<in> fst ` P" using k(1) by (rule image_eqI [rotated]) simp
    ultimately show "x \<in> fst ` P - {q}" by simp
  qed
  show "fst ` P - {q} \<subseteq> fst ` (P - {(q, s)})" by force
qed

section \<open>What a client relies on\<close>

text \<open>
  \<open>manages m P\<close> says that the allocator is in order and has handed out the blocks \<open>P\<close>. A request up to
  \<open>limit\<close> adds a block of at least its size or is refused; releasing takes the block out of \<open>P\<close>; both
  preserve the bytes of the other blocks, and the client may write into its blocks.
\<close>

locale block_allocator =
  fixes alloc :: "'s linear_scheme alloc_fun"
    and release :: "'s linear_scheme release_fun"
    and manages :: "'s linear_scheme \<Rightarrow> (nat \<times> nat) set \<Rightarrow> bool"
    and limit :: nat
  assumes alloc_zero: "manages m P \<Longrightarrow> alloc m 0 = Inr (0, m)"
    and alloc_block: "manages m P \<Longrightarrow> 0 < unat n \<Longrightarrow> unat n \<le> limit \<Longrightarrow>
      \<exists>p m' s. alloc m n = Inr (p, m') \<and> preserves P m m' \<and> (p = 0 \<longrightarrow> manages m' P) \<and>
        (p \<noteq> 0 \<longrightarrow> unat p \<notin> fst ` P \<and> unat n \<le> s \<and> manages m' (insert (unat p, s) P))"
    and release_block: "manages m P \<Longrightarrow> (q, s) \<in> P \<Longrightarrow>
      \<exists>m'. release m (word_of_nat q) = Inr m' \<and> manages m' (P - {(q, s)}) \<and> preserves P m m'"
    and write_block: "manages m P \<Longrightarrow> a \<in> taken_bytes P \<Longrightarrow> manages (m\<lparr>hp_bytes := (hp_bytes m)(a := x)\<rparr>) P"
    and blocks_separate: "manages m P \<Longrightarrow> (q, s) \<in> P \<Longrightarrow> (r, k) \<in> P \<Longrightarrow> (q, s) \<noteq> (r, k) \<Longrightarrow> q + s \<le> r \<or> r + k \<le> q"
    and blocks_inside: "manages m P \<Longrightarrow> (q, s) \<in> P \<Longrightarrow> 0 < q \<and> 0 < s \<and> q + s \<le> hp_pages m * 65536"

text \<open>Every block of the client is a block of the allocator, with at least its size.\<close>

definition owns :: "('h \<Rightarrow> (nat \<times> nat) set \<Rightarrow> bool) \<Rightarrow> 'h \<Rightarrow> (nat \<times> nat) list \<Rightarrow> bool" where
  "owns manages m L \<longleftrightarrow> (\<exists>P. manages m P \<and> distinct (map fst L) \<and> fst ` P = fst ` set L \<and>
     (\<forall>(q, k) \<in> set L. \<exists>s \<ge> k. (q, s) \<in> P))"

text \<open>Blocks that do not overlap, and lie in memory above address 0.\<close>

definition blocks_apart :: "(nat \<times> nat) list \<Rightarrow> bool" where
  "blocks_apart L \<longleftrightarrow> sorted_wrt (\<lambda>b c. fst b + snd b \<le> fst c \<or> fst c + snd c \<le> fst b) L"

definition within :: "'a linear_scheme \<Rightarrow> (nat \<times> nat) list \<Rightarrow> bool" where
  "within h L \<longleftrightarrow> list_all (\<lambda>b. 0 < fst b \<and> fst b + snd b \<le> hp_pages h * 65536) L"

definition step_ok ::
  "'s linear_scheme alloc_fun \<Rightarrow> 's linear_scheme release_fun \<Rightarrow> ('s linear_scheme \<Rightarrow> (nat \<times> nat) set \<Rightarrow> bool) \<Rightarrow>
   's linear_scheme client \<Rightarrow> heap_call \<Rightarrow> bool" where
  "step_ok alloc release manages c x \<longleftrightarrow> (\<exists>m1 L1. heap_step alloc release c x = Inr (m1, L1) \<and> owns manages m1 L1 \<and>
     blocks_step (map (block_bytes (fst c)) (snd c)) x (map (block_bytes m1) L1))"

lemma owns_intro:
  "manages m P \<Longrightarrow> distinct (map fst L) \<Longrightarrow> fst ` P = fst ` set L \<Longrightarrow> \<forall>(q, k) \<in> set L. \<exists>s \<ge> k. (q, s) \<in> P \<Longrightarrow> owns manages m L"
  unfolding owns_def by blast

lemma step_okI:
  assumes "heap_step alloc release (m, L) x = Inr (m1, L1)" "owns manages m1 L1"
    and "blocks_step (map (block_bytes m) L) x (map (block_bytes m1) L1)"
  shows "step_ok alloc release manages (m, L) x"
  using assms unfolding step_ok_def by auto

context block_allocator
begin

lemma functional: "manages m P \<Longrightarrow> (q, s) \<in> P \<Longrightarrow> (q, k) \<in> P \<Longrightarrow> s = k"
  using blocks_separate [of m P q s q k] blocks_inside [of m P q s] blocks_inside [of m P q k] by auto

lemma owns_apart:
  assumes "owns manages m L" "i < length L" "j < length L" "i \<noteq> j"
  shows "fst (L ! i) + snd (L ! i) \<le> fst (L ! j) \<or> fst (L ! j) + snd (L ! j) \<le> fst (L ! i)"
proof -
  from assms(1) obtain P where P: "manages m P" "distinct (map fst L)" "\<forall>(q, k) \<in> set L. \<exists>s \<ge> k. (q, s) \<in> P"
    by (auto simp: owns_def)
  obtain s where s: "snd (L ! i) \<le> s" "(fst (L ! i), s) \<in> P" using P(3) nth_mem [OF assms(2)] by force
  obtain t where t: "snd (L ! j) \<le> t" "(fst (L ! j), t) \<in> P" using P(3) nth_mem [OF assms(3)] by force
  have "fst (L ! i) \<noteq> fst (L ! j)" using P(2) assms(2-4) by (metis distinct_conv_nth length_map nth_map)
  then show ?thesis using blocks_separate [OF P(1) s(2) t(2)] s(1) t(1) by auto
qed

lemma malloc_step:
  assumes ow: "owns manages m L" and n: "unat n \<le> limit"
  shows "step_ok alloc release manages (m, L) (Malloc n)"
proof (cases "n = 0")
  case True
  from ow obtain P where "manages m P" unfolding owns_def by blast
  then have "heap_step alloc release (m, L) (Malloc n) = Inr (m, L)" using True alloc_zero by simp
  with ow fails show ?thesis using step_okI by blast
next
  case False
  then have pos: "0 < unat n" by (simp add: unat_gt_0)
  from ow obtain P where P: "manages m P" "distinct (map fst L)" "fst ` P = fst ` set L" "\<forall>(q, k) \<in> set L. \<exists>s \<ge> k. (q, s) \<in> P"
    unfolding owns_def by blast
  obtain p m1 s where r: "alloc m n = Inr (p, m1)" "preserves P m m1" "p = 0 \<Longrightarrow> manages m1 P"
    "p \<noteq> 0 \<Longrightarrow> unat p \<notin> fst ` P \<and> unat n \<le> s \<and> manages m1 (insert (unat p, s) P)"
    using alloc_block [OF P(1) pos n] by blast
  have same: "block_bytes m1 b = block_bytes m b" if b: "b \<in> set L" for b
    using covered [OF P(4) b] block_bytes_preserves [OF r(2), of "fst b" _ "snd b"] by (metis prod.collapse)
  show ?thesis
  proof (cases "p = 0")
    case True
    have "owns manages m1 L" using r(3) True P by (intro owns_intro [of _ m1 P]) simp_all
    moreover have eq: "map (block_bytes m1) L = map (block_bytes m) L" using same by simp
    have "blocks_step (map (block_bytes m) L) (Malloc n) (map (block_bytes m1) L)" unfolding eq by (rule fails)
    ultimately show ?thesis using r(1) True by (intro step_okI [of _ _ m L _ m1 L]) simp_all
  next
    case new: False
    let ?b = "(unat p, unat n)"
    have mg: "manages m1 (insert (unat p, s) P)" "unat p \<notin> fst ` P" "unat n \<le> s" using r(4) new by simp_all
    have "owns manages m1 (L @ [?b])"
    proof (rule owns_intro [where manages = manages, OF mg(1)])
      show "distinct (map fst (L @ [?b]))" using P(2,3) mg(2) by auto
      show "fst ` insert (unat p, s) P = fst ` set (L @ [?b])" using P(3) by auto
      show "\<forall>(q, k) \<in> set (L @ [?b]). \<exists>s' \<ge> k. (q, s') \<in> insert (unat p, s) P" using P(4) mg(3) by fastforce
    qed
    moreover have eq: "map (block_bytes m1) (L @ [?b]) = map (block_bytes m) L @ [block_bytes m1 ?b]" using same by simp
    have "length (block_bytes m1 ?b) = unat n" by (simp add: block_bytes_def)
    then have "blocks_step (map (block_bytes m) L) (Malloc n) (map (block_bytes m1) (L @ [?b]))"
      unfolding eq using pos by (rule allocates)
    ultimately show ?thesis using r(1) new by (intro step_okI [of _ _ m L _ m1 "L @ [?b]"]) simp_all
  qed
qed

lemma free_step:
  assumes ow: "owns manages m L"
  shows "step_ok alloc release manages (m, L) (Free i)"
proof (cases "i < length L")
  case True
  from ow obtain P where P: "manages m P" "distinct (map fst L)" "fst ` P = fst ` set L" "\<forall>(q, k) \<in> set L. \<exists>s \<ge> k. (q, s) \<in> P"
    unfolding owns_def by blast
  let ?q = "fst (L ! i)"
  obtain s where s: "(?q, s) \<in> P" by (rule covered [OF P(4) nth_mem [OF True]])
  obtain m1 where r: "release m (word_of_nat ?q) = Inr m1" "manages m1 (P - {(?q, s)})" "preserves P m m1"
    using release_block [OF P(1) s] by blast
  have i: "i < length (map fst L)" using True by simp
  have L1: "fst ` set (without i L) = fst ` set L - {?q}" "distinct (map fst (without i L))"
    using set_without [OF P(2) i] distinct_without [OF i P(2)] True unfolding map_without [symmetric] set_map
    by (simp_all)
  have sub: "set (without i L) \<subseteq> set L" by (auto simp: without_def dest: in_set_takeD in_set_dropD)
  have "owns manages m1 (without i L)"
  proof (rule owns_intro [where manages = manages, OF r(2) L1(2)])
    have "fst ` (P - {(?q, s)}) = fst ` P - {?q}" by (rule fst_without) (rule functional [OF P(1) _ s])
    with L1(1) P(3) show "fst ` (P - {(?q, s)}) = fst ` set (without i L)" by (simp only:)
    show "\<forall>(q, k) \<in> set (without i L). \<exists>s' \<ge> k. (q, s') \<in> P - {(?q, s)}"
    proof (clarify)
      fix q k
      assume qk: "(q, k) \<in> set (without i L)"
      then have "q \<in> fst ` set (without i L)" by (rule image_eqI [rotated]) simp
      then have "q \<noteq> ?q" unfolding L1(1) by simp
      moreover obtain s' where "k \<le> s'" "(q, s') \<in> P" using P(4) qk sub by blast
      ultimately show "\<exists>s' \<ge> k. (q, s') \<in> P - {(?q, s)}" by blast
    qed
  qed
  moreover have "block_bytes m1 b = block_bytes m b" if b: "b \<in> set (without i L)" for b
  proof -
    obtain s' where "snd b \<le> s'" "(fst b, s') \<in> P" by (rule covered [OF P(4) subsetD [OF sub b]])
    from block_bytes_preserves [OF r(3) this(2,1)] show ?thesis by simp
  qed
  then have eq: "map (block_bytes m1) (without i L) = without i (map (block_bytes m) L)"
    unfolding map_without [symmetric] by (intro map_cong) simp_all
  have "blocks_step (map (block_bytes m) L) (Free i) (map (block_bytes m1) (without i L))"
    unfolding eq using True by (intro frees) simp
  moreover have "heap_step alloc release (m, L) (Free i) = Inr (m1, without i L)" using True r(1) by simp
  ultimately show ?thesis using step_okI by blast
next
  case False
  then have "blocks_step (map (block_bytes m) L) (Free i) (map (block_bytes m) L)" by (intro ignores) simp
  with False ow show ?thesis by (intro step_okI [of _ _ m L _ m L]) simp_all
qed

lemma block_bytes_store:
  fixes x :: byte
  assumes ow: "owns manages m L" and i: "i < length L" "k < snd (L ! i)"
  defines "m1 \<equiv> m\<lparr>hp_bytes := (hp_bytes m)(fst (L ! i) + k := x)\<rparr>"
  shows "map (block_bytes m1) L = (map (block_bytes m) L)[i := (block_bytes m (L ! i))[k := x]]"
proof (rule nth_equalityI)
  fix j
  assume "j < length (map (block_bytes m1) L)"
  then have j: "j < length L" by simp
  show "map (block_bytes m1) L ! j = (map (block_bytes m) L)[i := (block_bytes m (L ! i))[k := x]] ! j"
  proof (cases "j = i")
    case True
    have "block_bytes m1 (L ! i) = (block_bytes m (L ! i))[k := x]"
      using i(2) by (intro nth_equalityI) (auto simp: block_bytes_def m1_def nth_list_update)
    with True j show ?thesis by simp
  next
    case False
    have "fst (L ! j) + l \<noteq> fst (L ! i) + k" if "l < snd (L ! j)" for l
      using owns_apart [OF ow i(1) j] False i(2) that by auto
    then have "block_bytes m1 (L ! j) = block_bytes m (L ! j)"
      by (intro nth_equalityI) (auto simp: block_bytes_def m1_def)
    with False j show ?thesis by simp
  qed
qed simp

lemma store_step:
  assumes ow: "owns manages m L"
  shows "step_ok alloc release manages (m, L) (Store i k x)"
proof (cases "i < length L \<and> k < snd (L ! i)")
  case True
  then have i: "i < length L" "k < snd (L ! i)" by auto
  from ow obtain P where P: "manages m P" "distinct (map fst L)" "fst ` P = fst ` set L" "\<forall>(q, k) \<in> set L. \<exists>s \<ge> k. (q, s) \<in> P"
    unfolding owns_def by blast
  let ?q = "fst (L ! i)"
  obtain s where s: "snd (L ! i) \<le> s" "(?q, s) \<in> P" by (rule covered [OF P(4) nth_mem [OF i(1)]])
  let ?m = "m\<lparr>hp_bytes := (hp_bytes m)(?q + k := x)\<rparr>"
  have "?q \<le> ?q + k" "?q + k < ?q + s" using s(1) i(2) by simp_all
  with s(2) have in_block: "?q + k \<in> taken_bytes P" unfolding taken_bytes_iff by blast
  from write_block [OF P(1) in_block] P(2-4) have "owns manages ?m L" by (rule owns_intro)
  moreover have "heap_step alloc release (m, L) (Store i k x) = Inr (?m, L)" using i by simp
  moreover have "blocks_step (map (block_bytes m) L) (Store i k x) (map (block_bytes ?m) L)"
    unfolding block_bytes_store [OF ow i] using i stores [of i "map (block_bytes m) L" k x] by (simp add: block_bytes_def)
  ultimately show ?thesis using step_okI by blast
next
  case False
  then have "blocks_step (map (block_bytes m) L) (Store i k x) (map (block_bytes m) L)"
    by (intro outside) (auto simp: block_bytes_def)
  moreover have "heap_step alloc release (m, L) (Store i k x) = Inr (m, L)" using False by auto
  ultimately show ?thesis using ow step_okI by blast
qed

lemma owns_step:
  assumes "owns manages m L" "request x \<le> limit"
  shows "step_ok alloc release manages (m, L) x"
  using assms malloc_step free_step store_step by (cases x) simp_all

lemma owns_run:
  assumes "owns manages m L" "list_all (\<lambda>x. request x \<le> limit) xs"
  shows "\<exists>m1 L1. heap_run alloc release (m, L) xs = Inr (m1, L1) \<and> owns manages m1 L1 \<and> blocks_run (map (block_bytes m) L) xs (map (block_bytes m1) L1)"
  using assms
proof (induction xs arbitrary: m L)
  case Nil
  then show ?case by (auto intro: no_calls)
next
  case (Cons x xs)
  obtain m1 L1 where one: "heap_step alloc release (m, L) x = Inr (m1, L1)" "owns manages m1 L1" "blocks_step (map (block_bytes m) L) x (map (block_bytes m1) L1)"
    using owns_step [of m L x] Cons.prems unfolding step_ok_def by auto
  obtain m2 L2 where "heap_run alloc release (m1, L1) xs = Inr (m2, L2)" "owns manages m2 L2" "blocks_run (map (block_bytes m1) L1) xs (map (block_bytes m2) L2)"
    using Cons.IH [OF one(2)] Cons.prems(2) by auto
  with one show ?case by (auto intro: calls)
qed

lemma owns_safe:
  assumes "owns manages m L"
  shows "blocks_apart L" "within m L"
proof -
  show "blocks_apart L" using owns_apart [OF assms] unfolding blocks_apart_def sorted_wrt_iff_nth_less by simp
  from assms obtain P where P: "manages m P" "\<forall>(q, k) \<in> set L. \<exists>s \<ge> k. (q, s) \<in> P" unfolding owns_def by blast
  have "0 < fst b \<and> fst b + snd b \<le> hp_pages m * 65536" if b: "b \<in> set L" for b
    using covered [OF P(2) b] blocks_inside [OF P(1), of "fst b"] by (metis add_le_cancel_left le_trans)
  then show "within m L" by (simp add: within_def list_all_iff)
qed

end

end
