(* ===== verification/Manager_Safety.thy ===== *)
theory Manager_Safety
  imports Heap_Blocks Heap_Client
begin

text \<open>
  Memory safety of the manager of \<open>malloc.cpp\<close>: a state is a list of areas, each a chain of blocks,
  and \<open>malloc\<close> and \<open>free\<close> keep the allocated blocks apart, in memory, and untouched.
\<close>

section \<open>The invariant\<close>

text \<open>
  An area with its address, its size and its blocks. The manager has the static area, and at most
  one more: a second area from \<open>sbrk\<close> ends where memory ends, so it is expanded from then on.
\<close>

type_synonym view = "nat \<times> nat \<times> chunk list"

fun view_area :: "view \<Rightarrow> heap_area" where
  "view_area (H, N, bs) = area H N (extent bs)"

fun view_ok :: "'a linear_scheme \<Rightarrow> view \<Rightarrow> bool" where
  "view_ok h (H, N, bs) \<longleftrightarrow> area_ok h H N bs \<and> 0 < N"

fun full :: "view \<Rightarrow> bool" where
  "full (H, N, bs) \<longleftrightarrow> extent bs = N"

fun before :: "view \<Rightarrow> view \<Rightarrow> bool" where
  "before (H, N, bs) (H', N', bs') \<longleftrightarrow> H + N \<le> H'"

fun view_live :: "view \<Rightarrow> (nat \<times> nat) set" where
  "view_live (H, N, bs) = live H bs"

fun view_end :: "view \<Rightarrow> nat" where
  "view_end (H, N, bs) = H + N"

definition alive :: "view list \<Rightarrow> (nat \<times> nat) set" where
  "alive vs = (\<Union>v \<in> set vs. view_live v)"

text \<open>Some free block has at least the size \<open>n\<close>.\<close>

fun view_room :: "nat \<Rightarrow> view \<Rightarrow> bool" where
  "view_room n (H, N, bs) \<longleftrightarrow> (\<exists>k \<ge> n. (k, False) \<in> set bs)"

definition roomy :: "nat \<Rightarrow> view list \<Rightarrow> bool" where
  "roomy n vs \<longleftrightarrow> list_ex (view_room n) vs"

definition mgr_ok :: "manager \<Rightarrow> view list \<Rightarrow> view \<Rightarrow> bool" where
  "mgr_ok m us v \<longleftrightarrow>
     mm_heaps m = map view_area us @ view_area v # replicate (15 - length us) ha_empty \<and> length us \<le> 1 \<and>
     (\<forall>u \<in> set us. view_ok m u \<and> full u \<and> before u v) \<and> view_ok m v \<and> mm_active_free_heap m \<le> length us \<and>
     hp_pages m \<le> hp_limit m \<and> hp_limit m < 32768 \<and>
     (sb_initialized m \<longrightarrow> sb_bytes m = adr (hp_pages m * 65536))"

definition growing :: "manager \<Rightarrow> view list \<Rightarrow> view \<Rightarrow> bool" where
  "growing m us v \<longleftrightarrow> mm_active_heap m = length us \<and> mm_heaps_actual_size m = 16 \<and>
     (us = [] \<or> sb_initialized m \<and> view_end v = hp_pages m * 65536)"

definition exhausted :: "manager \<Rightarrow> view list \<Rightarrow> view \<Rightarrow> bool" where
  "exhausted m us v \<longleftrightarrow> mm_active_heap m = Suc (length us) \<and> mm_heaps_actual_size m = Suc (length us) \<and> full v \<and>
     hp_pages m = hp_limit m"

lemma roomy_simps [simp]: "roomy n (vs @ ws) \<longleftrightarrow> roomy n vs \<or> roomy n ws"
  "roomy n (v # vs) \<longleftrightarrow> view_room n v \<or> roomy n vs" "\<not> roomy n []"
  by (simp_all add: roomy_def)

lemma topped_up_room: "view_room n (H, N, bs) \<Longrightarrow> view_room n (H, N, topped_up N bs)"
  by (auto simp: topped_up_def)

lemma alive_simps [simp]: "alive [] = {}" "alive (v # vs) = view_live v \<union> alive vs" "alive (us @ vs) = alive us \<union> alive vs"
  by (auto simp: alive_def)

lemma edits_manager:
  assumes "edits A m m'"
  shows "mm_initial_heap m' = mm_initial_heap m" "mm_heaps m' = mm_heaps m"
    "mm_heaps_actual_size m' = mm_heaps_actual_size m" "mm_active_heap m' = mm_active_heap m"
    "mm_active_free_heap m' = mm_active_free_heap m" "sb_initialized m' = sb_initialized m" "sb_bytes m' = sb_bytes m"
  using assms by (auto simp: edits_def)

lemma view_live_range: "(q, s) \<in> view_live (H, N, bs) \<Longrightarrow> view_ok h (H, N, bs) \<Longrightarrow> H + 4 \<le> q \<and> q + s \<le> H + N"
  using live_range [of q s H bs] by (auto simp: area_ok_def)

lemma area_ok_cong:
  "hp_pages h' = hp_pages h \<Longrightarrow> hp_bytes h' = hp_bytes h \<Longrightarrow> area_ok h' H N bs = area_ok h H N bs"
  by (simp add: area_ok_def chain_cong [of h' h])

lemma area_ok_upd [simp]:
  "area_ok (m\<lparr>mm_heaps := hs\<rparr>) H N bs = area_ok m H N bs"
  "area_ok (m\<lparr>mm_active_heap := k\<rparr>) H N bs = area_ok m H N bs"
  "area_ok (m\<lparr>mm_active_free_heap := k\<rparr>) H N bs = area_ok m H N bs"
  "area_ok (m\<lparr>mm_heaps_actual_size := k\<rparr>) H N bs = area_ok m H N bs"
  by (rule area_ok_cong; simp)+

lemma view_ok_upd [simp]:
  "view_ok (m\<lparr>mm_heaps := hs\<rparr>) v = view_ok m v"
  "view_ok (m\<lparr>mm_active_heap := k\<rparr>) v = view_ok m v"
  "view_ok (m\<lparr>mm_active_free_heap := k\<rparr>) v = view_ok m v"
  "view_ok (m\<lparr>mm_heaps_actual_size := k\<rparr>) v = view_ok m v"
  by (cases v; simp)+

lemma mgr_below_2gb: "mgr_ok m us v \<Longrightarrow> below_2gb m"
  by (simp add: mgr_ok_def)

text \<open>A change in one area leaves the others alone.\<close>

lemma view_ok_edits:
  assumes "view_ok m (H, N, bs)" "edits A m m'" "A \<inter> {H..<H + N} = {}" "below_2gb m"
  shows "view_ok m' (H, N, bs)"
proof -
  have "A \<inter> headers H bs = {}" using assms(1,3) headers_range [of _ H bs] by (fastforce simp: area_ok_def)
  with assms show ?thesis using area_edits [OF _ assms(2)] by auto
qed

lemma set_heap_last:
  assumes "mgr_ok m us v"
  shows "heap_at m (length us) = Inr (view_area v)"
    and "set_heap m (length us) a = Inr (m\<lparr>mm_heaps := map view_area us @ a # replicate (15 - length us) ha_empty\<rparr>)"
  using assms list_update_length [of "map view_area us" "view_area v" _ a]
  by (simp_all add: mgr_ok_def heap_at_def set_heap_def nth_append)

lemma mgr_update:
  assumes ok: "mgr_ok m us (H, N, bs)" and ed: "edits A m m1" "A \<subseteq> {H..<H + N}" and v': "view_ok m1 (H, N, bs')"
  shows "mgr_ok (m1\<lparr>mm_heaps := map view_area us @ area H N (extent bs') # replicate (15 - length us) ha_empty\<rparr>) us (H, N, bs')"
proof -
  have us: "view_ok m1 u \<and> full u \<and> before u (H, N, bs')" if "u \<in> set us" for u
  proof -
    obtain H1 N1 bs1 where u: "u = (H1, N1, bs1)" by (metis prod_cases3)
    with ok that have "view_ok m (H1, N1, bs1)" "full u" "H1 + N1 \<le> H" by (auto simp: mgr_ok_def)
    moreover from this have "A \<inter> {H1..<H1 + N1} = {}" using ed(2) by force
    ultimately show ?thesis using view_ok_edits [OF _ ed(1)] mgr_below_2gb [OF ok] u by auto
  qed
  show ?thesis
    using ok us v' edits_manager [OF ed(1)] edits_sel(1,2) [OF ed(1)] unfolding mgr_ok_def by simp
qed

section \<open>Memory from \<open>sbrk\<close>\<close>

definition ready :: "manager \<Rightarrow> manager" where
  "ready m = m\<lparr>sb_bytes := adr (hp_pages m * 65536), sb_initialized := True\<rparr>"

lemma ready_id: "sb_initialized m \<Longrightarrow> sb_bytes m = adr (hp_pages m * 65536) \<Longrightarrow> ready m = m"
  by (cases m) (simp add: ready_def)

lemma drop_adr: "n < 4294967296 \<Longrightarrow> drop_bit 16 (adr n) = adr (n div 65536)"
  unfolding word_unat_eq_iff unat_drop_bit_eq by (simp add: drop_bit_eq_div unat_adr)

lemma sbrk_zero:
  assumes "mgr_ok m us v"
  shows "sbrk m 0 = (adr (hp_pages m * 65536), ready m)"
proof -
  let ?n = "hp_pages m * 65536"
  have lt: "?n + 65535 < 4294967296" using assms by (simp add: mgr_ok_def)
  have pages: "(word_of_nat (hp_pages m) :: 32 word) = adr (hp_pages m)" "(65536 :: 32 word) = adr 65536" by (simp_all add: adr_def)
  have init: "(if sb_initialized m then m else m\<lparr>sb_bytes := word_of_nat (hp_pages m) * 65536, sb_initialized := True\<rparr>) = ready m"
    using assms ready_id [of m] by (auto simp: mgr_ok_def ready_def adr_def)
  have desired: "drop_bit 16 (adr ?n + 0 + 65536 - 1) = adr (hp_pages m)"
  proof -
    have "adr ?n + 0 + 65536 - 1 = adr (?n + 65535)" by (simp add: adr_def)
    moreover have "(?n + 65535) div 65536 = hp_pages m" by simp
    ultimately show ?thesis using drop_adr [OF lt] by simp
  qed
  have "sb_bytes (ready m) = adr ?n" "hp_pages (ready m) = hp_pages m" "(ready m)\<lparr>sb_bytes := adr ?n\<rparr> = ready m"
    by (simp_all add: ready_def)
  then show ?thesis
    unfolding sbrk_def init Let_def using desired by (simp add: pages(1))
qed

lemma sbrk_page:
  assumes "hp_pages m \<le> hp_limit m" "hp_limit m < 32768"
  shows "sbrk (ready m) 65536 =
           (if hp_pages m < hp_limit m
            then (adr (hp_pages m * 65536), ready (m\<lparr>hp_pages := hp_pages m + 1\<rparr>)) else (- 1, ready m))"
proof -
  let ?n = "hp_pages m * 65536" and ?m = "m\<lparr>hp_pages := hp_pages m + 1\<rparr>"
  have lt: "?n + 131071 < 4294967296" using assms by simp
  have pages: "(word_of_nat k :: 32 word) = adr k" for k by (simp add: adr_def)
  have sel: "sb_initialized (ready m)" "sb_bytes (ready m) = adr ?n" "hp_pages (ready m) = hp_pages m" "hp_limit (ready m) = hp_limit m"
    by (simp_all add: ready_def)
  have round: "(65536 + 7 :: 32 word) AND NOT 7 = 65536" by simp
  have desired: "drop_bit 16 (adr ?n + 65536 + 65536 - 1) = adr (hp_pages m + 1)"
  proof -
    have "adr ?n + 65536 + 65536 - 1 = adr (?n + 131071)" by (simp add: adr_def)
    moreover have "(?n + 131071) div 65536 = hp_pages m + 1" by simp
    ultimately show ?thesis using drop_adr [OF lt] by simp
  qed
  have cmp: "adr (hp_pages m) < adr (hp_pages m + 1)" "adr (hp_pages m + 1) \<noteq> adr (hp_pages m)"
    "adr (hp_pages m + 1) - adr (hp_pages m) = adr 1" "unat (adr 1) = 1"
    using assms by (simp_all add: adr_simps)
  show ?thesis
  proof (cases "hp_pages m < hp_limit m")
    case True
    have "(ready m)\<lparr>hp_pages := hp_pages m + 1, sb_bytes := adr ?n + 65536\<rparr> = ready ?m"
      unfolding adr_plus_numeral by (cases m) (simp add: ready_def add.commute)
    with True show ?thesis
      unfolding sbrk_def Let_def sel round using desired cmp by (simp add: memory_grow_def sel pages)
  next
    case False
    with assms(1) show ?thesis
      unfolding sbrk_def Let_def sel round using desired cmp by (simp add: memory_grow_def sel pages)
  qed
qed

section \<open>The next area\<close>

lemma chain_mono:
  "chain h p bs \<Longrightarrow> hp_pages h \<le> hp_pages h' \<Longrightarrow> hp_bytes h' = hp_bytes h \<Longrightarrow> chain h' p bs"
proof (induction bs arbitrary: p rule: extent.induct)
  case (2 s t bs)
  from 2(2) have "get_u32 h (adr p) = Inr (marker s t)" by simp
  then have "get_u32 h' (adr p) = Inr (marker s t)" by (rule get_u32_frame) (simp_all add: 2(3,4))
  moreover have "chain h' (p + 4 + s) bs" using 2(2-4) by (intro 2(1)) simp_all
  ultimately show ?case by simp
qed simp

lemma view_ok_mono:
  assumes "view_ok h v" "hp_pages h \<le> hp_pages h'" "hp_bytes h' = hp_bytes h"
  shows "view_ok h' v"
proof -
  have "hp_pages h * 65536 \<le> hp_pages h' * 65536" using assms(2) by simp
  with assms show ?thesis by (cases v) (auto simp: area_ok_def intro: chain_mono)
qed

lemma mgr_ready:
  assumes "mgr_ok m us v"
  shows "mgr_ok (ready m) us v"
  using assms view_ok_mono [of m _ "ready m"] unfolding mgr_ok_def by (simp add: ready_def)

lemma mgr_grown:
  assumes "mgr_ok m us v" "hp_pages m < hp_limit m"
  shows "mgr_ok (ready (m\<lparr>hp_pages := hp_pages m + 1\<rparr>)) us v"
  using assms view_ok_mono [of m _ "ready (m\<lparr>hp_pages := hp_pages m + 1\<rparr>)"] unfolding mgr_ok_def
  by (simp add: ready_def)

lemma preserves_edits: "edits A h h' \<Longrightarrow> A \<inter> taken_bytes L = {} \<Longrightarrow> preserves L h h'"
  unfolding preserves_def using edits_sel(3) by blast

text \<open>The blocks of the other areas lie outside the last one.\<close>

lemma other_live:
  assumes "mgr_ok m us (H, N, bs)"
  shows "taken_bytes (alive us) \<inter> {H..} = {}"
proof -
  have "q + s \<le> H" if "(q, s) \<in> alive us" for q s
  proof -
    from that obtain u where "u \<in> set us" "(q, s) \<in> view_live u" by (auto simp: alive_def)
    moreover obtain H1 N1 bs1 where "u = (H1, N1, bs1)" by (metis prod_cases3)
    ultimately show ?thesis using assms view_live_range [of q s H1 N1 bs1 m] by (fastforce simp: mgr_ok_def)
  qed
  then show ?thesis by (fastforce simp: taken_bytes_def)
qed

lemma cleanup_active_step:
  assumes ok: "mgr_ok m us (H, N, bs)" and act: "mm_active_heap m = length us"
  obtains m' where "cleanup_active m = Inr m'" "mgr_ok m' us (H, N, topped_up N bs)" "extent (topped_up N bs) = N"
    "preserves (alive us \<union> live H bs) m m'" "hp_pages m' = hp_pages m" "hp_limit m' = hp_limit m"
    "mm_active_heap m' = length us" "sb_initialized m' = sb_initialized m" "mm_heaps_actual_size m' = mm_heaps_actual_size m"
proof -
  from ok have area: "area_ok m H N bs" "0 < N" by (auto simp: mgr_ok_def)
  obtain h where h: "cleanup_remaining m (area H N (extent bs)) = Inr (area H N N, h)"
    "edits {H + extent bs..<H + N} m h" "area_ok h H N (topped_up N bs)" "extent (topped_up N bs) = N"
    using cleanup_remaining_ok [OF area(1) mgr_below_2gb [OF ok]] by blast
  note [simp] = edits_manager [OF h(2)] edits_sel(1,2) [OF h(2)]
  let ?m = "h\<lparr>mm_heaps := map view_area us @ area H N N # replicate (15 - length us) ha_empty\<rparr>"
  have "mgr_ok ?m us (H, N, topped_up N bs)"
    using mgr_update [OF ok h(2), of "topped_up N bs"] h(3,4) area(2) by simp
  moreover have "cleanup_active m = Inr ?m"
    using set_heap_last(1) [OF ok] h(1) ok act list_update_length [of "map view_area us" "area H N (extent bs)" _ "area H N N"]
    by (simp add: cleanup_active_def set_heap_def mgr_ok_def)
  moreover have "{H + extent bs..<H + N} \<inter> taken_bytes (alive us \<union> live H bs) = {}"
    using other_live [OF ok] taken_bytes_live_range [of _ H bs] by fastforce
  then have "preserves (alive us \<union> live H bs) m ?m" using preserves_edits [OF h(2), of "alive us \<union> live H bs"] by (simp add: preserves_def)
  ultimately show thesis using that [of ?m] h(4) act by simp
qed

lemma not_negative: "n < 2147483648 \<Longrightarrow> \<not> adr n <s 0"
proof -
  assume "n < 2147483648"
  then have "\<not> bit (adr n) 31" using bit_31_small by (simp add: bit_adr)
  then show ?thesis using bit_last_iff [of "adr n"] by (simp add: word_sless_alt)
qed

text \<open>Memory ends at a page, so a whole page is asked for.\<close>

lemma next_active_heap_eq:
  assumes ok: "mgr_ok m us v"
  defines "m1 \<equiv> ready (m\<lparr>hp_pages := hp_pages m + 1\<rparr>)"
  shows "next_active_heap m =
     (if hp_pages m < hp_limit m then
        bind_res (heap_at m1 (mm_active_heap m1)) (\<lambda>current_memory.
          let (expanded, a1) = expand_memory current_memory (adr (hp_pages m * 65536)) 65536 in
          if expanded then bind_res (set_heap m1 (mm_active_heap m1) a1) (\<lambda>m3. Inr (Some (mm_active_heap m3), m3))
          else
            bind_res (cleanup_active m1) (\<lambda>m3.
              let active = mm_active_heap m3 + 1; m4 = m3\<lparr>mm_active_heap := active\<rparr> in
              bind_res (heap_at m4 active) (\<lambda>next.
              bind_res (set_heap m4 active (ha_init next (adr (hp_pages m * 65536)) 65536)) (\<lambda>m5. Inr (Some active, m5)))))
      else
        bind_res (cleanup_active (ready m)) (\<lambda>m3.
          let active = mm_active_heap m3 + 1 in
          Inr (None, m3\<lparr>mm_active_heap := active, mm_heaps_actual_size := active\<rparr>)))"
proof -
  let ?n = "hp_pages m * 65536"
  have small: "hp_pages m \<le> hp_limit m" "hp_limit m < 32768" "?n < 2147483648" using ok by (auto simp: mgr_ok_def)
  have neg: "\<not> adr ?n <s 0" using small by (intro not_negative)
  have "unat (adr ?n mod 65536) = 0" using small by (simp add: unat_mod unat_adr)
  then have modulus: "adr ?n mod 65536 = 0" using unat_eq_zero by blast
  have adj: "adr ?n + 65536 - 0 - adr ?n = 65536" by simp
  have "(- 1 :: 32 word) <s 0" by (simp add: word_sless_alt)
  with neg have ne: "adr ?n \<noteq> - 1" by auto
  note page = sbrk_page [OF small(1,2)]
  show ?thesis
  proof (cases "hp_pages m < hp_limit m")
    case True
    with page have "sbrk (ready m) 65536 = (adr ?n, m1)" by (simp add: m1_def)
    then show ?thesis using True neg ne
      unfolding next_active_heap_def sbrk_zero [OF ok] Let_def split_conv modulus adj by simp
  next
    case False
    with page have "sbrk (ready m) 65536 = (- 1, ready m)" by simp
    then show ?thesis using False neg
      unfolding next_active_heap_def sbrk_zero [OF ok] Let_def split_conv modulus adj by simp
  qed
qed

lemma mgr_expand:
  assumes ok: "mgr_ok m us (H, N, bs)" and fin: "H + N + 65536 = hp_pages m * 65536"
  shows "mgr_ok (m\<lparr>mm_heaps := map view_area us @ area H (N + 65536) (extent bs) # replicate (15 - length us) ha_empty\<rparr>) us
           (H, N + 65536, bs)"
proof -
  have "area_ok m H (N + 65536) bs" using ok fin by (auto simp: mgr_ok_def area_ok_def mod_add_eq)
  moreover have "before u (H, N + 65536, bs) = before u (H, N, bs)" for u by (cases u) simp
  ultimately show ?thesis using ok unfolding mgr_ok_def by simp
qed

lemma mgr_new_area:
  assumes ok: "mgr_ok m [] (H, N, bs)" "extent bs = N" "H + N \<le> P" "P + 65536 = hp_pages m * 65536" "0 < P"
    and act: "mm_active_heap m = 0"
  defines "m' \<equiv> m\<lparr>mm_active_heap := 1, mm_heaps := area H N N # area P 65536 0 # replicate 14 ha_empty\<rparr>"
  shows "mgr_ok m' [(H, N, bs)] (P, 65536, [])"
    and "heap_at (m\<lparr>mm_active_heap := 1\<rparr>) 1 = Inr ha_empty"
    and "set_heap (m\<lparr>mm_active_heap := 1\<rparr>) 1 (area P 65536 0) = Inr m'"
proof -
  have "replicate 15 ha_empty = ha_empty # replicate 14 ha_empty" by (simp add: numeral_eq_Suc)
  then have heaps: "mm_heaps m = area H N N # ha_empty # replicate 14 ha_empty"
    using ok(1,2) by (simp add: mgr_ok_def)
  have "area_ok m P 65536 []" using ok by (simp add: area_ok_def)
  then show "mgr_ok m' [(H, N, bs)] (P, 65536, [])"
    using ok by (simp add: mgr_ok_def m'_def)
  show "heap_at (m\<lparr>mm_active_heap := 1\<rparr>) 1 = Inr ha_empty"
    "set_heap (m\<lparr>mm_active_heap := 1\<rparr>) 1 (area P 65536 0) = Inr m'"
    using heaps by (simp_all add: heap_at_def set_heap_def m'_def)
qed

lemma ha_init_area: "ha_init ha_empty (adr P) 65536 = area P 65536 0"
  by (simp add: ha_init_def ha_empty_def area_def adr_def)

text \<open>
  A further page is the end of the last area, or the second area, or there is none and the manager
  is exhausted.
\<close>

definition next_ok :: "manager \<Rightarrow> view list \<Rightarrow> view \<Rightarrow> nat option \<Rightarrow> manager \<Rightarrow> view list \<Rightarrow> view \<Rightarrow> bool" where
  "next_ok m us v c m' us' v' \<longleftrightarrow>
     mgr_ok m' us' v' \<and> alive us' \<union> view_live v' = alive us \<union> view_live v \<and> preserves (alive us \<union> view_live v) m m' \<and>
     hp_limit m' = hp_limit m \<and> (\<forall>n. roomy n (us @ [v]) \<longrightarrow> roomy n (us' @ [v'])) \<and>
     (case c of None \<Rightarrow> exhausted m' us' v'
      | Some i \<Rightarrow> i = length us' \<and> growing m' us' v' \<and> hp_pages m' = Suc (hp_pages m) \<and> hp_pages m < hp_limit m)"

lemma next_exhausted:
  assumes ok: "mgr_ok m us (H, N, bs)" and act: "mm_active_heap m = length us" and full: "hp_pages m = hp_limit m"
  shows "\<exists>c m' us' v'. next_active_heap m = Inr (c, m') \<and> next_ok m us (H, N, bs) c m' us' v'"
proof -
  have act': "mm_active_heap (ready m) = length us" using act by (simp add: ready_def)
  obtain m3 where m3: "cleanup_active (ready m) = Inr m3" "mgr_ok m3 us (H, N, topped_up N bs)"
    "extent (topped_up N bs) = N" "preserves (alive us \<union> live H bs) (ready m) m3" "hp_pages m3 = hp_pages (ready m)"
    "hp_limit m3 = hp_limit (ready m)" "mm_active_heap m3 = length us"
    by (rule cleanup_active_step [OF mgr_ready [OF ok] act'])
  let ?m' = "m3\<lparr>mm_active_heap := mm_active_heap m3 + 1, mm_heaps_actual_size := mm_active_heap m3 + 1\<rparr>"
  have "mgr_ok ?m' us (H, N, topped_up N bs)" using m3(2) unfolding mgr_ok_def by simp
  then have "next_ok m us (H, N, bs) None ?m' us (H, N, topped_up N bs)"
    using m3(3-7) full topped_up_room [of _ H N bs] unfolding next_ok_def exhausted_def preserves_def
    by (simp add: ready_def del: view_room.simps)
  moreover have "next_active_heap m = Inr (None, ?m')" using next_active_heap_eq [OF ok] full m3(1) by (simp add: Let_def)
  ultimately show ?thesis by blast
qed

lemma next_expands:
  assumes ok: "mgr_ok m us (H, N, bs)" and gr: "growing m us (H, N, bs)"
    and room: "hp_pages m < hp_limit m" "H + N = hp_pages m * 65536"
  shows "\<exists>c m' us' v'. next_active_heap m = Inr (c, m') \<and> next_ok m us (H, N, bs) c m' us' v'"
proof -
  note grown = mgr_grown [OF ok room(1)]
  let ?m1 = "ready (m\<lparr>hp_pages := hp_pages m + 1\<rparr>)"
  let ?m' = "?m1\<lparr>mm_heaps := map view_area us @ area H (N + 65536) (extent bs) # replicate (15 - length us) ha_empty\<rparr>"
  have act: "mm_active_heap m = length us" using gr by (simp add: growing_def)
  then have "mm_active_heap ?m1 = length us" by (simp add: ready_def)
  then have "next_active_heap m = Inr (Some (length us), ?m')"
    using next_active_heap_eq [OF ok] room set_heap_last [OF grown] by (simp add: expand_memory_def adr_simps)
  moreover have "mgr_ok ?m' us (H, N + 65536, bs)" using room(2) by (intro mgr_expand [OF grown]) (simp add: ready_def)
  then have "next_ok m us (H, N, bs) (Some (length us)) ?m' us (H, N + 65536, bs)"
    using room act gr unfolding next_ok_def growing_def preserves_def by (simp add: ready_def)
  ultimately show ?thesis by blast
qed

lemma next_second_area:
  assumes ok: "mgr_ok m [] (H, N, bs)" and gr: "growing m [] (H, N, bs)"
    and room: "hp_pages m < hp_limit m" "H + N \<noteq> hp_pages m * 65536"
  shows "\<exists>c m' us' v'. next_active_heap m = Inr (c, m') \<and> next_ok m [] (H, N, bs) c m' us' v'"
proof -
  let ?P = "hp_pages m * 65536" and ?m1 = "ready (m\<lparr>hp_pages := hp_pages m + 1\<rparr>)"
  note grown = mgr_grown [OF ok room(1)]
  have act: "mm_active_heap m = 0" using gr by (simp add: growing_def)
  have end_le: "H + N \<le> ?P" "0 < H" "?P < 2147483648" using ok by (auto simp: mgr_ok_def area_ok_def)
  have act': "mm_active_heap ?m1 = length ([] :: view list)" using act by (simp add: ready_def)
  obtain m3 where m3: "cleanup_active ?m1 = Inr m3" "mgr_ok m3 [] (H, N, topped_up N bs)"
    "extent (topped_up N bs) = N" "preserves (alive [] \<union> live H bs) ?m1 m3" "hp_pages m3 = hp_pages ?m1"
    "hp_limit m3 = hp_limit ?m1" "mm_active_heap m3 = length ([] :: view list)" "sb_initialized m3 = sb_initialized ?m1"
    "mm_heaps_actual_size m3 = mm_heaps_actual_size ?m1"
    by (rule cleanup_active_step [OF grown act'])
  have P: "H + N \<le> ?P" "?P + 65536 = hp_pages m3 * 65536" "0 < ?P" "mm_active_heap m3 = 0"
    using end_le m3(5,7) by (auto simp: ready_def)
  note new = mgr_new_area [OF m3(2,3) P]
  let ?m' = "m3\<lparr>mm_active_heap := 1, mm_heaps := area H N N # area ?P 65536 0 # replicate 14 ha_empty\<rparr>"
  have "next_active_heap m = Inr (Some 1, ?m')"
    using next_active_heap_eq [OF ok] room set_heap_last [OF grown] end_le act m3(1) P(4) new(2,3)
    by (simp add: expand_memory_def adr_simps Let_def ha_init_area ready_def)
  moreover have "next_ok m [] (H, N, bs) (Some 1) ?m' [(H, N, topped_up N bs)] (?P, 65536, [])"
    using new(1) m3(4-9) gr room(1) topped_up_room [of _ H N bs] unfolding next_ok_def growing_def preserves_def
    by (simp add: ready_def del: view_room.simps)
  ultimately show ?thesis by blast
qed

lemma next_active_heap_step:
  assumes ok: "mgr_ok m us v" and gr: "growing m us v"
  shows "\<exists>c m' us' v'. next_active_heap m = Inr (c, m') \<and> next_ok m us v c m' us' v'"
proof -
  obtain H N bs where v: "v = (H, N, bs)" by (metis prod_cases3)
  have act: "mm_active_heap m = length us" using gr by (simp add: growing_def)
  consider "hp_pages m = hp_limit m" | "hp_pages m < hp_limit m" "H + N = hp_pages m * 65536"
    | "hp_pages m < hp_limit m" "H + N \<noteq> hp_pages m * 65536" using ok by (force simp: mgr_ok_def)
  then show ?thesis
  proof cases
    case 1
    then show ?thesis using next_exhausted [OF ok [unfolded v] act] v by blast
  next
    case 2
    then show ?thesis using next_expands [OF ok [unfolded v] gr [unfolded v]] v by blast
  next
    case 3
    then have "us = []" using gr v by (simp add: growing_def)
    with 3 ok gr v show ?thesis using next_second_area [of m H N bs] by blast
  qed
qed

section \<open>Allocation\<close>

text \<open>
  What a call of \<open>malloc\<close> leads to: a new block apart from the allocated ones, or 0 and an exhausted
  manager; the bytes of the allocated blocks stay.
\<close>

definition allots :: "manager \<Rightarrow> view list \<Rightarrow> view \<Rightarrow> nat \<Rightarrow> 32 word \<Rightarrow> manager \<Rightarrow> view list \<Rightarrow> view \<Rightarrow> bool" where
  "allots m us v s p m' us' v' \<longleftrightarrow>
     mgr_ok m' us' v' \<and> preserves (alive us \<union> view_live v) m m' \<and> hp_limit m' = hp_limit m \<and>
     (growing m' us' v' \<or> exhausted m' us' v') \<and>
     (if p = 0 then exhausted m' us' v' \<and> alive us' \<union> view_live v' = alive us \<union> view_live v \<and>
                    (\<forall>n. roomy n (us @ [v]) \<longrightarrow> roomy n (us' @ [v']))
      else unat p \<notin> fst ` (alive us \<union> view_live v) \<and>
           alive us' \<union> view_live v' = insert (unat p, s) (alive us \<union> view_live v))"

text \<open>A step that only looked for memory, and the allocation after it.\<close>

lemma allots_after:
  assumes L: "alive us1 \<union> view_live v1 = alive us \<union> view_live v" and k: "preserves (alive us \<union> view_live v) m m1"
    and l: "hp_limit m1 = hp_limit m" and r: "\<forall>n. roomy n (us @ [v]) \<longrightarrow> roomy n (us1 @ [v1])"
    and a: "allots m1 us1 v1 s p m2 us2 v2"
  shows "allots m us v s p m2 us2 v2"
  using a r preserves_trans [OF k, of m2] unfolding allots_def L l by (cases "p = 0") (simp_all only: if_True if_False simp_thms, blast+)

lemma allots_trans:
  assumes "allots m us v s 0 m1 us1 v1" "allots m1 us1 v1 s p m2 us2 v2"
  shows "allots m us v s p m2 us2 v2"
proof -
  from assms(1) have "alive us1 \<union> view_live v1 = alive us \<union> view_live v" "preserves (alive us \<union> view_live v) m m1"
    "hp_limit m1 = hp_limit m" "\<forall>n. roomy n (us @ [v]) \<longrightarrow> roomy n (us1 @ [v1])"
    unfolding allots_def by simp_all
  from allots_after [OF this assms(2)] show ?thesis .
qed

lemma fresh_pointer:
  assumes ok: "mgr_ok m us (H, N, bs)" and q: "H \<le> q"
  shows "q \<notin> fst ` alive us"
proof
  assume "q \<in> fst ` alive us"
  then obtain s u where "u \<in> set us" "(q, s) \<in> view_live u" by (auto simp: alive_def)
  moreover obtain H1 N1 bs1 where "u = (H1, N1, bs1)" by (metis prod_cases3)
  ultimately have "view_ok m (H1, N1, bs1)" "H1 + N1 \<le> H" "q + s \<le> H1 + N1" "(q, s) \<in> live H1 bs1"
    using ok view_live_range [of q s H1 N1 bs1 m] by (auto simp: mgr_ok_def)
  moreover from this have "aligned bs1" "(q, s) \<in> live H1 bs1" by (auto simp: area_ok_def)
  then have "0 < s" using live_split [of q s H1 bs1] by auto
  ultimately show False using q by simp
qed

lemma malloc_cut:
  assumes ok: "mgr_ok m us (H, N, bs)" and gr: "growing m us (H, N, bs)"
    and s: "s mod 8 = 4" "extent bs + s + 4 \<le> N" and fuel: "0 < fuel"
  shows "\<exists>m'. malloc_loop fuel m (adr s) (Some (length us)) = Inr (adr (H + extent bs + 4), m') \<and>
              allots m us (H, N, bs) s (adr (H + extent bs + 4)) m' us (H, N, bs @ [(s, True)])"
proof -
  from ok have area: "area_ok m H N bs" "0 < N" by (auto simp: mgr_ok_def)
  note two = mgr_below_2gb [OF ok]
  let ?h = "poke m (H + extent bs) (marker s True)" and ?q = "H + extent bs + 4"
  note cut = ha_malloc_fits [OF area(1) two s]
  let ?m = "?h\<lparr>mm_heaps := map view_area us @ area H N (extent bs + s + 4) # replicate (15 - length us) ha_empty\<rparr>"
  have ed: "edits {H + extent bs..<H + extent bs + 4} m ?h" by (rule edits_poke) simp
  have q: "?q < 4294967296" using area_bounds [OF area(1) two] s(2) by simp
  have ext: "extent (bs @ [(s, True)]) = extent bs + s + 4" by simp
  have "mgr_ok ?m us (H, N, bs @ [(s, True)])"
    using mgr_update [OF ok ed, of "bs @ [(s, True)]", unfolded ext] cut(2) area(2) s(2) by simp
  moreover have "{H + extent bs..<H + extent bs + 4} \<inter> taken_bytes (alive us \<union> live H bs) = {}"
    using other_live [OF ok] taken_bytes_live_range [of _ H bs] by fastforce
  then have "preserves (alive us \<union> live H bs) m ?m" using preserves_edits [OF ed, of "alive us \<union> live H bs"] by (simp add: preserves_def)
  moreover have "?q \<notin> fst ` live H bs" using live_range [of ?q _ H bs] s(1) area(1) live_split [of ?q _ H bs]
    by (fastforce simp: area_ok_def)
  ultimately have "allots m us (H, N, bs) s (adr ?q) ?m us (H, N, bs @ [(s, True)])"
    using gr fresh_pointer [OF ok, of ?q] q edits_manager [OF ed] unfolding allots_def growing_def
    by (auto simp: unat_adr adr_0)
  moreover have "malloc_loop fuel m (adr s) (Some (length us)) = Inr (adr ?q, ?m)"
  proof (cases fuel)
    case (Suc fuel')
    have "set_heap ?h (length us) a = Inr (?h\<lparr>mm_heaps := map view_area us @ a # replicate (15 - length us) ha_empty\<rparr>)" for a
      using ok edits_manager(2) [OF ed] list_update_length [of "map view_area us" "view_area (H, N, bs)" _ a]
      by (simp add: set_heap_def mgr_ok_def)
    then show ?thesis using Suc set_heap_last(1) [OF ok] cut(1) q by (simp add: adr_0)
  qed (use fuel in simp)
  ultimately show ?thesis by blast
qed

lemma malloc_no_room:
  assumes ok: "mgr_ok m us (H, N, bs)" and s: "N < extent bs + s + 4" "s < 2147483640"
  shows "malloc_loop (Suc fuel) m (adr s) (Some (length us)) =
           bind_res (next_active_heap m) (\<lambda>(current, m1). malloc_loop fuel m1 (adr s) current)"
proof -
  from ok have area: "area_ok m H N bs" and heaps: "mm_heaps m = map view_area us @ area H N (extent bs) # replicate (15 - length us) ha_empty"
    by (auto simp: mgr_ok_def)
  have "m\<lparr>mm_heaps := map view_area us @ area H N (extent bs) # replicate (15 - length us) ha_empty\<rparr> = m"
    unfolding heaps [symmetric] by simp
  then show ?thesis
    using set_heap_last [OF ok] ha_malloc_full [OF area mgr_below_2gb [OF ok] s] by simp
qed

lemma malloc_loop_ok:
  assumes "mgr_ok m us v" "growing m us v" "s mod 8 = 4" "s < 2147483640" "hp_limit m - hp_pages m + 1 < fuel"
  shows "\<exists>p m' us' v'. malloc_loop fuel m (adr s) (Some (length us)) = Inr (p, m') \<and> allots m us v s p m' us' v'"
  using assms
proof (induction fuel arbitrary: m us v)
  case (Suc fuel)
  obtain H N bs where v: "v = (H, N, bs)" by (metis prod_cases3)
  show ?case
  proof (cases "extent bs + s + 4 \<le> N")
    case True
    then show ?thesis using malloc_cut [of m us H N bs s "Suc fuel"] Suc.prems v by blast
  next
    case False
    obtain c m1 us1 v1 where n: "next_active_heap m = Inr (c, m1)" and ok1: "next_ok m us v c m1 us1 v1"
      using next_active_heap_step [OF Suc.prems(1,2)] by blast
    have step: "malloc_loop (Suc fuel) m (adr s) (Some (length us)) = malloc_loop fuel m1 (adr s) c"
      using malloc_no_room [of m us H N bs s fuel] Suc.prems(1,4) False v n by simp
    show ?thesis
    proof (cases c)
      case None
      obtain f where "fuel = Suc f" using Suc.prems(5) by (cases fuel) auto
      with None have "malloc_loop fuel m1 (adr s) c = Inr (0, m1)" by simp
      moreover have "allots m us v s 0 m1 us1 v1" using ok1 None by (simp add: next_ok_def allots_def)
      ultimately show ?thesis unfolding step by blast
    next
      case (Some i)
      with ok1 have c: "c = Some (length us1)" "mgr_ok m1 us1 v1" "growing m1 us1 v1"
        and l: "hp_limit m1 = hp_limit m" "hp_pages m1 = Suc (hp_pages m)" "hp_pages m < hp_limit m"
        and L: "alive us1 \<union> view_live v1 = alive us \<union> view_live v" "preserves (alive us \<union> view_live v) m m1"
        and ro: "\<forall>n. roomy n (us @ [v]) \<longrightarrow> roomy n (us1 @ [v1])"
        by (simp_all add: next_ok_def)
      have "hp_limit m1 - hp_pages m1 + 1 < fuel" using l Suc.prems(5) by simp
      then obtain p m' us' v' where r: "malloc_loop fuel m1 (adr s) c = Inr (p, m')" "allots m1 us1 v1 s p m' us' v'"
        using Suc.IH [OF c(2,3) Suc.prems(3,4)] c(1) by blast
      then have "allots m us v s p m' us' v'" using allots_after [OF L l(1) ro] by blast
      with r(1) show ?thesis unfolding step by blast
    qed
  qed
qed simp

section \<open>Freed blocks\<close>

text \<open>A change of the blocks of one area, in memory below its end.\<close>

definition others :: "nat \<Rightarrow> nat \<Rightarrow> (nat \<times> nat) set \<Rightarrow> bool" where
  "others H N L \<longleftrightarrow> taken_bytes L \<inter> {H..<H + N} = {} \<and> fst ` L \<inter> {H..<H + N} = {}"

lemma live_pos: "aligned bs \<Longrightarrow> (q, s) \<in> live p bs \<Longrightarrow> 0 < s"
  using live_split [of q s p bs] by auto

lemma others_view:
  assumes "view_ok m (H1, N1, bs1)" "H1 + N1 \<le> H \<or> H + N \<le> H1"
  shows "others H N (live H1 bs1)"
proof -
  have "H1 \<le> q \<and> q + s \<le> H1 + N1 \<and> 0 < s" if "(q, s) \<in> live H1 bs1" for q s
    using view_live_range [of q s H1 N1 bs1 m] live_pos [of bs1 q s H1] assms(1) that by (auto simp: area_ok_def)
  with assms(2) show ?thesis by (fastforce simp: others_def taken_bytes_def)
qed

lemma mgr_replace:
  assumes ok: "mgr_ok m us v" and i: "i \<le> length us" "(us @ [v]) ! i = (H, N, bs)"
    and ed: "edits A m m1" "A \<subseteq> {H..<H + N}" and new: "area_ok m1 H N bs'" "extent bs' = extent bs"
  shows "\<exists>us' v' L. mgr_ok m1 us' v' \<and> (growing m us v \<longrightarrow> growing m1 us' v') \<and> (exhausted m us v \<longrightarrow> exhausted m1 us' v') \<and>
           us' @ [v'] = (us @ [v])[i := (H, N, bs')] \<and>
           alive us \<union> view_live v = L \<union> live H bs \<and> alive us' \<union> view_live v' = L \<union> live H bs' \<and> others H N L"
proof -
  note [simp] = edits_manager [OF ed(1)] edits_sel(1,2) [OF ed(1)]
  note two = mgr_below_2gb [OF ok]
  have keep: "view_ok m1 (H1, N1, bs1)" if "view_ok m (H1, N1, bs1)" "H1 + N1 \<le> H \<or> H + N \<le> H1" for H1 N1 bs1
    by (rule view_ok_edits [OF that(1) ed(1) _ two]) (use that(2) ed(2) in force)
  have "length us \<le> 1" using ok by (simp add: mgr_ok_def)
  then consider "v = (H, N, bs)" "i = length us" | "us = [(H, N, bs)]" "i = 0"
    using i by (cases us; cases i) auto
  then show ?thesis
  proof cases
    case 1
    have us: "us = [] \<or> (\<exists>H1 N1 bs1. us = [(H1, N1, bs1)] \<and> view_ok m (H1, N1, bs1) \<and> H1 + N1 \<le> H)"
      using ok 1 by (cases us) (auto simp: mgr_ok_def)
    then have "mgr_ok m1 us (H, N, bs')" using ok keep new unfolding mgr_ok_def 1(1) by auto
    moreover from us have "others H N (alive us)"
    proof (elim disjE exE conjE)
      fix H1 N1 bs1
      assume "us = [(H1, N1, bs1)]" "view_ok m (H1, N1, bs1)" "H1 + N1 \<le> H"
      then show ?thesis using others_view [of m H1 N1 bs1 H N] by simp
    qed (simp add: others_def)
    ultimately show ?thesis using 1 new(2)
      by (intro exI [of _ us] exI [of _ "(H, N, bs')"] exI [of _ "alive us"]) (simp add: growing_def exhausted_def)
  next
    case 2
    obtain H1 N1 bs1 where v: "v = (H1, N1, bs1)" by (metis prod_cases3)
    with ok 2 have h: "view_ok m (H1, N1, bs1)" "H + N \<le> H1" by (auto simp: mgr_ok_def)
    then have "mgr_ok m1 [(H, N, bs')] v" using ok keep new unfolding mgr_ok_def 2(1) v by auto
    moreover have "others H N (view_live v)" using others_view [OF h(1)] h(2) v by simp
    ultimately show ?thesis using 2 new(2)
      by (intro exI [of _ "[(H, N, bs')]"] exI [of _ v] exI [of _ "view_live v"])
        (auto simp: growing_def exhausted_def)
  qed
qed

section \<open>Freeing\<close>

lemma is_in_heap_adr:
  "H + N < 2147483648 \<Longrightarrow> q < 2147483648 \<Longrightarrow> 4 \<le> N \<Longrightarrow> is_in_heap (area H N T) (adr q) \<longleftrightarrow> H + 4 \<le> q \<and> q < H + N"
  by (simp add: is_in_heap_def adr_simps)

lemma view_bounds:
  assumes "view_ok m (H, N, bs)" "below_2gb m"
  shows "H + N < 2147483648" "8 \<le> N" "ha_is_init (area H N T)" "aligned bs"
proof -
  from assms(1) have area: "area_ok m H N bs" by simp
  from assms(1) have "8 dvd N" "0 < N" by (simp_all add: area_ok_def mod_eq_0_iff_dvd)
  then show "8 \<le> N" by (rule dvd_imp_le)
  note b = area_bounds [OF area assms(2)]
  show "H + N < 2147483648" "ha_is_init (area H N T)" "aligned bs"
    using b area by (simp_all add: ha_is_init_def adr_simps area_ok_def)
qed

lemma heap_of_alive:
  assumes ok: "mgr_ok m us v" and ph: "growing m us v \<or> exhausted m us v" and q: "(q, s) \<in> alive us \<union> view_live v"
  obtains i H N bs where "heap_of m (adr q) = Some i" "heap_at m i = Inr (area H N (extent bs))"
    "(H, N, bs) \<in> set (us @ [v])" "(q, s) \<in> live H bs"
proof -
  note two = mgr_below_2gb [OF ok]
  obtain H N bs where v: "v = (H, N, bs)" by (metis prod_cases3)
  with ok have vok: "view_ok m (H, N, bs)" by (simp add: mgr_ok_def)
  note vb = view_bounds [OF vok two]
  have rest: "\<exists>hs. take (mm_heaps_actual_size m) (mm_heaps m) = map view_area us @ area H N (extent bs) # hs"
    using ok ph by (auto simp: mgr_ok_def growing_def exhausted_def v)
  then obtain hs where hs: "take (mm_heaps_actual_size m) (mm_heaps m) = map view_area us @ area H N (extent bs) # hs" by blast
  have q_v: "H + 4 \<le> q \<and> q < H + N" if "(q, s) \<in> live H bs"
    using view_live_range [of q s H N bs m] vok live_pos [OF vb(4) that] that by auto
  show thesis
  proof (cases us)
    case Nil
    with q v have lq: "(q, s) \<in> live H bs" by simp
    have "heap_of m (adr q) = Some 0"
      using q_v [OF lq] vb by (simp add: heap_of_def hs Nil is_in_heap_adr)
    moreover have "heap_at m 0 = Inr (area H N (extent bs))" using ok v Nil by (simp add: mgr_ok_def heap_at_def)
    ultimately show ?thesis using that lq v Nil by simp
  next
    case (Cons u us1)
    with ok have us: "us = [u]" by (simp add: mgr_ok_def)
    obtain H1 N1 bs1 where u: "u = (H1, N1, bs1)" by (metis prod_cases3)
    with ok us v have uok: "view_ok m (H1, N1, bs1)" "H1 + N1 \<le> H" by (auto simp: mgr_ok_def)
    note ub = view_bounds [OF uok(1) two]
    have heaps: "heap_at m 0 = Inr (area H1 N1 (extent bs1))" "heap_at m 1 = Inr (area H N (extent bs))"
      using ok v us u by (simp_all add: mgr_ok_def heap_at_def)
    show ?thesis
    proof (cases "(q, s) \<in> live H1 bs1")
      case True
      then have "H1 + 4 \<le> q \<and> q < H1 + N1"
        using view_live_range [of q s H1 N1 bs1 m] uok(1) live_pos [OF ub(4) True] by auto
      then have "heap_of m (adr q) = Some 0" using ub by (simp add: heap_of_def hs us u is_in_heap_adr)
      then show ?thesis using that heaps(1) True us u by simp
    next
      case False
      with q us u v have lq: "(q, s) \<in> live H bs" by simp
      have "heap_of m (adr q) = Some 1"
        using q_v [OF lq] ub vb uok(2) by (simp add: heap_of_def hs us u is_in_heap_adr)
      then show ?thesis using that heaps(2) lq v by simp
    qed
  qed
qed

lemma live_freed:
  assumes "aligned (xs @ (s, True) # ys)"
  shows "live p (xs @ (s, False) # ys) = live p (xs @ (s, True) # ys) - {(p + extent xs + 4, s)}"
proof -
  have "(p + extent xs + 4, s) \<notin> live p xs" using live_range [of "p + extent xs + 4" s p xs] by auto
  moreover have "(p + extent xs + 4, s) \<notin> live (p + extent xs + 4 + s) ys"
    using live_range [of "p + extent xs + 4" s "p + extent xs + 4 + s" ys] assms by auto
  ultimately show ?thesis by auto
qed

lemma mm_free_ok:
  assumes ok: "mgr_ok m us v" and ph: "growing m us v \<or> exhausted m us v" and q: "(q, s) \<in> alive us \<union> view_live v"
  shows "\<exists>m' us' v'. mm_free m (adr q) = Inr m' \<and> mgr_ok m' us' v' \<and> (growing m' us' v' \<or> exhausted m' us' v') \<and>
           alive us' \<union> view_live v' = alive us \<union> view_live v - {(q, s)} \<and> preserves (alive us \<union> view_live v) m m' \<and>
           hp_limit m' = hp_limit m \<and> roomy s (us' @ [v'])"
proof -
  obtain i H N bs where i: "heap_of m (adr q) = Some i" "heap_at m i = Inr (area H N (extent bs))"
    "(H, N, bs) \<in> set (us @ [v])" "(q, s) \<in> live H bs"
    using heap_of_alive [OF ok ph q] by blast
  obtain xs ys where bs: "bs = xs @ (s, True) # ys" and qx: "q = H + extent xs + 4" using live_split [OF i(4)] by blast
  obtain j where j: "j \<le> length us" "(us @ [v]) ! j = (H, N, bs)"
    using i(3) by (metis in_set_conv_nth length_append_singleton less_Suc_eq_le)
  have vw: "view_ok m (H, N, bs)" using i(3) ok by (auto simp: mgr_ok_def)
  then have area: "area_ok m H N (xs @ (s, True) # ys)" by (simp add: bs)
  note two = mgr_below_2gb [OF ok]
  let ?m = "poke m (H + extent xs) (marker s False)" and ?A = "{H + extent xs..<H + extent xs + 4}"
  note fr = ha_free_ok [OF area two]
  have ed: "edits ?A m ?m" by (rule edits_poke) simp
  have "H + extent xs + 4 \<le> H + N" using area by (simp add: area_ok_def)
  then have sub: "?A \<subseteq> {H..<H + N}" by auto
  obtain us' v' L where r: "mgr_ok ?m us' v'" "growing m us v \<longrightarrow> growing ?m us' v'" "exhausted m us v \<longrightarrow> exhausted ?m us' v'"
    "alive us \<union> view_live v = L \<union> live H bs" "alive us' \<union> view_live v' = L \<union> live H (xs @ (s, False) # ys)" "others H N L"
    "us' @ [v'] = (us @ [v])[j := (H, N, xs @ (s, False) # ys)]"
    using mgr_replace [OF ok j ed sub fr(2)] by (auto simp: bs)
  have q0: "adr q \<noteq> 0" using area_bounds [OF area two] qx i(4) by (simp add: adr_simps)
  have "mm_free m (adr q) = Inr ?m" using q0 i(1,2) fr(1) qx by (simp add: mm_free_def)
  moreover have "(q, s) \<notin> L"
    using r(6) view_live_range [of q s H N bs m] i(4) vw live_pos [of bs q s H] by (force simp: others_def area_ok_def)
  then have "alive us' \<union> view_live v' = alive us \<union> view_live v - {(q, s)}"
    using live_freed [of xs s ys H] area r(4,5) qx by (auto simp: bs area_ok_def)
  moreover have "?A \<inter> taken_bytes (L \<union> live H bs) = {}"
    using r(6) sub taken_bytes_headers [of _ H bs] by (fastforce simp: others_def bs)
  then have "preserves (alive us \<union> view_live v) m ?m" unfolding r(4) by (rule preserves_edits [OF ed])
  moreover have "roomy s (us' @ [v'])"
    unfolding r(7) roomy_def list_ex_length using j(1) by (intro exI [of _ j]) auto
  ultimately show ?thesis using r(1-3) ph
    by (intro exI [of _ ?m] exI [of _ us'] exI [of _ v']) (auto simp del: roomy_simps)
qed

section \<open>Blocks from the freed ones\<close>

lemma exhausted_view:
  assumes ok: "mgr_ok m us v" and ex: "exhausted m us v" and i: "i \<le> length us"
  obtains H N bs where "heap_at m i = Inr (area H N N)" "(us @ [v]) ! i = (H, N, bs)" "area_ok m H N bs" "extent bs = N" "0 < N"
proof -
  let ?vs = "us @ [v]"
  obtain H N bs where w: "?vs ! i = (H, N, bs)" by (metis prod_cases3)
  have "mm_heaps m = map view_area ?vs @ replicate (15 - length us) ha_empty" using ok by (simp add: mgr_ok_def)
  then have heap: "heap_at m i = Inr (area H N (extent bs))"
    using i w nth_append [of "map view_area ?vs" _ i] by (simp add: heap_at_def del: map_append)
  have mem: "(H, N, bs) \<in> set ?vs" using i w nth_mem [of i ?vs] by simp
  moreover have "\<forall>w \<in> set ?vs. view_ok m w \<and> full w" using ok ex by (auto simp: mgr_ok_def exhausted_def)
  ultimately have "view_ok m (H, N, bs)" "full (H, N, bs)" by blast+
  with heap w that show thesis by simp
qed

lemma room_update:
  assumes "vs ! i = (H, N, bs)" "i < length vs" "\<And>k. (k, False) \<in> set bs \<Longrightarrow> \<exists>k' \<ge> k. (k', False) \<in> set bs'" "roomy n vs"
  shows "roomy n (vs[i := (H, N, bs')])"
proof -
  from assms(4) obtain j where j: "j < length vs" "view_room n (vs ! j)" by (auto simp: roomy_def list_ex_length)
  moreover have "view_room n (H, N, bs')" if room: "view_room n (H, N, bs)"
  proof -
    from room obtain k where "n \<le> k" "(k, False) \<in> set bs" by auto
    with assms(3) [of k] show ?thesis by (auto intro: le_trans)
  qed
  ultimately have "view_room n (vs[i := (H, N, bs')] ! j)" using assms(1,2) by (cases "j = i") simp_all
  then show ?thesis using j(1) by (auto simp: roomy_def list_ex_length)
qed

lemma freed_round:
  assumes ok: "mgr_ok m us v" and ex: "exhausted m us v" and s: "s mod 8 = 4" "s < 2147483640"
  shows "\<exists>a p m' us' v'. heap_at m (mm_active_free_heap m) = Inr a \<and> malloc_from_freed m a (adr s) = Inr (p, m') \<and>
           allots m us v s p m' us' v' \<and> exhausted m' us' v' \<and> mm_active_free_heap m' = mm_active_free_heap m \<and>
           (\<exists>w. us' @ [v'] = (us @ [v])[mm_active_free_heap m := w]) \<and>
           (p = 0 \<longrightarrow> \<not> view_room s ((us @ [v]) ! mm_active_free_heap m))"
proof -
  note two = mgr_below_2gb [OF ok]
  have i: "mm_active_free_heap m \<le> length us" using ok by (simp add: mgr_ok_def)
  then obtain H N bs where w: "heap_at m (mm_active_free_heap m) = Inr (area H N N)" "(us @ [v]) ! mm_active_free_heap m = (H, N, bs)"
    "area_ok m H N bs" "extent bs = N" "0 < N"
    using exhausted_view [OF ok ex] by blast
  have s': "s < 2147483648" using s(2) by simp
  obtain r bs' where f: "fit H s bs = (r, bs')" by fastforce
  let ?p = "case r of None \<Rightarrow> 0 | Some q \<Rightarrow> adr q" and ?A = "{H..<H + N} - taken_bytes (live H bs)"
  obtain m1 where m1: "malloc_from_freed m (area H N N) (adr s) = Inr (?p, m1)" "area_ok m1 H N bs'" "edits ?A m m1" "extent bs' = N"
    by (rule malloc_from_freed_fit [OF w(3) two w(4,5) s(1) s' f])
  obtain us' v' L where r: "mgr_ok m1 us' v'" "exhausted m us v \<longrightarrow> exhausted m1 us' v'"
    "us' @ [v'] = (us @ [v])[mm_active_free_heap m := (H, N, bs')]"
    "alive us \<union> view_live v = L \<union> live H bs" "alive us' \<union> view_live v' = L \<union> live H bs'" "others H N L"
    using mgr_replace [OF ok i w(2) m1(3) _ m1(2)] m1(4) w(4) by auto
  have "?A \<inter> taken_bytes (L \<union> live H bs) = {}" using r(6) by (auto simp: others_def)
  then have keep: "preserves (alive us \<union> view_live v) m m1" unfolding r(4) by (rule preserves_edits [OF m1(3)])
  have al: "aligned bs" using w(3) by (simp add: area_ok_def)
  note fit = fit_ok [OF f al s(1)]
  have "allots m us v s ?p m1 us' v'"
  proof (cases r)
    case None
    have "roomy n (us' @ [v'])" if "roomy n (us @ [v])" for n
      using that room_update [OF w(2) _ fit_room [OF f [unfolded None]], of n] i unfolding r(3) by simp
    then show ?thesis using None r ex keep fit edits_sel(2) [OF m1(3)] by (simp add: allots_def del: roomy_simps)
  next
    case (Some q)
    with fit w(4) have q: "H + 4 \<le> q" "q + s \<le> H + N" "q \<notin> fst ` live H bs" "live H bs' = insert (q, s) (live H bs)" by auto
    have "0 < s" using s(1) by (cases s) auto
    with q have "q \<in> {H..<H + N}" by simp
    then have "q \<notin> fst ` L" using r(6) by (auto simp: others_def)
    moreover have "unat (adr q) = q" "adr q \<noteq> 0"
      using area_bounds [OF w(3) two] q(1,2) by (simp_all add: adr_simps)
    ultimately show ?thesis using r ex keep q(3,4) Some edits_sel(2) [OF m1(3)]
      by (simp add: allots_def image_Un)
  qed
  moreover have "\<not> view_room s ((us @ [v]) ! mm_active_free_heap m)" if "?p = 0"
  proof (cases r)
    case None
    then show ?thesis using fit_none [of H s bs bs'] f w(2) by fastforce
  next
    case (Some q)
    then show ?thesis using that fit area_bounds [OF w(3) two] w(4) by (auto simp: adr_0)
  qed
  ultimately show ?thesis using w(1) m1(1) r(2,3) ex edits_manager(5) [OF m1(3)] by blast
qed

text \<open>The state after a round without success: the same areas, the next one active.\<close>

lemma exhausted_next:
  assumes "mgr_ok m us v" "exhausted m us v" "k \<le> length us"
  shows "mgr_ok (m\<lparr>mm_active_free_heap := k\<rparr>) us v" "exhausted (m\<lparr>mm_active_free_heap := k\<rparr>) us v"
  using assms by (simp_all add: mgr_ok_def exhausted_def)

lemma allots_next:
  assumes "allots m us v s 0 m1 us1 v1" "k \<le> length us1"
  shows "allots m us v s 0 (m1\<lparr>mm_active_free_heap := k\<rparr>) us1 v1"
  using assms by (simp add: allots_def mgr_ok_def exhausted_def growing_def preserves_def)

lemma free_loop_step:
  assumes "heap_at m (mm_active_free_heap m) = Inr a" "malloc_from_freed m a sz = Inr (p, m1)"
    and "j = (if mm_active_free_heap m1 + 1 = mm_heaps_actual_size m1 then 0 else mm_active_free_heap m1 + 1)"
  shows "free_heap_loop (Suc f) m sz e =
     (if p \<noteq> 0 then Inr (p, m1) else if j \<noteq> e then free_heap_loop f (m1\<lparr>mm_active_free_heap := j\<rparr>) sz e
      else Inr (0, m1\<lparr>mm_active_free_heap := j\<rparr>))"
  using assms by (simp add: Let_def)

lemma roomy_two:
  assumes "length vs \<le> 2" "roomy n vs" "i \<noteq> j" "i < 2" "j < 2"
  shows "view_room n (vs ! i) \<or> view_room n (vs ! j)"
proof -
  obtain l where l: "l < length vs" "view_room n (vs ! l)" using assms(2) by (auto simp: roomy_def list_ex_length)
  then have "l = i \<or> l = j" using assms(1,3-5) by linarith
  with l(2) show ?thesis by blast
qed

text \<open>The round that comes back to where the loop began: it ends the loop whatever it finds.\<close>

lemma last_round:
  assumes ok: "mgr_ok m us v" and ex: "exhausted m us v" and s: "s mod 8 = 4" "s < 2147483640"
    and e: "length us = 1" "e \<le> 1" "e \<noteq> mm_active_free_heap m"
  shows "\<exists>p m' us' v'. free_heap_loop (Suc f) m (adr s) e = Inr (p, m') \<and> allots m us v s p m' us' v' \<and>
           (p = 0 \<longrightarrow> \<not> view_room s ((us @ [v]) ! mm_active_free_heap m))"
proof -
  obtain a p m1 us1 v1 w1 where one: "heap_at m (mm_active_free_heap m) = Inr a" "malloc_from_freed m a (adr s) = Inr (p, m1)"
    "allots m us v s p m1 us1 v1" "exhausted m1 us1 v1" "mm_active_free_heap m1 = mm_active_free_heap m"
    "us1 @ [v1] = (us @ [v])[mm_active_free_heap m := w1]"
    "p = 0 \<longrightarrow> \<not> view_room s ((us @ [v]) ! mm_active_free_heap m)"
    using freed_round [OF ok ex s] by blast
  have us1: "length us1 = 1" using arg_cong [OF one(6), of length] e(1) by simp
  have "mm_active_free_heap m \<le> 1" using ok e(1) by (simp add: mgr_ok_def)
  then have "e = (if mm_active_free_heap m1 + 1 = mm_heaps_actual_size m1 then 0 else mm_active_free_heap m1 + 1)"
    using one(4,5) us1 e(2,3) by (auto simp: exhausted_def)
  note loop = free_loop_step [OF one(1,2) this]
  have "allots m us v s 0 (m1\<lparr>mm_active_free_heap := e\<rparr>) us1 v1" if "p = 0"
    using one(3) that us1 e(2) by (intro allots_next) simp_all
  then show ?thesis using one(3,7) unfolding loop
    by (intro exI [of _ p] exI [of _ "if p \<noteq> 0 then m1 else m1\<lparr>mm_active_free_heap := e\<rparr>"] exI [of _ us1] exI [of _ v1]) simp
qed

lemma free_heap_loop_ok:
  assumes ok: "mgr_ok m us v" and ex: "exhausted m us v" and s: "s mod 8 = 4" "s < 2147483640"
  shows "\<exists>p m' us' v'. free_heap_loop (mm_heaps_actual_size m + 1) m (adr s) (mm_active_free_heap m) = Inr (p, m') \<and>
           allots m us v s p m' us' v' \<and> (p = 0 \<longrightarrow> \<not> roomy s (us @ [v]))"
proof -
  obtain a p m1 us1 v1 w1 where one: "heap_at m (mm_active_free_heap m) = Inr a" "malloc_from_freed m a (adr s) = Inr (p, m1)"
    "allots m us v s p m1 us1 v1" "exhausted m1 us1 v1" "mm_active_free_heap m1 = mm_active_free_heap m"
    "us1 @ [v1] = (us @ [v])[mm_active_free_heap m := w1]"
    "p = 0 \<longrightarrow> \<not> view_room s ((us @ [v]) ! mm_active_free_heap m)"
    using freed_round [OF assms] by blast
  define i where "i = mm_active_free_heap m"
  define j where "j = (if mm_active_free_heap m1 + 1 = mm_heaps_actual_size m1 then 0 else mm_active_free_heap m1 + 1)"
  let ?m1 = "m1\<lparr>mm_active_free_heap := j\<rparr>"
  have us1: "length us1 = length us" using arg_cong [OF one(6), of length] by simp
  have act: "mm_heaps_actual_size m = Suc (length us)" "mm_heaps_actual_size m1 = Suc (length us)" "length us \<le> 1" "i \<le> length us"
    using ex one(4) us1 ok by (auto simp: exhausted_def mgr_ok_def i_def)
  have j: "j = (if i = length us then 0 else i + 1)" and jle: "j \<le> length us1" using act one(5) us1 by (auto simp: j_def i_def)
  note loop1 = free_loop_step [OF one(1,2) j_def]
  consider "p \<noteq> 0" | "p = 0" "j = i" | "p = 0" "j \<noteq> i" by blast
  then have "\<exists>p' m' us' v'. (if p \<noteq> 0 then Inr (p, m1) else if j \<noteq> i then free_heap_loop (Suc (length us)) ?m1 (adr s) i
      else Inr (0, ?m1)) = Inr (p', m') \<and> allots m us v s p' m' us' v' \<and> (p' = 0 \<longrightarrow> \<not> roomy s (us @ [v]))"
  proof cases
    case 1
    with one(3) show ?thesis by (intro exI [of _ p] exI [of _ m1] exI [of _ us1] exI [of _ v1]) simp
  next
    case 2
    then have "us = []" using j act(3,4) by (cases us) (auto split: if_splits)
    moreover have "allots m us v s 0 ?m1 us1 v1" using one(3) 2(1) by (intro allots_next [OF _ jle]) simp
    ultimately show ?thesis using 2 one(7) act(4)
      by (intro exI [of _ 0] exI [of _ ?m1] exI [of _ us1] exI [of _ v1]) (simp add: i_def)
  next
    case 3
    then have two_us: "length us = 1" using act(3,4) j by (cases us) auto
    have "mgr_ok m1 us1 v1" using one(3) by (simp add: allots_def)
    note ok1 = exhausted_next [OF this one(4) jle] allots_next [OF one(3) [unfolded 3(1)] jle]
    obtain p2 m2 us2 v2 where two: "free_heap_loop (Suc (length us)) ?m1 (adr s) i = Inr (p2, m2)"
      "allots ?m1 us1 v1 s p2 m2 us2 v2" "p2 = 0 \<longrightarrow> \<not> view_room s ((us1 @ [v1]) ! j)"
      using last_round [OF ok1(1,2) s, of i "length us"] 3(2) two_us us1 act(4) by auto
    have "allots m us v s p2 m2 us2 v2" by (rule allots_trans [OF ok1(3) two(2)])
    moreover have "\<not> roomy s (us @ [v])" if "p2 = 0"
    proof -
      have "i < 2" "j < 2" using two_us act(4) j by (auto split: if_splits)
      moreover have "\<not> view_room s ((us @ [v]) ! i)" "\<not> view_room s ((us @ [v]) ! j)"
        using one(6,7) two(3) 3 that by (simp_all add: i_def)
      ultimately show ?thesis using roomy_two [of "us @ [v]" s i j] 3(2) two_us by (simp del: roomy_simps) blast
    qed
    ultimately show ?thesis using 3 two(1)
      by (intro exI [of _ p2] exI [of _ m2] exI [of _ us2] exI [of _ v2]) simp
  qed
  then show ?thesis by (simp only: act(1) Suc_eq_plus1 [symmetric] loop1 i_def [symmetric])
qed

section \<open>Calls of \<open>malloc\<close> and \<open>free\<close>\<close>

text \<open>Sizes are rounded up so that a block with its marker is a multiple of eight bytes.\<close>

definition padded :: "nat \<Rightarrow> nat" where
  "padded n = (if (n + 4) mod 8 = 0 then n else n + (8 - (n + 4) mod 8))"

lemma padded_bounds: "n \<le> padded n" "padded n < n + 8"
  by (auto simp: padded_def)

lemma padded_mod: "padded n mod 8 = 4"
proof -
  have "(padded n + 4) mod 8 = 0"
  proof (cases "(n + 4) mod 8 = 0")
    case False
    define r where "r = (n + 4) mod 8"
    have "r < 8" "r \<le> n + 4" by (simp_all add: r_def)
    with False have "padded n + 4 = (n + 4 - r) + 8" by (simp add: padded_def r_def [symmetric])
    moreover have "8 dvd n + 4 - r" unfolding r_def by (rule dvd_minus_mod)
    ultimately show ?thesis by (simp add: mod_eq_0_iff_dvd)
  qed (simp add: padded_def)
  then show ?thesis by presburger
qed

lemma adjust_padded:
  assumes "n \<le> 2147483632"
  shows "adjust_to_mem_block (adr n) = adr (padded n)"
proof -
  have "(adr (n + 4)) AND 7 = take_bit 3 (adr (n + 4))"
    by (simp add: take_bit_eq_mask mask_eq_exp_minus_1)
  also have "\<dots> = adr ((n + 4) mod 8)"
    using assms unfolding word_unat_eq_iff unsigned_take_bit_eq by (simp add: take_bit_eq_mod unat_adr)
  finally have rem: "(adr n + size_marker) AND 7 = adr ((n + 4) mod 8)" by (simp add: adr_plus_numeral)
  have eight: "8 - adr ((n + 4) mod 8) = adr (8 - (n + 4) mod 8)"
    using adr_minus [of "(n + 4) mod 8" 8] by (simp add: adr_def)
  have pos: "(0 < adr ((n + 4) mod 8)) = (0 < (n + 4) mod 8)"
    using adr_less [of 0 "(n + 4) mod 8"] by (simp add: adr_def)
  show ?thesis unfolding adjust_to_mem_block_def rem Let_def pos eight adr_plus by (simp add: padded_def)
qed

definition fresh :: "manager \<Rightarrow> bool" where
  "fresh m \<longleftrightarrow> mm_heaps m = replicate 16 ha_empty \<and> mm_heaps_actual_size m = 0 \<and> mm_active_heap m = 0 \<and>
     mm_active_free_heap m = 0 \<and> \<not> sb_initialized m \<and> 0 < unat (mm_initial_heap m) \<and>
     unat (mm_initial_heap m) + 8192 \<le> hp_pages m * 65536 \<and> hp_pages m \<le> hp_limit m \<and> hp_limit m < 32768"

text \<open>The manager with the blocks \<open>L\<close> allocated.\<close>

definition manages :: "manager \<Rightarrow> (nat \<times> nat) set \<Rightarrow> bool" where
  "manages m L \<longleftrightarrow> fresh m \<and> L = {} \<or>
     (\<exists>us v. mgr_ok m us v \<and> (growing m us v \<or> exhausted m us v) \<and> L = alive us \<union> view_live v)"

definition started :: "manager \<Rightarrow> manager" where
  "started m = m\<lparr>mm_heaps_actual_size := 16, mm_heaps := area (unat (mm_initial_heap m)) 8192 0 # replicate 15 ha_empty\<rparr>"

lemma started_ok:
  assumes "fresh m"
  shows "mgr_ok (started m) [] (unat (mm_initial_heap m), 8192, [])" "growing (started m) [] (unat (mm_initial_heap m), 8192, [])"
proof -
  have "area_ok m (unat (mm_initial_heap m)) 8192 []" using assms by (simp add: fresh_def area_ok_def)
  then show "mgr_ok (started m) [] (unat (mm_initial_heap m), 8192, [])" "growing (started m) [] (unat (mm_initial_heap m), 8192, [])"
    using assms by (simp_all add: fresh_def started_def mgr_ok_def growing_def)
qed

text \<open>The part of \<open>malloc\<close> before its loops.\<close>

lemma mm_malloc_fresh:
  assumes "fresh m" "0 < n" "n \<le> 2147483632"
  shows "mm_malloc m (adr n) =
     bind_res (malloc_loop 65537 (started m) (adr (padded n)) (Some 0)) (\<lambda>(buffer, m3).
       if buffer = 0 then free_heap_loop (mm_heaps_actual_size m3 + 1) m3 (adr (padded n)) (mm_active_free_heap m3)
       else Inr (buffer, m3))"
proof -
  have "replicate 16 ha_empty = ha_empty # replicate 15 ha_empty" by (simp add: numeral_eq_Suc)
  then have heaps: "mm_heaps m = ha_empty # replicate 15 ha_empty" using assms(1) by (simp add: fresh_def)
  have area: "ha_init ha_empty (mm_initial_heap m) initial_heap_size = area (unat (mm_initial_heap m)) 8192 0"
    by (simp add: ha_init_def ha_empty_def area_def initial_heap_size_def adr_def)
  have "adr n \<noteq> 0" "\<not> ha_is_init ha_empty" using assms(2,3) by (simp_all add: adr_0 ha_is_init_def ha_empty_def)
  moreover have "mm_heaps_actual_size m = 0" "mm_active_heap m = 0" using assms(1) by (simp_all add: fresh_def)
  ultimately show ?thesis
    using adjust_padded [OF assms(3)]
    by (simp add: mm_malloc_def heaps_size_def heap_at_def set_heap_def heaps area Let_def started_def
        del: malloc_loop.simps free_heap_loop.simps)
qed

lemma mm_malloc_growing:
  assumes ok: "mgr_ok m us v" "growing m us v" and n: "0 < n" "n \<le> 2147483632"
  shows "mm_malloc m (adr n) =
     bind_res (malloc_loop 65537 m (adr (padded n)) (Some (length us))) (\<lambda>(buffer, m3).
       if buffer = 0 then free_heap_loop (mm_heaps_actual_size m3 + 1) m3 (adr (padded n)) (mm_active_free_heap m3)
       else Inr (buffer, m3))"
proof -
  obtain H N bs where v: "v = (H, N, bs)" by (metis prod_cases3)
  have "view_ok m (H, N, bs)" "length us \<le> 1" using ok(1) v by (simp_all add: mgr_ok_def)
  then have "ha_is_init (view_area v)" using view_bounds(3) [OF _ mgr_below_2gb [OF ok(1)]] v by simp
  moreover have "adr n \<noteq> 0" using n by (simp add: adr_0)
  ultimately show ?thesis
    using ok(2) \<open>length us \<le> 1\<close> adjust_padded [OF n(2)] set_heap_last(1) [OF ok(1)]
    by (simp add: mm_malloc_def growing_def Let_def del: malloc_loop.simps free_heap_loop.simps)
qed

lemma mm_malloc_exhausted:
  assumes ok: "mgr_ok m us v" "exhausted m us v" and n: "0 < n" "n \<le> 2147483632"
  shows "mm_malloc m (adr n) = free_heap_loop (mm_heaps_actual_size m + 1) m (adr (padded n)) (mm_active_free_heap m)"
proof -
  have "malloc_loop 65537 m (adr (padded n)) None = Inr (0, m)"
    using malloc_loop.simps(2) [of 65536 m "adr (padded n)" None] by (simp del: malloc_loop.simps)
  moreover have "adr n \<noteq> 0" using n by (simp add: adr_0)
  ultimately show ?thesis
    using ok(2) adjust_padded [OF n(2)]
    by (simp add: mm_malloc_def exhausted_def Let_def del: malloc_loop.simps free_heap_loop.simps)
qed

text \<open>Both loops together.\<close>

lemma malloc_both:
  assumes ok: "mgr_ok m us v" "growing m us v" and s: "s mod 8 = 4" "s < 2147483640"
  shows "\<exists>p m' us' v'. bind_res (malloc_loop 65537 m (adr s) (Some (length us))) (\<lambda>(buffer, m3).
       if buffer = 0 then free_heap_loop (mm_heaps_actual_size m3 + 1) m3 (adr s) (mm_active_free_heap m3)
       else Inr (buffer, m3)) = Inr (p, m') \<and> allots m us v s p m' us' v' \<and> (p = 0 \<longrightarrow> \<not> roomy s (us @ [v]))"
proof -
  have "hp_limit m < 32768" using ok(1) by (simp add: mgr_ok_def)
  then have "hp_limit m - hp_pages m + 1 < 65537" by simp
  from malloc_loop_ok [OF ok s this] obtain p m1 us1 v1
    where one: "malloc_loop 65537 m (adr s) (Some (length us)) = Inr (p, m1)" "allots m us v s p m1 us1 v1" by blast
  show ?thesis
  proof (cases "p = 0")
    case True
    with one(2) have "mgr_ok m1 us1 v1" "exhausted m1 us1 v1" by (auto simp: allots_def)
    from free_heap_loop_ok [OF this s] obtain p2 m2 us2 v2 where two:
      "free_heap_loop (mm_heaps_actual_size m1 + 1) m1 (adr s) (mm_active_free_heap m1) = Inr (p2, m2)" "allots m1 us1 v1 s p2 m2 us2 v2" "p2 = 0 \<longrightarrow> \<not> roomy s (us1 @ [v1])" by blast
    have "allots m us v s p2 m2 us2 v2" using allots_trans two(2) one(2) True by blast
    moreover have "roomy s (us @ [v]) \<longrightarrow> roomy s (us1 @ [v1])" using one(2) True unfolding allots_def by simp
    ultimately show ?thesis using one(1) two(1,3) True
      by (intro exI [of _ p2] exI [of _ m2] exI [of _ us2] exI [of _ v2])
        (simp del: malloc_loop.simps free_heap_loop.simps roomy_simps, blast)
  next
    case False
    with one show ?thesis
      by (intro exI [of _ p] exI [of _ m1] exI [of _ us1] exI [of _ v1]) (simp del: malloc_loop.simps)
  qed
qed

definition malloc_post :: "manager \<Rightarrow> (nat \<times> nat) set \<Rightarrow> nat \<Rightarrow> 32 word \<Rightarrow> manager \<Rightarrow> bool" where
  "malloc_post m L s p m' \<longleftrightarrow> preserves L m m' \<and> hp_limit m' = hp_limit m \<and>
     (if p = 0 then manages m' L \<and> hp_pages m' = hp_limit m' else unat p \<notin> fst ` L \<and> manages m' (insert (unat p, s) L))"

lemma manages_intro: "mgr_ok m us v \<Longrightarrow> growing m us v \<or> exhausted m us v \<Longrightarrow> manages m (alive us \<union> view_live v)"
  unfolding manages_def by blast

lemma allots_post:
  assumes "allots m us v s p m' us' v'"
  shows "malloc_post m (alive us \<union> view_live v) s p m'"
proof -
  from assms have "manages m' (alive us' \<union> view_live v')" by (intro manages_intro) (auto simp: allots_def)
  with assms show ?thesis unfolding allots_def malloc_post_def by (cases "p = 0") (simp_all add: exhausted_def)
qed

lemma mm_malloc_ok:
  assumes mg: "manages m L" and n: "0 < n" "n \<le> 2147483632"
  shows "\<exists>p m'. mm_malloc m (adr n) = Inr (p, m') \<and> malloc_post m L (padded n) p m'"
proof -
  have s: "padded n mod 8 = 4" "padded n < 2147483640" using padded_mod [of n] padded_bounds(2) [of n] n(2) by auto
  from mg consider "fresh m" "L = {}" | us v where "mgr_ok m us v" "growing m us v" "L = alive us \<union> view_live v"
    | us v where "mgr_ok m us v" "exhausted m us v" "L = alive us \<union> view_live v" by (auto simp: manages_def)
  then show ?thesis
  proof cases
    case 1
    note st = started_ok [OF 1(1)]
    obtain p m' us' v' where r: "mm_malloc m (adr n) = Inr (p, m')"
      "allots (started m) [] (unat (mm_initial_heap m), 8192, []) (padded n) p m' us' v'"
      using malloc_both [OF st s] mm_malloc_fresh [OF 1(1) n] by auto
    have "malloc_post (started m) {} (padded n) p m'" using allots_post [OF r(2)] by simp
    then have "malloc_post m L (padded n) p m'" using 1(2) by (simp add: malloc_post_def preserves_def started_def)
    with r(1) show ?thesis by blast
  next
    case 2
    obtain p m' us' v' where "mm_malloc m (adr n) = Inr (p, m')" "allots m us v (padded n) p m' us' v'"
      using malloc_both [OF 2(1,2) s] unfolding mm_malloc_growing [OF 2(1,2) n] by blast
    with allots_post 2(3) show ?thesis by blast
  next
    case 3
    obtain p m' us' v' where "mm_malloc m (adr n) = Inr (p, m')" "allots m us v (padded n) p m' us' v'"
      using free_heap_loop_ok [OF 3(1,2) s] unfolding mm_malloc_exhausted [OF 3(1,2) n] by blast
    with allots_post 3(3) show ?thesis by blast
  qed
qed

lemma mm_free_manages:
  assumes mg: "manages m L" and q: "(q, s) \<in> L"
  shows "\<exists>m'. mm_free m (adr q) = Inr m' \<and> manages m' (L - {(q, s)}) \<and> preserves L m m' \<and> hp_limit m' = hp_limit m"
proof -
  from mg q obtain us v where "mgr_ok m us v" "growing m us v \<or> exhausted m us v" "L = alive us \<union> view_live v"
    by (auto simp: manages_def)
  note ok = this
  obtain m' us' v' where r: "mm_free m (adr q) = Inr m'" "mgr_ok m' us' v'" "growing m' us' v' \<or> exhausted m' us' v'"
    "alive us' \<union> view_live v' = L - {(q, s)}" "preserves L m m'" "hp_limit m' = hp_limit m"
    using mm_free_ok [OF ok(1,2)] q ok(3) by blast
  then show ?thesis using manages_intro [OF r(2,3)] by auto
qed

lemma mm_malloc_zero: "mm_malloc m 0 = Inr (0, m)"
  by (simp add: mm_malloc_def)

lemma mm_free_null: "mm_free m 0 = Inr m"
  by (simp add: mm_free_def)

section \<open>Allocated blocks\<close>

lemma live_mod: "aligned bs \<Longrightarrow> (q, s) \<in> live p bs \<Longrightarrow> s mod 8 = 4"
  using live_split [of q s p bs] by auto

lemma alive_view:
  assumes "mgr_ok m us v" "(q, s) \<in> alive us \<union> view_live v"
  obtains H N bs where "(H, N, bs) \<in> set (us @ [v])" "view_ok m (H, N, bs)" "(q, s) \<in> live H bs" "H + 4 \<le> q" "q + s \<le> H + N" "0 < s"
proof -
  from assms(2) have "(q, s) \<in> alive (us @ [v])" by simp
  then obtain w where w: "w \<in> set (us @ [v])" "(q, s) \<in> view_live w" unfolding alive_def by blast
  obtain H N bs where eq: "w = (H, N, bs)" by (metis prod_cases3)
  have vw: "view_ok m (H, N, bs)" using assms(1) w(1) eq by (auto simp: mgr_ok_def)
  then have "aligned bs" by (simp add: area_ok_def)
  then show thesis using that [of H N bs] w eq vw view_live_range [of q s H N bs m] live_pos [of bs q s H] by simp
qed

lemma views_apart:
  assumes ok: "mgr_ok m us v" and w: "(H, N, bs) \<in> set (us @ [v])" "(H1, N1, bs1) \<in> set (us @ [v])"
  shows "(H, N, bs) = (H1, N1, bs1) \<or> H + N \<le> H1 \<or> H1 + N1 \<le> H"
proof (cases us)
  case (Cons u us1)
  with ok have "us = [u]" "before u v" by (auto simp: mgr_ok_def)
  with w show ?thesis by (cases u; cases v) auto
qed (use w in simp)

lemma alive_apart:
  assumes ok: "mgr_ok m us v" and q: "(q, s) \<in> alive us \<union> view_live v" "(r, k) \<in> alive us \<union> view_live v" "(q, s) \<noteq> (r, k)"
  shows "q + s \<le> r \<or> r + k \<le> q"
proof -
  obtain H N bs where a: "(H, N, bs) \<in> set (us @ [v])" "(q, s) \<in> live H bs" "H + 4 \<le> q" "q + s \<le> H + N"
    using alive_view [OF ok q(1)] by blast
  obtain H1 N1 bs1 where b: "(H1, N1, bs1) \<in> set (us @ [v])" "(r, k) \<in> live H1 bs1" "H1 + 4 \<le> r" "r + k \<le> H1 + N1"
    using alive_view [OF ok q(2)] by blast
  from views_apart [OF ok a(1) b(1)] show ?thesis
  proof (elim disjE)
    assume eq: "(H, N, bs) = (H1, N1, bs1)"
    then have "q \<noteq> r" using live_functional [of q s H bs k] a(2) b(2) q(3) by auto
    then show ?thesis using live_disjoint [of q s H bs r k] eq a(2) b(2) by auto
  qed (use a(3,4) b(3,4) in auto)
qed

lemma manages_apart:
  assumes "manages m L" "(q, s) \<in> L" "(r, k) \<in> L" "(q, s) \<noteq> (r, k)"
  shows "q + s \<le> r \<or> r + k \<le> q"
proof -
  from assms(1,2) obtain us v where ok: "mgr_ok m us v" "L = alive us \<union> view_live v" by (auto simp: manages_def)
  show ?thesis by (rule alive_apart [OF ok(1)]) (use assms(2-4) ok(2) in auto)
qed

lemma manages_block:
  assumes "manages m L" "(q, s) \<in> L"
  shows "4 < q" "0 < s" "q + s \<le> hp_pages m * 65536" "q + s \<le> 2147418112"
proof -
  from assms obtain us v where ok: "mgr_ok m us v" "(q, s) \<in> alive us \<union> view_live v" by (auto simp: manages_def)
  obtain H N bs where w: "view_ok m (H, N, bs)" "H + 4 \<le> q" "q + s \<le> H + N" "0 < s"
    using alive_view [OF ok] by blast
  have area: "area_ok m H N bs" using w(1) by simp
  have "H + N \<le> hp_pages m * 65536" "0 < H" using area by (simp_all add: area_ok_def)
  moreover have "hp_pages m < 32768" by (rule mgr_below_2gb [OF ok(1)])
  ultimately show "4 < q" "0 < s" "q + s \<le> hp_pages m * 65536" "q + s \<le> 2147418112" using w(2-4) by simp_all
qed

section \<open>Freed memory is found again\<close>

lemma roomy_mono: "roomy s vs \<Longrightarrow> n \<le> s \<Longrightarrow> roomy n vs"
proof -
  assume "roomy s vs" "n \<le> s"
  moreover have "view_room n w" if "view_room s w" for w using that \<open>n \<le> s\<close> by (cases w) (auto intro: le_trans)
  ultimately show ?thesis by (auto simp: roomy_def list_ex_iff simp del: split_paired_Ex)
qed

lemma mm_malloc_room:
  assumes ok: "mgr_ok m us v" "growing m us v \<or> exhausted m us v" and n: "0 < n" "n \<le> 2147483632"
    and room: "roomy (padded n) (us @ [v])"
  shows "\<exists>p m'. mm_malloc m (adr n) = Inr (p, m') \<and> p \<noteq> 0"
proof -
  have s: "padded n mod 8 = 4" "padded n < 2147483640" using padded_mod [of n] padded_bounds(2) [of n] n(2) by auto
  from ok(2) show ?thesis
  proof
    assume g: "growing m us v"
    show ?thesis using malloc_both [OF ok(1) g s] room unfolding mm_malloc_growing [OF ok(1) g n] by blast
  next
    assume e: "exhausted m us v"
    show ?thesis using free_heap_loop_ok [OF ok(1) e s] room unfolding mm_malloc_exhausted [OF ok(1) e n] by blast
  qed
qed

lemma malloc_after_free_room:
  assumes mg: "manages m L" and q: "(q, s) \<in> L" and n: "0 < n" "n \<le> 2147483632" "padded n \<le> s"
  shows "\<exists>m1 p m2. mm_free m (adr q) = Inr m1 \<and> mm_malloc m1 (adr n) = Inr (p, m2) \<and> p \<noteq> 0"
proof -
  from mg q obtain us v where ok: "mgr_ok m us v" "growing m us v \<or> exhausted m us v" "L = alive us \<union> view_live v"
    by (auto simp: manages_def)
  obtain m1 us1 v1 where f: "mm_free m (adr q) = Inr m1" "mgr_ok m1 us1 v1" "growing m1 us1 v1 \<or> exhausted m1 us1 v1"
    "roomy s (us1 @ [v1])" using mm_free_ok [OF ok(1,2)] q ok(3) by blast
  from mm_malloc_room [OF f(2,3) n(1,2) roomy_mono [OF f(4) n(3)]] f(1) show ?thesis by blast
qed

lemma padded_least:
  assumes "n \<le> k" "k mod 8 = 4"
  shows "padded n \<le> k"
proof (rule ccontr)
  assume "\<not> padded n \<le> k"
  then have lt: "k < padded n" by simp
  have "padded n mod 8 = k mod 8" using padded_mod [of n] assms(2) by simp
  then have "8 dvd padded n - k" using mod_eq_dvd_iff_nat [of k "padded n" 8] lt by simp
  moreover have "padded n - k < 8" "0 < padded n - k" using padded_bounds(2) [of n] assms(1) lt by auto
  ultimately show False using dvd_imp_le [of 8 "padded n - k"] by simp
qed

text \<open>The client may write into its blocks.\<close>

lemma alive_headers:
  assumes ok: "mgr_ok m us v" and w: "(H, N, bs) \<in> set (us @ [v])"
  shows "taken_bytes (alive us \<union> view_live v) \<inter> headers H bs = {}"
proof (rule equals0I)
  fix a
  assume a: "a \<in> taken_bytes (alive us \<union> view_live v) \<inter> headers H bs"
  then have "\<exists>q s. (q, s) \<in> alive us \<union> view_live v \<and> q \<le> a \<and> a < q + s" unfolding Int_iff taken_bytes_iff by (rule conjunct1)
  then obtain q s where q: "(q, s) \<in> alive us \<union> view_live v" "q \<le> a" "a < q + s" by blast
  obtain H1 N1 bs1 where b: "(H1, N1, bs1) \<in> set (us @ [v])" "(q, s) \<in> live H1 bs1" "H1 + 4 \<le> q" "q + s \<le> H1 + N1"
    using alive_view [OF ok q(1)] by blast
  have vw: "view_ok m (H, N, bs)" using ok w by (auto simp: mgr_ok_def)
  have h: "H \<le> a" "a < H + N" using headers_range [of a H bs] a vw by (auto simp: area_ok_def)
  from views_apart [OF ok w b(1)] show False
  proof (elim disjE)
    assume "(H, N, bs) = (H1, N1, bs1)"
    then have "a \<in> taken_bytes (live H bs)" using b(2) q(2,3) unfolding taken_bytes_iff by blast
    with taken_bytes_headers a show False by blast
  qed (use h q b in auto)
qed

lemma manages_write:
  assumes mg: "manages m L" and ed: "edits (taken_bytes L) m m'"
  shows "manages m' L"
proof -
  note [simp] = edits_manager [OF ed] edits_sel(1,2) [OF ed]
  from mg consider "fresh m" "L = {}" | us v where "mgr_ok m us v" "growing m us v \<or> exhausted m us v" "L = alive us \<union> view_live v"
    by (auto simp: manages_def)
  then show ?thesis
  proof cases
    case 1
    then show ?thesis by (simp add: manages_def fresh_def)
  next
    case 2
    have keep: "view_ok m' w" if "w \<in> set (us @ [v])" for w
    proof -
      obtain H N bs where w: "w = (H, N, bs)" by (metis prod_cases3)
      have "view_ok m (H, N, bs)" using 2(1) that w by (auto simp: mgr_ok_def)
      then have "area_ok m H N bs" "0 < N" by simp_all
      moreover have "taken_bytes L \<inter> headers H bs = {}" using alive_headers [OF 2(1)] that w 2(3) by blast
      ultimately show ?thesis using area_edits [OF _ ed _ mgr_below_2gb [OF 2(1)]] w by simp
    qed
    then have "mgr_ok m' us v" using 2(1) unfolding mgr_ok_def by simp
    moreover have "growing m' us v \<or> exhausted m' us v" using 2(2) by (simp add: growing_def exhausted_def)
    ultimately show ?thesis using 2(3) manages_intro by blast
  qed
qed

lemma manages_mod: "manages m L \<Longrightarrow> (q, s) \<in> L \<Longrightarrow> s mod 8 = 4"
proof -
  assume "manages m L" "(q, s) \<in> L"
  then obtain us v where ok: "mgr_ok m us v" "(q, s) \<in> alive us \<union> view_live v" by (auto simp: manages_def)
  obtain H N bs where w: "view_ok m (H, N, bs)" "(q, s) \<in> live H bs" using alive_view [OF ok] by blast
  then have "aligned bs" by (simp add: area_ok_def)
  from live_mod [OF this w(2)] show ?thesis .
qed

end
