(* ===== verification/Manager_Session.thy ===== *)
theory Manager_Session
  imports Manager_Safety
begin

text \<open>
  The memory manager of \<open>malloc.cpp\<close> is an allocator in the sense of \<open>block_allocator\<close>, from its constructor
  on; what programs that use it can rely on.
\<close>

section \<open>The manager as an allocator\<close>

text \<open>Requests up to almost 2 GiB, below which the sizes do not wrap around.\<close>

abbreviation request_limit :: nat where
  "request_limit \<equiv> 2147483632"

lemma manages_store:
  assumes "manages m P" "a \<in> taken_bytes P"
  shows "manages (m\<lparr>hp_bytes := (hp_bytes m)(a := x)\<rparr>) P"
proof -
  have "edits (taken_bytes P) m (m\<lparr>hp_bytes := (hp_bytes m)(a := x)\<rparr>)"
    unfolding edits_def using assms(2) by (intro exI conjI refl) (auto split: if_splits)
  with assms(1) show ?thesis by (rule manages_write)
qed

lemma mm_malloc_block:
  assumes "manages m P" "0 < unat n" "unat n \<le> request_limit"
  shows "\<exists>p m' s. mm_malloc m n = Inr (p, m') \<and> preserves P m m' \<and> (p = 0 \<longrightarrow> manages m' P) \<and>
     (p \<noteq> 0 \<longrightarrow> unat p \<notin> fst ` P \<and> unat n \<le> s \<and> manages m' (insert (unat p, s) P))"
proof -
  obtain p m' where "mm_malloc m n = Inr (p, m')" "malloc_post m P (padded (unat n)) p m'"
    using mm_malloc_ok [OF assms] by auto
  then show ?thesis using padded_bounds(1) [of "unat n"]
    by (intro exI [of _ p] exI [of _ m'] exI [of _ "padded (unat n)"]) (simp add: malloc_post_def split: if_splits)
qed

interpretation memory_heap: block_allocator mm_malloc mm_free manages request_limit
proof
  fix m :: manager and P and n p :: "32 word" and q s r k a x
  assume mg: "manages m P"
  show "mm_malloc m 0 = Inr (0, m)" by (rule mm_malloc_zero)
  show "\<exists>p m' s. mm_malloc m n = Inr (p, m') \<and> preserves P m m' \<and> (p = 0 \<longrightarrow> manages m' P) \<and>
      (p \<noteq> 0 \<longrightarrow> unat p \<notin> fst ` P \<and> unat n \<le> s \<and> manages m' (insert (unat p, s) P))"
    if "0 < unat n" "unat n \<le> request_limit" using mg that by (rule mm_malloc_block)
  show "manages (m\<lparr>hp_bytes := (hp_bytes m)(a := x)\<rparr>) P" if "a \<in> taken_bytes P" using mg that by (rule manages_store)
  assume q: "(q, s) \<in> P"
  show "\<exists>m'. mm_free m (word_of_nat q) = Inr m' \<and> manages m' (P - {(q, s)}) \<and> preserves P m m'"
    using mm_free_manages [OF mg q] by (auto simp: adr_def)
  show "0 < q \<and> 0 < s \<and> q + s \<le> hp_pages m * 65536" using manages_block [OF mg q] by simp
  show "q + s \<le> r \<or> r + k \<le> q" if "(r, k) \<in> P" "(q, s) \<noteq> (r, k)" using manages_apart [OF mg q that] .
qed

section \<open>The manager from its start\<close>

text \<open>
  The constructor, in a module of fewer than 32768 pages with the static array of 8 KiB in its
  memory, above address 0.
\<close>

definition boots :: "nat \<Rightarrow> nat \<Rightarrow> nat \<Rightarrow> bool" where
  "boots pages limit initial_heap \<longleftrightarrow>
     0 < initial_heap \<and> initial_heap + 8192 \<le> pages * 65536 \<and> pages \<le> limit \<and> limit < 32768"

lemma ctor_fresh:
  assumes "boots pages limit initial_heap"
  shows "fresh (mm_ctor pages limit bytes (word_of_nat initial_heap))"
proof -
  have "unat (word_of_nat initial_heap :: 32 word) = initial_heap"
    using assms unat_adr [of initial_heap] by (simp add: boots_def adr_def)
  then show ?thesis using assms by (simp add: boots_def fresh_def mm_ctor_def heaps_size_def)
qed

lemma ctor_owns: "boots pages limit initial_heap \<Longrightarrow> owns manages (mm_ctor pages limit bytes (word_of_nat initial_heap)) []"
  using ctor_fresh [of pages limit initial_heap bytes] by (intro owns_intro [of manages _ "{}"]) (simp_all add: manages_def)

lemma first_malloc:
  assumes b: "boots pages limit initial_heap" and n: "0 < n" "n < 8181"
  shows "\<exists>m. mm_malloc (mm_ctor pages limit bytes (word_of_nat initial_heap)) (word_of_nat n) =
             Inr (word_of_nat (initial_heap + 4), m)"
proof -
  let ?m = "mm_ctor pages limit bytes (word_of_nat initial_heap)"
  note fr = ctor_fresh [OF b, of bytes]
  have I: "unat (mm_initial_heap ?m) = initial_heap"
    using b unat_adr [of initial_heap] by (simp add: boots_def adr_def mm_ctor_def)
  have s: "padded n mod 8 = 4" "padded n + 4 \<le> 8192" using padded_mod [of n] padded_bounds(2) [of n] n(2) by simp_all
  obtain m' where cut: "malloc_loop 65537 (started ?m) (adr (padded n)) (Some 0) = Inr (adr (initial_heap + 4), m')"
    using malloc_cut [OF started_ok [OF fr] s(1), of 65537] s(2) I by auto
  have "adr (initial_heap + 4) \<noteq> 0" using b by (intro notI) (simp add: adr_0 boots_def)
  then have "mm_malloc ?m (adr n) = Inr (adr (initial_heap + 4), m')"
    using mm_malloc_fresh [OF fr n(1)] n(2) by (simp only: cut) simp
  then show ?thesis by (auto simp: adr_def)
qed

section \<open>Programs on the manager\<close>

text \<open>
  C24. Every program of calls of \<open>malloc\<close> and \<open>free\<close> and of writes to its own blocks runs to its end
  on the memory manager of \<open>malloc.cpp\<close>, from the constructor on, with requests up to almost 2 GiB in
  a memory of fewer than 32768 pages: no access leaves memory and no loop runs on. Afterwards its
  blocks do not overlap and lie in memory, and their contents are those of a list of private blocks
  on which each call had its effect: an allocation adds a block of the requested size or fails, \<open>free\<close>
  removes one, a write changes one byte, and nothing else changes.
\<close>

theorem manager_refines_blocks:
  assumes "boots pages limit initial_heap" "list_all (\<lambda>x. request x \<le> request_limit) xs"
  shows "\<exists>m L. heap_run mm_malloc mm_free (mm_ctor pages limit bytes (word_of_nat initial_heap), []) xs = Inr (m, L) \<and>
           blocks_apart L \<and> within m L \<and> blocks_run [] xs (map (block_bytes m) L)"
  using memory_heap.owns_run [OF ctor_owns [OF assms(1)] assms(2), of bytes] memory_heap.owns_safe by fastforce

theorem manager_refines_blocks_witness:
  "\<exists>m L. heap_run mm_malloc mm_free (mm_ctor 2 16 (\<lambda>_. 0) (word_of_nat 1024), []) [Malloc 10, Malloc 20, Store 1 3 7, Free 0, Malloc 9000] = Inr (m, L) \<and>
     blocks_apart L \<and> within m L \<and> blocks_run [] [Malloc 10, Malloc 20, Store 1 3 7, Free 0, Malloc 9000] (map (block_bytes m) L)"
  by (rule manager_refines_blocks) (simp_all add: boots_def)

text \<open>
  C30. Memory that is freed is found again: when a program of such calls gives back one of its blocks
  and then asks for a block that is not larger, the manager returns one, even when the memory of
  the module cannot grow any more.
\<close>

theorem malloc_after_free:
  assumes "boots pages limit initial_heap" "list_all (\<lambda>x. request x \<le> request_limit) xs"
    and "heap_run mm_malloc mm_free (mm_ctor pages limit bytes (word_of_nat initial_heap), []) xs = Inr (m, L)"
    and "i < length L" "0 < n" "n \<le> snd (L ! i)"
  shows "\<exists>m1 p m2. mm_free m (word_of_nat (fst (L ! i))) = Inr m1 \<and> mm_malloc m1 (word_of_nat n) = Inr (p, m2) \<and> p \<noteq> 0"
proof -
  from memory_heap.owns_run [OF ctor_owns [OF assms(1)] assms(2), of bytes] assms(3) have ow: "owns manages m L" by auto
  then obtain P where P: "manages m P" "\<forall>(q, k) \<in> set L. \<exists>s \<ge> k. (q, s) \<in> P" unfolding owns_def by blast
  obtain s where s: "snd (L ! i) \<le> s" "(fst (L ! i), s) \<in> P" by (rule covered [OF P(2) nth_mem [OF assms(4)]])
  have "padded n \<le> s" using s(1) assms(6) manages_mod [OF P(1) s(2)] by (intro padded_least) simp_all
  moreover have "n \<le> 2147483632" using manages_block(1,4) [OF P(1) s(2)] s(1) assms(6) by simp
  ultimately show ?thesis using malloc_after_free_room [OF P(1) s(2) assms(5)] by (simp add: adr_def)
qed

theorem malloc_after_free_witness:
  "\<exists>m m1 p m2. heap_run mm_malloc mm_free (mm_ctor 2 2 (\<lambda>_. 0) (word_of_nat 1024), []) [Malloc 8000] = Inr (m, [(1028, 8000)]) \<and>
     mm_free m (word_of_nat 1028) = Inr m1 \<and> mm_malloc m1 (word_of_nat 7000) = Inr (p, m2) \<and> p \<noteq> 0"
proof -
  have b: "boots 2 2 1024" by (simp add: boots_def)
  obtain m where "mm_malloc (mm_ctor 2 2 (\<lambda>_. 0) (word_of_nat 1024)) (word_of_nat 8000) = Inr (word_of_nat (1024 + 4), m)"
    using first_malloc [OF b, of 8000 "\<lambda>_. 0"] by auto
  then have run: "heap_run mm_malloc mm_free (mm_ctor 2 2 (\<lambda>_. 0) (word_of_nat 1024), []) [Malloc 8000] = Inr (m, [(1028, 8000)])" by simp
  have "list_all (\<lambda>x. request x \<le> request_limit) [Malloc 8000]" by simp
  from malloc_after_free [OF b this run, of 0 7000] run show ?thesis by auto
qed

end
