(* ===== verification/Spec2Isabelle.thy ===== *)
theory Spec2Isabelle
  imports RLP_Converter Db_Map Db_Array Multi_Session Create_Contract Exchange Print Event Authority Simple_Malloc
    Heap_Realloc Manager_Session
begin

text \<open>
  A verification library for the contract library of PlatON-CDT (\<open>src/libraries/platonlib\<close>), the
  C++ headers every PlatON contract is compiled with.

  \<^bold>\<open>The program.\<close> A contract is a class whose methods are listed in \<open>PLATON_DISPATCH\<close>. A
  transaction carries an RLP list of the method number and the arguments; \<open>invoke\<close>
  (\<open>dispatcher.hpp\<close>) decodes it (\<open>RLP.h\<close>, \<open>RLP.cpp\<close>, \<open>rlp_extend.hpp\<close>), runs the method and encodes its
  result. The method keeps its data in the state of the chain (\<open>storage.hpp\<close>) through \<open>db::Map\<close>,
  \<open>db::Array\<close>, \<open>db::MultiIndex\<close> and \<open>StorageType\<close>, writes events (\<open>event.hpp\<close>), moves amounts (\<open>exchange.hpp\<close>), and calls
  (\<open>cross_call.hpp\<close>), creates and migrates (\<open>create.hpp\<close>, \<open>destory.hpp\<close>) other contracts. Addresses are
  printed and read in bech32 and hexadecimal form (\<open>fixedhash.hpp\<close>, \<open>bech32.hpp\<close>); memory comes
  from a bump allocator (\<open>malloc/simple_malloc.cpp\<close>), which the build uses in place of the older
  memory manager kept beside it (\<open>malloc/malloc.cpp\<close>).

  \<^bold>\<open>Conventions.\<close> \<open>CDT_Prelude\<close> fixes the result type \<open>'a res\<close>: \<open>Throw\<close> is \<open>platon_throw\<close>, \<open>Revert\<close> a
  failed assertion, \<open>Oob\<close> an access outside its range (undefined behaviour in C++), \<open>OutOfFuel\<close> a
  loop cut off by the fuel of its model; \<open>safe\<close> excludes the last two. Integers are words of the
  width the code has; \<open>size_t\<close> is 32 bits wide. Host functions of the chain are records of
  functions (\<open>rlp_host\<close>, \<open>chain_host\<close>, \<open>call_host\<close>, \<open>create_host\<close>, \<open>ledger_host\<close>), with what the library
  relies on as predicates (\<open>rlp_host_ok\<close>, \<open>chain_host_ok\<close>, \<open>callee_runs\<close>), each shown to be
  satisfiable by a concrete instance (\<open>model_host\<close>, \<open>model_chain\<close>, \<open>model_calls\<close>); of the ledger nothing is
  assumed. A variable that the code reads into without initialising it is a parameter: \<open>starts_as\<close>
  (\<open>RLP_Typing\<close>) says what it may hold, any value for a scalar type, and \<open>fetch_start\<close> that reading into
  it does not depend on that.

  \<^bold>\<open>Theories.\<close>
  \<^item> \<open>Common\<close> (\<open>common.h\<close>), \<open>Vector_Ref\<close> (\<open>vector_ref.h\<close>), \<open>Bytes_Buffer\<close> (\<open>bytes_buffer.hpp\<close>): hexadecimal
    and big-endian conversions, byte views over linear memory, the growing buffer.
  \<^item> \<open>RLP_Header\<close>, \<open>RLP_Reader\<close> (\<open>RLP.h\<close>, \<open>RLP.cpp\<close>): class \<open>RLP\<close> with its strictness flags, mutable
    subscript cache and iterators. \<open>RLP_Walk\<close>, \<open>RLP_Safety\<close>, \<open>RLP_Untrusted\<close>: the cache invariant and
    that no input makes a reader leave its view or diverge. \<open>RLP_Format\<close>, \<open>RLP_Convert\<close>: the format
    as a reference encoder on trees, and that the reader finds what was encoded.
  \<^item> \<open>RLP_Stream\<close> (\<open>RLPStream\<close>), \<open>RLP_Size\<close> (\<open>rlp_size.hpp\<close>), \<open>RLP_Types\<close>, \<open>RLP_Extend\<close> (\<open>rlp_extend.hpp\<close>,
    \<open>rlp_serialize.hpp\<close>), \<open>RLP_Typing\<close>, \<open>RLP_Roundtrip\<close>: encoder, size computation, the universe of
    serialisable types, and the round trip between them. Classes under \<open>PLATON_SERIALIZE\<close> are
    structures of the universe. \<open>RLP_Converter\<close>: \<open>RLP::convert\<close>, the other way to read values.
  \<^item> \<open>Storage\<close> (\<open>storage.hpp\<close>): the state as a map; the locales \<open>kv_store\<close> and \<open>typed_state\<close> are the
    interface the storage classes are proved against: the keys of one object hold a partial map, and
    every other key of the state is as it was before (\<open>untouched\<close>). \<open>Db_Map\<close>, \<open>Db_Array\<close>,
    \<open>Storage_Type\<close>: the classes, their caches, and refinements of a map, a list and a variable.
    An entry that is absent is read as what the variable held before.
  \<^item> \<open>Multi_Store\<close>: the encoding of keys is injective across their shapes; the locale \<open>multi_store\<close> is
    the state under keys of several shapes. The other theories model \<open>db/multi_index.hpp\<close>.
    \<open>Normal_Index\<close>: an ordinary index, the chain of blocks of at most 30 sequence numbers that each
    index value has in the state, with its binary search and iterators. \<open>Index_Ring\<close>: the chain as a
    pure map, on which every operation acts as on one sorted list. \<open>Index_Store\<close>: the same over the
    contract state (locales \<open>niv_store\<close>, \<open>normal_index_store\<close>). \<open>Multi_Index\<close>: the class with its
    items, cache, iterators and operations, also those of class \<open>Index\<close>. \<open>Multi_Table\<close>: each index
    in the state mirrors the table (locale \<open>table_store\<close>). \<open>Multi_Ops\<close>, \<open>Multi_Scan\<close>, \<open>Multi_Session\<close>:
    every operation, the loops, and whole sessions refine an abstract table.
  \<^item> \<open>Bech32\<close>, \<open>Fixed_Hash\<close>: the code and its checksum, \<open>FixedHash\<close> and addresses.
  \<^item> \<open>Contract_Name\<close> (\<open>name.hpp\<close>), \<open>Dispatcher\<close>, \<open>Cross_Call\<close>, \<open>Create_Contract\<close>: from a caller's arguments
    through the encoded call to the method of another contract and back.
  \<^item> \<open>Exchange\<close> (\<open>exchange.hpp\<close>, \<open>chain_impl.hpp\<close>), \<open>Print\<close> (\<open>print.hpp\<close>, \<open>assert.hpp\<close>), \<open>Event\<close>, \<open>Authority\<close>:
    amounts, their literals and the wrappers that pass them to the host, texts of numbers, events with their counting macros, owner and white
    list.
  \<^item> \<open>Linear_Memory\<close>: the memory of a WebAssembly module. \<open>Simple_Malloc\<close>: the bump allocator, as a
    transition system of calls and client writes.
  \<^item> \<open>Memory_Manager\<close> (\<open>malloc.cpp\<close>): \<open>sbrk\<close>, the areas with their blocks, and \<open>malloc\<close>, \<open>free\<close>,
    \<open>realloc\<close>, \<open>calloc\<close>. \<open>Heap_Blocks\<close>: an area is a chain of blocks, and each operation on it has a
    specification on the list of its blocks. \<open>Heap_Realloc\<close>: resizing in place, and where it goes
    wrong. \<open>Manager_Safety\<close>: the invariant of the manager, kept by \<open>malloc\<close> and \<open>free\<close>.
    \<open>Heap_Client\<close>: programs that use an allocator, with the locale \<open>block_allocator\<close> as what they
    rely on; \<open>Manager_Session\<close> interprets it on the manager.

  \<^bold>\<open>Bounds.\<close> Encodings are read back up to \<open>2 ^ 31\<close> bytes: a module has at most 4 GiB of memory and
  \<open>vr_cropped\<close> and the readers compare 32-bit sums. Loops over a view have as fuel the number of
  bytes of the view, which is enough because each step consumes one; this is part of the
  safety theorems, which exclude \<open>OutOfFuel\<close>. The searches in the blocks of an index have the
  largest serial number plus two as fuel, since they move towards an end of the chain; the loops over
  a table have its counter plus one. Sequence numbers of a table stay below \<open>2 ^ 63\<close>, so that the
  sum of two serial numbers does not wrap: a table would need that many insertions. The memory
  manager is followed below 32768 pages, where it treats addresses as positive numbers, and for
  requests up to \<open>2147483632\<close> bytes; its loop over areas has 65537 rounds as fuel, more than there are
  pages, and its searches in an area as many as the area has bytes.

  \<^bold>\<open>Not modelled.\<close> The compiler driver (\<open>src/tools/platon-cpp\<close>) works on the data structures of LLVM
  and Clang, which are not part of the repository. \<open>chain.hpp\<close> declares host functions, which are parameters here. The vendored
  libraries and the tests are not the program's own code.
\<close>

end
